(* ===== verification/Prelude.thy ===== *)
theory Prelude
  imports Complex_Main "HOL-Library.AList" "HOL-Library.List_Lexorder" "HOL-Library.Char_ord"
begin

text \<open>
  What every component of the development shares:
  \<^item> Python dictionaries as association lists in insertion order (\<open>('k, 'v) dict\<close>), with the
    operations the code uses (\<open>d[k] = v\<close>, \<open>d.get(k)\<close>, \<open>d.pop(k, None)\<close>) and their laws;
  \<^item> time stamps as rational numbers: every finite Python float is one, and the code only
    compares, adds and subtracts them;
  \<^item> Python's falsy-default idiom \<open>x or d\<close>, its \<open>list[-n:]\<close> slice, its \<open>round\<close>
    (half to even);
  \<^item> fallible results as \<open>'e + 'a\<close> with \<open>Inl\<close> for the exception, and the split rules
    the component proofs use;
  \<^item> the collections of simp rules \<open>dict_simps\<close> (dictionaries) and \<open>inv_intros\<close>
    (invariants kept by operations).
\<close>

named_theorems dict_simps "laws of Python dictionaries"
named_theorems inv_intros "operations keep invariants"

type_synonym time = rat

section \<open>Python dictionaries\<close>

type_synonym ('k, 'v) dict = "('k \<times> 'v) list"

abbreviation dget :: "('k, 'v) dict \<Rightarrow> 'k \<Rightarrow> 'v option" where
  "dget \<equiv> map_of"

abbreviation dset :: "'k \<Rightarrow> 'v \<Rightarrow> ('k, 'v) dict \<Rightarrow> ('k, 'v) dict" where
  "dset \<equiv> AList.update"

abbreviation dpop :: "'k \<Rightarrow> ('k, 'v) dict \<Rightarrow> ('k, 'v) dict" where
  "dpop \<equiv> AList.delete"

abbreviation dkeys :: "('k, 'v) dict \<Rightarrow> 'k list" where
  "dkeys \<equiv> map fst"

abbreviation dvalues :: "('k, 'v) dict \<Rightarrow> 'v list" where
  "dvalues \<equiv> map snd"

abbreviation dict_wf :: "('k, 'v) dict \<Rightarrow> bool" where
  "dict_wf d \<equiv> distinct (dkeys d)"

text \<open>A dictionary comprehension that rebuilds every value, keeping keys and order.\<close>

definition dmap :: "('v \<Rightarrow> 'w) \<Rightarrow> ('k, 'v) dict \<Rightarrow> ('k, 'w) dict" where
  "dmap f d = map (\<lambda>(k, v). (k, f v)) d"

lemma dget_dset [dict_simps]: "dget (dset k v d) = (dget d)(k \<mapsto> v)"
  by (simp add: update_conv')

lemma dget_dset_same [dict_simps, simp]: "dget (dset k v d) k = Some v"
  by (simp add: update_conv')

lemma dget_dset_other [dict_simps]: "k \<noteq> k' \<Longrightarrow> dget (dset k v d) k' = dget d k'"
  by (simp add: update_conv')

lemma dget_dpop [dict_simps]: "dget (dpop k d) = (dget d)(k := None)"
  by (simp add: delete_conv')

lemma dget_None_iff [dict_simps]: "dget d k = None \<longleftrightarrow> k \<notin> set (dkeys d)"
  by (simp add: map_of_eq_None_iff)

lemma dget_Some_key: "dget d k = Some v \<Longrightarrow> k \<in> set (dkeys d)"
  by (metis dget_None_iff option.distinct(1))

lemma dget_Some_value: "dget d k = Some v \<Longrightarrow> v \<in> set (dvalues d)"
  by (force dest: map_of_SomeD)

lemma dict_wf_dset [simp, intro]: "dict_wf d \<Longrightarrow> dict_wf (dset k v d)"
  by (rule distinct_update)

lemma dict_wf_dpop [simp, intro]: "dict_wf d \<Longrightarrow> dict_wf (dpop k d)"
  by (rule distinct_delete)

lemma dkeys_dset [dict_simps]:
  "dkeys (dset k v d) = (if k \<in> set (dkeys d) then dkeys d else dkeys d @ [k])"
  by (simp add: update_keys)

lemma dkeys_dpop [dict_simps]: "dkeys (dpop k d) = removeAll k (dkeys d)"
  by (simp add: delete_keys)

lemma dget_dmap [dict_simps, simp]: "dget (dmap f d) k = map_option f (dget d k)"
  by (induction d) (auto simp: dmap_def)

lemma dkeys_dmap [dict_simps, simp]: "dkeys (dmap f d) = dkeys d"
  by (induction d) (auto simp: dmap_def)

lemma dvalues_dmap [dict_simps, simp]: "dvalues (dmap f d) = map f (dvalues d)"
  by (induction d) (auto simp: dmap_def)

lemma dict_wf_in_dget: "dict_wf d \<Longrightarrow> (k, v) \<in> set d \<longleftrightarrow> dget d k = Some v"
  by (simp add: map_of_eq_Some_iff)

section \<open>Falsy defaults, slices and rounding\<close>

text \<open>Python's \<open>ttl or default\<close> for an optional number: both \<open>None\<close> and zero are falsy.\<close>

definition or_default :: "rat option \<Rightarrow> rat \<Rightarrow> rat" where
  "or_default x d = (case x of None \<Rightarrow> d | Some v \<Rightarrow> if v = 0 then d else v)"

text \<open>Python's \<open>xs[-n:]\<close> for a positive \<open>n\<close>: the last \<open>n\<close> elements, or all.\<close>

definition last_n :: "nat \<Rightarrow> 'a list \<Rightarrow> 'a list" where
  "last_n n xs = drop (length xs - n) xs"

lemma length_last_n [simp]: "length (last_n n xs) = min n (length xs)"
  by (simp add: last_n_def)

lemma last_n_all [simp]: "length xs \<le> n \<Longrightarrow> last_n n xs = xs"
  by (simp add: last_n_def)

lemma last_n_Nil [simp]: "last_n n [] = []"
  by (simp add: last_n_def)

lemma last_n_snoc: "last_n n (last_n n xs @ [x]) = last_n n (xs @ [x])"
proof (cases "n \<le> length xs")
  case True
  then have "Suc (length xs) - n = Suc (length xs - n)" by simp
  with True show ?thesis by (simp add: last_n_def)
qed (simp add: last_n_def)

lemma set_last_n: "set (last_n n xs) \<subseteq> set xs"
  by (simp add: last_n_def set_drop_subset)

text \<open>Python's \<open>round(x)\<close>: to the nearest integer, ties to the even one.\<close>

definition py_round :: "rat \<Rightarrow> int" where
  "py_round x =
     (let f = \<lfloor>x\<rfloor>; r = x - of_int f
      in if r < 1 / 2 then f
         else if r > 1 / 2 then f + 1
         else if even f then f else f + 1)"

lemma py_round_near: "\<bar>of_int (py_round x) - x\<bar> \<le> 1 / 2"
proof -
  have "of_int \<lfloor>x\<rfloor> \<le> x" "x < of_int \<lfloor>x\<rfloor> + 1"
    by linarith+
  then show ?thesis
    unfolding py_round_def Let_def abs_le_iff by (simp split: if_split, linarith)
qed

lemma py_round_of_int [simp]: "py_round (of_int i) = i"
  by (simp add: py_round_def)

lemma py_round_bounds:
  assumes "of_int lo \<le> x" and "x \<le> of_int hi"
  shows "lo \<le> py_round x" and "py_round x \<le> hi"
proof -
  from assms(1) have lo: "lo \<le> \<lfloor>x\<rfloor>"
    by (simp add: le_floor_iff)
  then show "lo \<le> py_round x"
    by (simp add: py_round_def Let_def)
  show "py_round x \<le> hi"
  proof (cases "\<lfloor>x\<rfloor> < hi")
    case True
    then show ?thesis by (simp add: py_round_def Let_def)
  next
    case False
    with assms(2) have "x = of_int hi"
      by (metis floor_of_int floor_mono le_less of_int_floor_le order.antisym not_le of_int_le_iff
          order.trans)
    then show ?thesis by simp
  qed
qed

section \<open>Results\<close>

text \<open>A call that may raise: \<open>Inl\<close> is the exception, \<open>Inr\<close> the value returned.\<close>

definition is_ok :: "'e + 'a \<Rightarrow> bool" where
  "is_ok r = (case r of Inl _ \<Rightarrow> False | Inr _ \<Rightarrow> True)"

lemma is_ok_simps [simp]: "is_ok (Inl e) = False" "is_ok (Inr a) = True"
  by (simp_all add: is_ok_def)

lemma is_okD: "is_ok r \<Longrightarrow> \<exists>a. r = Inr a"
  by (cases r) simp_all

lemmas result_splits = sum.splits option.splits if_splits

section \<open>Loops that collect their results\<close>

text \<open>\<open>[f(a) for a in as]\<close> where each call also changes the state.\<close>

fun collect :: "('a \<Rightarrow> 's \<Rightarrow> 'b \<times> 's) \<Rightarrow> 'a list \<Rightarrow> 's \<Rightarrow> 'b list \<times> 's" where
  "collect f [] s = ([], s)"
| "collect f (a # as) s =
     (let (b, s1) = f a s; (bs, s2) = collect f as s1 in (b # bs, s2))"

lemma collect_Cons_sel:
  "fst (collect f (a # as) s) = fst (f a s) # fst (collect f as (snd (f a s)))"
  "snd (collect f (a # as) s) = snd (collect f as (snd (f a s)))"
  by (simp_all add: split_beta Let_def)

lemma length_collect [simp]: "length (fst (collect f as s)) = length as"
  by (induction as arbitrary: s) (simp_all add: collect_Cons_sel del: collect.simps(2))

section \<open>Consecutive numbers\<close>

lemma upt_filter_gt: "filter (\<lambda>i. n < i) [a..<b] = [max a (Suc n)..<b]"
proof (induction b)
  case 0
  then show ?case by simp
next
  case (Suc b)
  then show ?case by (auto simp: max_def)
qed

section \<open>Decimal numerals\<close>

text \<open>\<open>str(n)\<close> of a natural number, as it appears in messages.\<close>

fun nat_str :: "nat \<Rightarrow> string" where
  "nat_str n = (if n < 10 then [char_of (48 + n)] else nat_str (n div 10) @ [char_of (48 + n mod 10)])"

declare nat_str.simps [simp del]

text \<open>\<open>sep.join(xs)\<close>\<close>

fun str_join :: "string \<Rightarrow> string list \<Rightarrow> string" where
  "str_join sep [] = []"
| "str_join sep [x] = x"
| "str_join sep (x # y # ys) = x @ sep @ str_join sep (y # ys)"

end
