(* ===== verification/Contracts.thy ===== *)
theory Contracts
  imports Prelude
begin

text \<open>
  The shared contracts of \<open>src/src/fusion/contracts\<close>: JSON-like values and Python's
  equality on them, the structured error, the command request, record and lifecycle enums with
  the fingerprint of a request, the control session, the event, the plugin manifest, the target
  state, and the config revision and apply journal entries. The enums keep the source's names;
  where two enums share a value name (\<open>DISPATCHED\<close> is both a status and a completion
  requirement), the second one carries a prefix.
\<close>

section \<open>Values\<close>

text \<open>
  The values that reach \<open>params\<close>, \<open>payload\<close> and \<open>content\<close> are JSON values. Python's
  \<open>==\<close> identifies \<open>True\<close>, \<open>1\<close> and \<open>1.0\<close>, compares lists in order and
  dictionaries by key; \<open>canon\<close> computes a canonical form (numbers as rationals, dictionaries
  sorted by key), so that two values are equal in Python exactly when their canonical forms are
  the same. Not-a-number is not a JSON value and is not modelled.
\<close>

datatype pyval =
    PNone
  | PBool bool
  | PInt int
  | PFloat rat
  | PStr string
  | PList "pyval list"
  | PDict "(string \<times> pyval) list"

fun canon :: "pyval \<Rightarrow> pyval" where
  "canon PNone = PNone"
| "canon (PBool b) = PFloat (of_bool b)"
| "canon (PInt i) = PFloat (of_int i)"
| "canon (PFloat q) = PFloat q"
| "canon (PStr s) = PStr s"
| "canon (PList vs) = PList (map canon vs)"
| "canon (PDict kvs) = PDict (sort_key fst (map (\<lambda>(k, v). (k, canon v)) kvs))"

definition py_eq :: "pyval \<Rightarrow> pyval \<Rightarrow> bool" where
  "py_eq a b \<longleftrightarrow> canon a = canon b"

lemma py_eq_refl [simp]: "py_eq a a"
  by (simp add: py_eq_def)

lemma py_eq_bool_int: "py_eq (PBool True) (PInt 1)" "py_eq (PInt 1) (PFloat 1)"
  by (simp_all add: py_eq_def)

text \<open>\<open>float(v)\<close> of a value: \<open>None\<close> is \<open>ValueError\<close> or \<open>TypeError\<close>.\<close>

fun to_float :: "(string \<Rightarrow> rat option) \<Rightarrow> pyval \<Rightarrow> rat option" where
  "to_float parse (PBool b) = Some (of_bool b)"
| "to_float parse (PInt i) = Some (of_int i)"
| "to_float parse (PFloat q) = Some q"
| "to_float parse (PStr s) = parse s"
| "to_float parse _ = None"

text \<open>\<open>bool(v)\<close>\<close>

fun py_bool :: "pyval \<Rightarrow> bool" where
  "py_bool PNone \<longleftrightarrow> False"
| "py_bool (PBool b) \<longleftrightarrow> b"
| "py_bool (PInt i) \<longleftrightarrow> i \<noteq> 0"
| "py_bool (PFloat q) \<longleftrightarrow> q \<noteq> 0"
| "py_bool (PStr s) \<longleftrightarrow> s \<noteq> []"
| "py_bool (PList vs) \<longleftrightarrow> vs \<noteq> []"
| "py_bool (PDict d) \<longleftrightarrow> d \<noteq> []"

type_synonym params = "(string, pyval) dict"

definition quoted :: "string \<Rightarrow> string" where
  "quoted s = CHR 0x27 # s @ [CHR 0x27]"

section \<open>Structured errors (contracts/errors.py)\<close>

datatype error_code =
    VALIDATION_ERROR | UNKNOWN_TARGET | UNKNOWN_ACTION | BUSY | REQUEST_ID_CONFLICT
  | COMMAND_NOT_FOUND | BLOB_NOT_FOUND | CONTROL_SESSION_REQUIRED | CONTROL_SESSION_INVALID
  | CONTROL_SESSION_EXPIRED | RUNTIME_BOOT_MISMATCH | STALE_GENERATION | RESYNC_REQUIRED
  | INTERNAL_ERROR

fun error_code_value :: "error_code \<Rightarrow> string" where
  "error_code_value VALIDATION_ERROR = ''VALIDATION_ERROR''"
| "error_code_value UNKNOWN_TARGET = ''UNKNOWN_TARGET''"
| "error_code_value UNKNOWN_ACTION = ''UNKNOWN_ACTION''"
| "error_code_value BUSY = ''BUSY''"
| "error_code_value REQUEST_ID_CONFLICT = ''REQUEST_ID_CONFLICT''"
| "error_code_value COMMAND_NOT_FOUND = ''COMMAND_NOT_FOUND''"
| "error_code_value BLOB_NOT_FOUND = ''BLOB_NOT_FOUND''"
| "error_code_value CONTROL_SESSION_REQUIRED = ''CONTROL_SESSION_REQUIRED''"
| "error_code_value CONTROL_SESSION_INVALID = ''CONTROL_SESSION_INVALID''"
| "error_code_value CONTROL_SESSION_EXPIRED = ''CONTROL_SESSION_EXPIRED''"
| "error_code_value RUNTIME_BOOT_MISMATCH = ''RUNTIME_BOOT_MISMATCH''"
| "error_code_value STALE_GENERATION = ''STALE_GENERATION''"
| "error_code_value RESYNC_REQUIRED = ''RESYNC_REQUIRED''"
| "error_code_value INTERNAL_ERROR = ''INTERNAL_ERROR''"

record fusion_error =
  fe_code :: error_code
  fe_message :: string
  fe_details :: params

definition FusionError :: "error_code \<Rightarrow> string \<Rightarrow> fusion_error" where
  "FusionError c m = \<lparr>fe_code = c, fe_message = m, fe_details = []\<rparr>"

lemma FusionError_sel [simp]:
  "fe_code (FusionError c m) = c" "fe_message (FusionError c m) = m"
  "fe_details (FusionError c m) = []"
  by (simp_all add: FusionError_def)

definition error_to_dict :: "fusion_error \<Rightarrow> params" where
  "error_to_dict e =
     [(''code'', PStr (error_code_value (fe_code e))), (''message'', PStr (fe_message e)),
      (''details'', PDict (fe_details e))]"

section \<open>Commands (contracts/command.py)\<close>

datatype completion_requirement = Req_DISPATCHED | Req_ACKNOWLEDGED | Req_OBSERVED

datatype command_status = QUEUED | DISPATCHING | DISPATCHED | ACKNOWLEDGED | OBSERVING | TERMINAL

datatype command_outcome = SUCCEEDED | FAILED | CANCELLED | EXPIRED | REJECTED | UNKNOWN

fun requirement_value :: "completion_requirement \<Rightarrow> string" where
  "requirement_value Req_DISPATCHED = ''dispatched''"
| "requirement_value Req_ACKNOWLEDGED = ''acknowledged''"
| "requirement_value Req_OBSERVED = ''observed''"

fun status_value :: "command_status \<Rightarrow> string" where
  "status_value QUEUED = ''QUEUED''"
| "status_value DISPATCHING = ''DISPATCHING''"
| "status_value DISPATCHED = ''DISPATCHED''"
| "status_value ACKNOWLEDGED = ''ACKNOWLEDGED''"
| "status_value OBSERVING = ''OBSERVING''"
| "status_value TERMINAL = ''TERMINAL''"

fun outcome_value :: "command_outcome \<Rightarrow> string" where
  "outcome_value SUCCEEDED = ''SUCCEEDED''"
| "outcome_value FAILED = ''FAILED''"
| "outcome_value CANCELLED = ''CANCELLED''"
| "outcome_value EXPIRED = ''EXPIRED''"
| "outcome_value REJECTED = ''REJECTED''"
| "outcome_value UNKNOWN = ''UNKNOWN''"

text \<open>The lifecycle order of a command, as a linear order on its status.\<close>

fun status_rank :: "command_status \<Rightarrow> nat" where
  "status_rank QUEUED = 0"
| "status_rank DISPATCHING = 1"
| "status_rank DISPATCHED = 2"
| "status_rank ACKNOWLEDGED = 3"
| "status_rank OBSERVING = 4"
| "status_rank TERMINAL = 5"

lemma status_rank_inj: "status_rank a = status_rank b \<Longrightarrow> a = b"
  by (cases a; cases b) simp_all

instantiation command_status :: linorder
begin

definition less_eq_command_status :: "command_status \<Rightarrow> command_status \<Rightarrow> bool" where
  "less_eq_command_status a b \<longleftrightarrow> status_rank a \<le> status_rank b"

definition less_command_status :: "command_status \<Rightarrow> command_status \<Rightarrow> bool" where
  "less_command_status a b \<longleftrightarrow> status_rank a < status_rank b"

instance
  by standard
    (auto simp: less_eq_command_status_def less_command_status_def dest: status_rank_inj)

end

lemmas status_order = less_eq_command_status_def less_command_status_def

lemma status_le_TERMINAL [simp]: "(s :: command_status) \<le> TERMINAL"
  by (cases s) (simp_all add: status_order)

fun requirement_rank :: "completion_requirement \<Rightarrow> nat" where
  "requirement_rank Req_DISPATCHED = 0"
| "requirement_rank Req_ACKNOWLEDGED = 1"
| "requirement_rank Req_OBSERVED = 2"

lemma requirement_rank_inj: "requirement_rank a = requirement_rank b \<Longrightarrow> a = b"
  by (cases a; cases b) simp_all

instantiation completion_requirement :: linorder
begin

definition less_eq_completion_requirement ::
    "completion_requirement \<Rightarrow> completion_requirement \<Rightarrow> bool" where
  "less_eq_completion_requirement a b \<longleftrightarrow> requirement_rank a \<le> requirement_rank b"

definition less_completion_requirement ::
    "completion_requirement \<Rightarrow> completion_requirement \<Rightarrow> bool" where
  "less_completion_requirement a b \<longleftrightarrow> requirement_rank a < requirement_rank b"

instance
  by standard
    (auto simp: less_eq_completion_requirement_def less_completion_requirement_def
      dest: requirement_rank_inj)

end

record command_submit_request =
  sr_protocol_version :: int
  sr_request_id :: string
  sr_control_session_id :: "string option"
  sr_run_id :: "string option"
  sr_cue_id :: "string option"
  sr_show_generation :: "int option"
  sr_target_id :: string
  sr_action :: string
  sr_params :: params
  sr_completion_requirement :: completion_requirement
  sr_source :: string
  sr_actor :: "string option"

record command_record =
  cr_command_id :: string
  cr_request_id :: string
  cr_runtime_id :: string
  cr_runtime_boot_id :: string
  cr_target_id :: string
  cr_action :: string
  cr_params :: params
  cr_completion_requirement :: completion_requirement
  cr_status :: command_status
  cr_outcome :: "command_outcome option"
  cr_achieved_completion :: "completion_requirement option"
  cr_execution_generation :: nat
  cr_run_id :: "string option"
  cr_cue_id :: "string option"
  cr_source :: string
  cr_actor :: "string option"
  cr_error :: "params option"
  cr_created_at :: time
  cr_updated_at :: time

type_synonym fingerprint = "string \<times> string \<times> params \<times> string"

definition fingerprint :: "command_submit_request \<Rightarrow> fingerprint" where
  "fingerprint req =
     (sr_target_id req, sr_action req, sort_key fst (sr_params req),
      requirement_value (sr_completion_requirement req))"

text \<open>Python's \<open>==\<close> on two such tuples, the values compared with \<open>==\<close> in their turn.\<close>

fun fingerprint_eq :: "fingerprint \<Rightarrow> fingerprint \<Rightarrow> bool" where
  "fingerprint_eq (t, a, ps, r) (t', a', ps', r') \<longleftrightarrow>
     t = t' \<and> a = a' \<and> list_all2 (\<lambda>(k, v) (k', v'). k = k' \<and> py_eq v v') ps ps' \<and> r = r'"

lemma fingerprint_eq_refl [simp]: "fingerprint_eq f f"
proof (cases f)
  case (fields t a ps r)
  have "list_all2 (\<lambda>(k, v) (k', v'). k = k' \<and> py_eq v v') ps ps"
    by (induction ps) auto
  with fields show ?thesis by simp
qed

section \<open>Control sessions (contracts/control.py)\<close>

datatype runtime_mode = MANUAL | SHOW | MAINTENANCE

record control_session =
  cs_session_id :: string
  cs_mode :: runtime_mode
  cs_actor :: string
  cs_issued_at :: time
  cs_expires_at :: time
  cs_runtime_boot_id :: string

section \<open>Events (contracts/event.py)\<close>

record event =
  ev_protocol_version :: int
  ev_event_id :: string
  ev_type :: string
  ev_runtime_id :: string
  ev_runtime_boot_id :: string
  ev_sequence :: nat
  ev_target_id :: "string option"
  ev_command_id :: "string option"
  ev_run_id :: "string option"
  ev_cue_id :: "string option"
  ev_occurred_at :: time
  ev_payload :: params

section \<open>Plugin manifests (contracts/plugin.py, plugin\_sdk/base.py)\<close>

datatype action_priority = Priority_normal | Priority_control

record action_spec =
  as_name :: string
  as_params_schema :: params
  as_max_completion :: completion_requirement
  as_priority :: action_priority

record target_manifest =
  tm_target_id :: string
  tm_plugin_id :: string
  tm_plugin_version :: string
  tm_actions :: "action_spec list"
  tm_capabilities :: "string list"

definition get_action :: "target_manifest \<Rightarrow> string \<Rightarrow> action_spec option" where
  "get_action m name = find (\<lambda>a. as_name a = name) (tm_actions m)"

lemma get_action_name: "get_action m name = Some a \<Longrightarrow> as_name a = name \<and> a \<in> set (tm_actions m)"
  by (auto simp: get_action_def find_Some_iff)

text \<open>
  The loop of \<open>validate_manifest\<close>: it stops at the first action whose name was seen before
  (\<open>Inl\<close> carries that name, which the \<open>ValueError\<close> mentions).
\<close>

fun check_action_names :: "string list \<Rightarrow> action_spec list \<Rightarrow> string + unit" where
  "check_action_names seen [] = Inr ()"
| "check_action_names seen (a # as) =
     (if as_name a \<in> set seen then Inl (as_name a)
      else check_action_names (as_name a # seen) as)"

definition validate_manifest :: "target_manifest \<Rightarrow> string + unit" where
  "validate_manifest m = check_action_names [] (tm_actions m)"

lemma check_action_names_ok:
  "check_action_names seen as = Inr u \<longleftrightarrow>
     distinct (map as_name as) \<and> set (map as_name as) \<inter> set seen = {}"
  by (induction as arbitrary: seen) auto

lemma validate_manifest_ok: "validate_manifest m = Inr u \<longleftrightarrow> distinct (map as_name (tm_actions m))"
  by (simp add: validate_manifest_def check_action_names_ok)

lemma find_unique_key:
  "distinct (map f xs) \<Longrightarrow> a \<in> set xs \<Longrightarrow> find (\<lambda>x. f x = f a) xs = Some a"
  by (induction xs) (auto simp: image_iff)

lemma get_action_unique:
  "distinct (map as_name (tm_actions m)) \<Longrightarrow> a \<in> set (tm_actions m) \<Longrightarrow>
   get_action m (as_name a) = Some a"
  by (simp add: get_action_def find_unique_key)

section \<open>Target state (contracts/state.py)\<close>

datatype quality = GOOD | STALE | UNKNOWN_quality

record observed_value =
  ov_value :: pyval
  ov_observed_at :: time
  ov_quality :: quality

record target_state =
  ts_target_id :: string
  ts_connected :: bool
  ts_fields :: "(string, observed_value) dict"

section \<open>Config revisions (contracts/config.py)\<close>

record config_revision =
  rev_revision_id :: string
  rev_kind :: string
  rev_content_hash :: string
  rev_content :: params
  rev_staged_at :: time

datatype apply_outcome = Apply_SUCCEEDED | Apply_REJECTED | Apply_FAILED

record apply_record =
  ar_revision_id :: string
  ar_outcome :: apply_outcome
  ar_detail :: "string option"
  ar_applied_at :: time

end
