(* ===== verification/Control_Sessions.thy ===== *)
theory Control_Sessions
  imports Contracts
begin

text \<open>
  The control session manager of \<open>core/control_session.py\<close>: one active session per Runtime,
  issued, renewed, released and validated against the Runtime's own clock. Every read of the
  clock is an argument of the operation (\<open>renew\<close> reads it twice), and the identifier that
  \<open>new_control_session_id()\<close> returns is an argument of \<open>acquire\<close>. An operation that can
  raise returns the error or the session, paired with the manager after the call, because
  \<open>_require_active\<close> clears an expired session before it raises.

  The interface other components rely on is the locale \<open>session_authority\<close>: whatever
  happens, an identifier that is dead at some time stays dead until it is issued again.
\<close>

section \<open>The manager\<close>

record session_manager =
  sm_runtime_boot_id :: string
  sm_default_ttl_s :: rat
  sm_active :: "control_session option"

definition DEFAULT_TTL_S :: rat where
  "DEFAULT_TTL_S = 30"

definition new_session_manager :: "string \<Rightarrow> session_manager" where
  "new_session_manager boot =
     \<lparr>sm_runtime_boot_id = boot, sm_default_ttl_s = DEFAULT_TTL_S, sm_active = None\<rparr>"

definition acquire ::
    "string \<Rightarrow> string \<Rightarrow> runtime_mode \<Rightarrow> rat option \<Rightarrow> time \<Rightarrow> session_manager \<Rightarrow>
     control_session \<times> session_manager" where
  "acquire new_id actor mode ttl_s now sm =
     (let session = \<lparr>cs_session_id = new_id, cs_mode = mode, cs_actor = actor, cs_issued_at = now,
            cs_expires_at = now + or_default ttl_s (sm_default_ttl_s sm),
            cs_runtime_boot_id = sm_runtime_boot_id sm\<rparr>
      in (session, sm\<lparr>sm_active := Some session\<rparr>))"

definition require_active ::
    "string \<Rightarrow> time \<Rightarrow> session_manager \<Rightarrow> (fusion_error + control_session) \<times> session_manager" where
  "require_active sid now sm =
     (case sm_active sm of
        None \<Rightarrow> (Inl (FusionError CONTROL_SESSION_INVALID ''control session is not active''), sm)
      | Some s \<Rightarrow>
          if cs_session_id s \<noteq> sid
          then (Inl (FusionError CONTROL_SESSION_INVALID ''control session is not active''), sm)
          else if now \<ge> cs_expires_at s
          then (Inl (FusionError CONTROL_SESSION_EXPIRED ''control session has expired''),
                sm\<lparr>sm_active := None\<rparr>)
          else (Inr s, sm))"

definition renew ::
    "string \<Rightarrow> rat option \<Rightarrow> time \<Rightarrow> time \<Rightarrow> session_manager \<Rightarrow>
     (fusion_error + control_session) \<times> session_manager" where
  "renew sid ttl_s now now' sm =
     (case require_active sid now sm of
        (Inl e, sm') \<Rightarrow> (Inl e, sm')
      | (Inr s, sm') \<Rightarrow>
          let s' = s\<lparr>cs_expires_at := now' + or_default ttl_s (sm_default_ttl_s sm)\<rparr>
          in (Inr s', sm'\<lparr>sm_active := Some s'\<rparr>))"

definition release :: "string \<Rightarrow> session_manager \<Rightarrow> session_manager" where
  "release sid sm =
     (case sm_active sm of
        None \<Rightarrow> sm
      | Some s \<Rightarrow> if cs_session_id s = sid then sm\<lparr>sm_active := None\<rparr> else sm)"

definition validate ::
    "string option \<Rightarrow> time \<Rightarrow> session_manager \<Rightarrow> (fusion_error + control_session) \<times> session_manager" where
  "validate sid now sm =
     (case sid of
        None \<Rightarrow> (Inl (FusionError CONTROL_SESSION_REQUIRED ''control_session_id is required''), sm)
      | Some sid \<Rightarrow> require_active sid now sm)"

section \<open>When a session is valid\<close>

definition session_valid :: "session_manager \<Rightarrow> string \<Rightarrow> time \<Rightarrow> bool" where
  "session_valid sm sid t \<longleftrightarrow>
     (\<exists>s. sm_active sm = Some s \<and> cs_session_id s = sid \<and> t < cs_expires_at s)"

lemma session_valid_Some [simp]:
  "sm_active sm = Some s \<Longrightarrow> session_valid sm sid t \<longleftrightarrow> cs_session_id s = sid \<and> t < cs_expires_at s"
  by (simp add: session_valid_def)

lemma session_valid_None [simp]: "sm_active sm = None \<Longrightarrow> \<not> session_valid sm sid t"
  by (simp add: session_valid_def)

lemma require_active_ok:
  "fst (require_active sid now sm) = Inr s \<longleftrightarrow>
     sm_active sm = Some s \<and> cs_session_id s = sid \<and> now < cs_expires_at s"
  by (auto simp: require_active_def split: option.splits)

lemma require_active_keeps:
  "is_ok (fst (require_active sid now sm)) \<Longrightarrow> snd (require_active sid now sm) = sm"
  by (auto simp: require_active_def split: option.splits if_splits)

lemma validate_ok_iff: "is_ok (fst (validate (Some sid) now sm)) \<longleftrightarrow> session_valid sm sid now"
  by (auto simp: validate_def require_active_def split: option.splits)

lemma validate_result:
  "fst (validate sid now sm) =
     (case sid of
        None \<Rightarrow> Inl (FusionError CONTROL_SESSION_REQUIRED ''control_session_id is required'')
      | Some i \<Rightarrow>
         (case sm_active sm of
            None \<Rightarrow> Inl (FusionError CONTROL_SESSION_INVALID ''control session is not active'')
          | Some s \<Rightarrow>
              if cs_session_id s \<noteq> i
              then Inl (FusionError CONTROL_SESSION_INVALID ''control session is not active'')
              else if cs_expires_at s \<le> now
              then Inl (FusionError CONTROL_SESSION_EXPIRED ''control session has expired'')
              else Inr s))"
  by (simp add: validate_def require_active_def split: option.split)

text \<open>Validation never makes a session valid, and only drops a session that has expired.\<close>

lemma validate_only_expires:
  "session_valid (snd (validate sid now sm)) i t \<Longrightarrow> session_valid sm i t"
  by (auto simp: validate_def require_active_def split: option.splits if_splits)

lemma validate_keeps_valid:
  "session_valid sm i t \<Longrightarrow> now \<le> t \<Longrightarrow> session_valid (snd (validate sid now sm)) i t"
  by (auto simp: validate_def require_active_def session_valid_def split: option.splits)

lemma acquire_valid:
  "session_valid (snd (acquire new_id actor mode ttl now sm)) sid t \<longleftrightarrow>
     sid = new_id \<and> t < now + or_default ttl (sm_default_ttl_s sm)"
  by (auto simp: acquire_def Let_def)

lemma renew_valid:
  "session_valid (snd (renew sid ttl now now' sm)) i t \<longleftrightarrow>
     (if session_valid sm sid now then i = sid \<and> t < now' + or_default ttl (sm_default_ttl_s sm)
      else session_valid (snd (require_active sid now sm)) i t)"
  by (auto simp: renew_def require_active_def Let_def split: option.splits)

lemma release_valid: "session_valid (release sid sm) i t \<longleftrightarrow> session_valid sm i t \<and> i \<noteq> sid"
  by (auto simp: release_def session_valid_def split: option.splits)

section \<open>The interface: a dead identifier stays dead\<close>

text \<open>
  \<open>valid s i t\<close>: identifier \<open>i\<close> would be accepted at time \<open>t\<close>; \<open>reads_from p t\<close>: every
  clock read of operation \<open>p\<close> is at \<open>t\<close> or later; \<open>issues p\<close>: the identifier it issues.
\<close>

locale session_authority =
  fixes valid :: "'s \<Rightarrow> string \<Rightarrow> time \<Rightarrow> bool"
    and perform :: "'op \<Rightarrow> 's \<Rightarrow> 's"
    and reads_from :: "'op \<Rightarrow> time \<Rightarrow> bool"
    and issues :: "'op \<Rightarrow> string option"
  assumes valid_earlier: "valid s i t' \<Longrightarrow> t \<le> t' \<Longrightarrow> valid s i t"
    and step_dead: "\<not> valid s i t \<Longrightarrow> reads_from p t \<Longrightarrow> issues p \<noteq> Some i \<Longrightarrow> \<not> valid (perform p s) i t"
begin

lemma run_dead:
  assumes "\<not> valid s i t"
    and "\<forall>p \<in> set ps. reads_from p t \<and> issues p \<noteq> Some i"
    and "t \<le> t'"
  shows "\<not> valid (fold perform ps s) i t'"
proof -
  from assms(1,2) have "\<not> valid (fold perform ps s) i t"
    by (induction ps arbitrary: s) (auto simp: step_dead)
  with assms(3) show ?thesis
    by (blast intro: valid_earlier)
qed

text \<open>
  Handover: if issuing \<open>j\<close> leaves only \<open>j\<close> valid, then a different identifier \<open>i\<close> is
  dead from then on, whatever is called afterwards.
\<close>

lemma handover_dead:
  assumes "\<And>k. valid (perform p s) k t \<Longrightarrow> issues p = Some k"
    and "issues p \<noteq> Some i"
    and "\<forall>q \<in> set ps. reads_from q t \<and> issues q \<noteq> Some i" and "t \<le> t'"
  shows "\<not> valid (fold perform (p # ps) s) i t'"
proof -
  have "\<not> valid (perform p s) i t"
    using assms(1,2) by blast
  then have "\<not> valid (fold perform ps (perform p s)) i t'"
    using assms(3,4) by (rule run_dead)
  then show ?thesis by simp
qed

end

section \<open>The manager as a session authority\<close>

datatype session_op =
    Op_acquire string string runtime_mode "rat option" time
  | Op_renew string "rat option" time time
  | Op_release string
  | Op_validate "string option" time

fun session_perform :: "session_op \<Rightarrow> session_manager \<Rightarrow> session_manager" where
  "session_perform (Op_acquire new_id actor mode ttl now) sm = snd (acquire new_id actor mode ttl now sm)"
| "session_perform (Op_renew sid ttl now now') sm = snd (renew sid ttl now now' sm)"
| "session_perform (Op_release sid) sm = release sid sm"
| "session_perform (Op_validate sid now) sm = snd (validate sid now sm)"

fun session_reads_from :: "session_op \<Rightarrow> time \<Rightarrow> bool" where
  "session_reads_from (Op_acquire _ _ _ _ now) t \<longleftrightarrow> t \<le> now"
| "session_reads_from (Op_renew _ _ now now') t \<longleftrightarrow> t \<le> now \<and> t \<le> now'"
| "session_reads_from (Op_release _) t \<longleftrightarrow> True"
| "session_reads_from (Op_validate _ now) t \<longleftrightarrow> t \<le> now"

fun session_issues :: "session_op \<Rightarrow> string option" where
  "session_issues (Op_acquire new_id _ _ _ _) = Some new_id"
| "session_issues _ = None"

lemma session_valid_earlier: "session_valid sm i t' \<Longrightarrow> t \<le> t' \<Longrightarrow> session_valid sm i t"
  by (auto simp: session_valid_def)

lemma require_active_dead: "\<not> session_valid sm i t \<Longrightarrow> \<not> session_valid (snd (require_active sid now sm)) i t"
  using validate_only_expires [of "Some sid" now sm i t] by (auto simp: validate_def)

lemma session_step_dead:
  assumes "\<not> session_valid sm i t" and "session_reads_from p t" and "session_issues p \<noteq> Some i"
  shows "\<not> session_valid (session_perform p sm) i t"
proof (cases p)
  case (Op_acquire new_id actor mode ttl now)
  with assms(3) show ?thesis by (simp add: acquire_valid)
next
  case (Op_renew sid ttl now now')
  with assms(2) have "t \<le> now" by simp
  with assms(1) have "session_valid sm sid now \<Longrightarrow> i \<noteq> sid"
    by (blast dest: session_valid_earlier)
  with assms(1) Op_renew show ?thesis
    by (simp add: renew_valid require_active_dead)
next
  case (Op_release sid)
  with assms(1) show ?thesis by (simp add: release_valid)
next
  case (Op_validate sid now)
  with assms(1) show ?thesis by (auto dest: validate_only_expires)
qed

interpretation manager: session_authority session_valid session_perform session_reads_from session_issues
  by unfold_locales (simp_all add: session_valid_earlier session_step_dead)

section \<open>Properties\<close>

text \<open>
  A control session identifier that is not valid at time \<open>t\<close> (superseded, released, expired
  or never issued) is rejected by every later \<open>validate\<close>, after any sequence of acquire, renew,
  release and validate calls made from \<open>t\<close> on that does not issue the same identifier anew.
\<close>

theorem dead_session_never_validates:
  assumes "\<not> session_valid sm sid t"
    and "\<forall>p \<in> set ps. session_reads_from p t \<and> session_issues p \<noteq> Some sid"
    and "t \<le> now"
  shows "\<not> is_ok (fst (validate (Some sid) now (fold session_perform ps sm)))"
  using manager.run_dead [OF assms] by (simp add: validate_ok_iff)

theorem dead_session_never_validates_witness:
  "\<not> is_ok (fst (validate (Some ''a'') 50
     (fold session_perform
        [Op_renew ''a'' None 41 41, Op_acquire ''b'' ''ui'' MANUAL None 42, Op_release ''b'']
        (snd (acquire ''a'' ''ui'' MANUAL (Some 10) 30 (new_session_manager ''boot''))))))"
  by (rule dead_session_never_validates [where t = 40])
    (simp_all add: acquire_valid or_default_def)

lemma acquire_default_ttl [simp]:
  "sm_default_ttl_s (snd (acquire new_id actor mode ttl now sm)) = sm_default_ttl_s sm"
  by (simp add: acquire_def Let_def)

lemma acquire_expired:
  "now + or_default ttl (sm_default_ttl_s sm) \<le> t \<Longrightarrow>
   \<not> session_valid (snd (require_active new_id t (snd (acquire new_id actor mode ttl now sm)))) i u"
  by (auto simp: require_active_def acquire_def Let_def)

text \<open>
  The lease: after \<open>acquire\<close> issues a session at time \<open>now\<close>, \<open>validate\<close> at time \<open>t\<close>
  accepts exactly that identifier, exactly before \<open>now\<close> plus the time to live; a \<open>renew\<close> whose
  first clock read \<open>now1\<close> is within the lease replaces its end by the second clock read plus the
  new time to live, and a \<open>renew\<close> that comes too late leaves no valid session at all. A missing
  or zero time to live means the manager's default.
\<close>

theorem session_lease:
  "(is_ok (fst (validate (Some sid) t (snd (acquire new_id actor mode ttl now sm)))) \<longleftrightarrow>
      sid = new_id \<and> t < now + or_default ttl (sm_default_ttl_s sm)) \<and>
   (is_ok (fst (validate (Some sid) t
      (snd (renew new_id ttl' now1 now' (snd (acquire new_id actor mode ttl now sm)))))) \<longleftrightarrow>
      sid = new_id \<and> now1 < now + or_default ttl (sm_default_ttl_s sm) \<and>
      t < now' + or_default ttl' (sm_default_ttl_s sm))"
  using acquire_expired [of now ttl sm now1]
  by (auto simp: validate_ok_iff renew_valid acquire_valid not_less)

end
