(* ===== verification/Event_Bus.thy ===== *)
theory Event_Bus
  imports Contracts
begin

text \<open>
  The event bus of \<open>core/event_bus.py\<close>: a sequence number, a bounded replay buffer
  (\<open>deque(maxlen=...)\<close>) and one bounded queue per subscriber. A subscriber that falls behind is
  dropped from the bus and its queue is closed with the sentinel \<open>None\<close>. The queue objects
  outlive their entry in \<open>_subscribers\<close> (the reader still holds them), so \<open>eb_queues\<close> is a
  store of queue objects named by their subscription and \<open>eb_subscribers\<close> the keys of the
  dictionary. The fresh event identifier and the wall-clock time are arguments of \<open>publish\<close>.

  \<open>bus_represents hist b\<close> is the refinement relation between the bus and the abstract history of
  everything published; the locale \<open>event_history\<close> states what readers of the bus rely on.
\<close>

section \<open>State and operations\<close>

record event_bus =
  eb_runtime_id :: string
  eb_runtime_boot_id :: string
  eb_sequence :: nat
  eb_maxlen :: nat
  eb_buffer :: "event list"
  eb_subscribers :: "nat list"
  eb_queues :: "nat \<Rightarrow> event option list"
  eb_next_sub_id :: nat
  eb_queue_size :: nat

definition DEFAULT_REPLAY_BUFFER_SIZE :: nat where
  "DEFAULT_REPLAY_BUFFER_SIZE = 500"

definition DEFAULT_SUBSCRIBER_QUEUE_SIZE :: nat where
  "DEFAULT_SUBSCRIBER_QUEUE_SIZE = 200"

definition new_event_bus :: "string \<Rightarrow> string \<Rightarrow> nat \<Rightarrow> nat \<Rightarrow> event_bus" where
  "new_event_bus runtime_id boot replay_buffer_size subscriber_queue_size =
     \<lparr>eb_runtime_id = runtime_id, eb_runtime_boot_id = boot, eb_sequence = 0,
      eb_maxlen = replay_buffer_size, eb_buffer = [], eb_subscribers = [], eb_queues = (\<lambda>_. []),
      eb_next_sub_id = 0, eb_queue_size = subscriber_queue_size\<rparr>"

text \<open>The arguments of \<open>publish\<close>, with the values it draws from the environment.\<close>

record publication =
  pub_event_id :: string
  pub_type :: string
  pub_target_id :: "string option"
  pub_command_id :: "string option"
  pub_run_id :: "string option"
  pub_cue_id :: "string option"
  pub_payload :: params
  pub_wall :: time

definition make_event :: "publication \<Rightarrow> event_bus \<Rightarrow> event" where
  "make_event p b =
     \<lparr>ev_protocol_version = 1, ev_event_id = pub_event_id p, ev_type = pub_type p,
      ev_runtime_id = eb_runtime_id b, ev_runtime_boot_id = eb_runtime_boot_id b,
      ev_sequence = Suc (eb_sequence b), ev_target_id = pub_target_id p,
      ev_command_id = pub_command_id p, ev_run_id = pub_run_id p, ev_cue_id = pub_cue_id p,
      ev_occurred_at = pub_wall p, ev_payload = pub_payload p\<rparr>"

text \<open>\<open>asyncio.Queue\<close>: a \<open>maxsize\<close> of zero means no bound.\<close>

definition queue_full :: "event_bus \<Rightarrow> nat \<Rightarrow> bool" where
  "queue_full b i \<longleftrightarrow> 0 < eb_queue_size b \<and> eb_queue_size b \<le> length (eb_queues b i)"

definition put_queue :: "nat \<Rightarrow> event option \<Rightarrow> event_bus \<Rightarrow> event_bus" where
  "put_queue i x b = b\<lparr>eb_queues := (eb_queues b)(i := eb_queues b i @ [x])\<rparr>"

text \<open>The first loop: offer the event to every subscriber, collecting the full ones.\<close>

fun offer_loop :: "event \<Rightarrow> nat list \<Rightarrow> event_bus \<Rightarrow> nat list \<times> event_bus" where
  "offer_loop e [] b = ([], b)"
| "offer_loop e (i # is) b =
     (if queue_full b i then let (overflowed, b') = offer_loop e is b in (i # overflowed, b')
      else offer_loop e is (put_queue i (Some e) b))"

text \<open>
  The body of the second loop: drop the subscriber, discard the oldest queued event to make
  room (nothing when the queue is empty) and append the sentinel.
\<close>

definition force_close :: "nat \<Rightarrow> event_bus \<Rightarrow> event_bus" where
  "force_close i b =
     b\<lparr>eb_subscribers := removeAll i (eb_subscribers b),
       eb_queues := (eb_queues b)(i := tl (eb_queues b i) @ [None])\<rparr>"

definition publish :: "publication \<Rightarrow> event_bus \<Rightarrow> event \<times> event_bus" where
  "publish p b =
     (let e = make_event p b;
          b1 = b\<lparr>eb_sequence := Suc (eb_sequence b),
                 eb_buffer := last_n (eb_maxlen b) (eb_buffer b @ [e])\<rparr>;
          (overflowed, b2) = offer_loop e (eb_subscribers b1) b1
      in (e, fold force_close overflowed b2))"

definition replay_since :: "nat \<Rightarrow> event_bus \<Rightarrow> event list option" where
  "replay_since after b =
     (if after = eb_sequence b then Some []
      else case eb_buffer b of
        [] \<Rightarrow> if after = 0 then Some [] else None
      | oldest # _ \<Rightarrow>
          if int after < int (ev_sequence oldest) - 1 then None
          else Some (filter (\<lambda>e. after < ev_sequence e) (eb_buffer b)))"

definition subscribe :: "event_bus \<Rightarrow> nat \<times> event_bus" where
  "subscribe b =
     (let i = eb_next_sub_id b
      in (i, b\<lparr>eb_next_sub_id := Suc i, eb_queues := (eb_queues b)(i := []),
               eb_subscribers := eb_subscribers b @ [i]\<rparr>))"

definition unsubscribe :: "nat \<Rightarrow> event_bus \<Rightarrow> event_bus" where
  "unsubscribe i b = b\<lparr>eb_subscribers := removeAll i (eb_subscribers b)\<rparr>"

text \<open>
  A reader's \<open>await queue.get()\<close>: the head of its queue, or \<open>None\<close> when it would block.
\<close>

definition queue_get :: "nat \<Rightarrow> event_bus \<Rightarrow> event option option \<times> event_bus" where
  "queue_get i b =
     (case eb_queues b i of
        [] \<Rightarrow> (None, b)
      | x # xs \<Rightarrow> (Some x, b\<lparr>eb_queues := (eb_queues b)(i := xs)\<rparr>))"

section \<open>What \<open>publish\<close> does to each part\<close>

lemma offer_loop_frame:
  "eb_sequence (snd (offer_loop e is b)) = eb_sequence b"
  "eb_buffer (snd (offer_loop e is b)) = eb_buffer b"
  "eb_maxlen (snd (offer_loop e is b)) = eb_maxlen b"
  "eb_subscribers (snd (offer_loop e is b)) = eb_subscribers b"
  "eb_next_sub_id (snd (offer_loop e is b)) = eb_next_sub_id b"
  "eb_queue_size (snd (offer_loop e is b)) = eb_queue_size b"
  "eb_runtime_id (snd (offer_loop e is b)) = eb_runtime_id b"
  "eb_runtime_boot_id (snd (offer_loop e is b)) = eb_runtime_boot_id b"
  by (induction e "is" b rule: offer_loop.induct) (auto simp: put_queue_def Let_def split: prod.splits)

lemma queue_full_put_other [simp]: "i \<noteq> j \<Longrightarrow> queue_full (put_queue i x b) j = queue_full b j"
  by (simp add: queue_full_def put_queue_def)

lemma offer_loop_result:
  "distinct is \<Longrightarrow>
   fst (offer_loop e is b) = filter (queue_full b) is \<and>
   eb_queues (snd (offer_loop e is b)) =
     (\<lambda>i. if i \<in> set is \<and> \<not> queue_full b i then eb_queues b i @ [Some e] else eb_queues b i)"
proof (induction e "is" b rule: offer_loop.induct)
  case (1 e b)
  then show ?case by simp
next
  case (2 e i "is" b)
  show ?case
  proof (cases "queue_full b i")
    case True
    with 2 show ?thesis by (auto simp: fun_eq_iff split: prod.splits)
  next
    case False
    let ?b = "put_queue i (Some e) b"
    have same: "queue_full ?b j = queue_full b j" if "j \<in> set is" for j
      using that "2.prems" by (cases "i = j") auto
    then have "filter (queue_full ?b) is = filter (queue_full b) is"
      by (rule filter_cong [OF refl])
    with False 2 same show ?thesis
      by (auto simp: fun_eq_iff put_queue_def)
  qed
qed

lemma force_close_frame:
  "eb_sequence (fold force_close is b) = eb_sequence b"
  "eb_buffer (fold force_close is b) = eb_buffer b"
  "eb_maxlen (fold force_close is b) = eb_maxlen b"
  "eb_next_sub_id (fold force_close is b) = eb_next_sub_id b"
  "eb_queue_size (fold force_close is b) = eb_queue_size b"
  "eb_runtime_id (fold force_close is b) = eb_runtime_id b"
  "eb_runtime_boot_id (fold force_close is b) = eb_runtime_boot_id b"
  by (induction "is" arbitrary: b) (simp_all add: force_close_def)

lemma force_close_subscribers:
  "eb_subscribers (fold force_close is b) = filter (\<lambda>i. i \<notin> set is) (eb_subscribers b)"
  by (induction "is" arbitrary: b)
    (auto simp: force_close_def removeAll_filter_not_eq intro: filter_cong)

lemma force_close_queues:
  "distinct is \<Longrightarrow>
   eb_queues (fold force_close is b) i =
     (if i \<in> set is then tl (eb_queues b i) @ [None] else eb_queues b i)"
  by (induction "is" arbitrary: b) (auto simp: force_close_def)

lemma queue_full_frame:
  "queue_full (b\<lparr>eb_sequence := n, eb_buffer := es\<rparr>) i = queue_full b i"
  by (simp add: queue_full_def)

lemma publish_frame [simp]:
  "fst (publish p b) = make_event p b"
  "eb_sequence (snd (publish p b)) = Suc (eb_sequence b)"
  "eb_buffer (snd (publish p b)) = last_n (eb_maxlen b) (eb_buffer b @ [make_event p b])"
  "eb_maxlen (snd (publish p b)) = eb_maxlen b"
  "eb_next_sub_id (snd (publish p b)) = eb_next_sub_id b"
  "eb_queue_size (snd (publish p b)) = eb_queue_size b"
  "eb_runtime_id (snd (publish p b)) = eb_runtime_id b"
  "eb_runtime_boot_id (snd (publish p b)) = eb_runtime_boot_id b"
  unfolding publish_def Let_def
  using offer_loop_frame [of "make_event p b" "eb_subscribers b"
      "b\<lparr>eb_sequence := Suc (eb_sequence b),
         eb_buffer := last_n (eb_maxlen b) (eb_buffer b @ [make_event p b])\<rparr>"]
  by (auto simp: force_close_frame split: prod.splits)

lemma publish_subscribers:
  assumes "distinct (eb_subscribers b)"
  shows "eb_subscribers (snd (publish p b)) = filter (\<lambda>i. \<not> queue_full b i) (eb_subscribers b)"
  unfolding publish_def Let_def
  using assms offer_loop_result [of "eb_subscribers b" "make_event p b"
      "b\<lparr>eb_sequence := Suc (eb_sequence b),
         eb_buffer := last_n (eb_maxlen b) (eb_buffer b @ [make_event p b])\<rparr>"]
    offer_loop_frame(4) [of "make_event p b" "eb_subscribers b"
      "b\<lparr>eb_sequence := Suc (eb_sequence b),
         eb_buffer := last_n (eb_maxlen b) (eb_buffer b @ [make_event p b])\<rparr>"]
  by (auto simp: force_close_subscribers queue_full_frame split: prod.splits intro: filter_cong)

lemma publish_queues:
  assumes "distinct (eb_subscribers b)"
  shows "eb_queues (snd (publish p b)) i =
    (if i \<notin> set (eb_subscribers b) then eb_queues b i
     else if queue_full b i then tl (eb_queues b i) @ [None]
     else eb_queues b i @ [Some (make_event p b)])"
  unfolding publish_def Let_def
  using assms offer_loop_result [of "eb_subscribers b" "make_event p b"
      "b\<lparr>eb_sequence := Suc (eb_sequence b),
         eb_buffer := last_n (eb_maxlen b) (eb_buffer b @ [make_event p b])\<rparr>"]
  by (auto simp: force_close_queues queue_full_frame split: prod.splits)

section \<open>The bus represents the history of everything published\<close>

text \<open>
  \<open>bus_represents hist b\<close>: \<open>hist\<close> is the list of all events published so far, in order. The
  sequence number is its length, the events carry the numbers \<open>1, 2, \<dots>\<close>, the replay buffer is
  its tail, and the queue of every registered subscriber is a tail of it too.
\<close>

definition bus_represents :: "event list \<Rightarrow> event_bus \<Rightarrow> bool" where
  "bus_represents hist b \<longleftrightarrow>
     eb_sequence b = length hist \<and>
     map ev_sequence hist = [1..<Suc (length hist)] \<and>
     eb_buffer b = last_n (eb_maxlen b) hist \<and>
     distinct (eb_subscribers b) \<and>
     (\<forall>i \<in> set (eb_subscribers b). i < eb_next_sub_id b)"

lemma bus_represents_new: "bus_represents [] (new_event_bus r boot n m)"
  by (simp add: bus_represents_def new_event_bus_def)

lemma bus_represents_publish [inv_intros]:
  assumes "bus_represents hist b"
  shows "bus_represents (hist @ [fst (publish p b)]) (snd (publish p b))"
  using assms
  by (auto simp: bus_represents_def publish_subscribers last_n_snoc make_event_def)

lemma bus_represents_subscribe [inv_intros]:
  "bus_represents hist b \<Longrightarrow> bus_represents hist (snd (subscribe b))"
  by (auto simp: bus_represents_def subscribe_def Let_def)

lemma bus_represents_unsubscribe [inv_intros]:
  "bus_represents hist b \<Longrightarrow> bus_represents hist (unsubscribe i b)"
  by (auto simp: bus_represents_def unsubscribe_def distinct_removeAll)

lemma bus_represents_get [inv_intros]:
  "bus_represents hist b \<Longrightarrow> bus_represents hist (snd (queue_get i b))"
  by (auto simp: bus_represents_def queue_get_def split: list.split)

lemma log_seq_nth:
  "map ev_sequence hist = [1..<Suc (length hist)] \<Longrightarrow> k < length hist \<Longrightarrow> ev_sequence (hist ! k) = Suc k"
  by (metis (no_types, lifting) add.commute diff_Suc_1 length_map nth_map nth_upt plus_1_eq_Suc
      add_less_mono1 length_upt less_diff_conv)

lemma log_seq_drop_filter:
  assumes "map ev_sequence hist = [1..<Suc (length hist)]" and "k \<le> n"
  shows "filter (\<lambda>e. n < ev_sequence e) (drop k hist) = drop n hist"
proof -
  have seq: "ev_sequence (hist ! j) = Suc j" if "j < length hist" for j
    using assms(1) that by (rule log_seq_nth)
  have "drop k hist = take (n - k) (drop k hist) @ drop n hist"
    using assms(2) by (metis add.commute append_take_drop_id drop_drop le_add_diff_inverse2)
  moreover have "\<forall>e \<in> set (take (n - k) (drop k hist)). \<not> n < ev_sequence e"
    using assms(2) seq by (auto simp: in_set_conv_nth)
  moreover have "\<forall>e \<in> set (drop n hist). n < ev_sequence e"
    using seq by (auto simp: in_set_conv_nth)
  ultimately show ?thesis
    by (metis (no_types, lifting) append_Nil filter_False filter_True filter_append)
qed

text \<open>The specification of \<open>replay_since\<close> in terms of the history.\<close>

definition replay_spec :: "nat \<Rightarrow> event list \<Rightarrow> nat \<Rightarrow> event list option" where
  "replay_spec maxlen hist after =
     (if length hist \<le> after + maxlen then Some (drop after hist) else None)"

lemma replay_since_spec:
  assumes "bus_represents hist b" and "0 < eb_maxlen b" and "after \<le> length hist"
  shows "replay_since after b = replay_spec (eb_maxlen b) hist after"
proof (cases "after = length hist \<or> hist = []")
  case True
  with assms show ?thesis
    by (auto simp: bus_represents_def replay_since_def replay_spec_def)
next
  case False
  let ?k = "length hist - eb_maxlen b"
  from assms have seq: "map ev_sequence hist = [1..<Suc (length hist)]"
    and buf: "eb_buffer b = drop ?k hist" and num: "eb_sequence b = length hist"
    by (simp_all add: bus_represents_def last_n_def)
  from False assms(2) have "?k < length hist" by auto
  then obtain oldest rest where drop: "drop ?k hist = oldest # rest" and "oldest = hist ! ?k"
    by (metis Cons_nth_drop_Suc)
  with seq \<open>?k < length hist\<close> have old: "ev_sequence oldest = Suc ?k"
    by (simp add: log_seq_nth)
  show ?thesis
  proof (cases "?k \<le> after")
    case True
    have "filter (\<lambda>e. after < ev_sequence e) (drop ?k hist) = drop after hist"
      using seq True by (rule log_seq_drop_filter)
    with False True old show ?thesis
      by (auto simp: replay_since_def replay_spec_def buf num drop)
  next
    case old_gone: False
    with False old show ?thesis
      by (auto simp: replay_since_def replay_spec_def buf num drop)
  qed
qed

lemma replay_since_future:
  assumes "bus_represents hist b" and "0 < eb_maxlen b" and "length hist < after"
  shows "replay_since after b = (if hist = [] then None else Some [])"
proof (cases hist)
  case Nil
  with assms show ?thesis by (auto simp: bus_represents_def replay_since_def)
next
  case (Cons e es)
  from assms have seq: "map ev_sequence hist = [1..<Suc (length hist)]"
    by (simp add: bus_represents_def)
  then have below: "\<forall>x \<in> set hist. ev_sequence x < after"
    using assms(3) by (auto simp: in_set_conv_nth log_seq_nth)
  have sub: "set (eb_buffer b) \<subseteq> set hist" and "eb_buffer b \<noteq> []"
    using assms Cons by (auto simp: bus_represents_def last_n_def dest: in_set_dropD)
  then obtain oldest rest where buf: "eb_buffer b = oldest # rest"
    by (cases "eb_buffer b") auto
  with sub below have "int (ev_sequence oldest) - 1 \<le> int after"
    and "filter (\<lambda>e. after < ev_sequence e) (eb_buffer b) = []"
    by (force simp: filter_empty_conv)+
  moreover have "eb_sequence b = length hist"
    using assms(1) by (simp add: bus_represents_def)
  ultimately show ?thesis
    using assms(3) Cons by (simp add: replay_since_def buf)
qed

section \<open>Runs of the bus\<close>

datatype bus_op =
    Bus_publish publication
  | Bus_subscribe
  | Bus_unsubscribe nat
  | Bus_get nat

fun bus_perform :: "bus_op \<Rightarrow> event_bus \<Rightarrow> event_bus" where
  "bus_perform (Bus_publish p) b = snd (publish p b)"
| "bus_perform Bus_subscribe b = snd (subscribe b)"
| "bus_perform (Bus_unsubscribe i) b = unsubscribe i b"
| "bus_perform (Bus_get i) b = snd (queue_get i b)"

abbreviation bus_run :: "bus_op list \<Rightarrow> event_bus \<Rightarrow> event_bus" where
  "bus_run ops b \<equiv> fold bus_perform ops b"

text \<open>What a run publishes, and what the reader of queue \<open>i\<close> gets out of its queue.\<close>

fun published :: "bus_op list \<Rightarrow> event_bus \<Rightarrow> event list" where
  "published [] b = []"
| "published (p # ps) b =
     (case p of Bus_publish q \<Rightarrow> [fst (publish q b)] | _ \<Rightarrow> []) @ published ps (bus_perform p b)"

fun received :: "nat \<Rightarrow> bus_op list \<Rightarrow> event_bus \<Rightarrow> event option list" where
  "received i [] b = []"
| "received i (p # ps) b =
     (case p of
        Bus_get j \<Rightarrow> (case fst (queue_get j b) of Some x \<Rightarrow> if i = j then [x] else [] | None \<Rightarrow> [])
      | _ \<Rightarrow> []) @ received i ps (bus_perform p b)"

lemma bus_represents_run [inv_intros]:
  "bus_represents hist b \<Longrightarrow> bus_represents (hist @ published ops b) (bus_run ops b)"
proof (induction ops arbitrary: hist b)
  case Nil
  then show ?case by simp
next
  case (Cons p ps)
  let ?new = "case p of Bus_publish q \<Rightarrow> [fst (publish q b)] | _ \<Rightarrow> []"
  from Cons.prems have "bus_represents (hist @ ?new) (bus_perform p b)"
    by (cases p) (auto intro: inv_intros simp del: publish_frame)
  from Cons.IH [OF this] show ?case by simp
qed

lemma bus_run_maxlen [simp]: "eb_maxlen (bus_run ops b) = eb_maxlen b"
proof (induction ops arbitrary: b)
  case (Cons p ps)
  then show ?case
    by (cases p) (auto simp: subscribe_def unsubscribe_def queue_get_def Let_def split: list.split)
qed simp

text \<open>
  A subscription that is not registered stays so (its identifier is never issued again), and a
  registered one is conserved: what was queued plus what is published is what was read plus what
  is queued.
\<close>

definition bus_ids :: "event_bus \<Rightarrow> bool" where
  "bus_ids b \<longleftrightarrow> distinct (eb_subscribers b) \<and> (\<forall>i \<in> set (eb_subscribers b). i < eb_next_sub_id b)"

lemma bus_represents_ids: "bus_represents hist b \<Longrightarrow> bus_ids b"
  by (simp add: bus_represents_def bus_ids_def)

lemma bus_ids_step [inv_intros]: "bus_ids b \<Longrightarrow> bus_ids (bus_perform p b)"
  by (cases p)
    (auto simp: bus_ids_def publish_subscribers subscribe_def unsubscribe_def queue_get_def
      distinct_removeAll Let_def split: list.split)

lemma unregistered_step:
  "bus_ids b \<Longrightarrow> i \<notin> set (eb_subscribers b) \<Longrightarrow> i < eb_next_sub_id b \<Longrightarrow>
   i \<notin> set (eb_subscribers (bus_perform p b)) \<and> i < eb_next_sub_id (bus_perform p b)"
  by (cases p)
    (auto simp: bus_ids_def publish_subscribers subscribe_def unsubscribe_def queue_get_def
      Let_def split: list.split)

lemma unregistered_run:
  "bus_ids b \<Longrightarrow> i \<notin> set (eb_subscribers b) \<Longrightarrow> i < eb_next_sub_id b \<Longrightarrow>
   i \<notin> set (eb_subscribers (bus_run ops b))"
proof (induction ops arbitrary: b)
  case (Cons p ps)
  from unregistered_step [OF Cons.prems, of p] show ?case
    using Cons.IH [OF bus_ids_step [OF Cons.prems(1)]] by simp
qed simp

lemma conservation_step:
  assumes "bus_ids b" and "i \<in> set (eb_subscribers b)" and "i \<in> set (eb_subscribers (bus_perform p b))"
  shows "eb_queues b i @ map Some (published [p] b) = received i [p] b @ eb_queues (bus_perform p b) i"
proof (cases p)
  case (Bus_publish q)
  with assms show ?thesis
    by (auto simp: bus_ids_def publish_subscribers publish_queues)
next
  case Bus_subscribe
  with assms show ?thesis by (auto simp: bus_ids_def subscribe_def Let_def)
next
  case (Bus_unsubscribe j)
  with assms show ?thesis by (auto simp: unsubscribe_def)
next
  case (Bus_get j)
  then show ?thesis by (auto simp: queue_get_def split: list.split)
qed

lemma conservation_run:
  assumes "bus_ids b" and "i \<in> set (eb_subscribers b)" and "i \<in> set (eb_subscribers (bus_run ops b))"
  shows "eb_queues b i @ map Some (published ops b) = received i ops b @ eb_queues (bus_run ops b) i"
  using assms
proof (induction ops arbitrary: b)
  case (Cons p ps)
  let ?b = "bus_perform p b"
  have ids: "bus_ids ?b" using Cons.prems(1) by (rule inv_intros)
  have reg: "i \<in> set (eb_subscribers ?b)"
    using Cons.prems unregistered_run [OF ids, of i ps] unregistered_step
    by (cases p) (auto simp: bus_ids_def publish_subscribers subscribe_def unsubscribe_def
        queue_get_def Let_def split: list.splits)
  have "eb_queues b i @ map Some (published [p] b) = received i [p] b @ eb_queues ?b i"
    using Cons.prems(1,2) reg by (rule conservation_step)
  moreover have "eb_queues ?b i @ map Some (published ps ?b) =
      received i ps ?b @ eb_queues (bus_run ps ?b) i"
    using ids reg Cons.prems(3) by (auto intro: Cons.IH)
  moreover have "published (p # ps) b = published [p] b @ published ps ?b"
    and "received i (p # ps) b = received i [p] b @ received i ps ?b"
    by simp_all
  ultimately show ?case
    by (metis append.assoc fold_simps(2) map_append)
qed simp

text \<open>A queue whose subscription is gone is only ever read, until it is empty.\<close>

lemma closed_queue_step:
  "bus_ids b \<Longrightarrow> i \<notin> set (eb_subscribers b) \<Longrightarrow> i < eb_next_sub_id b \<Longrightarrow>
   received i [p] b @ eb_queues (bus_perform p b) i = eb_queues b i"
  by (cases p)
    (auto simp: bus_ids_def publish_queues subscribe_def unsubscribe_def queue_get_def Let_def
      split: list.split)

lemma closed_queue_run:
  "bus_ids b \<Longrightarrow> i \<notin> set (eb_subscribers b) \<Longrightarrow> i < eb_next_sub_id b \<Longrightarrow>
   received i ops b @ eb_queues (bus_run ops b) i = eb_queues b i"
proof (induction ops arbitrary: b)
  case (Cons p ps)
  have "received i ps (bus_perform p b) @ eb_queues (bus_run ps (bus_perform p b)) i =
      eb_queues (bus_perform p b) i"
    using unregistered_step [OF Cons.prems, of p] Cons.IH [OF bus_ids_step [OF Cons.prems(1)]]
    by blast
  moreover have "received i (p # ps) b = received i [p] b @ received i ps (bus_perform p b)"
    by simp
  ultimately show ?case
    using closed_queue_step [OF Cons.prems, of p] by (metis append.assoc fold_simps(2))
qed simp

lemma published_append: "published (ps @ qs) b = published ps b @ published qs (bus_run ps b)"
  by (induction ps arbitrary: b) simp_all

lemma received_append: "received i (ps @ qs) b = received i ps b @ received i qs (bus_run ps b)"
  by (induction ps arbitrary: b) simp_all

lemma bus_ids_run [inv_intros]: "bus_ids b \<Longrightarrow> bus_ids (bus_run ops b)"
  by (induction ops arbitrary: b) (auto intro: inv_intros)

lemma dropped_at:
  assumes "i \<in> set (eb_subscribers b)" and "i \<notin> set (eb_subscribers (bus_run ops b))"
  obtains ops1 p ops2 where "ops = ops1 @ p # ops2" and "i \<in> set (eb_subscribers (bus_run ops1 b))"
    and "i \<notin> set (eb_subscribers (bus_perform p (bus_run ops1 b)))"
  using assms
proof (induction ops arbitrary: b thesis)
  case (Cons p ps)
  show ?case
  proof (cases "i \<in> set (eb_subscribers (bus_perform p b))")
    case True
    with Cons.prems(3) obtain ops1 q ops2 where "ps = ops1 @ q # ops2"
      and "i \<in> set (eb_subscribers (bus_run ops1 (bus_perform p b)))"
      and "i \<notin> set (eb_subscribers (bus_perform q (bus_run ops1 (bus_perform p b))))"
      using Cons.IH [of "bus_perform p b"] by auto
    then show ?thesis
      using Cons.prems(1) [of "p # ops1" q ops2] by simp
  next
    case False
    with Cons.prems(1) [of "[]" p ps] Cons.prems(2) show ?thesis by simp
  qed
qed simp

section \<open>The interface readers rely on\<close>

text \<open>
  \<open>represents hist s\<close> relates the provider's state to the history of its events; \<open>emit\<close>
  publishes one event, \<open>open_sub\<close> registers a subscriber and returns its queue's name,
  \<open>window\<close> is the number of past events a replay can reach.
\<close>

locale event_history =
  fixes represents :: "event list \<Rightarrow> 's \<Rightarrow> bool"
    and emit :: "'a \<Rightarrow> 's \<Rightarrow> event \<times> 's"
    and replay :: "nat \<Rightarrow> 's \<Rightarrow> event list option"
    and open_sub :: "'s \<Rightarrow> nat \<times> 's"
    and registered :: "'s \<Rightarrow> nat \<Rightarrow> bool"
    and queue_of :: "'s \<Rightarrow> nat \<Rightarrow> event option list"
    and window :: "'s \<Rightarrow> nat"
  assumes represents_emit:
      "represents hist s \<Longrightarrow> represents (hist @ [fst (emit a s)]) (snd (emit a s))"
    and represents_open: "represents hist s \<Longrightarrow> represents hist (snd (open_sub s))"
    and open_queue: "queue_of (snd (open_sub s)) (fst (open_sub s)) = []"
    and emit_queue: "represents hist s \<Longrightarrow> registered (snd (emit a s)) i \<Longrightarrow>
      registered s i \<and> queue_of (snd (emit a s)) i = queue_of s i @ [Some (fst (emit a s))]"
    and replay_exact: "represents hist s \<Longrightarrow> 0 < window s \<Longrightarrow> n \<le> length hist \<Longrightarrow>
      replay n s = replay_spec (window s) hist n"
begin

lemma represents_emit_all:
  "represents hist s \<Longrightarrow> represents (hist @ fst (collect emit as s)) (snd (collect emit as s))"
proof (induction as arbitrary: hist s)
  case (Cons a as)
  from Cons.IH [OF represents_emit [OF Cons.prems, of a]] show ?case
    unfolding collect_Cons_sel by simp
qed simp

lemma emit_all_queue:
  "represents hist s \<Longrightarrow> registered (snd (collect emit as s)) i \<Longrightarrow>
   registered s i \<and> queue_of (snd (collect emit as s)) i = queue_of s i @ map Some (fst (collect emit as s))"
proof (induction as arbitrary: hist s)
  case (Cons a as)
  let ?s = "snd (emit a s)"
  have "registered ?s i \<and> queue_of (snd (collect emit as ?s)) i =
      queue_of ?s i @ map Some (fst (collect emit as ?s))"
    using Cons.IH [OF represents_emit [OF Cons.prems(1), of a]] Cons.prems(2)
    unfolding collect_Cons_sel by blast
  with emit_queue [OF Cons.prems(1), of a i] show ?case
    unfolding collect_Cons_sel by simp
qed simp

text \<open>
  A reader that asks for the events after \<open>n\<close> and subscribes later: \<open>gap\<close> is what is emitted
  between the replay and the subscription, \<open>live\<close> what is emitted afterwards. As long as it is not
  dropped, it gets the whole history after \<open>n\<close> except the gap.
\<close>

lemma replay_then_subscribe:
  assumes hist: "represents hist s" "0 < window s" "n \<le> length hist" "length hist \<le> n + window s"
    and gap: "collect emit gap s = (gap_events, s1)"
    and sub: "open_sub s1 = (i, s2)"
    and live: "collect emit live s2 = (live_events, s3)" and "registered s3 i"
  shows "replay n s = Some (drop n hist) \<and>
    map Some (drop n hist) @ queue_of s3 i = map Some (drop n hist @ live_events) \<and>
    represents (hist @ gap_events @ live_events) s3"
proof -
  have r1: "represents (hist @ gap_events) s1"
    using represents_emit_all [OF hist(1), of gap] gap by simp
  have r2: "represents (hist @ gap_events) s2"
    using represents_open [OF r1] sub by simp
  have "queue_of s2 i = []"
    using open_queue [of s1] sub by simp
  moreover have "queue_of s3 i = queue_of s2 i @ map Some live_events"
    using emit_all_queue [OF r2, of live i] live assms(8) by simp
  moreover have "represents (hist @ gap_events @ live_events) s3"
    using represents_emit_all [OF r2, of live] live by simp
  ultimately show ?thesis
    using replay_exact [OF hist(1,2,3)] hist(4) by (simp add: replay_spec_def)
qed

end

lemma bus_emit_queue:
  assumes "bus_represents hist b" and "i \<in> set (eb_subscribers (snd (publish p b)))"
  shows "i \<in> set (eb_subscribers b) \<and>
    eb_queues (snd (publish p b)) i = eb_queues b i @ [Some (fst (publish p b))]"
  using assms by (auto simp: bus_represents_def publish_subscribers publish_queues)

interpretation bus: event_history bus_represents publish replay_since subscribe
    "\<lambda>b i. i \<in> set (eb_subscribers b)" eb_queues eb_maxlen
proof unfold_locales
  show "eb_queues (snd (subscribe b)) (fst (subscribe b)) = []" for b
    by (simp add: subscribe_def Let_def)
qed (simp_all only: bus_represents_publish bus_represents_subscribe bus_emit_queue
    replay_since_spec simp_thms)

section \<open>Properties\<close>

text \<open>
  \<^bold>\<open>C17\<close> No event is silently lost: while a subscriber stays registered, whatever else happens on the
  bus, the events that were in its queue followed by the events published meanwhile are exactly the
  events it has read followed by the events still in its queue.
\<close>

theorem registered_subscriber_loses_nothing:
  assumes "bus_represents hist b" and "i \<in> set (eb_subscribers b)"
    and "i \<in> set (eb_subscribers (bus_run ops b))"
  shows "eb_queues b i @ map Some (published ops b) = received i ops b @ eb_queues (bus_run ops b) i"
  using assms by (auto intro: conservation_run bus_represents_ids)

definition demo_publication :: "string \<Rightarrow> publication" where
  "demo_publication eid =
     \<lparr>pub_event_id = eid, pub_type = ''demo'', pub_target_id = None, pub_command_id = None,
      pub_run_id = None, pub_cue_id = None, pub_payload = [], pub_wall = 0\<rparr>"

abbreviation demo_bus :: event_bus where
  "demo_bus \<equiv> snd (subscribe (new_event_bus ''motor-01'' ''boot-1'' 2 1))"

lemma demo_bus_represents: "bus_represents [] demo_bus"
  by (intro inv_intros bus_represents_new)

theorem registered_subscriber_loses_nothing_witness:
  "eb_queues demo_bus 0 @ map Some (published [Bus_publish (demo_publication ''e1''), Bus_get 0] demo_bus) =
     received 0 [Bus_publish (demo_publication ''e1''), Bus_get 0] demo_bus @
     eb_queues (bus_run [Bus_publish (demo_publication ''e1''), Bus_get 0] demo_bus) 0"
  by (rule registered_subscriber_loses_nothing [OF demo_bus_represents]) code_simp+

text \<open>
  Falling behind is signalled: a subscriber the bus dropped without an \<open>unsubscribe\<close> reads a
  prefix \<open>xs\<close> of the stream, not the one event \<open>y\<close> discarded to make room, the events \<open>zs\<close> that
  were still queued, and then the sentinel \<open>None\<close>, after which its queue is empty for ever.
\<close>

theorem dropped_subscriber_sees_sentinel:
  assumes "bus_represents hist b" and "i \<in> set (eb_subscribers b)"
    and "i \<notin> set (eb_subscribers (bus_run ops b))" and "Bus_unsubscribe i \<notin> set ops"
  shows "\<exists>xs y zs rest. rest \<noteq> [] \<and>
    eb_queues b i @ map Some (published ops b) = xs @ y # zs @ rest \<and>
    received i ops b @ eb_queues (bus_run ops b) i = xs @ zs @ [None]"
proof -
  from assms(2,3) obtain ops1 p ops2 where ops: "ops = ops1 @ p # ops2"
    and reg: "i \<in> set (eb_subscribers (bus_run ops1 b))"
    and gone: "i \<notin> set (eb_subscribers (bus_perform p (bus_run ops1 b)))"
    by (rule dropped_at)
  let ?b = "bus_run ops1 b"
  have ids: "bus_ids ?b"
    using assms(1) by (intro inv_intros bus_represents_ids)
  from ids reg gone ops assms(4) obtain q where p: "p = Bus_publish q" and full: "queue_full ?b i"
    by (cases p) (auto simp: bus_ids_def publish_subscribers subscribe_def unsubscribe_def
        queue_get_def Let_def split: list.splits)
  from full obtain y zs where q: "eb_queues ?b i = y # zs"
    by (cases "eb_queues ?b i") (auto simp: queue_full_def)
  have "eb_queues (bus_perform p ?b) i = zs @ [None]"
    using ids reg full q by (simp add: p bus_ids_def publish_queues)
  moreover have "received i ops2 (bus_perform p ?b) @ eb_queues (bus_run ops2 (bus_perform p ?b)) i =
      eb_queues (bus_perform p ?b) i"
    using ids reg
    by (intro closed_queue_run [OF bus_ids_step [OF ids] gone]) (simp add: p bus_ids_def)
  moreover have "eb_queues b i @ map Some (published ops1 b) = received i ops1 b @ y # zs"
    using conservation_run [OF bus_represents_ids [OF assms(1)] assms(2) reg] q by simp
  ultimately have
    "eb_queues b i @ map Some (published ops b) =
       received i ops1 b @ y # zs @ map Some (published (p # ops2) ?b)"
    "received i ops b @ eb_queues (bus_run ops b) i = received i ops1 b @ zs @ [None]"
    by (simp_all add: ops published_append received_append p)
  moreover have "map Some (published (p # ops2) ?b) \<noteq> []" by (simp add: p)
  ultimately show ?thesis by blast
qed

theorem dropped_subscriber_sees_sentinel_witness:
  "\<exists>xs y zs rest. rest \<noteq> [] \<and>
     eb_queues demo_bus 0 @
       map Some (published (map (Bus_publish \<circ> demo_publication) [''e1'', ''e2'']) demo_bus) =
       xs @ y # zs @ rest \<and>
     received 0 (map (Bus_publish \<circ> demo_publication) [''e1'', ''e2'']) demo_bus @
       eb_queues (bus_run (map (Bus_publish \<circ> demo_publication) [''e1'', ''e2'']) demo_bus) 0 =
       xs @ zs @ [None]"
  by (rule dropped_subscriber_sees_sentinel [OF demo_bus_represents]; code_simp)

text \<open>
  Replay is exact: in any run of a fresh bus with a non-empty replay window,
  \<open>replay_since(n)\<close> for a sequence number \<open>n\<close> already reached returns precisely the events
  published after the \<open>n\<close>-th, in order, if at most the window's number of events lie between, and
  reports that a resync is needed otherwise. For a number not yet reached (a client that kept its
  position over a restart of the Runtime) it reports a resync only while nothing has been published,
  and afterwards answers as if the client were up to date.
\<close>

theorem replay_since_exact:
  assumes "0 < window"
  shows "let b0 = new_event_bus r boot window qsize; b = bus_run ops b0; hist = published ops b0 in
    replay_since n b =
      (if n \<le> length hist then (if length hist \<le> n + window then Some (drop n hist) else None)
       else if hist = [] then None else Some [])"
proof -
  let ?b0 = "new_event_bus r boot window qsize"
  have "bus_represents (published ops ?b0) (bus_run ops ?b0)"
    using bus_represents_run [OF bus_represents_new, of ops r boot window qsize] by simp
  moreover have "eb_maxlen (bus_run ops ?b0) = window"
    by (simp add: new_event_bus_def)
  ultimately show ?thesis
    using assms bus.replay_exact [of "published ops ?b0" "bus_run ops ?b0" n]
    by (auto simp: replay_spec_def replay_since_future Let_def)
qed

theorem replay_since_exact_witness:
  "let b = bus_run (map (Bus_publish \<circ> demo_publication) [''e1'', ''e2''])
             (new_event_bus ''motor-01'' ''boot-1'' 2 1)
   in map_option (map ev_event_id) (replay_since 1 b) = Some [''e2'']"
  using replay_since_exact [of 2 "''motor-01''" "''boot-1''" 1
      "map (Bus_publish \<circ> demo_publication) [''e1'', ''e2'']" 1]
  by (simp add: Let_def demo_publication_def make_event_def new_event_bus_def)

end
