(* ===== verification/Command_Ledger.thy ===== *)
theory Command_Ledger
  imports Contracts
begin

text \<open>
  The command ledger of \<open>core/ledger.py\<close>: one entry per \<open>request_id\<close> with the fingerprint of
  the request that created it, and the store of command records. A \<open>CommandRecord\<close> is a mutable
  object shared by the ledger, the target runner and the runtime; \<open>lg_by_command_id\<close> is the store
  those parts share, and a record is referred to by its command id. The fresh command id and the
  wall-clock time are arguments of \<open>begin\<close>.
\<close>

section \<open>State and operations\<close>

record ledger_entry =
  le_fingerprint :: fingerprint
  le_command_id :: string

type_synonym records = "string \<rightharpoonup> command_record"

record command_ledger =
  lg_by_request_id :: "string \<rightharpoonup> ledger_entry"
  lg_by_command_id :: records

definition new_ledger :: command_ledger where
  "new_ledger = \<lparr>lg_by_request_id = Map.empty, lg_by_command_id = Map.empty\<rparr>"

definition new_command_record ::
    "command_submit_request \<Rightarrow> string \<Rightarrow> string \<Rightarrow> string \<Rightarrow> nat \<Rightarrow> time \<Rightarrow> command_record" where
  "new_command_record req command_id runtime_id boot gen now =
     \<lparr>cr_command_id = command_id, cr_request_id = sr_request_id req, cr_runtime_id = runtime_id,
      cr_runtime_boot_id = boot, cr_target_id = sr_target_id req, cr_action = sr_action req,
      cr_params = sr_params req, cr_completion_requirement = sr_completion_requirement req,
      cr_status = QUEUED, cr_outcome = None, cr_achieved_completion = None,
      cr_execution_generation = gen, cr_run_id = sr_run_id req, cr_cue_id = sr_cue_id req,
      cr_source = sr_source req, cr_actor = sr_actor req, cr_error = None, cr_created_at = now,
      cr_updated_at = now\<rparr>"

text \<open>
  \<open>begin\<close> returns the command id of the record and whether it is new, with the ledger after the
  call. \<open>self._by_command_id[existing.command_id]\<close> would raise \<open>KeyError\<close> on a missing key: the
  error value \<open>None\<close> of \<open>Inl\<close> stands for that, and the invariant below excludes it.
\<close>

definition ledger_begin ::
    "command_submit_request \<Rightarrow> string \<Rightarrow> string \<Rightarrow> string \<Rightarrow> nat \<Rightarrow> time \<Rightarrow> command_ledger \<Rightarrow>
     (fusion_error option + string \<times> bool) \<times> command_ledger" where
  "ledger_begin req new_id runtime_id boot gen now lg =
     (let fp = fingerprint req
      in case lg_by_request_id lg (sr_request_id req) of
           Some existing \<Rightarrow>
             if \<not> fingerprint_eq (le_fingerprint existing) fp
             then (Inl (Some (FusionError REQUEST_ID_CONFLICT
                     (''request_id '' @ quoted (sr_request_id req) @
                      '' already used with different content''))), lg)
             else (case lg_by_command_id lg (le_command_id existing) of
                     None \<Rightarrow> (Inl None, lg)
                   | Some _ \<Rightarrow> (Inr (le_command_id existing, False), lg))
         | None \<Rightarrow>
             (Inr (new_id, True),
              lg\<lparr>lg_by_request_id := (lg_by_request_id lg)
                    (sr_request_id req \<mapsto> \<lparr>le_fingerprint = fp, le_command_id = new_id\<rparr>),
                 lg_by_command_id := (lg_by_command_id lg)
                    (new_id \<mapsto> new_command_record req new_id runtime_id boot gen now)\<rparr>))"

definition ledger_get :: "string \<Rightarrow> command_ledger \<Rightarrow> command_record option" where
  "ledger_get command_id lg = lg_by_command_id lg command_id"

section \<open>The invariant\<close>

text \<open>
  Every entry leads to a record made for its request id, distinct requests have distinct commands,
  every record is stored under its own id and reachable from its request, and every record still
  carries the content the entry's fingerprint was taken of.
\<close>

definition record_fingerprint :: "command_record \<Rightarrow> fingerprint" where
  "record_fingerprint r =
     (cr_target_id r, cr_action r, sort_key fst (cr_params r),
      requirement_value (cr_completion_requirement r))"

definition ledger_inv :: "command_ledger \<Rightarrow> bool" where
  "ledger_inv lg \<longleftrightarrow>
     (\<forall>q e. lg_by_request_id lg q = Some e \<longrightarrow>
        (\<exists>r. lg_by_command_id lg (le_command_id e) = Some r \<and> cr_request_id r = q \<and>
           record_fingerprint r = le_fingerprint e)) \<and>
     (\<forall>c r. lg_by_command_id lg c = Some r \<longrightarrow>
        cr_command_id r = c \<and>
        (\<exists>e. lg_by_request_id lg (cr_request_id r) = Some e \<and> le_command_id e = c))"

lemma ledger_inv_entry:
  "ledger_inv lg \<Longrightarrow> lg_by_request_id lg q = Some e \<Longrightarrow>
   \<exists>r. lg_by_command_id lg (le_command_id e) = Some r \<and> cr_request_id r = q \<and>
     record_fingerprint r = le_fingerprint e"
  by (simp add: ledger_inv_def)

lemma ledger_inv_record:
  "ledger_inv lg \<Longrightarrow> lg_by_command_id lg c = Some r \<Longrightarrow>
   cr_command_id r = c \<and> (\<exists>e. lg_by_request_id lg (cr_request_id r) = Some e \<and> le_command_id e = c)"
  by (simp add: ledger_inv_def)

lemma ledger_inv_new [inv_intros]: "ledger_inv new_ledger"
  by (simp add: ledger_inv_def new_ledger_def)

lemma new_record_fingerprint [simp]:
  "record_fingerprint (new_command_record req c rt boot gen now) = fingerprint req"
  by (simp add: record_fingerprint_def new_command_record_def fingerprint_def)

lemma new_record_sel [simp]:
  "cr_command_id (new_command_record req c rt boot gen now) = c"
  "cr_request_id (new_command_record req c rt boot gen now) = sr_request_id req"
  "cr_status (new_command_record req c rt boot gen now) = QUEUED"
  "cr_outcome (new_command_record req c rt boot gen now) = None"
  "cr_achieved_completion (new_command_record req c rt boot gen now) = None"
  "cr_execution_generation (new_command_record req c rt boot gen now) = gen"
  "cr_target_id (new_command_record req c rt boot gen now) = sr_target_id req"
  "cr_action (new_command_record req c rt boot gen now) = sr_action req"
  "cr_params (new_command_record req c rt boot gen now) = sr_params req"
  "cr_completion_requirement (new_command_record req c rt boot gen now) = sr_completion_requirement req"
  by (simp_all add: new_command_record_def)

lemma ledger_inv_begin [inv_intros]:
  assumes "ledger_inv lg" and "lg_by_command_id lg new_id = None"
  shows "ledger_inv (snd (ledger_begin req new_id rt boot gen now lg))"
proof (cases "lg_by_request_id lg (sr_request_id req)")
  case None
  have "le_command_id e \<noteq> new_id" if "lg_by_request_id lg q = Some e" for q e
    using ledger_inv_entry [OF assms(1) that] assms(2) by auto
  moreover have "cr_request_id r \<noteq> sr_request_id req" if "lg_by_command_id lg c = Some r" for c r
    using ledger_inv_record [OF assms(1) that] None by auto
  ultimately show ?thesis
    using assms None by (auto simp: ledger_begin_def ledger_inv_def Let_def)
next
  case (Some e)
  with assms show ?thesis by (auto simp: ledger_begin_def Let_def split: option.split)
qed

text \<open>
  Later changes to a record (status, outcome, times) keep the invariant as long as they keep its
  identity and content.
\<close>

definition same_content :: "command_record \<Rightarrow> command_record \<Rightarrow> bool" where
  "same_content r r' \<longleftrightarrow>
     cr_command_id r' = cr_command_id r \<and> cr_request_id r' = cr_request_id r \<and>
     cr_target_id r' = cr_target_id r \<and> cr_action r' = cr_action r \<and> cr_params r' = cr_params r \<and>
     cr_completion_requirement r' = cr_completion_requirement r"

lemma same_content_refl [simp]: "same_content r r"
  by (simp add: same_content_def)

lemma same_content_trans: "same_content a b \<Longrightarrow> same_content b c \<Longrightarrow> same_content a c"
  by (simp add: same_content_def)

definition records_evolve :: "records \<Rightarrow> records \<Rightarrow> bool" where
  "records_evolve h h' \<longleftrightarrow> (\<forall>c. rel_option same_content (h c) (h' c))"

lemma records_evolve_refl [simp]: "records_evolve h h"
  by (simp add: records_evolve_def option.rel_refl)

lemma records_evolve_trans:
  assumes "records_evolve h1 h2" and "records_evolve h2 h3"
  shows "records_evolve h1 h3"
  unfolding records_evolve_def
proof
  fix c
  from assms have "rel_option same_content (h1 c) (h2 c)" "rel_option same_content (h2 c) (h3 c)"
    by (simp_all add: records_evolve_def)
  then show "rel_option same_content (h1 c) (h3 c)"
    by (cases "h1 c"; cases "h2 c"; cases "h3 c") (auto intro: same_content_trans)
qed

lemma records_evolve_update:
  "h c = Some r \<Longrightarrow> same_content r r' \<Longrightarrow> records_evolve h (h(c \<mapsto> r'))"
  by (auto simp: records_evolve_def option.rel_refl)

lemma records_evolve_fwd:
  "records_evolve h h' \<Longrightarrow> h c = Some r \<Longrightarrow> \<exists>r'. h' c = Some r' \<and> same_content r r'"
  unfolding records_evolve_def by (drule spec [of _ c]) (auto simp: option_rel_Some1)

lemma records_evolve_bwd:
  "records_evolve h h' \<Longrightarrow> h' c = Some r' \<Longrightarrow> \<exists>r. h c = Some r \<and> same_content r r'"
  unfolding records_evolve_def by (drule spec [of _ c]) (auto simp: option_rel_Some2)

lemma ledger_inv_evolve [inv_intros]:
  assumes "ledger_inv lg" and "records_evolve (lg_by_command_id lg) h"
  shows "ledger_inv (lg\<lparr>lg_by_command_id := h\<rparr>)"
proof -
  have fp: "same_content r r' \<Longrightarrow> record_fingerprint r' = record_fingerprint r" for r r'
    by (simp add: same_content_def record_fingerprint_def)
  note fwd = records_evolve_fwd [OF assms(2)] and bwd = records_evolve_bwd [OF assms(2)]
  show ?thesis
    unfolding ledger_inv_def
  proof (intro conjI allI impI)
    fix q e
    assume "lg_by_request_id (lg\<lparr>lg_by_command_id := h\<rparr>) q = Some e"
    with ledger_inv_entry [OF assms(1), of q e] obtain r
      where r: "lg_by_command_id lg (le_command_id e) = Some r" "cr_request_id r = q"
        "record_fingerprint r = le_fingerprint e"
      by auto
    from fwd [OF r(1)] obtain r' where r': "h (le_command_id e) = Some r'" "same_content r r'"
      by blast
    from r'(2) r(2,3) have "cr_request_id r' = q" "record_fingerprint r' = le_fingerprint e"
      by (simp_all add: fp) (simp add: same_content_def)
    with r'(1) show "\<exists>r. lg_by_command_id (lg\<lparr>lg_by_command_id := h\<rparr>) (le_command_id e) = Some r \<and>
        cr_request_id r = q \<and> record_fingerprint r = le_fingerprint e"
      by simp
  next
    fix c r'
    assume "lg_by_command_id (lg\<lparr>lg_by_command_id := h\<rparr>) c = Some r'"
    with bwd obtain r where r: "lg_by_command_id lg c = Some r" "same_content r r'"
      by auto
    with ledger_inv_record [OF assms(1) r(1)]
    show "cr_command_id r' = c" and "\<exists>e. lg_by_request_id (lg\<lparr>lg_by_command_id := h\<rparr>) (cr_request_id r') =
        Some e \<and> le_command_id e = c"
      by (auto simp: same_content_def)
  qed
qed

section \<open>What \<open>begin\<close> answers\<close>

lemma ledger_begin_new:
  assumes "lg_by_request_id lg (sr_request_id req) = None"
  shows "ledger_begin req new_id rt boot gen now lg =
    (Inr (new_id, True),
     lg\<lparr>lg_by_request_id := (lg_by_request_id lg)
          (sr_request_id req \<mapsto> \<lparr>le_fingerprint = fingerprint req, le_command_id = new_id\<rparr>),
        lg_by_command_id := (lg_by_command_id lg)
          (new_id \<mapsto> new_command_record req new_id rt boot gen now)\<rparr>)"
  using assms by (simp add: ledger_begin_def Let_def)

lemma ledger_begin_known:
  assumes "ledger_inv lg" and "lg_by_request_id lg (sr_request_id req) = Some e"
  shows "ledger_begin req new_id rt boot gen now lg =
    (if fingerprint_eq (le_fingerprint e) (fingerprint req) then Inr (le_command_id e, False)
     else Inl (Some (FusionError REQUEST_ID_CONFLICT
       (''request_id '' @ quoted (sr_request_id req) @ '' already used with different content''))), lg)"
  using assms ledger_inv_entry [OF assms] by (auto simp: ledger_begin_def Let_def)

lemma ledger_begin_never_key_error:
  assumes "ledger_inv lg"
  shows "fst (ledger_begin req new_id rt boot gen now lg) \<noteq> Inl None"
  by (cases "lg_by_request_id lg (sr_request_id req)")
    (simp_all add: ledger_begin_new ledger_begin_known [OF assms])

lemma ledger_begin_result_cases:
  assumes "fst (ledger_begin req new_id rt boot gen now lg) = Inr (c, is_new)"
  shows "(is_new \<and> c = new_id \<and> lg_by_request_id lg (sr_request_id req) = None) \<or>
    (\<not> is_new \<and> snd (ledger_begin req new_id rt boot gen now lg) = lg \<and>
     (\<exists>e. lg_by_request_id lg (sr_request_id req) = Some e \<and> le_command_id e = c))"
  using assms by (auto simp: ledger_begin_def Let_def split: option.splits if_splits)

section \<open>A request id is bound for the life of the Runtime\<close>

text \<open>
  Everything that can happen to the ledger: further \<open>begin\<close> calls, each with an unused command
  id, and changes to the shared records that keep their identity and content.
\<close>

inductive ledger_steps :: "command_ledger \<Rightarrow> command_ledger \<Rightarrow> bool" where
  ledger_refl: "ledger_steps lg lg"
| ledger_begin_step: "ledger_steps lg lg' \<Longrightarrow> lg_by_command_id lg' new_id = None \<Longrightarrow>
    ledger_steps lg (snd (ledger_begin req new_id rt boot gen now lg'))"
| ledger_evolve_step: "ledger_steps lg lg' \<Longrightarrow> records_evolve (lg_by_command_id lg') h \<Longrightarrow>
    ledger_steps lg (lg'\<lparr>lg_by_command_id := h\<rparr>)"

lemma ledger_steps_inv [inv_intros]: "ledger_steps lg lg' \<Longrightarrow> ledger_inv lg \<Longrightarrow> ledger_inv lg'"
  by (induction rule: ledger_steps.induct) (auto intro: inv_intros)

lemma ledger_begin_keeps_entry:
  "lg_by_request_id lg q = Some e \<Longrightarrow>
   lg_by_request_id (snd (ledger_begin req new_id rt boot gen now lg)) q = Some e"
  by (auto simp: ledger_begin_def Let_def split: option.split)

lemma ledger_steps_keep_entry:
  "ledger_steps lg lg' \<Longrightarrow> lg_by_request_id lg q = Some e \<Longrightarrow> lg_by_request_id lg' q = Some e"
  by (induction rule: ledger_steps.induct) (auto intro: ledger_begin_keeps_entry)

text \<open>
  Idempotent submission: once \<open>begin\<close> has created command \<open>c\<close> for a request, then whatever the
  ledger goes through afterwards, a later request with the same \<open>request_id\<close> leaves the ledger
  unchanged and gets \<open>c\<close> back, marked as not new, when its target, action, parameters and completion
  requirement are equal (in Python's sense), and \<open>REQUEST_ID_CONFLICT\<close> when they are not. The dictionary
  lookup inside never raises.
\<close>

theorem ledger_idempotent:
  assumes "ledger_inv lg" and "lg_by_request_id lg (sr_request_id req) = None"
    and "lg_by_command_id lg c = None"
    and "ledger_steps (snd (ledger_begin req c rt boot gen now lg)) lg'"
    and "sr_request_id req' = sr_request_id req"
  shows "ledger_begin req' new_id rt' boot' gen' now' lg' =
    (if fingerprint_eq (fingerprint req) (fingerprint req') then Inr (c, False)
     else Inl (Some (FusionError REQUEST_ID_CONFLICT
       (''request_id '' @ quoted (sr_request_id req) @ '' already used with different content''))), lg')"
proof -
  let ?lg1 = "snd (ledger_begin req c rt boot gen now lg)"
  have "lg_by_request_id ?lg1 (sr_request_id req) =
      Some \<lparr>le_fingerprint = fingerprint req, le_command_id = c\<rparr>"
    by (simp add: ledger_begin_new [OF assms(2)])
  then have entry: "lg_by_request_id lg' (sr_request_id req') =
      Some \<lparr>le_fingerprint = fingerprint req, le_command_id = c\<rparr>"
    using ledger_steps_keep_entry [OF assms(4)] assms(5) by simp
  have "ledger_inv ?lg1"
    using assms(1,3) by (rule ledger_inv_begin)
  with assms(4) have "ledger_inv lg'"
    by (rule ledger_steps_inv)
  from ledger_begin_known [OF this entry] assms(5) show ?thesis
    by simp
qed

definition demo_request :: "string \<Rightarrow> string \<Rightarrow> pyval \<Rightarrow> command_submit_request" where
  "demo_request rid action position =
     \<lparr>sr_protocol_version = 1, sr_request_id = rid, sr_control_session_id = Some ''session-1'',
      sr_run_id = None, sr_cue_id = None, sr_show_generation = None, sr_target_id = ''motor01'',
      sr_action = action, sr_params = [(''position'', position)],
      sr_completion_requirement = Req_OBSERVED, sr_source = ''manual'', sr_actor = None\<rparr>"

theorem ledger_idempotent_witness:
  "let lg = snd (ledger_begin (demo_request ''r1'' ''move'' (PInt 500)) ''cmd-1'' ''motor-01'' ''boot'' 1 0
              new_ledger)
   in fst (ledger_begin (demo_request ''r1'' ''move'' (PFloat 500)) ''cmd-2'' ''motor-01'' ''boot'' 7 9 lg) =
        Inr (''cmd-1'', False) \<and>
      fst (ledger_begin (demo_request ''r1'' ''move'' (PInt 501)) ''cmd-2'' ''motor-01'' ''boot'' 7 9 lg) \<noteq>
        Inr (''cmd-1'', False)"
  unfolding Let_def
  by (subst (1 2) ledger_idempotent [OF ledger_inv_new _ _ ledger_refl])
    (simp_all add: new_ledger_def demo_request_def fingerprint_def py_eq_def)

end
