(* ===== verification/Target_Runner.thy ===== *)
theory Target_Runner
  imports Command_Ledger
begin

text \<open>
  The target runner of \<open>core/target_runner.py\<close>. The coroutines \<open>submit\<close> and \<open>_observe\<close> are cut
  at their suspension points: \<open>submit_begin\<close> runs up to \<open>await adapter.execute(...)\<close>,
  \<open>submit_resume\<close> from its completion, \<open>observe_step\<close> runs one turn of the polling loop up to
  its \<open>await sleep\<close>. What a suspended coroutine keeps in its local variables is a \<open>frame\<close>, and
  \<open>tr_frames\<close> holds the frames of one runner by command. Between two such segments anything
  else may run, which the step relation \<open>runner_step\<close> expresses.

  Records are the shared objects of the ledger's store; \<open>rw_changes\<close> collects the records
  handed to \<open>on_change\<close>, in order. All \<open>_touch\<close> calls of one segment see one wall-clock value.
  What the adapter answers (\<open>exec_result\<close>, \<open>completion\<close>) and what the clock reads are inputs.
\<close>

section \<open>State\<close>

datatype exec_result = Exec_ok | Exec_raised string | Exec_cancelled

datatype completion = Complete | Incomplete | Complete_raised string

datatype frame =
    In_execute nat
  | Observe_start nat
  | In_sleep nat time

fun frame_gen :: "frame \<Rightarrow> nat" where
  "frame_gen (In_execute g) = g"
| "frame_gen (Observe_start g) = g"
| "frame_gen (In_sleep g _) = g"

record target_runner =
  tr_target_id :: string
  tr_active :: "string option"
  tr_execution_generation :: nat
  tr_frames :: "string \<rightharpoonup> frame"

record runner_world =
  rw_runner :: target_runner
  rw_records :: records
  rw_changes :: "command_record list"

definition POLL_INTERVAL_S :: rat where
  "POLL_INTERVAL_S = 1 / 50"

definition OBSERVE_TIMEOUT_S :: rat where
  "OBSERVE_TIMEOUT_S = 10"

definition new_target_runner :: "string \<Rightarrow> target_runner" where
  "new_target_runner target_id =
     \<lparr>tr_target_id = target_id, tr_active = None, tr_execution_generation = 1,
      tr_frames = Map.empty\<rparr>"

section \<open>Operations\<close>

definition runner_busy :: "runner_world \<Rightarrow> bool" where
  "runner_busy w \<longleftrightarrow>
     (case tr_active (rw_runner w) of
        None \<Rightarrow> False
      | Some c \<Rightarrow> (case rw_records w c of None \<Rightarrow> False | Some r \<Rightarrow> cr_status r \<noteq> TERMINAL))"

definition bump_generation :: "target_runner \<Rightarrow> target_runner" where
  "bump_generation tr = tr\<lparr>tr_execution_generation := Suc (tr_execution_generation tr)\<rparr>"

definition update_record :: "string \<Rightarrow> (command_record \<Rightarrow> command_record) \<Rightarrow> runner_world \<Rightarrow> runner_world" where
  "update_record c f w = w\<lparr>rw_records := (rw_records w)(c := map_option f (rw_records w c))\<rparr>"

definition touch :: "string \<Rightarrow> time \<Rightarrow> runner_world \<Rightarrow> runner_world" where
  "touch c wall w =
     (let w1 = update_record c (\<lambda>r. r\<lparr>cr_updated_at := wall\<rparr>) w
      in w1\<lparr>rw_changes := rw_changes w1 @
             (case rw_records w1 c of None \<Rightarrow> [] | Some r \<Rightarrow> [r])\<rparr>)"

definition set_frame :: "string \<Rightarrow> frame option \<Rightarrow> runner_world \<Rightarrow> runner_world" where
  "set_frame c f w =
     w\<lparr>rw_runner := (rw_runner w)\<lparr>tr_frames := (tr_frames (rw_runner w))(c := f)\<rparr>\<rparr>"

definition set_status :: "command_status \<Rightarrow> string \<Rightarrow> time \<Rightarrow> runner_world \<Rightarrow> runner_world" where
  "set_status st c wall w = touch c wall (update_record c (\<lambda>r. r\<lparr>cr_status := st\<rparr>) w)"

definition finish ::
    "string \<Rightarrow> command_outcome \<Rightarrow> completion_requirement option \<Rightarrow> time \<Rightarrow> runner_world \<Rightarrow> runner_world" where
  "finish c outcome achieved wall w =
     (let w1 = touch c wall (update_record c
            (\<lambda>r. r\<lparr>cr_status := TERMINAL, cr_outcome := Some outcome,
                   cr_achieved_completion := achieved\<rparr>) w)
      in if tr_active (rw_runner w1) = Some c
         then w1\<lparr>rw_runner := (rw_runner w1)\<lparr>tr_active := None\<rparr>\<rparr> else w1)"

definition internal_error :: "string \<Rightarrow> params" where
  "internal_error m = [(''code'', PStr (error_code_value INTERNAL_ERROR)), (''message'', PStr m)]"

definition submit_begin ::
    "target_manifest \<Rightarrow> string \<Rightarrow> time \<Rightarrow> runner_world \<Rightarrow> fusion_error + runner_world" where
  "submit_begin manifest c wall w =
     (case rw_records w c of
        None \<Rightarrow> Inr w
      | Some r \<Rightarrow>
         (case get_action manifest (cr_action r) of
            None \<Rightarrow> Inl (FusionError UNKNOWN_ACTION
              (''unknown action '' @ quoted (cr_action r) @ '' for target '' @
               quoted (tr_target_id (rw_runner w))))
          | Some spec \<Rightarrow>
             let is_control = (as_priority spec = Priority_control)
             in if runner_busy w \<and> \<not> is_control
                then Inl (FusionError BUSY
                  (''target '' @ quoted (tr_target_id (rw_runner w)) @ '' is busy''))
                else
                  let w1 = (if runner_busy w \<and> is_control
                            then w\<lparr>rw_runner := bump_generation (rw_runner w)\<rparr> else w);
                      gen = tr_execution_generation (rw_runner w1);
                      w2 = update_record c (\<lambda>r. r\<lparr>cr_execution_generation := gen\<rparr>) w1;
                      w3 = w2\<lparr>rw_runner := (rw_runner w2)\<lparr>tr_active := Some c\<rparr>\<rparr>;
                      w4 = set_status DISPATCHING c wall w3
                  in Inr (set_frame c (Some (In_execute gen)) w4)))"

definition submit_resume :: "exec_result \<Rightarrow> string \<Rightarrow> time \<Rightarrow> runner_world \<Rightarrow> runner_world" where
  "submit_resume res c wall w =
     (case (tr_frames (rw_runner w) c, rw_records w c) of
        (Some (In_execute gen), Some r) \<Rightarrow>
          let w0 = set_frame c None w
          in (case res of
                Exec_ok \<Rightarrow>
                  let w1 = set_status DISPATCHED c wall w0
                  in if cr_completion_requirement r = Req_DISPATCHED
                     then finish c SUCCEEDED (Some Req_DISPATCHED) wall w1
                     else
                       let w2 = set_status ACKNOWLEDGED c wall w1
                       in if cr_completion_requirement r = Req_ACKNOWLEDGED
                          then finish c SUCCEEDED (Some Req_ACKNOWLEDGED) wall w2
                          else set_frame c (Some (Observe_start gen))
                                 (set_status OBSERVING c wall w2)
              | Exec_cancelled \<Rightarrow> finish c CANCELLED None wall w0
              | Exec_raised m \<Rightarrow>
                  finish c FAILED None wall
                    (update_record c (\<lambda>r. r\<lparr>cr_error := Some (internal_error m)\<rparr>) w0))
      | _ \<Rightarrow> w)"

text \<open>One turn of the loop of \<open>_observe\<close>, whose condition reads the clock as \<open>now\<close>.\<close>

definition observe_turn ::
    "nat \<Rightarrow> time \<Rightarrow> time \<Rightarrow> completion \<Rightarrow> string \<Rightarrow> time \<Rightarrow> runner_world \<Rightarrow> runner_world" where
  "observe_turn gen deadline now answer c wall w =
     (let w0 = set_frame c None w
      in if now < deadline
         then if gen \<noteq> tr_execution_generation (rw_runner w) then finish c CANCELLED None wall w0
              else (case answer of
                      Complete \<Rightarrow> finish c SUCCEEDED (Some Req_OBSERVED) wall w0
                    | Incomplete \<Rightarrow> set_frame c (Some (In_sleep gen deadline)) w
                    | Complete_raised m \<Rightarrow>
                        finish c FAILED None wall
                          (update_record c (\<lambda>r. r\<lparr>cr_error := Some (internal_error m)\<rparr>) w0))
         else finish c EXPIRED None wall w0)"

text \<open>
  A turn of the observing task: its first one also reads the clock (\<open>t0\<close>) to set the deadline.
\<close>

definition observe_step ::
    "string \<Rightarrow> time \<Rightarrow> time \<Rightarrow> completion \<Rightarrow> time \<Rightarrow> runner_world \<Rightarrow> runner_world" where
  "observe_step c t0 now answer wall w =
     (case tr_frames (rw_runner w) c of
        Some (Observe_start gen) \<Rightarrow> observe_turn gen (t0 + OBSERVE_TIMEOUT_S) now answer c wall w
      | Some (In_sleep gen deadline) \<Rightarrow> observe_turn gen deadline now answer c wall w
      | _ \<Rightarrow> w)"

text \<open>Cancellation of the observing task while it sleeps.\<close>

definition observe_cancelled :: "string \<Rightarrow> time \<Rightarrow> runner_world \<Rightarrow> runner_world" where
  "observe_cancelled c wall w =
     (case tr_frames (rw_runner w) c of
        Some (In_sleep _ _) \<Rightarrow> finish c CANCELLED None wall (set_frame c None w)
      | _ \<Rightarrow> w)"

section \<open>Effects of the building blocks\<close>

lemmas world_defs = update_record_def touch_def set_frame_def set_status_def finish_def Let_def

lemma runner_parts [simp]:
  "rw_runner (update_record c f w) = rw_runner w"
  "rw_runner (touch c wall w) = rw_runner w"
  "rw_runner (set_status st c wall w) = rw_runner w"
  "rw_records (set_frame c fr w) = rw_records w"
  "tr_frames (rw_runner (set_frame c fr w)) = (tr_frames (rw_runner w))(c := fr)"
  "tr_active (rw_runner (set_frame c fr w)) = tr_active (rw_runner w)"
  "tr_execution_generation (rw_runner (set_frame c fr w)) = tr_execution_generation (rw_runner w)"
  "tr_target_id (rw_runner (set_frame c fr w)) = tr_target_id (rw_runner w)"
  "tr_frames (rw_runner (finish c out ach wall w)) = tr_frames (rw_runner w)"
  "tr_execution_generation (rw_runner (finish c out ach wall w)) = tr_execution_generation (rw_runner w)"
  "tr_target_id (rw_runner (finish c out ach wall w)) = tr_target_id (rw_runner w)"
  "tr_active (rw_runner (finish c out ach wall w)) =
     (if tr_active (rw_runner w) = Some c then None else tr_active (rw_runner w))"
  by (simp_all add: world_defs)

lemma records_parts [simp]:
  "rw_records (update_record c f w) = (rw_records w)(c := map_option f (rw_records w c))"
  "rw_records (touch c wall w) =
     (rw_records w)(c := map_option (\<lambda>r. r\<lparr>cr_updated_at := wall\<rparr>) (rw_records w c))"
  "rw_records (set_status st c wall w) =
     (rw_records w)(c := map_option (\<lambda>r. r\<lparr>cr_status := st, cr_updated_at := wall\<rparr>) (rw_records w c))"
  "rw_records (finish c out ach wall w) =
     (rw_records w)(c := map_option (\<lambda>r. r\<lparr>cr_status := TERMINAL, cr_outcome := Some out,
        cr_achieved_completion := ach, cr_updated_at := wall\<rparr>) (rw_records w c))"
  by (auto simp: world_defs option.map_comp comp_def)

lemma bump_generation_parts [simp]:
  "tr_target_id (bump_generation tr) = tr_target_id tr"
  "tr_active (bump_generation tr) = tr_active tr"
  "tr_frames (bump_generation tr) = tr_frames tr"
  "tr_execution_generation (bump_generation tr) = Suc (tr_execution_generation tr)"
  by (simp_all add: bump_generation_def)

section \<open>Invariants\<close>

text \<open>
  A record is consistent when it has an outcome exactly when it is terminal, and when it reports an
  achieved completion exactly when it succeeded, namely the one that was required.
\<close>

definition record_ok :: "command_record \<Rightarrow> bool" where
  "record_ok r \<longleftrightarrow>
     (cr_status r = TERMINAL \<longleftrightarrow> cr_outcome r \<noteq> None) \<and>
     cr_achieved_completion r =
       (if cr_outcome r = Some SUCCEEDED then Some (cr_completion_requirement r) else None)"

fun frame_status :: "frame \<Rightarrow> command_status" where
  "frame_status (In_execute _) = DISPATCHING"
| "frame_status (Observe_start _) = OBSERVING"
| "frame_status (In_sleep _ _) = OBSERVING"

text \<open>The record \<open>r\<close> of a suspended command agrees with its frame \<open>f\<close>.\<close>

definition frame_ok :: "target_runner \<Rightarrow> frame \<Rightarrow> command_record \<Rightarrow> bool" where
  "frame_ok tr f r \<longleftrightarrow>
     cr_target_id r = tr_target_id tr \<and> cr_status r = frame_status f \<and>
     cr_execution_generation r = frame_gen f \<and> frame_gen f \<le> tr_execution_generation tr \<and>
     (cr_status r = OBSERVING \<longrightarrow> cr_completion_requirement r = Req_OBSERVED)"

definition runner_inv :: "runner_world \<Rightarrow> bool" where
  "runner_inv w \<longleftrightarrow>
     (let tr = rw_runner w; h = rw_records w in
       (\<forall>c f. tr_frames tr c = Some f \<longrightarrow> (\<exists>r. h c = Some r \<and> frame_ok tr f r)) \<and>
       (\<forall>c. tr_active tr = Some c \<longrightarrow> tr_frames tr c \<noteq> None) \<and>
       (\<forall>c f. tr_frames tr c = Some f \<longrightarrow> tr_active tr \<noteq> Some c \<longrightarrow>
          frame_gen f < tr_execution_generation tr) \<and>
       (\<forall>c r. h c = Some r \<longrightarrow> cr_target_id r = tr_target_id tr \<longrightarrow>
          record_ok r \<and> (cr_status r \<noteq> QUEUED \<longrightarrow> cr_status r \<noteq> TERMINAL \<longrightarrow> tr_frames tr c \<noteq> None)))"

lemma runner_inv_frame:
  "runner_inv w \<Longrightarrow> tr_frames (rw_runner w) c = Some f \<Longrightarrow>
   \<exists>r. rw_records w c = Some r \<and> frame_ok (rw_runner w) f r"
  by (simp add: runner_inv_def Let_def)

lemma runner_inv_active:
  "runner_inv w \<Longrightarrow> tr_active (rw_runner w) = Some c \<Longrightarrow> \<exists>f. tr_frames (rw_runner w) c = Some f"
  by (auto simp: runner_inv_def Let_def)

lemma runner_inv_stale:
  "runner_inv w \<Longrightarrow> tr_frames (rw_runner w) c = Some f \<Longrightarrow> tr_active (rw_runner w) \<noteq> Some c \<Longrightarrow>
   frame_gen f < tr_execution_generation (rw_runner w)"
  by (simp add: runner_inv_def Let_def)

lemma runner_inv_record:
  "runner_inv w \<Longrightarrow> rw_records w c = Some r \<Longrightarrow> cr_target_id r = tr_target_id (rw_runner w) \<Longrightarrow>
   record_ok r \<and> (cr_status r \<noteq> QUEUED \<longrightarrow> cr_status r \<noteq> TERMINAL \<longrightarrow> tr_frames (rw_runner w) c \<noteq> None)"
  by (auto simp: runner_inv_def Let_def)

lemma frame_status_live [simp]:
  "frame_status f \<noteq> QUEUED" "frame_status f \<noteq> TERMINAL"
  "QUEUED \<noteq> frame_status f" "TERMINAL \<noteq> frame_status f"
  by (cases f; simp)+

text \<open>Under the invariant the runner is busy exactly when it has an active command.\<close>

lemma runner_busy_iff: "runner_inv w \<Longrightarrow> runner_busy w \<longleftrightarrow> tr_active (rw_runner w) \<noteq> None"
  using runner_inv_active runner_inv_frame
  by (fastforce simp: runner_busy_def frame_ok_def split: option.splits)

text \<open>
  The one lemma behind every preservation proof: an operation that changes one record, its frame,
  the active command and the generation keeps the invariant if it does right by that record, and
  bumps the generation whenever it takes the active role from another command.
\<close>

lemma runner_inv_local:
  assumes inv: "runner_inv w"
    and rec: "rw_records w' = (rw_records w)(c \<mapsto> r')"
    and frames: "tr_frames (rw_runner w') = (tr_frames (rw_runner w))(c := fo)"
    and tid: "tr_target_id (rw_runner w') = tr_target_id (rw_runner w)"
    and gen: "tr_execution_generation (rw_runner w) \<le> tr_execution_generation (rw_runner w')"
    and other: "\<And>d. d \<noteq> c \<Longrightarrow> tr_active (rw_runner w') = Some d \<Longrightarrow> tr_active (rw_runner w) = Some d"
    and lost: "\<And>d. d \<noteq> c \<Longrightarrow> tr_active (rw_runner w) = Some d \<Longrightarrow> tr_active (rw_runner w') \<noteq> Some d \<Longrightarrow>
      tr_execution_generation (rw_runner w) < tr_execution_generation (rw_runner w')"
    and live: "\<And>f. fo = Some f \<Longrightarrow> frame_ok (rw_runner w') f r' \<and>
      (tr_active (rw_runner w') \<noteq> Some c \<longrightarrow> frame_gen f < tr_execution_generation (rw_runner w'))"
    and dead: "fo = None \<Longrightarrow> tr_active (rw_runner w') \<noteq> Some c \<and>
      (cr_target_id r' = tr_target_id (rw_runner w) \<longrightarrow> cr_status r' = QUEUED \<or> cr_status r' = TERMINAL)"
    and ok: "cr_target_id r' = tr_target_id (rw_runner w) \<Longrightarrow> record_ok r'"
  shows "runner_inv w'"
  unfolding runner_inv_def Let_def
proof (intro conjI allI impI)
  fix d f
  assume f: "tr_frames (rw_runner w') d = Some f"
  show "\<exists>r. rw_records w' d = Some r \<and> frame_ok (rw_runner w') f r"
  proof (cases "d = c")
    case True
    with f live show ?thesis by (auto simp: frames rec)
  next
    case False
    with f runner_inv_frame [OF inv, of d f] gen show ?thesis
      by (auto simp: frames rec frame_ok_def tid)
  qed
  assume "tr_active (rw_runner w') \<noteq> Some d"
  with f live lost [of d] gen runner_inv_stale [OF inv, of d f] runner_inv_frame [OF inv, of d f]
  show "frame_gen f < tr_execution_generation (rw_runner w')"
    by (cases "d = c"; cases "tr_active (rw_runner w) = Some d") (auto simp: frames frame_ok_def)
next
  fix d
  assume "tr_active (rw_runner w') = Some d"
  with dead other [of d] runner_inv_active [OF inv, of d]
  show "tr_frames (rw_runner w') d \<noteq> None"
    by (cases "d = c") (auto simp: frames)
next
  fix d r
  assume r: "rw_records w' d = Some r" "cr_target_id r = tr_target_id (rw_runner w')"
  show "record_ok r"
    using r ok runner_inv_record [OF inv, of d r] by (cases "d = c") (auto simp: rec tid)
  assume "cr_status r \<noteq> QUEUED" "cr_status r \<noteq> TERMINAL"
  with r dead runner_inv_record [OF inv, of d r] show "tr_frames (rw_runner w') d \<noteq> None"
    by (cases "d = c") (auto simp: rec tid frames)
qed

subsection \<open>Every operation keeps the invariant\<close>

lemma runner_inv_new [inv_intros]:
  "\<forall>c r. h c = Some r \<longrightarrow> cr_target_id r = tid \<longrightarrow> cr_status r = QUEUED \<and> record_ok r \<Longrightarrow>
   runner_inv \<lparr>rw_runner = new_target_runner tid, rw_records = h, rw_changes = ch\<rparr>"
  by (auto simp: runner_inv_def new_target_runner_def Let_def)

lemma runner_inv_bump [inv_intros]:
  "runner_inv w \<Longrightarrow> runner_inv (w\<lparr>rw_runner := bump_generation (rw_runner w)\<rparr>)"
  unfolding runner_inv_def Let_def by (simp add: frame_ok_def) (meson le_SucI less_SucI)

lemma submit_begin_Some:
  assumes "rw_records w c = Some r" and "submit_begin m c wall w = Inr w'"
  obtains spec where "get_action m (cr_action r) = Some spec"
    and "runner_busy w \<Longrightarrow> as_priority spec = Priority_control"
    and "rw_records w' = (rw_records w)(c \<mapsto> r\<lparr>cr_status := DISPATCHING, cr_updated_at := wall,
           cr_execution_generation := tr_execution_generation (rw_runner w')\<rparr>)"
    and "tr_frames (rw_runner w') = (tr_frames (rw_runner w))
           (c \<mapsto> In_execute (tr_execution_generation (rw_runner w')))"
    and "tr_active (rw_runner w') = Some c"
    and "tr_execution_generation (rw_runner w') =
           tr_execution_generation (rw_runner w) + (if runner_busy w then 1 else 0)"
    and "tr_target_id (rw_runner w') = tr_target_id (rw_runner w)"
proof -
  obtain spec where spec: "get_action m (cr_action r) = Some spec"
    using assms by (auto simp: submit_begin_def split: option.splits)
  have ctl: "runner_busy w \<Longrightarrow> as_priority spec = Priority_control"
    using assms spec by (auto simp: submit_begin_def Let_def split: if_splits)
  let ?w1 = "if runner_busy w then w\<lparr>rw_runner := bump_generation (rw_runner w)\<rparr> else w"
  let ?gen = "tr_execution_generation (rw_runner ?w1)"
  have w': "w' = set_frame c (Some (In_execute ?gen)) (set_status DISPATCHING c wall
      ((update_record c (\<lambda>r. r\<lparr>cr_execution_generation := ?gen\<rparr>) ?w1)
        \<lparr>rw_runner := (rw_runner ?w1)\<lparr>tr_active := Some c\<rparr>\<rparr>))"
    using assms spec ctl by (auto simp: submit_begin_def Let_def split: if_splits)
  show ?thesis
    by (rule that [OF spec ctl]) (auto simp: w' assms(1) fun_eq_iff)
qed

lemma runner_inv_submit [inv_intros]:
  assumes inv: "runner_inv w" and r: "rw_records w c = Some r" and "cr_status r = QUEUED"
    and "cr_target_id r = tr_target_id (rw_runner w)" and sub: "submit_begin m c wall w = Inr w'"
  shows "runner_inv w'"
proof -
  from r sub obtain spec where
    recs: "rw_records w' = (rw_records w)(c \<mapsto> r\<lparr>cr_status := DISPATCHING, cr_updated_at := wall,
       cr_execution_generation := tr_execution_generation (rw_runner w')\<rparr>)"
    and frames: "tr_frames (rw_runner w') = (tr_frames (rw_runner w))
       (c := Some (In_execute (tr_execution_generation (rw_runner w'))))"
    and act: "tr_active (rw_runner w') = Some c"
    and gen: "tr_execution_generation (rw_runner w') =
       tr_execution_generation (rw_runner w) + (if runner_busy w then 1 else 0)"
    and tid: "tr_target_id (rw_runner w') = tr_target_id (rw_runner w)"
    by (rule submit_begin_Some)
  show ?thesis
    using assms runner_inv_record [OF inv r] runner_busy_iff [OF inv]
    by (intro runner_inv_local [OF inv recs frames tid])
      (auto simp: act gen tid frame_ok_def record_ok_def)
qed

lemma runner_inv_finish:
  assumes inv: "runner_inv w" and r: "rw_records w c = Some r"
    and f: "tr_frames (rw_runner w) c = Some f"
    and w0: "rw_records w0 = (rw_records w)(c \<mapsto> r0)" "same_content r r0"
      "rw_runner w0 = (rw_runner w)\<lparr>tr_frames := (tr_frames (rw_runner w))(c := None)\<rparr>"
    and ach: "ach = (if out = SUCCEEDED then Some (cr_completion_requirement r) else None)"
  shows "runner_inv (finish c out ach wall w0)"
  by (rule runner_inv_local [OF inv, where c = c and fo = None and
        r' = "r0\<lparr>cr_status := TERMINAL, cr_outcome := Some out, cr_achieved_completion := ach,
          cr_updated_at := wall\<rparr>"])
    (use w0 ach in \<open>auto simp: record_ok_def same_content_def split: if_splits\<close>)

lemma runner_inv_resume [inv_intros]:
  assumes inv: "runner_inv w"
  shows "runner_inv (submit_resume res c wall w)"
proof (cases "(tr_frames (rw_runner w) c, rw_records w c)" rule: prod.exhaust)
  case (Pair fo ro)
  show ?thesis
  proof (cases "\<exists>gen r. fo = Some (In_execute gen) \<and> ro = Some r")
    case False
    with Pair inv show ?thesis
      by (auto simp: submit_resume_def split: option.split frame.split)
  next
    case True
    with Pair obtain gen r where f: "tr_frames (rw_runner w) c = Some (In_execute gen)"
      and r: "rw_records w c = Some r" by auto
    note fin = runner_inv_finish [OF inv r f]
    note ok = runner_inv_frame [OF inv f] runner_inv_record [OF inv r]
    show ?thesis
    proof (cases res)
      case Exec_ok
      have obs: "runner_inv (set_frame c (Some (Observe_start gen)) (set_status OBSERVING c wall
          (set_status ACKNOWLEDGED c wall (set_status DISPATCHED c wall (set_frame c None w)))))"
        if "cr_completion_requirement r = Req_OBSERVED"
        using that r f ok runner_inv_stale [OF inv f] runner_inv_active [OF inv]
        by (intro runner_inv_local [OF inv, where c = c and fo = "Some (Observe_start gen)" and
              r' = "r\<lparr>cr_status := OBSERVING, cr_updated_at := wall\<rparr>"])
          (auto simp: frame_ok_def record_ok_def fun_eq_iff)
      show ?thesis
        using r f Exec_ok obs
        by (cases "cr_completion_requirement r")
          (auto simp: submit_resume_def Let_def same_content_def intro!: fin)
    next
      case (Exec_raised m)
      with r f show ?thesis
        by (auto simp: submit_resume_def Let_def same_content_def intro!: fin)
    next
      case Exec_cancelled
      with r f show ?thesis
        by (auto simp: submit_resume_def Let_def same_content_def intro!: fin)
    qed
  qed
qed

lemma runner_inv_turn:
  assumes inv: "runner_inv w" and f: "tr_frames (rw_runner w) c = Some f"
    and obs: "frame_status f = OBSERVING"
  shows "runner_inv (observe_turn (frame_gen f) deadline now answer c wall w)"
proof -
  from runner_inv_frame [OF inv f] obtain r where r: "rw_records w c = Some r"
    and fr: "frame_ok (rw_runner w) f r" by blast
  then have req: "cr_completion_requirement r = Req_OBSERVED"
    using obs by (simp add: frame_ok_def)
  note fin = runner_inv_finish [OF inv r f]
  have sleep: "runner_inv (set_frame c (Some (In_sleep (frame_gen f) deadline)) w)"
    using r f fr obs runner_inv_stale [OF inv f] runner_inv_record [OF inv r]
    by (intro runner_inv_local [OF inv, where c = c and r' = r and
          fo = "Some (In_sleep (frame_gen f) deadline)"])
      (auto simp: frame_ok_def fun_eq_iff set_frame_def)
  show ?thesis
    using r sleep req
    by (auto simp: observe_turn_def Let_def same_content_def set_frame_def split: completion.split
        intro!: fin)
qed

lemma runner_inv_observe [inv_intros]:
  assumes inv: "runner_inv w"
  shows "runner_inv (observe_step c t0 now answer wall w)"
  using inv runner_inv_turn [OF inv, of c]
  by (fastforce simp: observe_step_def split: option.split frame.split)

lemma runner_inv_cancelled [inv_intros]:
  assumes inv: "runner_inv w"
  shows "runner_inv (observe_cancelled c wall w)"
proof (cases "tr_frames (rw_runner w) c")
  case None
  with inv show ?thesis by (simp add: observe_cancelled_def)
next
  case (Some f)
  from runner_inv_frame [OF inv Some] obtain r where r: "rw_records w c = Some r" by blast
  have "runner_inv (finish c CANCELLED None wall (set_frame c None w))"
    by (rule runner_inv_finish [OF inv r Some])
      (use r in \<open>auto simp: set_frame_def fun_upd_idem intro: same_content_refl\<close>)
  with inv Some show ?thesis
    by (simp add: observe_cancelled_def split: frame.split)
qed

section \<open>The step relation\<close>

text \<open>
  One step of a runner in its Runtime: the ledger files a new command, a command is submitted or
  rejected, a suspended coroutine goes on, the generation is bumped (control session handover,
  Apply), or something happens that does not concern this runner.
\<close>

definition reject_record :: "params \<Rightarrow> command_record \<Rightarrow> command_record" where
  "reject_record err r =
     r\<lparr>cr_status := TERMINAL, cr_outcome := Some REJECTED, cr_error := Some err\<rparr>"

inductive runner_step :: "runner_world \<Rightarrow> runner_world \<Rightarrow> bool" where
  step_file: "rw_records w c = None \<Longrightarrow> cr_status r = QUEUED \<Longrightarrow> record_ok r \<Longrightarrow>
    runner_step w (w\<lparr>rw_records := (rw_records w)(c \<mapsto> r)\<rparr>)"
| step_submit: "rw_records w c = Some r \<Longrightarrow> cr_status r = QUEUED \<Longrightarrow>
    cr_target_id r = tr_target_id (rw_runner w) \<Longrightarrow> submit_begin m c wall w = Inr w' \<Longrightarrow>
    runner_step w w'"
| step_reject: "rw_records w c = Some r \<Longrightarrow> cr_status r = QUEUED \<Longrightarrow>
    runner_step w (update_record c (reject_record err) w)"
| step_resume: "runner_step w (submit_resume res c wall w)"
| step_observe: "runner_step w (observe_step c t0 now answer wall w)"
| step_cancelled: "runner_step w (observe_cancelled c wall w)"
| step_bump: "runner_step w (w\<lparr>rw_runner := bump_generation (rw_runner w)\<rparr>)"
| step_foreign: "(\<And>c r. cr_target_id r = tr_target_id (rw_runner w) \<Longrightarrow>
      h c = Some r \<longleftrightarrow> rw_records w c = Some r) \<Longrightarrow>
    runner_step w (w\<lparr>rw_records := h, rw_changes := ch\<rparr>)"

inductive runner_run :: "runner_world \<Rightarrow> runner_world \<Rightarrow> bool" where
  run_refl: "runner_run w w"
| run_step: "runner_run w w1 \<Longrightarrow> runner_step w1 w2 \<Longrightarrow> runner_run w w2"

lemma runner_step_inv [inv_intros]:
  assumes "runner_step w w'" and inv: "runner_inv w"
  shows "runner_inv w'"
  using assms
proof (induction rule: runner_step.induct)
  case (step_file w c r)
  then have "tr_frames (rw_runner w) c = None" "tr_active (rw_runner w) \<noteq> Some c"
    using runner_inv_frame [of w c] runner_inv_active [of w c] by fastforce+
  with step_file show ?case
    by (intro runner_inv_local [OF step_file.prems, where c = c and r' = r and fo = None])
      (auto simp: fun_eq_iff)
next
  case (step_reject w c r err)
  have "tr_frames (rw_runner w) c = None"
    using runner_inv_frame [OF step_reject.prems, of c] step_reject.hyps
    by (cases "tr_frames (rw_runner w) c") (auto simp: frame_ok_def)
  moreover from this have "tr_active (rw_runner w) \<noteq> Some c"
    using runner_inv_active [OF step_reject.prems, of c] by auto
  ultimately show ?case
    using step_reject.hyps runner_inv_record [OF step_reject.prems, of c r]
    by (intro runner_inv_local [OF step_reject.prems, where c = c and fo = None and
          r' = "reject_record err r"])
      (auto simp: reject_record_def record_ok_def fun_eq_iff)
next
  case (step_foreign w h ch)
  let ?w = "w\<lparr>rw_records := h, rw_changes := ch\<rparr>"
  note same = step_foreign.hyps and inv = step_foreign.prems
  show ?case
    unfolding runner_inv_def Let_def
  proof (intro conjI allI impI)
    fix c f
    assume "tr_frames (rw_runner ?w) c = Some f"
    with runner_inv_frame [OF inv, of c f] same
    show "\<exists>r. rw_records ?w c = Some r \<and> frame_ok (rw_runner ?w) f r"
      by (auto simp: frame_ok_def)
  next
    fix c f
    assume "tr_frames (rw_runner ?w) c = Some f" and "tr_active (rw_runner ?w) \<noteq> Some c"
    with runner_inv_stale [OF inv, of c f] show "frame_gen f < tr_execution_generation (rw_runner ?w)"
      by simp
  next
    fix c
    assume "tr_active (rw_runner ?w) = Some c"
    with runner_inv_active [OF inv, of c] show "tr_frames (rw_runner ?w) c \<noteq> None"
      by auto
  next
    fix c r
    assume r: "rw_records ?w c = Some r" "cr_target_id r = tr_target_id (rw_runner ?w)"
    with same have "rw_records w c = Some r" by simp
    with runner_inv_record [OF inv, of c r] r show "record_ok r"
      and "cr_status r \<noteq> QUEUED \<Longrightarrow> cr_status r \<noteq> TERMINAL \<Longrightarrow> tr_frames (rw_runner ?w) c \<noteq> None"
      by auto
  qed
next
  case (step_submit w c r m wall w')
  then show ?case by (blast intro: runner_inv_submit)
qed (simp_all add: runner_inv_resume runner_inv_observe runner_inv_cancelled runner_inv_bump)

section \<open>Records only move forward\<close>

text \<open>
  \<open>record_advances r r'\<close>: the same command, no earlier in its lifecycle, and untouched once
  terminal.
\<close>

definition record_advances :: "command_record \<Rightarrow> command_record \<Rightarrow> bool" where
  "record_advances r r' \<longleftrightarrow>
     same_content r r' \<and> cr_status r \<le> cr_status r' \<and> (cr_status r = TERMINAL \<longrightarrow> r' = r)"

lemma record_advances_refl [simp]: "record_advances r r"
  by (simp add: record_advances_def)

lemma record_advances_trans:
  "record_advances r1 r2 \<Longrightarrow> record_advances r2 r3 \<Longrightarrow> record_advances r1 r3"
  unfolding record_advances_def by (auto intro: same_content_trans order.trans)

text \<open>What each operation does to one record of the store.\<close>

lemma submit_begin_records:
  "submit_begin m c wall w = Inr w' \<Longrightarrow> rw_records w d = Some r \<Longrightarrow> cr_status r = QUEUED \<or> d \<noteq> c \<Longrightarrow>
   \<exists>r'. rw_records w' d = Some r' \<and> record_advances r r'"
  by (cases "d = c")
    (auto simp: submit_begin_def record_advances_def same_content_def status_order Let_def
      split: option.splits if_splits)

lemma submit_resume_records:
  assumes inv: "runner_inv w" and r: "rw_records w d = Some r"
  shows "\<exists>r'. rw_records (submit_resume res c wall w) d = Some r' \<and> record_advances r r'"
proof (cases "d = c")
  case False
  with r show ?thesis
    by (auto simp: submit_resume_def Let_def split: option.split frame.split exec_result.split)
next
  case True
  with r runner_inv_frame [OF inv, of c] show ?thesis
    by (auto simp: submit_resume_def Let_def record_advances_def same_content_def frame_ok_def
        status_order split: option.split frame.split exec_result.split)
qed

lemma observe_step_records:
  assumes inv: "runner_inv w" and r: "rw_records w d = Some r"
  shows "\<exists>r'. rw_records (observe_step c t0 now answer wall w) d = Some r' \<and> record_advances r r'"
proof (cases "d = c")
  case False
  with r show ?thesis
    by (auto simp: observe_step_def observe_turn_def Let_def
        split: option.split frame.split completion.split)
next
  case True
  with r runner_inv_frame [OF inv, of c] show ?thesis
    by (auto simp: observe_step_def observe_turn_def Let_def record_advances_def same_content_def
        frame_ok_def status_order split: option.split frame.split completion.split)
qed

lemma observe_cancelled_records:
  assumes inv: "runner_inv w" and r: "rw_records w d = Some r"
  shows "\<exists>r'. rw_records (observe_cancelled c wall w) d = Some r' \<and> record_advances r r'"
  using r runner_inv_frame [OF inv, of c]
  by (cases "d = c")
    (auto simp: observe_cancelled_def record_advances_def same_content_def frame_ok_def status_order
      split: option.split frame.split)

lemma runner_step_tid: "runner_step w w' \<Longrightarrow> tr_target_id (rw_runner w') = tr_target_id (rw_runner w)"
proof (induction rule: runner_step.induct)
  case (step_submit w c r m wall w')
  then show ?case by (auto elim: submit_begin_Some)
next
  case (step_resume w res c wall)
  then show ?case
    by (auto simp: submit_resume_def Let_def split: option.split frame.split exec_result.split)
next
  case (step_observe w c t0 now answer wall)
  then show ?case
    by (auto simp: observe_step_def observe_turn_def Let_def
        split: option.split frame.split completion.split)
next
  case (step_cancelled w c wall)
  then show ?case by (auto simp: observe_cancelled_def split: option.split frame.split)
qed simp_all

lemma runner_step_advances:
  assumes "runner_step w w'" and "runner_inv w" and "rw_records w c = Some r"
    and "cr_target_id r = tr_target_id (rw_runner w)"
  shows "\<exists>r'. rw_records w' c = Some r' \<and> record_advances r r'"
  using assms
proof (induction rule: runner_step.induct)
  case (step_submit w d r' m wall w')
  then show ?case by (intro submit_begin_records) auto
next
  case (step_reject w d r' err)
  then show ?case
    by (cases "c = d") (auto simp: reject_record_def record_advances_def same_content_def)
next
  case (step_foreign w h ch)
  from step_foreign.hyps [OF step_foreign.prems(3), of c] step_foreign.prems(2)
  show ?case by simp
qed (auto simp: submit_resume_records observe_step_records observe_cancelled_records)

lemma runner_run_inv [inv_intros]: "runner_run w w' \<Longrightarrow> runner_inv w \<Longrightarrow> runner_inv w'"
  by (induction rule: runner_run.induct) (auto intro: runner_step_inv)

lemma runner_run_tid: "runner_run w w' \<Longrightarrow> tr_target_id (rw_runner w') = tr_target_id (rw_runner w)"
  by (induction rule: runner_run.induct) (auto simp: runner_step_tid)

lemma runner_run_advances:
  assumes "runner_run w w'" and "runner_inv w" and "rw_records w c = Some r"
    and "cr_target_id r = tr_target_id (rw_runner w)"
  shows "\<exists>r'. rw_records w' c = Some r' \<and> record_advances r r'"
  using assms
proof (induction rule: runner_run.induct)
  case (run_step w w1 w2)
  then obtain r1 where r1: "rw_records w1 c = Some r1" "record_advances r r1" by blast
  moreover have "cr_target_id r1 = tr_target_id (rw_runner w1)"
    using r1(2) run_step.prems(3) runner_run_tid [OF run_step.hyps(1)]
    by (simp add: record_advances_def same_content_def)
  ultimately obtain r2 where "rw_records w2 c = Some r2" "record_advances r1 r2"
    using runner_step_advances [OF run_step.hyps(2)] runner_run_inv [OF run_step.hyps(1)]
      run_step.prems(1) by blast
  with r1(2) show ?case by (blast intro: record_advances_trans)
qed auto

section \<open>Stale generations\<close>

text \<open>
  A command under observation whose generation is no longer the runner's: it is still suspended, or
  it has ended as cancelled or expired.
\<close>

definition doomed :: "string \<Rightarrow> runner_world \<Rightarrow> bool" where
  "doomed c w \<longleftrightarrow>
     (\<exists>f. tr_frames (rw_runner w) c = Some f \<and> frame_status f = OBSERVING \<and>
        frame_gen f < tr_execution_generation (rw_runner w)) \<or>
     (\<exists>r. rw_records w c = Some r \<and> cr_target_id r = tr_target_id (rw_runner w) \<and>
        cr_status r = TERMINAL \<and> cr_outcome r \<in> {Some CANCELLED, Some EXPIRED})"

lemma doomed_frame:
  assumes "runner_inv w" and "tr_frames (rw_runner w) c = Some f"
  obtains r where "rw_records w c = Some r" and "cr_target_id r = tr_target_id (rw_runner w)"
    and "cr_status r = frame_status f"
  using runner_inv_frame [OF assms] by (auto simp: frame_ok_def)

lemma resume_other_frames:
  "tr_frames (rw_runner w) c = Some f \<Longrightarrow> frame_status f = OBSERVING \<Longrightarrow>
   tr_frames (rw_runner (submit_resume res d wall w)) c = Some f \<and>
   tr_execution_generation (rw_runner (submit_resume res d wall w)) = tr_execution_generation (rw_runner w)"
  by (cases "c = d")
    (auto simp: submit_resume_def Let_def split: option.split frame.splits exec_result.split)

lemma observe_stale:
  assumes inv: "runner_inv w" and f: "tr_frames (rw_runner w) c = Some f"
    and obs: "frame_status f = OBSERVING" and stale: "frame_gen f < tr_execution_generation (rw_runner w)"
  shows "doomed c (observe_step d t0 now answer wall w)"
proof (cases "d = c")
  case False
  with f obs stale show ?thesis
    by (auto simp: doomed_def observe_step_def observe_turn_def Let_def
        split: option.split frame.split completion.split)
next
  case True
  obtain r where "rw_records w c = Some r" and "cr_target_id r = tr_target_id (rw_runner w)"
    using inv f by (rule doomed_frame)
  with True f obs stale show ?thesis
    by (cases f) (auto simp: doomed_def observe_step_def observe_turn_def Let_def)
qed

lemma doomed_step:
  assumes step: "runner_step w w'" and inv: "runner_inv w" and doomed: "doomed c w"
  shows "doomed c w'"
proof (cases "\<exists>f. tr_frames (rw_runner w) c = Some f \<and> frame_status f = OBSERVING \<and>
    frame_gen f < tr_execution_generation (rw_runner w)")
  case False
  with doomed obtain r where r: "rw_records w c = Some r" "cr_target_id r = tr_target_id (rw_runner w)"
    "cr_status r = TERMINAL" "cr_outcome r \<in> {Some CANCELLED, Some EXPIRED}"
    by (auto simp: doomed_def)
  with runner_step_advances [OF step inv r(1,2)] have "rw_records w' c = Some r"
    by (auto simp: record_advances_def)
  with r show ?thesis by (simp add: doomed_def runner_step_tid [OF step])
next
  case True
  then obtain f where f: "tr_frames (rw_runner w) c = Some f" and obs: "frame_status f = OBSERVING"
    and stale: "frame_gen f < tr_execution_generation (rw_runner w)" by blast
  obtain r where r: "rw_records w c = Some r" "cr_target_id r = tr_target_id (rw_runner w)"
    "cr_status r = frame_status f"
    using inv f by (rule doomed_frame)
  from step show ?thesis
  proof cases
    case (step_submit d rd m wall)
    with r have "d \<noteq> c" by auto
    with step_submit f obs stale show ?thesis
      by (auto simp: doomed_def elim!: submit_begin_Some)
  next
    case (step_resume res d wall)
    with resume_other_frames [OF f obs] obs stale show ?thesis
      by (auto simp: doomed_def)
  next
    case (step_observe d t0 now answer wall)
    with observe_stale [OF inv f obs stale] show ?thesis by simp
  next
    case (step_cancelled d wall)
    with f obs stale r show ?thesis
      by (cases "d = c")
        (auto simp: doomed_def observe_cancelled_def split: option.split frame.split)
  qed (use f obs stale in \<open>auto simp: doomed_def\<close>)
qed

lemma doomed_run: "runner_run w w' \<Longrightarrow> runner_inv w \<Longrightarrow> doomed c w \<Longrightarrow> doomed c w'"
  by (induction rule: runner_run.induct) (auto intro: doomed_step runner_run_inv)

section \<open>The polling loop ends\<close>

text \<open>
  \<open>polled c w n t w'\<close>: a run from \<open>w\<close>, where command \<open>c\<close> is about to be observed, to \<open>w'\<close> with
  \<open>n\<close> turns of its polling loop, the last of which read the clock as \<open>t\<close>. Anything may happen
  between two turns. The rules state what the code relies on of its clock: the loop's first read is
  not before the read that set the deadline, and after \<open>sleep(0.02)\<close> the clock is at least 0.02
  further on. What the adapter answers is arbitrary.
\<close>

inductive polled :: "string \<Rightarrow> runner_world \<Rightarrow> nat \<Rightarrow> time \<Rightarrow> runner_world \<Rightarrow> bool" for c w where
  polled_first: "tr_frames (rw_runner w) c = Some (Observe_start g) \<Longrightarrow> t0 \<le> t \<Longrightarrow>
    polled c w 1 t (observe_step c t0 t answer wall w)"
| polled_other: "polled c w n t w1 \<Longrightarrow> runner_step w1 w2 \<Longrightarrow> polled c w n t w2"
| polled_turn: "polled c w n t w1 \<Longrightarrow> t + POLL_INTERVAL_S \<le> now \<Longrightarrow>
    polled c w (Suc n) now (observe_step c t0 now answer wall w1)"

definition ended :: "string \<Rightarrow> runner_world \<Rightarrow> bool" where
  "ended c w \<longleftrightarrow>
     (\<exists>r. rw_records w c = Some r \<and> cr_target_id r = tr_target_id (rw_runner w) \<and> cr_status r = TERMINAL)"

lemma ended_step: "runner_step w w' \<Longrightarrow> runner_inv w \<Longrightarrow> ended c w \<Longrightarrow> ended c w'"
  using runner_step_advances [of w w' c] runner_step_tid [of w w']
  by (fastforce simp: ended_def record_advances_def)

lemma turn_ends_or_sleeps:
  assumes inv: "runner_inv w" and f: "tr_frames (rw_runner w) c = Some (In_sleep g deadline)"
  shows "ended c (observe_step c t0 now answer wall w) \<or>
    now < deadline \<and> tr_frames (rw_runner (observe_step c t0 now answer wall w)) c = Some (In_sleep g deadline)"
proof -
  obtain r where "rw_records w c = Some r" and "cr_target_id r = tr_target_id (rw_runner w)"
    using inv f by (rule doomed_frame)
  with f show ?thesis
    by (auto simp: ended_def observe_step_def observe_turn_def Let_def split: completion.split)
qed

lemma sleeping_step:
  assumes step: "runner_step w w'" and inv: "runner_inv w"
    and f: "tr_frames (rw_runner w) c = Some (In_sleep g deadline)"
  shows "ended c w' \<or> tr_frames (rw_runner w') c = Some (In_sleep g deadline)"
proof -
  obtain r where r: "rw_records w c = Some r" "cr_target_id r = tr_target_id (rw_runner w)"
    "cr_status r = OBSERVING"
    using inv f by (rule doomed_frame) simp
  from step show ?thesis
  proof cases
    case (step_submit d rd m wall)
    with r have "d \<noteq> c" by auto
    with step_submit f show ?thesis by (auto elim!: submit_begin_Some)
  next
    case (step_resume res d wall)
    with resume_other_frames [OF f] show ?thesis by auto
  next
    case (step_observe d t0 now answer wall)
    show ?thesis
    proof (cases "d = c")
      case True
      with step_observe turn_ends_or_sleeps [OF inv f] show ?thesis by blast
    next
      case False
      with step_observe f show ?thesis
        by (auto simp: observe_step_def observe_turn_def Let_def
            split: option.split frame.split completion.split)
    qed
  next
    case (step_cancelled d wall)
    with f r show ?thesis
      by (cases "d = c") (auto simp: ended_def observe_cancelled_def split: option.split frame.split)
  qed (use f in auto)
qed

lemma polled_run: "polled c w n t w' \<Longrightarrow> runner_run w w'"
  by (induction rule: polled.induct)
    (blast intro: runner_run.intros runner_step.intros)+

lemma polled_progress:
  assumes "polled c w n t w'" and inv: "runner_inv w"
  shows "ended c w' \<or> (\<exists>g deadline. tr_frames (rw_runner w') c = Some (In_sleep g deadline) \<and>
    t < deadline \<and> deadline + (of_nat n - 1) * POLL_INTERVAL_S \<le> t + OBSERVE_TIMEOUT_S)"
  using assms(1)
proof (induction rule: polled.induct)
  case (polled_first g t0 t answer wall)
  obtain r where "rw_records w c = Some r" and "cr_target_id r = tr_target_id (rw_runner w)"
    using inv polled_first(1) by (rule doomed_frame)
  with polled_first show ?case
    by (auto simp: ended_def observe_step_def observe_turn_def Let_def split: completion.split)
next
  case (polled_other n t w1 w2)
  with inv have inv1: "runner_inv w1" by (blast intro: runner_run_inv polled_run)
  from polled_other.IH show ?case
    using ended_step [OF polled_other.hyps(2) inv1] sleeping_step [OF polled_other.hyps(2) inv1]
    by blast
next
  case (polled_turn n t w1 now t0 answer wall)
  with inv have inv1: "runner_inv w1" by (blast intro: runner_run_inv polled_run)
  from polled_turn.IH show ?case
  proof
    assume "ended c w1"
    then show ?thesis using ended_step [OF step_observe inv1] by blast
  next
    assume "\<exists>g deadline. tr_frames (rw_runner w1) c = Some (In_sleep g deadline) \<and> t < deadline \<and>
      deadline + (of_nat n - 1) * POLL_INTERVAL_S \<le> t + OBSERVE_TIMEOUT_S"
    then obtain g deadline where f: "tr_frames (rw_runner w1) c = Some (In_sleep g deadline)"
      and "deadline + (of_nat n - 1) * POLL_INTERVAL_S \<le> t + OBSERVE_TIMEOUT_S" by blast
    with polled_turn.hyps(2)
    have "deadline + (of_nat (Suc n) - 1) * POLL_INTERVAL_S \<le> now + OBSERVE_TIMEOUT_S"
      by (simp add: algebra_simps)
    with turn_ends_or_sleeps [OF inv1 f] f show ?thesis by blast
  qed
qed

lemma polled_enough:
  assumes "500 < n"
  shows "\<not> (t < d \<and> d + (of_nat n - 1) * POLL_INTERVAL_S \<le> t + OBSERVE_TIMEOUT_S)"
proof
  assume "t < d \<and> d + (of_nat n - 1) * POLL_INTERVAL_S \<le> t + OBSERVE_TIMEOUT_S"
  then have "(of_nat n - 1) * POLL_INTERVAL_S < OBSERVE_TIMEOUT_S" by linarith
  then have "of_nat n < (of_nat 501 :: rat)"
    by (simp add: POLL_INTERVAL_S_def OBSERVE_TIMEOUT_S_def)
  with assms show False
    unfolding of_nat_less_iff by simp
qed

lemma polled_exists:
  assumes "tr_frames (rw_runner w) c = Some (Observe_start g)"
  shows "\<exists>t w'. polled c w (Suc n) t w'"
proof (induction n)
  case 0
  from polled_first [OF assms order.refl] show ?case by fastforce
next
  case (Suc n)
  then show ?case by (blast intro: polled_turn)
qed

section \<open>Properties\<close>

definition initial_world :: "string \<Rightarrow> runner_world" where
  "initial_world tid = \<lparr>rw_runner = new_target_runner tid, rw_records = Map.empty, rw_changes = []\<rparr>"

lemma runner_inv_initial [inv_intros]: "runner_inv (initial_world tid)"
  by (simp add: initial_world_def runner_inv_new)

lemma reachable_inv [inv_intros]: "runner_run (initial_world tid) w \<Longrightarrow> runner_inv w"
  by (blast intro: runner_run_inv runner_inv_initial)

lemma reachable_tid: "runner_run (initial_world tid) w \<Longrightarrow> tr_target_id (rw_runner w) = tid"
  by (simp add: runner_run_tid initial_world_def new_target_runner_def)

text \<open>A small instance the witnesses run on: a target with a move and a stop action.\<close>

definition demo_manifest :: target_manifest where
  "demo_manifest =
     \<lparr>tm_target_id = ''motor01'', tm_plugin_id = ''demo'', tm_plugin_version = ''0.1.0'',
      tm_actions =
        [\<lparr>as_name = ''move'', as_params_schema = [], as_max_completion = Req_OBSERVED,
          as_priority = Priority_normal\<rparr>,
         \<lparr>as_name = ''stop'', as_params_schema = [], as_max_completion = Req_ACKNOWLEDGED,
          as_priority = Priority_control\<rparr>],
      tm_capabilities = []\<rparr>"

definition demo_filed :: runner_world where
  "demo_filed = (initial_world ''motor01'')\<lparr>rw_records := [''cmd-1'' \<mapsto>
     new_command_record (demo_request ''r1'' ''move'' (PInt 5)) ''cmd-1'' ''motor-01'' ''boot'' 1 0]\<rparr>"

definition demo_submitted :: runner_world where
  "demo_submitted = (case submit_begin demo_manifest ''cmd-1'' 1 demo_filed of Inl _ \<Rightarrow> demo_filed | Inr w \<Rightarrow> w)"

definition demo_observing :: runner_world where
  "demo_observing = submit_resume Exec_ok ''cmd-1'' 2 demo_submitted"

lemma demo_filed_run: "runner_run (initial_world ''motor01'') demo_filed"
proof -
  let ?r = "new_command_record (demo_request ''r1'' ''move'' (PInt 5)) ''cmd-1'' ''motor-01'' ''boot'' 1 0"
  have "runner_step (initial_world ''motor01'')
      ((initial_world ''motor01'')\<lparr>rw_records := (rw_records (initial_world ''motor01''))(''cmd-1'' \<mapsto> ?r)\<rparr>)"
    by (rule step_file) (simp_all add: initial_world_def record_ok_def)
  moreover have "(initial_world ''motor01'')\<lparr>rw_records := (rw_records (initial_world ''motor01''))(''cmd-1'' \<mapsto> ?r)\<rparr>
      = demo_filed"
    by (simp add: demo_filed_def initial_world_def)
  ultimately show ?thesis using run_step [OF run_refl] by simp
qed

lemma demo_submitted_run: "runner_run (initial_world ''motor01'') demo_submitted"
proof -
  have "is_ok (submit_begin demo_manifest ''cmd-1'' 1 demo_filed)"
    by code_simp
  then have "submit_begin demo_manifest ''cmd-1'' 1 demo_filed = Inr demo_submitted"
    by (auto simp: demo_submitted_def dest: is_okD)
  then have "runner_step demo_filed demo_submitted"
    by (rule step_submit [rotated 3])
      (simp add: demo_filed_def demo_request_def initial_world_def new_target_runner_def;
        simp add: new_command_record_def)+
  with demo_filed_run show ?thesis by (rule run_step)
qed

lemma demo_observing_run: "runner_run (initial_world ''motor01'') demo_observing"
  unfolding demo_observing_def by (rule run_step [OF demo_submitted_run step_resume])

text \<open>
  \<^bold>\<open>C6\<close> One command at a time: in every world a new runner can reach, whatever the adapter, the clock,
  other clients and other runners do, two suspended commands that both carry the current execution
  generation are the same command, and it is the active one. Every other suspended command carries
  an older generation.
\<close>

theorem one_current_command:
  assumes "runner_run (initial_world tid) w"
    and "tr_frames (rw_runner w) c = Some f"
  shows "if frame_gen f = tr_execution_generation (rw_runner w)
    then tr_active (rw_runner w) = Some c \<and>
      (\<forall>d g. tr_frames (rw_runner w) d = Some g \<and> frame_gen g = frame_gen f \<longrightarrow> d = c)
    else frame_gen f < tr_execution_generation (rw_runner w)"
proof -
  note inv = reachable_inv [OF assms(1)]
  have "frame_gen f \<le> tr_execution_generation (rw_runner w)"
    using runner_inv_frame [OF inv assms(2)] by (auto simp: frame_ok_def)
  then show ?thesis
    using runner_inv_stale [OF inv assms(2)] runner_inv_stale [OF inv] by force
qed

theorem one_current_command_witness:
  "tr_active (rw_runner demo_submitted) = Some ''cmd-1'' \<and>
   tr_frames (rw_runner demo_submitted) ''cmd-1'' = Some (In_execute 1)"
proof -
  have f: "tr_frames (rw_runner demo_submitted) ''cmd-1'' = Some (In_execute 1)"
    "tr_execution_generation (rw_runner demo_submitted) = 1"
    by code_simp+
  with one_current_command [OF demo_submitted_run f(1)] show ?thesis by simp
qed

text \<open>
  \<^bold>\<open>C9\<close> Truthful results: in every reachable world, every record of the runner's target has an outcome
  exactly when it is terminal, reports an achieved completion exactly when it succeeded, and then the
  one the client required. A record that is neither queued nor terminal belongs to a suspended
  command, so no command is forgotten half-way.
\<close>

theorem records_truthful:
  assumes "runner_run (initial_world tid) w" and "rw_records w c = Some r" and "cr_target_id r = tid"
  shows "(cr_status r = TERMINAL \<longleftrightarrow> cr_outcome r \<noteq> None) \<and>
    cr_achieved_completion r =
      (if cr_outcome r = Some SUCCEEDED then Some (cr_completion_requirement r) else None) \<and>
    (cr_status r = QUEUED \<or> cr_status r = TERMINAL \<or> tr_frames (rw_runner w) c \<noteq> None)"
  using runner_inv_record [OF reachable_inv [OF assms(1)] assms(2)] assms(3)
    reachable_tid [OF assms(1)]
  unfolding record_ok_def by auto

theorem records_truthful_witness:
  "tr_frames (rw_runner demo_submitted) ''cmd-1'' \<noteq> None"
proof -
  have "map_option (\<lambda>r. (cr_target_id r, cr_status r)) (rw_records demo_submitted ''cmd-1'') =
      Some (''motor01'', DISPATCHING)"
    by code_simp
  then obtain r where r: "rw_records demo_submitted ''cmd-1'' = Some r" "cr_target_id r = ''motor01''"
    and "cr_status r = DISPATCHING" by auto
  with records_truthful [OF demo_submitted_run r] show ?thesis by simp
qed

text \<open>
  \<^bold>\<open>C8\<close> Terminal is final: along every run of the runner, a command's status never goes back in the
  lifecycle order, its identity and content never change, and once it is terminal nothing about its
  record changes any more.
\<close>

theorem terminal_is_final:
  assumes "runner_run (initial_world tid) w" and "runner_run w w'"
    and "rw_records w c = Some r" and "cr_target_id r = tid"
  obtains r' where "rw_records w' c = Some r'" and "cr_status r \<le> cr_status r'" and "same_content r r'"
    and "cr_status r = TERMINAL \<Longrightarrow> r' = r"
  using runner_run_advances [OF assms(2) reachable_inv [OF assms(1)] assms(3)] assms(4)
    reachable_tid [OF assms(1)] that
  unfolding record_advances_def by auto

theorem terminal_is_final_witness:
  "\<exists>r'. rw_records demo_observing ''cmd-1'' = Some r' \<and> DISPATCHING \<le> cr_status r'"
proof -
  have "map_option (\<lambda>r. (cr_target_id r, cr_status r)) (rw_records demo_submitted ''cmd-1'') =
      Some (''motor01'', DISPATCHING)"
    by code_simp
  then obtain r where r: "rw_records demo_submitted ''cmd-1'' = Some r" "cr_target_id r = ''motor01''"
    and st: "cr_status r = DISPATCHING" by auto
  have "runner_run demo_submitted demo_observing"
    unfolding demo_observing_def by (rule run_step [OF run_refl step_resume])
  from terminal_is_final [OF demo_submitted_run this r] st show ?thesis by metis
qed

text \<open>
  Invalidation: once a command under observation carries an older generation than its runner
  (it was preempted, the control session changed hands, or a configuration was applied), then however
  the run goes on, when its record becomes terminal its outcome is \<open>CANCELLED\<close> or \<open>EXPIRED\<close>. It
  never succeeds, whatever the adapter says.
\<close>

theorem stale_observation_never_succeeds:
  assumes "runner_run (initial_world tid) w"
    and "tr_frames (rw_runner w) c = Some f" and "frame_status f = OBSERVING"
    and "frame_gen f < tr_execution_generation (rw_runner w)"
    and "runner_run w w'" and "rw_records w' c = Some r" and "cr_status r = TERMINAL"
  shows "cr_outcome r \<in> {Some CANCELLED, Some EXPIRED}"
proof -
  note inv = reachable_inv [OF assms(1)]
  have "doomed c w"
    using assms(2-4) by (auto simp: doomed_def)
  then have "doomed c w'"
    using doomed_run [OF assms(5) inv] by blast
  moreover have "runner_inv w'"
    using assms(5) inv by (rule runner_run_inv)
  ultimately show ?thesis
    using assms(6,7) runner_inv_frame [of w' c] by (fastforce simp: doomed_def frame_ok_def)
qed

definition demo_bumped :: runner_world where
  "demo_bumped = demo_observing\<lparr>rw_runner := bump_generation (rw_runner demo_observing)\<rparr>"

theorem stale_observation_never_succeeds_witness:
  "map_option cr_outcome
     (rw_records (observe_step ''cmd-1'' 3 3 Complete 4 demo_bumped) ''cmd-1'') \<in>
   {Some (Some CANCELLED), Some (Some EXPIRED)}"
proof -
  have f: "tr_frames (rw_runner demo_bumped) ''cmd-1'' = Some (Observe_start 1)"
    "1 < tr_execution_generation (rw_runner demo_bumped)"
    by code_simp+
  have "map_option cr_status
      (rw_records (observe_step ''cmd-1'' 3 3 Complete 4 demo_bumped) ''cmd-1'') = Some TERMINAL"
    by code_simp
  then obtain r where r: "rw_records (observe_step ''cmd-1'' 3 3 Complete 4 demo_bumped) ''cmd-1'' = Some r"
    "cr_status r = TERMINAL" by auto
  have "runner_run (initial_world ''motor01'') demo_bumped"
    unfolding demo_bumped_def by (rule run_step [OF demo_observing_run step_bump])
  from stale_observation_never_succeeds [OF this f(1) _ _ run_step [OF run_refl step_observe] r] f(2)
  show ?thesis using r(1) by simp
qed

text \<open>
  \<^bold>\<open>C7\<close> Observation ends: whatever else runs in between and whatever the adapter answers, when the
  polling loop of a command has taken more than 500 turns (its timeout of 10 seconds divided by its
  poll interval of 0.02, with a clock that advances by at least the interval in each \<open>sleep\<close>), the
  command's record is terminal. The loop cannot hang.
\<close>

theorem observation_ends:
  assumes "runner_run (initial_world tid) w" and "polled c w n t w'" and "500 < n"
  shows "\<exists>r. rw_records w' c = Some r \<and> cr_status r = TERMINAL"
  using polled_progress [OF assms(2) reachable_inv [OF assms(1)]] polled_enough [OF assms(3)]
  by (auto simp: ended_def)

theorem observation_ends_witness:
  "\<exists>t w' r. polled ''cmd-1'' demo_observing 501 t w' \<and> rw_records w' ''cmd-1'' = Some r \<and>
     cr_status r = TERMINAL"
proof -
  have f: "tr_frames (rw_runner demo_observing) ''cmd-1'' = Some (Observe_start 1)"
    by code_simp
  from polled_exists [OF this, of 500] obtain t w' where p: "polled ''cmd-1'' demo_observing 501 t w'"
    by auto
  from observation_ends [OF demo_observing_run p] p show ?thesis by auto
qed

text \<open>
  What \<open>submit\<close> decides before it calls the adapter, in every world that satisfies the
  invariant: an unknown action is rejected; a normal action is rejected as \<open>BUSY\<close> exactly when some
  command is active; anything else is accepted, becomes the active command and is stamped with the
  runner's generation, which has been bumped exactly when a control action preempts a command.
\<close>

theorem submit_decides:
  assumes "runner_inv w" and "rw_records w c = Some r"
  shows "case get_action m (cr_action r) of
      None \<Rightarrow> submit_begin m c wall w = Inl (FusionError UNKNOWN_ACTION
        (''unknown action '' @ quoted (cr_action r) @ '' for target '' @
         quoted (tr_target_id (rw_runner w))))
    | Some spec \<Rightarrow>
        (if tr_active (rw_runner w) \<noteq> None \<and> as_priority spec = Priority_normal
         then submit_begin m c wall w = Inl (FusionError BUSY
           (''target '' @ quoted (tr_target_id (rw_runner w)) @ '' is busy''))
         else \<exists>w'. submit_begin m c wall w = Inr w' \<and>
           tr_execution_generation (rw_runner w') = tr_execution_generation (rw_runner w) +
             (if tr_active (rw_runner w) \<noteq> None then 1 else 0) \<and>
           tr_active (rw_runner w') = Some c \<and>
           map_option cr_execution_generation (rw_records w' c) =
             Some (tr_execution_generation (rw_runner w')))"
proof (cases "get_action m (cr_action r)")
  case None
  with assms show ?thesis by (simp add: submit_begin_def)
next
  case (Some spec)
  note busy = runner_busy_iff [OF assms(1)]
  show ?thesis
  proof (cases "tr_active (rw_runner w) \<noteq> None \<and> as_priority spec = Priority_normal")
    case True
    with Some assms(2) busy show ?thesis by (simp add: submit_begin_def)
  next
    case False
    with Some assms(2) busy obtain w' where "submit_begin m c wall w = Inr w'"
      by (cases "as_priority spec") (auto simp: submit_begin_def Let_def)
    moreover from assms(2) this have "tr_active (rw_runner w') = Some c"
      "tr_execution_generation (rw_runner w') =
         tr_execution_generation (rw_runner w) + (if runner_busy w then 1 else 0)"
      "map_option cr_execution_generation (rw_records w' c) = Some (tr_execution_generation (rw_runner w'))"
      by (auto elim: submit_begin_Some)
    ultimately show ?thesis
      using False Some unfolding busy by (simp only: option.case if_not_P if_False simp_thms)
        (rule exI [of _ w'], simp only: simp_thms)
  qed
qed

theorem submit_decides_witness:
  "submit_begin demo_manifest ''cmd-1'' 5 demo_submitted = Inl (FusionError BUSY
     ''target 'motor01' is busy'')"
proof -
  have "map_option cr_action (rw_records demo_submitted ''cmd-1'') = Some ''move''"
    by code_simp
  then obtain r where r: "rw_records demo_submitted ''cmd-1'' = Some r" "cr_action r = ''move''" by auto
  have "tr_active (rw_runner demo_submitted) = Some ''cmd-1''"
    "tr_target_id (rw_runner demo_submitted) = ''motor01''"
    by code_simp+
  with submit_decides [OF reachable_inv [OF demo_submitted_run] r(1), of demo_manifest 5] r(2)
  show ?thesis by (simp add: get_action_def demo_manifest_def quoted_def)
qed

text \<open>
  When the adapter's \<open>execute\<close> returns without error, the command's fate depends only on the
  completion it asked for: it succeeds at once for \<open>dispatched\<close> and \<open>acknowledged\<close>, and goes under
  observation for \<open>observed\<close>. The generation is not looked at, so a command that was preempted while
  \<open>execute\<close> ran still succeeds.
\<close>

theorem resume_ignores_generation:
  assumes "tr_frames (rw_runner w) c = Some (In_execute g)" and "rw_records w c = Some r"
  shows "map_option (\<lambda>r'. (cr_status r', cr_outcome r', cr_achieved_completion r'))
      (rw_records (submit_resume Exec_ok c wall w) c) =
    Some (if cr_completion_requirement r = Req_OBSERVED
          then (OBSERVING, cr_outcome r, cr_achieved_completion r)
          else (TERMINAL, Some SUCCEEDED, Some (cr_completion_requirement r)))"
  using assms by (cases "cr_completion_requirement r") (auto simp: submit_resume_def Let_def)

text \<open>The witness is a command that was preempted by a \<open>stop\<close> while it executed.\<close>

definition demo_preempted :: runner_world where
  "demo_preempted =
     (let req = (demo_request ''r2'' ''move'' (PInt 5))\<lparr>sr_completion_requirement := Req_ACKNOWLEDGED\<rparr>;
          stop = demo_request ''r3'' ''stop'' PNone;
          w0 = (initial_world ''motor01'')\<lparr>rw_records :=
            [''cmd-2'' \<mapsto> new_command_record req ''cmd-2'' ''motor-01'' ''boot'' 1 0,
             ''cmd-3'' \<mapsto> new_command_record stop ''cmd-3'' ''motor-01'' ''boot'' 1 0]\<rparr>
      in case submit_begin demo_manifest ''cmd-2'' 1 w0 of Inl _ \<Rightarrow> w0
         | Inr w1 \<Rightarrow> (case submit_begin demo_manifest ''cmd-3'' 2 w1 of Inl _ \<Rightarrow> w1 | Inr w2 \<Rightarrow> w2))"

theorem resume_ignores_generation_witness:
  "tr_execution_generation (rw_runner demo_preempted) = 2 \<and>
   tr_active (rw_runner demo_preempted) = Some ''cmd-3'' \<and>
   map_option cr_outcome (rw_records (submit_resume Exec_ok ''cmd-2'' 3 demo_preempted) ''cmd-2'') =
     Some (Some SUCCEEDED)"
proof -
  have f: "tr_frames (rw_runner demo_preempted) ''cmd-2'' = Some (In_execute 1)"
    and rest: "tr_execution_generation (rw_runner demo_preempted) = 2"
      "tr_active (rw_runner demo_preempted) = Some ''cmd-3''"
    by code_simp+
  have "map_option cr_completion_requirement (rw_records demo_preempted ''cmd-2'') = Some Req_ACKNOWLEDGED"
    by code_simp
  then obtain r where r: "rw_records demo_preempted ''cmd-2'' = Some r"
    "cr_completion_requirement r = Req_ACKNOWLEDGED" by auto
  from resume_ignores_generation [OF f r(1), of 3] r(2)
  have "map_option (\<lambda>r'. (cr_status r', cr_outcome r', cr_achieved_completion r'))
      (rw_records (submit_resume Exec_ok ''cmd-2'' 3 demo_preempted) ''cmd-2'') =
    Some (TERMINAL, Some SUCCEEDED, Some Req_ACKNOWLEDGED)" by simp
  with rest show ?thesis by auto
qed

end
