(* ===== verification/Config_Service.thy ===== *)
theory Config_Service
  imports Contracts
begin

text \<open>
  Stage and Apply of \<open>core/config_service.py\<close>. \<open>apply\<close> is a coroutine with two suspension points,
  the apply lock and the caller's \<open>apply_guard\<close>; it is cut there into \<open>apply_begin\<close> (up to the lock),
  \<open>apply_enter\<close> (from the lock to the guard) and \<open>apply_resume\<close> (from the guard's answer to the
  end). A suspended call is an \<open>apply_call\<close> under an identifier of its own, and \<open>cfg_lock\<close> is
  the call that holds the lock. What \<open>on_applied\<close> does to the rest of the Runtime is a function on
  that rest, an argument of \<open>apply_resume\<close>. The fresh revision id, the content hash (the first 16
  hex digits of a SHA-256) and the clock reads are arguments.
\<close>

section \<open>State and operations\<close>

datatype apply_call =
    Waiting string "string option"
  | Guarding string "string option"

datatype guard_result = Guard_ok | Guard_refused string | Guard_crashed string | Guard_cancelled

record config_service =
  cfg_journal_limit :: nat
  cfg_staged :: "(string, config_revision) dict"
  cfg_active_revision_id :: "string option"
  cfg_journal :: "apply_record list"
  cfg_lock :: "nat option"
  cfg_calls :: "nat \<rightharpoonup> apply_call"

definition DEFAULT_JOURNAL_LIMIT :: nat where
  "DEFAULT_JOURNAL_LIMIT = 50"

definition new_config_service :: "nat \<Rightarrow> config_service" where
  "new_config_service limit =
     \<lparr>cfg_journal_limit = limit, cfg_staged = [], cfg_active_revision_id = None, cfg_journal = [],
      cfg_lock = None, cfg_calls = Map.empty\<rparr>"

definition stage ::
    "string \<Rightarrow> params \<Rightarrow> string \<Rightarrow> string \<Rightarrow> time \<Rightarrow> config_service \<Rightarrow> config_revision \<times> config_service" where
  "stage kind content new_id content_hash now cfg =
     (let revision = \<lparr>rev_revision_id = new_id, rev_kind = kind, rev_content_hash = content_hash,
            rev_content = content, rev_staged_at = now\<rparr>
      in (revision, cfg\<lparr>cfg_staged := dset new_id revision (cfg_staged cfg)\<rparr>))"

definition get_staged :: "string \<Rightarrow> config_service \<Rightarrow> config_revision option" where
  "get_staged rid cfg = dget (cfg_staged cfg) rid"

definition record_apply ::
    "string \<Rightarrow> apply_outcome \<Rightarrow> string option \<Rightarrow> time \<Rightarrow> config_service \<Rightarrow> apply_record \<times> config_service" where
  "record_apply rid outcome detail now cfg =
     (let r = \<lparr>ar_revision_id = rid, ar_outcome = outcome, ar_detail = detail, ar_applied_at = now\<rparr>;
          journal = cfg_journal cfg @ [r];
          journal' = (if length journal > cfg_journal_limit cfg
                      then drop (length journal - cfg_journal_limit cfg) journal else journal)
      in (r, cfg\<lparr>cfg_journal := journal'\<rparr>))"

text \<open>An optional string in an f-string: \<open>None\<close> prints as such.\<close>

fun fstring_opt :: "string option \<Rightarrow> string" where
  "fstring_opt None = ''None''"
| "fstring_opt (Some s) = s"

definition apply_begin ::
    "nat \<Rightarrow> string \<Rightarrow> string option \<Rightarrow> config_service \<Rightarrow> fusion_error + config_service" where
  "apply_begin a rid expected cfg =
     (if dget (cfg_staged cfg) rid = None
      then Inl (FusionError VALIDATION_ERROR (''unknown staged revision '' @ quoted rid))
      else Inr (cfg\<lparr>cfg_calls := (cfg_calls cfg)(a \<mapsto> Waiting rid expected)\<rparr>))"

text \<open>
  A waiting call takes the lock when it is free. It returns a record at once when the expected
  revision is not the active one, and goes on to the guard otherwise. \<open>None\<close> is the call that
  is (still) suspended.
\<close>

definition apply_enter :: "nat \<Rightarrow> time \<Rightarrow> config_service \<Rightarrow> apply_record option \<times> config_service" where
  "apply_enter a now cfg =
     (case (cfg_lock cfg, cfg_calls cfg a) of
        (None, Some (Waiting rid expected)) \<Rightarrow>
          if expected \<noteq> None \<and> expected \<noteq> cfg_active_revision_id cfg
          then let (r, cfg1) = record_apply rid Apply_REJECTED
                     (Some (''expected active revision '' @ quoted (fstring_opt expected) @
                       '', actual is '' @ quoted (fstring_opt (cfg_active_revision_id cfg)))) now cfg
               in (Some r, cfg1\<lparr>cfg_calls := (cfg_calls cfg1)(a := None)\<rparr>)
          else (None, cfg\<lparr>cfg_lock := Some a, cfg_calls := (cfg_calls cfg)(a \<mapsto> Guarding rid expected)\<rparr>)
      | _ \<Rightarrow> (None, cfg))"

definition leave :: "nat \<Rightarrow> config_service \<Rightarrow> config_service" where
  "leave a cfg = cfg\<lparr>cfg_lock := None, cfg_calls := (cfg_calls cfg)(a := None)\<rparr>"

definition apply_resume ::
    "('w \<Rightarrow> 'w) \<Rightarrow> guard_result \<Rightarrow> nat \<Rightarrow> time \<Rightarrow> config_service \<times> 'w \<Rightarrow>
     apply_record option \<times> config_service \<times> 'w" where
  "apply_resume on_applied g a now cw =
     (let (cfg, w) = cw
      in case cfg_calls cfg a of
           Some (Guarding rid expected) \<Rightarrow>
             (case g of
                Guard_refused m \<Rightarrow>
                  let (r, cfg1) = record_apply rid Apply_REJECTED (Some m) now cfg in (Some r, leave a cfg1, w)
              | Guard_crashed m \<Rightarrow>
                  let (r, cfg1) = record_apply rid Apply_FAILED (Some m) now cfg in (Some r, leave a cfg1, w)
              | Guard_cancelled \<Rightarrow> (None, leave a cfg, w)
              | Guard_ok \<Rightarrow>
                  let cfg1 = cfg\<lparr>cfg_active_revision_id := Some rid\<rparr>;
                      w1 = on_applied w;
                      (r, cfg2) = record_apply rid Apply_SUCCEEDED None now cfg1
                  in (Some r, leave a cfg2, w1))
         | _ \<Rightarrow> (None, cfg, w))"

text \<open>A call cancelled while it waits for the lock leaves nothing behind.\<close>

definition apply_cancel_waiting :: "nat \<Rightarrow> config_service \<Rightarrow> config_service" where
  "apply_cancel_waiting a cfg =
     (case cfg_calls cfg a of
        Some (Waiting _ _) \<Rightarrow> cfg\<lparr>cfg_calls := (cfg_calls cfg)(a := None)\<rparr>
      | _ \<Rightarrow> cfg)"

definition config_status :: "config_service \<Rightarrow> string list \<times> string option \<times> apply_record list" where
  "config_status cfg =
     (dkeys (cfg_staged cfg), cfg_active_revision_id cfg, last_n 10 (cfg_journal cfg))"

section \<open>Effects\<close>

lemma record_apply_parts [simp]:
  "fst (record_apply rid out d now cfg) =
     \<lparr>ar_revision_id = rid, ar_outcome = out, ar_detail = d, ar_applied_at = now\<rparr>"
  "cfg_journal_limit (snd (record_apply rid out d now cfg)) = cfg_journal_limit cfg"
  "cfg_staged (snd (record_apply rid out d now cfg)) = cfg_staged cfg"
  "cfg_active_revision_id (snd (record_apply rid out d now cfg)) = cfg_active_revision_id cfg"
  "cfg_lock (snd (record_apply rid out d now cfg)) = cfg_lock cfg"
  "cfg_calls (snd (record_apply rid out d now cfg)) = cfg_calls cfg"
  by (simp_all add: record_apply_def Let_def)

lemma record_apply_journal:
  "cfg_journal (snd (record_apply rid out d now cfg)) =
     last_n (cfg_journal_limit cfg) (cfg_journal cfg @
       [\<lparr>ar_revision_id = rid, ar_outcome = out, ar_detail = d, ar_applied_at = now\<rparr>])"
  by (simp add: record_apply_def Let_def last_n_def)

lemma leave_parts [simp]:
  "cfg_journal_limit (leave a cfg) = cfg_journal_limit cfg"
  "cfg_staged (leave a cfg) = cfg_staged cfg"
  "cfg_active_revision_id (leave a cfg) = cfg_active_revision_id cfg"
  "cfg_journal (leave a cfg) = cfg_journal cfg"
  "cfg_lock (leave a cfg) = None"
  "cfg_calls (leave a cfg) = (cfg_calls cfg)(a := None)"
  by (simp_all add: leave_def)

section \<open>The invariant\<close>

text \<open>
  The lock is held by exactly the call that is with its guard; the revision a call names is staged;
  the active revision is staged under its own id; and while a call with an expectation is with its
  guard, the active revision is the expected one: nobody can change it under the lock.
\<close>

fun call_revision :: "apply_call \<Rightarrow> string" where
  "call_revision (Waiting rid _) = rid"
| "call_revision (Guarding rid _) = rid"

definition config_inv :: "config_service \<Rightarrow> bool" where
  "config_inv cfg \<longleftrightarrow>
     dict_wf (cfg_staged cfg) \<and>
     (\<forall>rid rv. dget (cfg_staged cfg) rid = Some rv \<longrightarrow> rev_revision_id rv = rid) \<and>
     (\<forall>rid. cfg_active_revision_id cfg = Some rid \<longrightarrow> rid \<in> set (dkeys (cfg_staged cfg))) \<and>
     (\<forall>a call. cfg_calls cfg a = Some call \<longrightarrow> call_revision call \<in> set (dkeys (cfg_staged cfg))) \<and>
     (\<forall>a. (\<exists>rid e. cfg_calls cfg a = Some (Guarding rid e)) \<longleftrightarrow> cfg_lock cfg = Some a) \<and>
     (\<forall>a rid e. cfg_calls cfg a = Some (Guarding rid (Some e)) \<longrightarrow> cfg_active_revision_id cfg = Some e) \<and>
     length (cfg_journal cfg) \<le> cfg_journal_limit cfg"

lemma config_invD:
  assumes "config_inv cfg"
  shows config_inv_wf: "dict_wf (cfg_staged cfg)"
    and config_inv_id: "dget (cfg_staged cfg) rid = Some rv \<Longrightarrow> rev_revision_id rv = rid"
    and config_inv_active: "cfg_active_revision_id cfg = Some rid \<Longrightarrow> rid \<in> set (dkeys (cfg_staged cfg))"
    and config_inv_call: "cfg_calls cfg a = Some call \<Longrightarrow> call_revision call \<in> set (dkeys (cfg_staged cfg))"
    and config_inv_lock: "(\<exists>rid e. cfg_calls cfg a = Some (Guarding rid e)) \<longleftrightarrow> cfg_lock cfg = Some a"
    and config_inv_expected:
      "cfg_calls cfg a = Some (Guarding rid (Some e)) \<Longrightarrow> cfg_active_revision_id cfg = Some e"
    and config_inv_journal: "length (cfg_journal cfg) \<le> cfg_journal_limit cfg"
  using assms unfolding config_inv_def by blast+

lemma config_inv_new [inv_intros]: "config_inv (new_config_service limit)"
  by (simp add: config_inv_def new_config_service_def)

lemma config_inv_stage [inv_intros]:
  assumes "config_inv cfg"
  shows "config_inv (snd (stage kind content new_id h now cfg))"
  using assms config_invD [OF assms]
  unfolding config_inv_def by (simp add: stage_def Let_def dict_simps)

lemma config_inv_begin [inv_intros]:
  assumes "config_inv cfg" and "apply_begin a rid e cfg = Inr cfg'" and "cfg_calls cfg a = None"
  shows "config_inv cfg'"
proof -
  from assms(2) have cfg': "cfg' = cfg\<lparr>cfg_calls := (cfg_calls cfg)(a \<mapsto> Waiting rid e)\<rparr>"
    and staged: "rid \<in> set (dkeys (cfg_staged cfg))"
    by (auto simp: apply_begin_def dict_simps split: if_splits)
  from config_inv_lock [OF assms(1), of a] assms(3) have "cfg_lock cfg \<noteq> Some a"
    by auto
  then show ?thesis
    using config_invD [OF assms(1)] staged
    unfolding config_inv_def cfg' by auto
qed

lemma config_inv_enter [inv_intros]:
  assumes "config_inv cfg"
  shows "config_inv (snd (apply_enter a now cfg))"
proof (cases "cfg_lock cfg = None \<and> (\<exists>rid e. cfg_calls cfg a = Some (Waiting rid e))")
  case False
  with assms show ?thesis
    by (auto simp: apply_enter_def split: option.split apply_call.split)
next
  case True
  then obtain rid e where call: "cfg_calls cfg a = Some (Waiting rid e)" and free: "cfg_lock cfg = None"
    by blast
  note inv = config_invD [OF assms]
  show ?thesis
  proof (cases "e \<noteq> None \<and> e \<noteq> cfg_active_revision_id cfg")
    case True
    then show ?thesis
      using call free inv by (auto simp: apply_enter_def config_inv_def record_apply_journal split_beta)
  next
    case False
    then show ?thesis
      using call free inv(1-4,7) inv(5) [of _] inv(4) [OF call]
      by (auto simp: apply_enter_def config_inv_def)
  qed
qed

lemma config_inv_resume [inv_intros]:
  assumes "config_inv cfg"
  shows "config_inv (fst (snd (apply_resume f g a now (cfg, w))))"
proof (cases "\<exists>rid e. cfg_calls cfg a = Some (Guarding rid e)")
  case False
  with assms show ?thesis
    by (auto simp: apply_resume_def split: option.split apply_call.split)
next
  case True
  then obtain rid e where call: "cfg_calls cfg a = Some (Guarding rid e)" by blast
  with config_inv_lock [OF assms] have others: "\<And>b rid e. cfg_calls cfg b = Some (Guarding rid e) \<Longrightarrow> b = a"
    by (metis option.inject)
  have staged: "rid \<in> set (dkeys (cfg_staged cfg))"
    using config_inv_call [OF assms call] by simp
  have keep: "config_inv (leave a cfg1)"
    if "cfg_staged cfg1 = cfg_staged cfg" "cfg_calls cfg1 = cfg_calls cfg"
      "cfg_active_revision_id cfg1 \<in> {cfg_active_revision_id cfg, Some rid}"
      "length (cfg_journal cfg1) \<le> cfg_journal_limit cfg1" for cfg1
    using that config_invD [OF assms] others staged unfolding config_inv_def
    by (auto simp del: set_map split: if_splits)
  show ?thesis
    using call config_inv_journal [OF assms]
    by (cases g) (auto simp: apply_resume_def split_beta record_apply_journal Let_def intro!: keep)
qed

lemma config_inv_cancel_waiting [inv_intros]:
  assumes "config_inv cfg"
  shows "config_inv (apply_cancel_waiting a cfg)"
proof (cases "\<exists>rid e. cfg_calls cfg a = Some (Waiting rid e)")
  case False
  with assms show ?thesis
    by (auto simp: apply_cancel_waiting_def split: option.split apply_call.split)
next
  case True
  with config_inv_lock [OF assms, of a] have "cfg_lock cfg \<noteq> Some a" by auto
  moreover have "\<And>b rid e. cfg_calls cfg b = Some (Guarding rid e) \<Longrightarrow> cfg_lock cfg = Some b"
    using config_inv_lock [OF assms] by blast
  ultimately show ?thesis
    using True config_invD [OF assms]
    unfolding config_inv_def by (auto simp: apply_cancel_waiting_def simp del: set_map split: if_splits)
qed

section \<open>Histories\<close>

text \<open>
  \<open>config_trace limit rs cfg\<close>: a service made with that journal limit has come to \<open>cfg\<close> and its
  \<open>apply\<close> calls have returned the records \<open>rs\<close>, in order. Calls interleave in any way; a call's
  identifier and a staged revision's identifier are fresh. The rest of the Runtime does not
  influence the service, so the rule for \<open>apply_resume\<close> leaves it out.
\<close>

inductive config_trace :: "nat \<Rightarrow> apply_record list \<Rightarrow> config_service \<Rightarrow> bool" for limit where
  trace_new: "config_trace limit [] (new_config_service limit)"
| trace_stage: "config_trace limit rs cfg \<Longrightarrow>
    config_trace limit rs (snd (stage kind content new_id h now cfg))"
| trace_begin: "config_trace limit rs cfg \<Longrightarrow> cfg_calls cfg a = None \<Longrightarrow>
    apply_begin a rid e cfg = Inr cfg' \<Longrightarrow> config_trace limit rs cfg'"
| trace_enter: "config_trace limit rs cfg \<Longrightarrow> apply_enter a now cfg = (ro, cfg') \<Longrightarrow>
    config_trace limit (rs @ case_option [] (\<lambda>r. [r]) ro) cfg'"
| trace_resume: "config_trace limit rs cfg \<Longrightarrow> apply_resume id g a now (cfg, ()) = (ro, cfg', u) \<Longrightarrow>
    config_trace limit (rs @ case_option [] (\<lambda>r. [r]) ro) cfg'"
| trace_cancel: "config_trace limit rs cfg \<Longrightarrow> config_trace limit rs (apply_cancel_waiting a cfg)"

lemma apply_resume_world:
  "fst (apply_resume f g a now (cfg, w)) = fst (apply_resume id g a now (cfg, ())) \<and>
   fst (snd (apply_resume f g a now (cfg, w))) = fst (snd (apply_resume id g a now (cfg, ())))"
  by (auto simp: apply_resume_def split_beta Let_def split: option.split apply_call.split guard_result.split)

lemma config_trace_inv [inv_intros]: "config_trace limit rs cfg \<Longrightarrow> config_inv cfg"
proof (induction rule: config_trace.induct)
  case (trace_enter rs cfg a now ro cfg')
  with config_inv_enter [of cfg a now] show ?case by simp
next
  case (trace_resume rs cfg g a now ro cfg' u)
  with config_inv_resume [of cfg id g a now "()"] show ?case by simp
qed (auto intro: inv_intros)

section \<open>The abstract service\<close>

text \<open>
  What the service means: the active revision is that of the last successful Apply in the whole
  history, and the journal is the end of the history.
\<close>

definition last_succeeded :: "apply_record list \<Rightarrow> string option" where
  "last_succeeded rs = map_option ar_revision_id (find (\<lambda>r. ar_outcome r = Apply_SUCCEEDED) (rev rs))"

lemma last_succeeded_snoc [simp]:
  "last_succeeded (rs @ [r]) =
     (if ar_outcome r = Apply_SUCCEEDED then Some (ar_revision_id r) else last_succeeded rs)"
  by (simp add: last_succeeded_def)

definition config_represents :: "nat \<Rightarrow> apply_record list \<Rightarrow> config_service \<Rightarrow> bool" where
  "config_represents limit rs cfg \<longleftrightarrow>
     cfg_journal_limit cfg = limit \<and> cfg_journal cfg = last_n limit rs \<and>
     cfg_active_revision_id cfg = last_succeeded rs"

lemma represents_enter:
  "config_represents limit rs cfg \<Longrightarrow> apply_enter a now cfg = (ro, cfg') \<Longrightarrow>
   config_represents limit (rs @ case_option [] (\<lambda>r. [r]) ro) cfg'"
  by (auto simp: config_represents_def apply_enter_def split_beta Let_def record_apply_journal last_n_snoc
      split: option.splits apply_call.splits if_splits)

lemma represents_resume:
  "config_represents limit rs cfg \<Longrightarrow> apply_resume f g a now (cfg, w) = (ro, cfg', w') \<Longrightarrow>
   config_represents limit (rs @ case_option [] (\<lambda>r. [r]) ro) cfg'"
  by (auto simp: config_represents_def apply_resume_def split_beta Let_def record_apply_journal last_n_snoc
      split: option.splits apply_call.splits guard_result.splits)

text \<open>A small instance for the witnesses: two revisions staged, one call past its optimistic check.\<close>

definition demo_config :: config_service where
  "demo_config =
     (let c0 = new_config_service DEFAULT_JOURNAL_LIMIT;
          c1 = snd (stage ''site'' [(''k'', PInt 1)] ''rev-1'' ''h1'' 0 c0);
          c2 = snd (stage ''site'' [(''k'', PInt 2)] ''rev-2'' ''h2'' 1 c1)
      in c2\<lparr>cfg_calls := [0 \<mapsto> Waiting ''rev-1'' None]\<rparr>)"

definition demo_guarding :: config_service where
  "demo_guarding = snd (apply_enter 0 2 demo_config)"

lemma demo_config_trace: "config_trace DEFAULT_JOURNAL_LIMIT [] demo_config"
proof -
  define c2 where "c2 = snd (stage ''site'' [(''k'', PInt 2)] ''rev-2'' ''h2'' 1
    (snd (stage ''site'' [(''k'', PInt 1)] ''rev-1'' ''h1'' 0 (new_config_service DEFAULT_JOURNAL_LIMIT))))"
  have "config_trace DEFAULT_JOURNAL_LIMIT [] c2"
    unfolding c2_def by (intro trace_stage trace_new)
  moreover have "cfg_calls c2 0 = None" and "apply_begin 0 ''rev-1'' None c2 = Inr demo_config"
    by (simp_all add: c2_def demo_config_def stage_def new_config_service_def apply_begin_def Let_def)
  ultimately show ?thesis by (rule trace_begin)
qed

lemma demo_guarding_trace: "config_trace DEFAULT_JOURNAL_LIMIT [] demo_guarding"
proof -
  have "apply_enter 0 2 demo_config = (None, demo_guarding)"
    by (simp add: demo_guarding_def demo_config_def apply_enter_def stage_def new_config_service_def Let_def)
  from trace_enter [OF demo_config_trace this] show ?thesis by simp
qed

section \<open>Properties\<close>

text \<open>
  \<^bold>\<open>C15\<close> The service refines its history: after any interleaving of Stage and Apply calls, the active
  revision is the one of the last \<open>apply\<close> that returned \<open>SUCCEEDED\<close>, it is a staged revision, and the
  journal holds the last records returned, in order, up to its limit. Staging, refused, failed,
  cancelled and waiting calls never move the active revision.
\<close>

theorem config_refines_history:
  assumes "config_trace limit rs cfg"
  shows "cfg_active_revision_id cfg = last_succeeded rs \<and> cfg_journal cfg = last_n limit rs \<and>
    (\<forall>rid. cfg_active_revision_id cfg = Some rid \<longrightarrow> get_staged rid cfg \<noteq> None)"
proof -
  from assms have "config_represents limit rs cfg"
  proof (induction rule: config_trace.induct)
    case (trace_enter rs cfg a now ro cfg')
    then show ?case by (blast intro: represents_enter)
  next
    case (trace_resume rs cfg g a now ro cfg' u)
    then show ?case by (blast intro: represents_resume)
  qed (auto simp: config_represents_def new_config_service_def stage_def apply_begin_def last_succeeded_def
      apply_cancel_waiting_def Let_def split: if_splits option.split apply_call.split)
  then show ?thesis
    using config_inv_active [OF config_trace_inv [OF assms]]
    by (auto simp: config_represents_def get_staged_def dict_simps)
qed

theorem config_refines_history_witness:
  "cfg_active_revision_id (fst (snd (apply_resume id Guard_ok 0 3 (demo_guarding, ())))) = Some ''rev-1''"
proof -
  have r: "apply_resume id Guard_ok 0 3 (demo_guarding, ()) =
      (Some \<lparr>ar_revision_id = ''rev-1'', ar_outcome = Apply_SUCCEEDED, ar_detail = None, ar_applied_at = 3\<rparr>,
       fst (snd (apply_resume id Guard_ok 0 3 (demo_guarding, ()))), ())"
    by (simp add: demo_guarding_def demo_config_def apply_enter_def stage_def new_config_service_def
        apply_resume_def record_apply_def Let_def)
  from config_refines_history [OF trace_resume [OF demo_guarding_trace r]] show ?thesis
    by (simp add: last_succeeded_def)
qed

text \<open>
  \<^bold>\<open>C16\<close> Apply is a compare-and-swap and all or nothing. When a call's guard answers, after any
  interleaving: only the answer that allows it makes the call's revision active and runs
  \<open>on_applied\<close>, and at that moment the active revision still is the one the caller expected; a guard
  that refuses yields a \<open>REJECTED\<close> record, one that crashes a \<open>FAILED\<close> record, with its message, and
  neither they nor a cancellation change the active revision or the rest of the Runtime. The lock is
  released on every path.
\<close>

theorem apply_compare_and_swap:
  assumes "config_trace limit rs cfg" and "cfg_calls cfg a = Some (Guarding rid expected)"
  shows "case apply_resume on_applied g a now (cfg, w) of (ro, cfg', w') \<Rightarrow>
    cfg_lock cfg = Some a \<and> cfg_lock cfg' = None \<and> cfg_calls cfg' a = None \<and>
    (\<forall>e. expected = Some e \<longrightarrow> cfg_active_revision_id cfg = Some e) \<and>
    cfg_active_revision_id cfg' = (if g = Guard_ok then Some rid else cfg_active_revision_id cfg) \<and>
    w' = (if g = Guard_ok then on_applied w else w) \<and>
    map_option (\<lambda>r. (ar_revision_id r, ar_outcome r, ar_detail r)) ro =
      (case g of Guard_ok \<Rightarrow> Some (rid, Apply_SUCCEEDED, None)
       | Guard_refused m \<Rightarrow> Some (rid, Apply_REJECTED, Some m)
       | Guard_crashed m \<Rightarrow> Some (rid, Apply_FAILED, Some m)
       | Guard_cancelled \<Rightarrow> None)"
proof -
  note inv = config_trace_inv [OF assms(1)]
  have "cfg_lock cfg = Some a" "\<forall>e. expected = Some e \<longrightarrow> cfg_active_revision_id cfg = Some e"
    using config_inv_lock [OF inv, of a] config_inv_expected [OF inv, of a rid] assms(2) by blast+
  with assms(2) show ?thesis
    by (cases g) (simp_all add: apply_resume_def split_beta Let_def)
qed

theorem apply_compare_and_swap_witness:
  "snd (snd (apply_resume Suc Guard_ok 0 3 (demo_guarding, 7))) = (8 :: nat) \<and>
   snd (snd (apply_resume Suc (Guard_refused ''busy'') 0 3 (demo_guarding, 7))) = (7 :: nat)"
proof -
  have "cfg_calls demo_guarding 0 = Some (Guarding ''rev-1'' None)"
    by (simp add: demo_guarding_def demo_config_def apply_enter_def stage_def new_config_service_def Let_def)
  note cas = apply_compare_and_swap [OF demo_guarding_trace this, where on_applied = Suc and now = 3 and w = 7]
  from cas [where g = Guard_ok] cas [where g = "Guard_refused ''busy''"] show ?thesis
    by (simp add: split_beta)
qed

end
