(* ===== verification/Octets.thy ===== *)
theory Octets
  imports Prelude "HOL-Library.Word"
begin

text \<open>
  Byte strings, shared by the blob store and the wire formats: Python's \<open>bytes\<close> as lists of 8-bit words,
  big-endian numbers in them, and the checked index \<open>data[i]\<close>, which raises \<open>IndexError\<close> out of range.
\<close>

unbundle bit_operations_syntax

type_synonym bytes = "8 word list"

lemma unat_byte_less: "unat (b :: 8 word) < 256"
proof -
  have "unat b < 2 ^ LENGTH(8)" by (rule unsigned_less)
  then show ?thesis by simp
qed

text \<open>\<open>(n >> (8 * k)) & 0xFF\<close> of an unbounded integer, as a byte.\<close>

definition octet :: "nat \<Rightarrow> int \<Rightarrow> 8 word" where
  "octet k n = word_of_int (drop_bit (8 * k) n AND 0xFF)"

lemma octet_mod: "octet k n = word_of_int (n div 2 ^ (8 * k))"
proof -
  have "(0xFF :: int) = mask 8" by (simp add: mask_eq_exp_minus_1)
  then show ?thesis
    by (simp only: octet_def flip: take_bit_eq_mask)
      (simp add: word_of_int_eq_iff drop_bit_eq_div)
qed

lemma uint_octet: "uint (octet k n) = n div 2 ^ (8 * k) mod 256"
  by (simp add: octet_mod uint_word_of_int)

text \<open>\<open>(hi << 8) | lo\<close>\<close>

definition be16 :: "8 word \<Rightarrow> 8 word \<Rightarrow> int" where
  "be16 hi lo = (push_bit 8 (uint hi)) OR uint lo"

lemma be16_value: "be16 hi lo = uint hi * 256 + uint lo"
proof -
  have "push_bit 8 (uint hi) AND uint lo = 0"
    by (intro bit_eqI) (auto simp: bit_simps bit_uint_iff dest: bit_imp_le_length)
  then show ?thesis
    by (simp add: be16_def push_bit_eq_mult flip: disjunctive_add_eq_or)
qed

lemma be16_octets: "be16 (octet 1 n) (octet 0 n) = n mod 65536"
proof -
  have "n mod 65536 = (n div 256 mod 256) * 256 + n mod 256"
    using zmod_zmult2_eq [of 256 n 256] by simp
  then show ?thesis
    by (simp add: be16_value uint_octet)
qed

end
