(* ===== verification/Blob_Store.thy ===== *)
theory Blob_Store
  imports Contracts Octets
begin

text \<open>
  The content-addressed store of \<open>core/blob_store.py\<close>. The files below the store's root are a map
  from their names to their bytes. The digest function (\<open>hashlib.sha256(...).hexdigest()\<close>) and the
  fresh temporary name are arguments; what the code relies on of them is that a digest is never a
  temporary name (it has no dot). The source of the chunks either delivers bytes or raises. A save
  touches only its own temporary file until the final \<open>replace\<close>, so it is modelled in one go.
\<close>

datatype chunk = Chunk bytes | Source_raised string

datatype blob_error =
    BlobTooLargeError nat nat
  | BlobHashMismatchError string string
  | Source_error string

record blob_ref =
  br_sha256 :: string
  br_size :: nat

record blob_store =
  bs_max_bytes :: nat
  bs_files :: "string \<rightharpoonup> bytes"

definition DEFAULT_MAX_BYTES :: nat where
  "DEFAULT_MAX_BYTES = 2 * 1024 * 1024 * 1024"

definition blob_exists :: "string \<Rightarrow> blob_store \<Rightarrow> bool" where
  "blob_exists name st \<longleftrightarrow> bs_files st name \<noteq> None"

text \<open>\<open>str\<close> of the two errors of the store.\<close>

fun blob_error_str :: "blob_error \<Rightarrow> string" where
  "blob_error_str (BlobTooLargeError sz max_bytes) =
     ''blob size '' @ nat_str sz @ '' exceeds max '' @ nat_str max_bytes @ '' bytes''"
| "blob_error_str (BlobHashMismatchError expected actual) =
     ''expected sha256 '' @ expected @ '', got '' @ actual"
| "blob_error_str (Source_error m) = m"

text \<open>
  The \<open>async for\<close> loop: \<open>sz\<close> counts the bytes seen, \<open>written\<close> is the temporary file so far, which
  is also what the hasher has been fed.
\<close>

fun receive :: "nat \<Rightarrow> chunk list \<Rightarrow> nat \<Rightarrow> bytes \<Rightarrow> blob_error + nat \<times> bytes" where
  "receive max_bytes [] sz written = Inr (sz, written)"
| "receive max_bytes (Source_raised m # cs) sz written = Inl (Source_error m)"
| "receive max_bytes (Chunk b # cs) sz written =
     (let sz' = sz + length b
      in if sz' > max_bytes then Inl (BlobTooLargeError sz' max_bytes)
         else receive max_bytes cs sz' (written @ b))"

definition save_stream ::
    "(bytes \<Rightarrow> string) \<Rightarrow> string \<Rightarrow> string option \<Rightarrow> chunk list \<Rightarrow> blob_store \<Rightarrow>
     (blob_error + blob_ref) \<times> blob_store" where
  "save_stream sha256 tmp expected chunks st =
     (let unlink = (\<lambda>fs. fs(tmp := None));
          place = (\<lambda>digest sz written.
            (Inr \<lparr>br_sha256 = digest, br_size = sz\<rparr>,
             st\<lparr>bs_files := unlink ((bs_files st)(tmp \<mapsto> written, tmp := None, digest \<mapsto> written))\<rparr>))
      in case receive (bs_max_bytes st) chunks 0 [] of
           Inl e \<Rightarrow> (Inl e, st\<lparr>bs_files := unlink (bs_files st)\<rparr>)
         | Inr (sz, written) \<Rightarrow>
             let digest = sha256 written; files = (bs_files st)(tmp \<mapsto> written)
             in (case expected of
                   Some e \<Rightarrow> if digest \<noteq> e
                     then (Inl (BlobHashMismatchError e digest), st\<lparr>bs_files := unlink files\<rparr>)
                     else place digest sz written
                 | None \<Rightarrow> place digest sz written))"

section \<open>What the loop accepts\<close>

fun chunk_bytes :: "chunk list \<Rightarrow> bytes" where
  "chunk_bytes [] = []"
| "chunk_bytes (Chunk b # cs) = b @ chunk_bytes cs"
| "chunk_bytes (Source_raised m # cs) = chunk_bytes cs"

lemma receive_ok_iff:
  "sz = length written \<Longrightarrow> sz \<le> max_bytes \<Longrightarrow>
   receive max_bytes cs sz written = Inr (n, bs) \<longleftrightarrow>
     (\<forall>m. Source_raised m \<notin> set cs) \<and> sz + length (chunk_bytes cs) \<le> max_bytes \<and>
     n = sz + length (chunk_bytes cs) \<and> bs = written @ chunk_bytes cs"
  by (induction max_bytes cs sz written rule: receive.induct) (auto simp: Let_def)

section \<open>The store is content-addressed\<close>

definition blob_inv :: "(bytes \<Rightarrow> string) \<Rightarrow> blob_store \<Rightarrow> bool" where
  "blob_inv sha256 st \<longleftrightarrow>
     (\<forall>name bs. bs_files st name = Some bs \<longrightarrow> name = sha256 bs \<and> length bs \<le> bs_max_bytes st)"

lemma blob_inv_save [inv_intros]:
  assumes "blob_inv sha256 st"
  shows "blob_inv sha256 (snd (save_stream sha256 tmp expected chunks st))"
proof (cases "receive (bs_max_bytes st) chunks 0 []")
  case (Inl e)
  with assms show ?thesis by (simp add: save_stream_def blob_inv_def Let_def)
next
  case (Inr r)
  then have "snd r = chunk_bytes chunks" "length (chunk_bytes chunks) \<le> bs_max_bytes st"
    by (cases r; simp add: receive_ok_iff)+
  with Inr assms show ?thesis
    by (auto simp: save_stream_def blob_inv_def Let_def split: prod.split option.split)
qed

text \<open>
  An upload is stored exactly when it should be. \<open>save_stream\<close> succeeds if and only if the
  source delivered everything without raising, the bytes fit the size limit, and the digest is the
  expected one when one is given. Then the store holds exactly the bytes delivered, in order, under
  their digest, and the reference carries that digest and their number. On any failure, and apart
  from that one file on success, the directory is what it was before: no temporary file is left.
\<close>

theorem save_stream_exact:
  assumes "bs_files st tmp = None" and "\<And>bs. sha256 bs \<noteq> tmp"
  shows "let data = chunk_bytes chunks;
      accepted = ((\<forall>m. Source_raised m \<notin> set chunks) \<and> length data \<le> bs_max_bytes st \<and>
        (\<forall>e. expected = Some e \<longrightarrow> e = sha256 data));
      (res, st') = save_stream sha256 tmp expected chunks st
    in is_ok res = accepted \<and>
       (accepted \<longrightarrow> res = Inr \<lparr>br_sha256 = sha256 data, br_size = length data\<rparr>) \<and>
       bs_files st' = (if accepted then (bs_files st)(sha256 data \<mapsto> data) else bs_files st)"
proof (cases "receive (bs_max_bytes st) chunks 0 []")
  case (Inl e)
  then have "\<not> ((\<forall>m. Source_raised m \<notin> set chunks) \<and> length (chunk_bytes chunks) \<le> bs_max_bytes st)"
    using receive_ok_iff [of 0 "[]" "bs_max_bytes st" chunks "length (chunk_bytes chunks)"
        "chunk_bytes chunks"] by auto
  moreover have "(bs_files st)(tmp := None) = bs_files st"
    using assms(1) by (simp add: fun_upd_idem)
  ultimately show ?thesis
    using Inl by (auto simp: save_stream_def Let_def)
next
  case (Inr r)
  then have r: "r = (length (chunk_bytes chunks), chunk_bytes chunks)"
    and ok: "\<forall>m. Source_raised m \<notin> set chunks" "length (chunk_bytes chunks) \<le> bs_max_bytes st"
    by (cases r; simp add: receive_ok_iff)+
  have same: "(bs_files st)(tmp := None) = bs_files st"
    using assms(1) by (simp add: fun_upd_idem)
  show ?thesis
  proof (cases "expected = None \<or> expected = Some (sha256 (chunk_bytes chunks))")
    case True
    have "((bs_files st)(tmp := None, sha256 (chunk_bytes chunks) \<mapsto> chunk_bytes chunks))(tmp := None) =
        (bs_files st)(sha256 (chunk_bytes chunks) \<mapsto> chunk_bytes chunks)"
      using assms by (auto simp: fun_eq_iff)
    with True Inr ok show ?thesis by (auto simp: save_stream_def Let_def r)
  next
    case False
    with Inr ok same show ?thesis by (auto simp: save_stream_def Let_def r)
  qed
qed

definition demo_digest :: "bytes \<Rightarrow> string" where
  "demo_digest bs = map (\<lambda>b. char_of (97 + unat b mod 16)) bs"

theorem save_stream_exact_witness:
  "is_ok (fst (save_stream demo_digest ''.tmp-0'' None [Chunk [1, 2], Chunk [3]]
     \<lparr>bs_max_bytes = 3, bs_files = Map.empty\<rparr>))"
proof -
  have tmp: "demo_digest bs \<noteq> ''.tmp-0''" for bs
  proof
    assume "demo_digest bs = ''.tmp-0''"
    then obtain b bs' where "bs = b # bs'" and "char_of (97 + unat b mod 16) = CHR ''.''"
      by (cases bs) (simp_all add: demo_digest_def)
    then have "of_char (char_of (97 + unat b mod 16) :: char) = (46 :: nat)" by simp
    moreover have "97 + unat b mod 16 < 256"
      using mod_less_divisor [of 16 "unat b"] by simp
    ultimately show False by simp
  qed
  show ?thesis
    using save_stream_exact [of "\<lparr>bs_max_bytes = 3, bs_files = Map.empty\<rparr>" "''.tmp-0''" demo_digest
        "[Chunk [1, 2], Chunk [3]]" None] tmp
    by (simp add: Let_def split_beta)
qed

end
