(* ===== verification/Device_Runtime.thy ===== *)
theory Device_Runtime
  imports Control_Sessions Event_Bus Target_Runner Config_Service Blob_Store
begin

text \<open>
  The Runtime of \<open>core/device_runtime.py\<close>: it owns a ledger, an event bus, the control sessions,
  the config service, a blob store and one target runner per adapter, and it is what clients
  talk to. A segment of a runner's coroutine sees the Runtime as a \<open>runner_world\<close> whose records are
  the ledger's; \<open>in_runner\<close> runs such a segment and then hands every record change to
  \<open>_on_command_change\<close>, in order, which publishes one event each. Nothing can run between a change
  and its event, so doing it at the end of the segment is the same. Logging is left out.

  An adapter is represented by its manifest; its answers to \<open>execute\<close> and \<open>is_action_complete\<close> are
  the inputs of the segments. \<open>env\<close> supplies the identifier and the wall-clock time of the events a
  segment publishes, by their position.
\<close>

section \<open>State\<close>

record device_runtime =
  rt_runtime_id :: string
  rt_runtime_boot_id :: string
  rt_adapters :: "(string, target_manifest) dict"
  rt_ledger :: command_ledger
  rt_events :: event_bus
  rt_sessions :: session_manager
  rt_config :: config_service
  rt_blobs :: blob_store
  rt_runners :: "(string, target_runner) dict"

type_synonym event_env = "nat \<Rightarrow> string \<times> time"

text \<open>
  The constructor: it checks every manifest before anything else (\<open>Inl\<close> is the \<open>ValueError\<close> for a
  duplicate action name).
\<close>

fun validate_all :: "(string \<times> target_manifest) list \<Rightarrow> string + unit" where
  "validate_all [] = Inr ()"
| "validate_all ((_, m) # ms) =
     (case validate_manifest m of Inl name \<Rightarrow> Inl name | Inr _ \<Rightarrow> validate_all ms)"

definition new_device_runtime ::
    "string \<Rightarrow> string \<Rightarrow> (string, target_manifest) dict \<Rightarrow> blob_store \<Rightarrow> string + device_runtime" where
  "new_device_runtime runtime_id boot adapters blobs =
     (case validate_all adapters of
        Inl name \<Rightarrow> Inl name
      | Inr _ \<Rightarrow> Inr
         \<lparr>rt_runtime_id = runtime_id, rt_runtime_boot_id = boot, rt_adapters = adapters,
          rt_ledger = new_ledger,
          rt_events = new_event_bus runtime_id boot DEFAULT_REPLAY_BUFFER_SIZE DEFAULT_SUBSCRIBER_QUEUE_SIZE,
          rt_sessions = new_session_manager boot,
          rt_config = new_config_service DEFAULT_JOURNAL_LIMIT,
          rt_blobs = blobs,
          rt_runners = map (\<lambda>(tid, m). (tid, new_target_runner tid)) adapters\<rparr>)"

section \<open>Record changes become events\<close>

definition opt_str :: "string option \<Rightarrow> pyval" where
  "opt_str x = (case x of None \<Rightarrow> PNone | Some s \<Rightarrow> PStr s)"

definition change_publication :: "command_record \<Rightarrow> string \<times> time \<Rightarrow> publication" where
  "change_publication r ew =
     (let common = \<lparr>pub_event_id = fst ew, pub_type = ''command.status_changed'',
            pub_target_id = Some (cr_target_id r), pub_command_id = Some (cr_command_id r),
            pub_run_id = cr_run_id r, pub_cue_id = cr_cue_id r,
            pub_payload = [(''status'', PStr (status_value (cr_status r)))], pub_wall = snd ew\<rparr>
      in if cr_status r = TERMINAL
         then common\<lparr>pub_type := ''command.completed'',
                pub_payload :=
                  [(''outcome'', opt_str (map_option outcome_value (cr_outcome r))),
                   (''achieved_completion'',
                    opt_str (map_option requirement_value (cr_achieved_completion r)))]\<rparr>
         else common)"

text \<open>The publications of a list of changes, and publishing them in order.\<close>

definition change_publications :: "event_env \<Rightarrow> command_record list \<Rightarrow> publication list" where
  "change_publications env rs = map (\<lambda>(i, r). change_publication r (env i)) (List.enumerate 0 rs)"

definition publish_changes :: "event_env \<Rightarrow> command_record list \<Rightarrow> event_bus \<Rightarrow> event_bus" where
  "publish_changes env rs b = snd (collect publish (change_publications env rs) b)"

definition world_of :: "target_runner \<Rightarrow> device_runtime \<Rightarrow> runner_world" where
  "world_of tr rt = \<lparr>rw_runner = tr, rw_records = lg_by_command_id (rt_ledger rt), rw_changes = []\<rparr>"

definition put_world :: "event_env \<Rightarrow> string \<Rightarrow> runner_world \<Rightarrow> device_runtime \<Rightarrow> device_runtime" where
  "put_world env tid w rt =
     rt\<lparr>rt_runners := dset tid (rw_runner w) (rt_runners rt),
        rt_ledger := (rt_ledger rt)\<lparr>lg_by_command_id := rw_records w\<rparr>,
        rt_events := publish_changes env (rw_changes w) (rt_events rt)\<rparr>"

definition in_runner ::
    "event_env \<Rightarrow> string \<Rightarrow> (runner_world \<Rightarrow> runner_world) \<Rightarrow> device_runtime \<Rightarrow> device_runtime" where
  "in_runner env tid f rt =
     (case dget (rt_runners rt) tid of
        None \<Rightarrow> rt
      | Some tr \<Rightarrow> put_world env tid (f (world_of tr rt)) rt)"

section \<open>Commands\<close>

text \<open>
  \<open>submit_command\<close> up to its first suspension, or to its end. \<open>Returned c\<close>: the request was known, the
  record of command \<open>c\<close> is returned; \<open>Suspended c\<close>: the new command \<open>c\<close> is with its adapter. In the
  order of the code: unknown target, control session, ledger, and then the runner, whose refusal
  makes the record terminal before it is raised again. (\<open>Inl None\<close> stands for a \<open>KeyError\<close>.)
\<close>

datatype submit_reply = Returned string | Suspended string

definition reject_command :: "event_env \<Rightarrow> string \<Rightarrow> fusion_error \<Rightarrow> device_runtime \<Rightarrow> device_runtime" where
  "reject_command env c exc rt =
     (let h = lg_by_command_id (rt_ledger rt);
          h' = h(c := map_option (reject_record (error_to_dict exc)) (h c))
      in rt\<lparr>rt_ledger := (rt_ledger rt)\<lparr>lg_by_command_id := h'\<rparr>,
            rt_events := publish_changes env (case h' c of None \<Rightarrow> [] | Some r \<Rightarrow> [r]) (rt_events rt)\<rparr>)"

definition submit_command ::
    "event_env \<Rightarrow> string \<Rightarrow> time \<Rightarrow> time \<Rightarrow> command_submit_request \<Rightarrow> device_runtime \<Rightarrow>
     (fusion_error option + submit_reply) \<times> device_runtime" where
  "submit_command env new_id now wall req rt =
     (case (dget (rt_runners rt) (sr_target_id req), dget (rt_adapters rt) (sr_target_id req)) of
        (Some runner, Some manifest) \<Rightarrow>
         (case validate (sr_control_session_id req) now (rt_sessions rt) of
            (Inl e, sm) \<Rightarrow> (Inl (Some e), rt\<lparr>rt_sessions := sm\<rparr>)
          | (Inr _, sm) \<Rightarrow>
              let rt1 = rt\<lparr>rt_sessions := sm\<rparr>
              in (case ledger_begin req new_id (rt_runtime_id rt) (rt_runtime_boot_id rt)
                         (tr_execution_generation runner) wall (rt_ledger rt1) of
                    (Inl e, lg) \<Rightarrow> (Inl e, rt1\<lparr>rt_ledger := lg\<rparr>)
                  | (Inr (c, False), lg) \<Rightarrow> (Inr (Returned c), rt1\<lparr>rt_ledger := lg\<rparr>)
                  | (Inr (c, True), lg) \<Rightarrow>
                      let rt2 = rt1\<lparr>rt_ledger := lg\<rparr>
                      in (case submit_begin manifest c wall (world_of runner rt2) of
                            Inl e \<Rightarrow> (Inl (Some e), reject_command env c e rt2)
                          | Inr w \<Rightarrow> (Inr (Suspended c), put_world env (sr_target_id req) w rt2))))
      | _ \<Rightarrow> (Inl (Some (FusionError UNKNOWN_TARGET (''unknown target '' @ quoted (sr_target_id req)))), rt))"

definition get_command :: "string \<Rightarrow> device_runtime \<Rightarrow> command_record option" where
  "get_command c rt = ledger_get c (rt_ledger rt)"

text \<open>The suspended parts of a command go on in its runner.\<close>

definition resume_command :: "event_env \<Rightarrow> string \<Rightarrow> exec_result \<Rightarrow> string \<Rightarrow> time \<Rightarrow> device_runtime \<Rightarrow> device_runtime" where
  "resume_command env tid res c wall rt = in_runner env tid (submit_resume res c wall) rt"

definition observe_command ::
    "event_env \<Rightarrow> string \<Rightarrow> string \<Rightarrow> time \<Rightarrow> time \<Rightarrow> completion \<Rightarrow> time \<Rightarrow> device_runtime \<Rightarrow> device_runtime" where
  "observe_command env tid c t0 now answer wall rt = in_runner env tid (observe_step c t0 now answer wall) rt"

definition cancel_observation :: "event_env \<Rightarrow> string \<Rightarrow> string \<Rightarrow> time \<Rightarrow> device_runtime \<Rightarrow> device_runtime" where
  "cancel_observation env tid c wall rt = in_runner env tid (observe_cancelled c wall) rt"

section \<open>Events\<close>

definition publish_event ::
    "string \<Rightarrow> string option \<Rightarrow> params \<Rightarrow> string \<times> time \<Rightarrow> device_runtime \<Rightarrow> event \<times> device_runtime" where
  "publish_event type target payload ew rt =
     (let (e, b) = publish \<lparr>pub_event_id = fst ew, pub_type = type, pub_target_id = target,
            pub_command_id = None, pub_run_id = None, pub_cue_id = None, pub_payload = payload,
            pub_wall = snd ew\<rparr> (rt_events rt)
      in (e, rt\<lparr>rt_events := b\<rparr>))"

definition runtime_replay_since :: "nat \<Rightarrow> device_runtime \<Rightarrow> event list option" where
  "runtime_replay_since n rt = replay_since n (rt_events rt)"

definition subscribe_events :: "device_runtime \<Rightarrow> nat \<times> device_runtime" where
  "subscribe_events rt = (let (i, b) = subscribe (rt_events rt) in (i, rt\<lparr>rt_events := b\<rparr>))"

definition unsubscribe_events :: "nat \<Rightarrow> device_runtime \<Rightarrow> device_runtime" where
  "unsubscribe_events i rt = rt\<lparr>rt_events := unsubscribe i (rt_events rt)\<rparr>"

section \<open>Control sessions\<close>

definition bump_all :: "(string, target_runner) dict \<Rightarrow> (string, target_runner) dict" where
  "bump_all runners = dmap bump_generation runners"

definition acquire_control_session ::
    "string \<Rightarrow> string \<Rightarrow> runtime_mode \<Rightarrow> rat option \<Rightarrow> time \<Rightarrow> device_runtime \<Rightarrow>
     control_session \<times> device_runtime" where
  "acquire_control_session new_id actor mode ttl_s now rt =
     (let rt1 = rt\<lparr>rt_runners := bump_all (rt_runners rt)\<rparr>;
          (session, sm) = acquire new_id actor mode ttl_s now (rt_sessions rt1)
      in (session, rt1\<lparr>rt_sessions := sm\<rparr>))"

definition renew_control_session ::
    "string \<Rightarrow> time \<Rightarrow> time \<Rightarrow> device_runtime \<Rightarrow> (fusion_error + control_session) \<times> device_runtime" where
  "renew_control_session sid now now' rt =
     (let (res, sm) = renew sid None now now' (rt_sessions rt) in (res, rt\<lparr>rt_sessions := sm\<rparr>))"

definition release_control_session :: "string \<Rightarrow> device_runtime \<Rightarrow> device_runtime" where
  "release_control_session sid rt =
     rt\<lparr>rt_sessions := release sid (rt_sessions rt), rt_runners := bump_all (rt_runners rt)\<rparr>"

section \<open>Config\<close>

definition default_apply_guard :: "device_runtime \<Rightarrow> guard_result" where
  "default_apply_guard rt =
     (let busy_targets = [tid. (tid, tr) \<leftarrow> rt_runners rt, runner_busy (world_of tr rt)]
      in if busy_targets \<noteq> []
         then Guard_refused (''targets busy, cannot apply now: '' @ str_join '', '' busy_targets)
         else Guard_ok)"

definition stage_config ::
    "string \<Rightarrow> params \<Rightarrow> string \<Rightarrow> string \<Rightarrow> time \<Rightarrow> device_runtime \<Rightarrow> config_revision \<times> device_runtime" where
  "stage_config kind content new_id content_hash now rt =
     (let (rv, cfg) = stage kind content new_id content_hash now (rt_config rt)
      in (rv, rt\<lparr>rt_config := cfg\<rparr>))"

definition apply_config_begin ::
    "nat \<Rightarrow> string \<Rightarrow> string option \<Rightarrow> device_runtime \<Rightarrow> fusion_error + device_runtime" where
  "apply_config_begin a rid expected rt =
     (case apply_begin a rid expected (rt_config rt) of
        Inl e \<Rightarrow> Inl e
      | Inr cfg \<Rightarrow> Inr (rt\<lparr>rt_config := cfg\<rparr>))"

definition apply_config_enter :: "nat \<Rightarrow> time \<Rightarrow> device_runtime \<Rightarrow> apply_record option \<times> device_runtime" where
  "apply_config_enter a now rt =
     (let (ro, cfg) = apply_enter a now (rt_config rt) in (ro, rt\<lparr>rt_config := cfg\<rparr>))"

text \<open>
  The guard answers: an app's own guard with any result (\<open>Some g\<close>), the default one from the state of
  the runners at that moment (\<open>None\<close>). \<open>_on_config_applied\<close> bumps every runner.
\<close>

definition apply_config_resume ::
    "guard_result option \<Rightarrow> nat \<Rightarrow> time \<Rightarrow> device_runtime \<Rightarrow> apply_record option \<times> device_runtime" where
  "apply_config_resume own_guard a now rt =
     (let g = (case own_guard of None \<Rightarrow> default_apply_guard rt | Some g \<Rightarrow> g);
          (ro, cfg, runners) = apply_resume bump_all g a now (rt_config rt, rt_runners rt)
      in (ro, rt\<lparr>rt_config := cfg, rt_runners := runners\<rparr>))"

section \<open>Blobs\<close>

definition save_blob ::
    "(bytes \<Rightarrow> string) \<Rightarrow> string \<Rightarrow> string option \<Rightarrow> chunk list \<Rightarrow> device_runtime \<Rightarrow>
     ((string + fusion_error) + blob_ref) \<times> device_runtime" where
  "save_blob sha256 tmp expected chunks rt =
     (case save_stream sha256 tmp expected chunks (rt_blobs rt) of
        (Inr ref, st) \<Rightarrow> (Inr ref, rt\<lparr>rt_blobs := st\<rparr>)
      | (Inl (Source_error m), st) \<Rightarrow> (Inl (Inl m), rt\<lparr>rt_blobs := st\<rparr>)
      | (Inl e, st) \<Rightarrow> (Inl (Inr (FusionError VALIDATION_ERROR (blob_error_str e))), rt\<lparr>rt_blobs := st\<rparr>))"

definition open_blob :: "string \<Rightarrow> device_runtime \<Rightarrow> fusion_error + string" where
  "open_blob sha rt =
     (if \<not> blob_exists sha (rt_blobs rt)
      then Inl (FusionError BLOB_NOT_FOUND (''unknown blob sha256 '' @ quoted sha))
      else Inr sha)"

section \<open>Every operation as a step\<close>

text \<open>
  The operations with their inputs, one constructor per segment that runs without interruption, and
  when one of them may occur: a fresh command id was not used before, and so for the identifier of
  an \<open>apply\<close> call.
\<close>

datatype runtime_op =
    Rt_submit event_env string time time command_submit_request
  | Rt_resume event_env string exec_result string time
  | Rt_observe event_env string string time time completion time
  | Rt_cancel event_env string string time
  | Rt_publish string "string option" params "string \<times> time"
  | Rt_subscribe
  | Rt_unsubscribe nat
  | Rt_get nat
  | Rt_acquire string string runtime_mode "rat option" time
  | Rt_renew string time time
  | Rt_release string
  | Rt_stage string params string string time
  | Rt_apply_begin nat string "string option"
  | Rt_apply_enter nat time
  | Rt_apply_resume "guard_result option" nat time
  | Rt_apply_cancel nat
  | Rt_save_blob "bytes \<Rightarrow> string" string "string option" "chunk list"

fun runtime_perform :: "runtime_op \<Rightarrow> device_runtime \<Rightarrow> device_runtime" where
  "runtime_perform (Rt_submit env c now wall req) rt = snd (submit_command env c now wall req rt)"
| "runtime_perform (Rt_resume env tid res c wall) rt = resume_command env tid res c wall rt"
| "runtime_perform (Rt_observe env tid c t0 now answer wall) rt =
     observe_command env tid c t0 now answer wall rt"
| "runtime_perform (Rt_cancel env tid c wall) rt = cancel_observation env tid c wall rt"
| "runtime_perform (Rt_publish ty target payload ew) rt = snd (publish_event ty target payload ew rt)"
| "runtime_perform Rt_subscribe rt = snd (subscribe_events rt)"
| "runtime_perform (Rt_unsubscribe i) rt = unsubscribe_events i rt"
| "runtime_perform (Rt_get i) rt = rt\<lparr>rt_events := snd (queue_get i (rt_events rt))\<rparr>"
| "runtime_perform (Rt_acquire new_id actor mode ttl now) rt =
     snd (acquire_control_session new_id actor mode ttl now rt)"
| "runtime_perform (Rt_renew sid now now') rt = snd (renew_control_session sid now now' rt)"
| "runtime_perform (Rt_release sid) rt = release_control_session sid rt"
| "runtime_perform (Rt_stage kind content new_id h now) rt = snd (stage_config kind content new_id h now rt)"
| "runtime_perform (Rt_apply_begin a rid expected) rt =
     (case apply_config_begin a rid expected rt of Inl _ \<Rightarrow> rt | Inr rt' \<Rightarrow> rt')"
| "runtime_perform (Rt_apply_enter a now) rt = snd (apply_config_enter a now rt)"
| "runtime_perform (Rt_apply_resume g a now) rt = snd (apply_config_resume g a now rt)"
| "runtime_perform (Rt_apply_cancel a) rt = rt\<lparr>rt_config := apply_cancel_waiting a (rt_config rt)\<rparr>"
| "runtime_perform (Rt_save_blob sha256 tmp expected chunks) rt =
     snd (save_blob sha256 tmp expected chunks rt)"

fun op_admissible :: "runtime_op \<Rightarrow> device_runtime \<Rightarrow> bool" where
  "op_admissible (Rt_submit env c now wall req) rt \<longleftrightarrow> lg_by_command_id (rt_ledger rt) c = None"
| "op_admissible (Rt_apply_begin a rid expected) rt \<longleftrightarrow> cfg_calls (rt_config rt) a = None"
| "op_admissible _ rt \<longleftrightarrow> True"

text \<open>
  The events a step has added to the bus, as a reader finds them in the replay buffer (no step adds
  more than fit), and the runs of a Runtime with the events of the whole run.
\<close>

definition new_events :: "event_bus \<Rightarrow> event_bus \<Rightarrow> event list" where
  "new_events b b' = filter (\<lambda>e. eb_sequence b < ev_sequence e) (eb_buffer b')"

inductive runtime_run :: "device_runtime \<Rightarrow> event list \<Rightarrow> device_runtime \<Rightarrow> bool" for rt0 where
  rt_refl: "runtime_run rt0 [] rt0"
| rt_step: "runtime_run rt0 hist rt \<Longrightarrow> op_admissible p rt \<Longrightarrow>
    runtime_run rt0 (hist @ new_events (rt_events rt) (rt_events (runtime_perform p rt)))
      (runtime_perform p rt)"

section \<open>Segments change one target's records only\<close>

lemma records_evolveI:
  assumes "\<And>d r. h d = Some r \<Longrightarrow> \<exists>r'. h' d = Some r' \<and> record_advances r r'"
    and "\<And>d. h d = None \<Longrightarrow> h' d = None"
  shows "records_evolve h h'"
  unfolding records_evolve_def
proof
  fix c
  show "rel_option same_content (h c) (h' c)"
    using assms [of c] by (cases "h c") (auto simp: record_advances_def)
qed

text \<open>
  What a segment \<open>f\<close> of runner \<open>tid\<close> does, as the Runtime needs it: a step of that runner that keeps the
  records' content and leaves every record of another target alone, and the changes it reports
  for a command are its terminal record, once, when it became terminal.
\<close>

definition terminal_in :: "records \<Rightarrow> string \<Rightarrow> bool" where
  "terminal_in h c \<longleftrightarrow> (\<exists>r. h c = Some r \<and> cr_status r = TERMINAL)"

definition terminal_changes :: "string \<Rightarrow> command_record list \<Rightarrow> command_record list" where
  "terminal_changes c rs = filter (\<lambda>r. cr_status r = TERMINAL \<and> cr_command_id r = c) rs"

definition newly_terminal :: "records \<Rightarrow> records \<Rightarrow> string \<Rightarrow> command_record list" where
  "newly_terminal h h' c =
     (case h' c of Some r \<Rightarrow> if cr_status r = TERMINAL \<and> \<not> terminal_in h c then [r] else [] | None \<Rightarrow> [])"

definition good_segment :: "runner_world \<Rightarrow> runner_world \<Rightarrow> bool" where
  "good_segment w w' \<longleftrightarrow>
     runner_step w w' \<and>
     records_evolve (rw_records w) (rw_records w') \<and>
     (\<forall>c r. cr_target_id r \<noteq> tr_target_id (rw_runner w) \<longrightarrow>
        (rw_records w' c = Some r \<longleftrightarrow> rw_records w c = Some r)) \<and>
     (\<forall>c. terminal_changes c (rw_changes w') = newly_terminal (rw_records w) (rw_records w') c) \<and>
     length (rw_changes w') \<le> 4"

lemma terminal_changes_simps [simp]:
  "terminal_changes c [] = []"
  "terminal_changes c (r # rs) =
     (if cr_status r = TERMINAL \<and> cr_command_id r = c then r # terminal_changes c rs
      else terminal_changes c rs)"
  "terminal_changes c (rs @ rs') = terminal_changes c rs @ terminal_changes c rs'"
  by (simp_all add: terminal_changes_def)

lemma changes_parts [simp]:
  "rw_changes (update_record c f w) = rw_changes w"
  "rw_changes (set_frame c fo w) = rw_changes w"
  "rw_changes (touch c wall w) =
     rw_changes w @ (case rw_records w c of None \<Rightarrow> [] | Some r \<Rightarrow> [r\<lparr>cr_updated_at := wall\<rparr>])"
  "rw_changes (set_status st c wall w) =
     rw_changes w @ (case rw_records w c of None \<Rightarrow> []
       | Some r \<Rightarrow> [r\<lparr>cr_status := st, cr_updated_at := wall\<rparr>])"
  "rw_changes (finish c out ach wall w) =
     rw_changes w @ (case rw_records w c of None \<Rightarrow> []
       | Some r \<Rightarrow> [r\<lparr>cr_status := TERMINAL, cr_outcome := Some out, cr_achieved_completion := ach,
            cr_updated_at := wall\<rparr>])"
  by (auto simp: world_defs split: option.split)

lemma newly_terminal_simps [simp]:
  "newly_terminal h h c = []"
  "d \<noteq> c \<Longrightarrow> newly_terminal h (h(c \<mapsto> r)) d = []"
  "newly_terminal h (h(c \<mapsto> r)) c = (if cr_status r = TERMINAL \<and> \<not> terminal_in h c then [r] else [])"
  by (auto simp: newly_terminal_def terminal_in_def split: option.split)

lemma good_segment_one:
  assumes "runner_step w w'" and r: "rw_records w c = Some r"
    and w': "rw_records w' = (rw_records w)(c \<mapsto> r')"
    and "record_advances r r'" and "cr_target_id r = tr_target_id (rw_runner w)"
    and "cr_status r \<noteq> TERMINAL" and "cr_command_id r = c"
    and ch: "\<forall>x \<in> set (rw_changes w'). cr_command_id x = c"
      "filter (\<lambda>x. cr_status x = TERMINAL) (rw_changes w') = (if cr_status r' = TERMINAL then [r'] else [])"
      "length (rw_changes w') \<le> 4"
  shows "good_segment w w'"
  unfolding good_segment_def
proof (intro conjI allI impI)
  show "records_evolve (rw_records w) (rw_records w')"
    using r w' assms(4) by (auto intro: records_evolve_update simp: record_advances_def)
  show "rw_records w' d = Some x \<longleftrightarrow> rw_records w d = Some x"
    if "cr_target_id x \<noteq> tr_target_id (rw_runner w)" for d x
    using that r w' assms(4,5) by (auto simp: record_advances_def same_content_def)
  show "terminal_changes d (rw_changes w') = newly_terminal (rw_records w) (rw_records w') d" for d
  proof (cases "d = c")
    case True
    have "terminal_changes c (rw_changes w') = filter (\<lambda>x. cr_status x = TERMINAL) (rw_changes w')"
      unfolding terminal_changes_def using ch(1) by (intro filter_cong) auto
    with True ch(2) r w' assms(6) show ?thesis by (simp add: terminal_in_def)
  next
    case False
    with ch(1) have "terminal_changes d (rw_changes w') = []"
      by (auto simp: terminal_changes_def filter_empty_conv)
    with False w' show ?thesis by simp
  qed
qed (use assms in simp_all)

lemma good_segment_none:
  "runner_step w w' \<Longrightarrow> rw_records w' = rw_records w \<Longrightarrow> rw_changes w' = [] \<Longrightarrow> good_segment w w'"
  by (simp add: good_segment_def)

lemma good_submit:
  assumes "runner_inv w" and "rw_changes w = []" and r: "rw_records w c = Some r" and "cr_status r = QUEUED"
    and "cr_target_id r = tr_target_id (rw_runner w)" and "cr_command_id r = c"
    and sub: "submit_begin m c wall w = Inr w'"
  shows "good_segment w w'"
proof -
  have "rw_changes w' = (case rw_records w' c of None \<Rightarrow> [] | Some r \<Rightarrow> [r])"
    using sub r assms(2) by (auto simp: submit_begin_def Let_def split: option.splits if_splits)
  moreover from r sub have w': "rw_records w' = (rw_records w)(c \<mapsto> r\<lparr>cr_status := DISPATCHING, cr_updated_at := wall,
      cr_execution_generation := tr_execution_generation (rw_runner w')\<rparr>)"
    by (rule submit_begin_Some)
  moreover have "runner_step w w'"
    using r assms(4,5) sub by (rule step_submit)
  ultimately show ?thesis
    using assms by (intro good_segment_one [OF _ r w'])
      (auto simp: record_advances_def same_content_def status_order)
qed

lemma good_resume:
  assumes inv: "runner_inv w" and "rw_changes w = []"
    and ids: "\<And>c r. rw_records w c = Some r \<Longrightarrow> cr_command_id r = c"
  shows "good_segment w (submit_resume res c wall w)"
proof (cases "\<exists>g r. tr_frames (rw_runner w) c = Some (In_execute g) \<and> rw_records w c = Some r")
  case False
  then have "submit_resume res c wall w = w"
    by (auto simp: submit_resume_def split: option.split frame.split)
  with assms(2) step_resume [of w res c wall] show ?thesis
    by (intro good_segment_none) simp_all
next
  case True
  then obtain g r where f: "tr_frames (rw_runner w) c = Some (In_execute g)"
    and r: "rw_records w c = Some r" by blast
  from runner_inv_frame [OF inv f] r have fr: "frame_ok (rw_runner w) (In_execute g) r" by auto
  from submit_resume_records [OF inv r] obtain r' where
    r': "rw_records (submit_resume res c wall w) c = Some r'" "record_advances r r'" by blast
  have "rw_records (submit_resume res c wall w) = (rw_records w)(c \<mapsto> r')"
    using r f r'(1) by (auto simp: submit_resume_def Let_def fun_eq_iff split: exec_result.splits if_splits)
  from good_segment_one [OF step_resume r this r'(2)] show ?thesis
    using r f r'(1) fr ids [OF r] assms(2)
    by (cases res; cases "cr_completion_requirement r")
      (auto simp: submit_resume_def Let_def frame_ok_def)
qed

lemma good_observe:
  assumes inv: "runner_inv w" and "rw_changes w = []"
    and ids: "\<And>c r. rw_records w c = Some r \<Longrightarrow> cr_command_id r = c"
  shows "good_segment w (observe_step c t0 now answer wall w)"
proof (cases "\<exists>f r. tr_frames (rw_runner w) c = Some f \<and> frame_status f = OBSERVING \<and> rw_records w c = Some r")
  case False
  then have "observe_step c t0 now answer wall w = w"
    using runner_inv_frame [OF inv, of c]
    by (fastforce simp: observe_step_def split: option.split frame.split)
  with assms(2) step_observe [of w c t0 now answer wall] show ?thesis
    by (intro good_segment_none) simp_all
next
  case True
  then obtain f r where f: "tr_frames (rw_runner w) c = Some f" "frame_status f = OBSERVING"
    and r: "rw_records w c = Some r" by blast
  from runner_inv_frame [OF inv f(1)] r have fr: "frame_ok (rw_runner w) f r" by auto
  from observe_step_records [OF inv r] obtain r' where
    r': "rw_records (observe_step c t0 now answer wall w) c = Some r'" "record_advances r r'" by blast
  have "rw_records (observe_step c t0 now answer wall w) = (rw_records w)(c \<mapsto> r')"
    using r f r'(1)
    by (cases f) (auto simp: observe_step_def observe_turn_def Let_def fun_eq_iff
        split: completion.splits if_splits)
  from good_segment_one [OF step_observe r this r'(2)] show ?thesis
    using r f r'(1) fr ids [OF r] assms(2)
    by (cases f; cases answer)
      (auto simp: observe_step_def observe_turn_def Let_def frame_ok_def split: if_splits)
qed

lemma good_cancelled:
  assumes inv: "runner_inv w" and "rw_changes w = []"
    and ids: "\<And>c r. rw_records w c = Some r \<Longrightarrow> cr_command_id r = c"
  shows "good_segment w (observe_cancelled c wall w)"
proof (cases "\<exists>g d r. tr_frames (rw_runner w) c = Some (In_sleep g d) \<and> rw_records w c = Some r")
  case False
  then have "observe_cancelled c wall w = w"
    using runner_inv_frame [OF inv, of c]
    by (fastforce simp: observe_cancelled_def split: option.split frame.split)
  with assms(2) step_cancelled [of w c wall] show ?thesis
    by (intro good_segment_none) simp_all
next
  case True
  then obtain g d r where f: "tr_frames (rw_runner w) c = Some (In_sleep g d)"
    and r: "rw_records w c = Some r" by blast
  from runner_inv_frame [OF inv f] r have fr: "frame_ok (rw_runner w) (In_sleep g d) r" by auto
  from observe_cancelled_records [OF inv r] obtain r' where
    r': "rw_records (observe_cancelled c wall w) c = Some r'" "record_advances r r'" by blast
  have "rw_records (observe_cancelled c wall w) = (rw_records w)(c \<mapsto> r')"
    using r f r'(1) by (auto simp: observe_cancelled_def fun_eq_iff)
  from good_segment_one [OF step_cancelled r this r'(2)] show ?thesis
    using r f r'(1) fr ids [OF r] assms(2) by (auto simp: observe_cancelled_def frame_ok_def)
qed

end
