(* ===== verification/Runtime_Runs.thy ===== *)
theory Runtime_Runs
  imports Device_Runtime
begin

text \<open>
  What a run of a whole Runtime preserves. \<open>follows rt rt'\<close> is the refinement relation between the
  Runtime and its runners: for every target, what happened to the Runtime is a run of that target's
  runner, so everything proved of one runner in any environment holds of each runner here. \<open>rt_inv\<close>
  collects the components' invariants.
\<close>

section \<open>The Runtime refines its runners\<close>

lemma runner_run_trans: "runner_run w2 w3 \<Longrightarrow> runner_run w1 w2 \<Longrightarrow> runner_run w1 w3"
  by (induction rule: runner_run.induct) (auto intro: run_step)

lemma runner_run_one: "runner_step w w' \<Longrightarrow> runner_run w w'"
  by (rule run_step [OF run_refl])

definition follows :: "device_runtime \<Rightarrow> device_runtime \<Rightarrow> bool" where
  "follows rt rt' \<longleftrightarrow>
     dkeys (rt_runners rt') = dkeys (rt_runners rt) \<and>
     (\<forall>tid tr. dget (rt_runners rt) tid = Some tr \<longrightarrow>
        (\<exists>tr'. dget (rt_runners rt') tid = Some tr' \<and> runner_run (world_of tr rt) (world_of tr' rt')))"

lemma followsD:
  "follows rt rt' \<Longrightarrow> dget (rt_runners rt) tid = Some tr \<Longrightarrow>
   \<exists>tr'. dget (rt_runners rt') tid = Some tr' \<and> runner_run (world_of tr rt) (world_of tr' rt')"
  by (simp add: follows_def)

lemma follows_trans: "follows rt1 rt2 \<Longrightarrow> follows rt2 rt3 \<Longrightarrow> follows rt1 rt3"
  unfolding follows_def using runner_run_trans by fastforce

lemma follows_same:
  "rt_runners rt' = rt_runners rt \<Longrightarrow>
   lg_by_command_id (rt_ledger rt') = lg_by_command_id (rt_ledger rt) \<Longrightarrow> follows rt rt'"
  by (simp add: follows_def world_of_def run_refl)

lemma follows_refl [simp]: "follows rt rt"
  by (simp add: follows_same)

lemma world_of_sel [simp]:
  "rw_runner (world_of tr rt) = tr"
  "rw_records (world_of tr rt) = lg_by_command_id (rt_ledger rt)"
  "rw_changes (world_of tr rt) = []"
  by (simp_all add: world_of_def)

lemma follows_bump: "follows rt (rt\<lparr>rt_runners := bump_all (rt_runners rt)\<rparr>)"
proof -
  have "runner_run (world_of tr rt) (world_of (bump_generation tr) (rt\<lparr>rt_runners := rs\<rparr>))" for tr rs
    using runner_run_one [OF step_bump [of "world_of tr rt"]] by (simp add: world_of_def)
  then show ?thesis
    by (auto simp: follows_def bump_all_def)
qed

text \<open>After a segment, the world of its runner is the segment's result with the changes handed over.\<close>

lemma run_own:
  assumes "runner_step (world_of tr rt) w"
  shows "runner_run (world_of tr rt) (world_of (rw_runner w) (put_world env tid w rt))"
proof -
  have "runner_step w (w\<lparr>rw_records := rw_records w, rw_changes := []\<rparr>)"
    by (rule step_foreign) simp
  moreover have "w\<lparr>rw_records := rw_records w, rw_changes := []\<rparr> =
      world_of (rw_runner w) (put_world env tid w rt)"
    by (simp add: world_of_def put_world_def)
  ultimately show ?thesis
    using run_step [OF runner_run_one [OF assms]] by simp
qed

lemma run_other:
  assumes "\<And>c r. cr_target_id r = tr_target_id tr \<Longrightarrow>
    lg_by_command_id (rt_ledger rt') c = Some r \<longleftrightarrow> lg_by_command_id (rt_ledger rt) c = Some r"
  shows "runner_run (world_of tr rt) (world_of tr rt')"
proof -
  have "runner_step (world_of tr rt)
      ((world_of tr rt)\<lparr>rw_records := lg_by_command_id (rt_ledger rt'), rw_changes := []\<rparr>)"
    by (rule step_foreign) (simp add: assms)
  then show ?thesis
    using runner_run_one by (simp add: world_of_def)
qed

section \<open>The invariant of a Runtime\<close>

definition rt_inv :: "device_runtime \<Rightarrow> bool" where
  "rt_inv rt \<longleftrightarrow>
     dkeys (rt_runners rt) = dkeys (rt_adapters rt) \<and>
     (\<forall>tid tr. dget (rt_runners rt) tid = Some tr \<longrightarrow>
        tr_target_id tr = tid \<and> runner_inv (world_of tr rt)) \<and>
     ledger_inv (rt_ledger rt) \<and>
     (\<forall>c r. lg_by_command_id (rt_ledger rt) c = Some r \<longrightarrow>
        cr_target_id r \<in> set (dkeys (rt_runners rt))) \<and>
     config_inv (rt_config rt)"

lemma rt_invD:
  assumes "rt_inv rt"
  shows rt_inv_keys: "dkeys (rt_runners rt) = dkeys (rt_adapters rt)"
    and rt_inv_tid: "dget (rt_runners rt) tid = Some tr \<Longrightarrow> tr_target_id tr = tid"
    and rt_inv_runner: "dget (rt_runners rt) tid = Some tr \<Longrightarrow> runner_inv (world_of tr rt)"
    and rt_inv_ledger: "ledger_inv (rt_ledger rt)"
    and rt_inv_target: "lg_by_command_id (rt_ledger rt) c = Some r \<Longrightarrow>
      cr_target_id r \<in> set (dkeys (rt_runners rt))"
    and rt_inv_config: "config_inv (rt_config rt)"
  using assms unfolding rt_inv_def by blast+

lemma rt_inv_ids: "rt_inv rt \<Longrightarrow> lg_by_command_id (rt_ledger rt) c = Some r \<Longrightarrow> cr_command_id r = c"
  using ledger_inv_record rt_inv_ledger by blast

text \<open>Once a step refines the runners, their part of the invariant comes for free.\<close>

lemma rt_inv_follows:
  assumes inv: "rt_inv rt" and f: "follows rt rt'" and "rt_adapters rt' = rt_adapters rt"
    and "ledger_inv (rt_ledger rt')" and "config_inv (rt_config rt')"
    and tgt: "\<And>c r. lg_by_command_id (rt_ledger rt') c = Some r \<Longrightarrow> cr_target_id r \<in> set (dkeys (rt_runners rt))"
  shows "rt_inv rt'"
  unfolding rt_inv_def
proof (intro conjI allI impI)
  show "dkeys (rt_runners rt') = dkeys (rt_adapters rt')"
    using f assms(3) rt_inv_keys [OF inv] by (simp add: follows_def)
  fix tid tr'
  assume tr': "dget (rt_runners rt') tid = Some tr'"
  then have "tid \<in> set (dkeys (rt_runners rt))"
    using f dget_Some_key [OF tr'] unfolding follows_def by simp
  then obtain tr where tr: "dget (rt_runners rt) tid = Some tr"
    using dget_None_iff [of "rt_runners rt" tid] by (cases "dget (rt_runners rt) tid") simp_all
  from followsD [OF f tr] tr' have "runner_run (world_of tr rt) (world_of tr' rt')" by auto
  with runner_run_tid [OF this] runner_run_inv [OF this] rt_inv_tid [OF inv tr] rt_inv_runner [OF inv tr]
  show "tr_target_id tr' = tid" and "runner_inv (world_of tr' rt')" by simp_all
next
  show "cr_target_id r \<in> set (dkeys (rt_runners rt'))"
    if "lg_by_command_id (rt_ledger rt') c = Some r" for c r
    using tgt [OF that] f unfolding follows_def by presburger
qed (fact assms)+

lemma put_world_parts [simp]:
  "rt_adapters (put_world env tid w rt) = rt_adapters rt"
  "rt_config (put_world env tid w rt) = rt_config rt"
  "rt_sessions (put_world env tid w rt) = rt_sessions rt"
  "rt_runners (put_world env tid w rt) = dset tid (rw_runner w) (rt_runners rt)"
  "rt_ledger (put_world env tid w rt) = (rt_ledger rt)\<lparr>lg_by_command_id := rw_records w\<rparr>"
  "rt_events (put_world env tid w rt) = publish_changes env (rw_changes w) (rt_events rt)"
  by (simp_all add: put_world_def)

lemma follows_put_world:
  assumes inv: "rt_inv rt" and tr: "dget (rt_runners rt) tid = Some tr"
    and good: "good_segment (world_of tr rt) w"
  shows "follows rt (put_world env tid w rt)"
proof -
  have "tr_target_id tr = tid"
    using inv tr by (rule rt_inv_tid)
  with good have local: "\<And>c r. cr_target_id r \<noteq> tid \<Longrightarrow>
      rw_records w c = Some r \<longleftrightarrow> lg_by_command_id (rt_ledger rt) c = Some r"
    by (simp add: good_segment_def)
  have "\<exists>tr'. dget (rt_runners (put_world env tid w rt)) t = Some tr' \<and>
      runner_run (world_of tr0 rt) (world_of tr' (put_world env tid w rt))"
    if t: "dget (rt_runners rt) t = Some tr0" for t tr0
  proof (cases "t = tid")
    case True
    with t tr good run_own [of tr rt w env tid] show ?thesis
      by (simp add: good_segment_def)
  next
    case False
    have "runner_run (world_of tr0 rt) (world_of tr0 (put_world env tid w rt))"
      using False rt_inv_tid [OF inv t] local by (intro run_other) simp
    with False t show ?thesis by (simp add: dict_simps)
  qed
  moreover have "tid \<in> set (dkeys (rt_runners rt))"
    using tr by (rule dget_Some_key)
  ultimately show ?thesis
    by (auto simp: follows_def dkeys_dset)
qed

lemma rt_inv_put_world:
  assumes inv: "rt_inv rt" and tr: "dget (rt_runners rt) tid = Some tr"
    and good: "good_segment (world_of tr rt) w"
  shows "rt_inv (put_world env tid w rt)"
proof (rule rt_inv_follows [OF inv follows_put_world [OF assms]])
  have ev: "records_evolve (lg_by_command_id (rt_ledger rt)) (rw_records w)"
    using good by (simp add: good_segment_def)
  then show "ledger_inv (rt_ledger (put_world env tid w rt))"
    using rt_inv_ledger [OF inv] by (simp add: ledger_inv_evolve)
  fix c r
  assume "lg_by_command_id (rt_ledger (put_world env tid w rt)) c = Some r"
  with records_evolve_bwd [OF ev] obtain r0 where
    "lg_by_command_id (rt_ledger rt) c = Some r0" "same_content r0 r" by auto
  with rt_inv_target [OF inv, of c r0] show "cr_target_id r \<in> set (dkeys (rt_runners rt))"
    by (simp add: same_content_def)
qed (use inv in \<open>simp_all add: rt_inv_config\<close>)

section \<open>The events of a step\<close>

definition completions :: "string \<Rightarrow> event list \<Rightarrow> params list" where
  "completions c es =
     map ev_payload (filter (\<lambda>e. ev_type e = ''command.completed'' \<and> ev_command_id e = Some c) es)"

definition completion_payload :: "command_record \<Rightarrow> params" where
  "completion_payload r =
     [(''outcome'', opt_str (map_option outcome_value (cr_outcome r))),
      (''achieved_completion'', opt_str (map_option requirement_value (cr_achieved_completion r)))]"

lemma completions_simps [simp]:
  "completions c [] = []"
  "completions c (es @ es') = completions c es @ completions c es'"
  by (simp_all add: completions_def)

lemma new_events_exact:
  assumes "bus_represents (hist @ es) b'" and "eb_sequence b = length hist" and "length es \<le> eb_maxlen b'"
  shows "new_events b b' = es"
proof -
  have "new_events b b' = drop (length hist) (hist @ es)"
    using assms log_seq_drop_filter [of "hist @ es" "length (hist @ es) - eb_maxlen b'" "length hist"]
    by (auto simp: new_events_def bus_represents_def last_n_def)
  then show ?thesis by simp
qed

lemma new_events_none:
  assumes "bus_represents hist b'" and "eb_sequence b = length hist"
  shows "new_events b b' = []"
  using new_events_exact [of hist "[]" b' b] assms by simp

lemma collect_publish_frame:
  "eb_maxlen (snd (collect publish ps b)) = eb_maxlen b"
  by (induction ps arbitrary: b) (simp_all add: collect_Cons_sel del: collect.simps(2))

lemma collect_publish_completions:
  "completions c (fst (collect publish ps b)) =
     map pub_payload (filter (\<lambda>p. pub_type p = ''command.completed'' \<and> pub_command_id p = Some c) ps)"
  by (induction ps arbitrary: b)
    (simp_all add: collect_Cons_sel completions_def make_event_def del: collect.simps(2))

lemma change_publication_completed:
  "pub_type (change_publication r ew) = ''command.completed'' \<longleftrightarrow> cr_status r = TERMINAL"
  "pub_command_id (change_publication r ew) = Some (cr_command_id r)"
  "cr_status r = TERMINAL \<Longrightarrow> pub_payload (change_publication r ew) = completion_payload r"
  by (simp_all add: change_publication_def completion_payload_def Let_def)

lemma change_publications_completed:
  "map pub_payload (filter (\<lambda>p. pub_type p = ''command.completed'' \<and> pub_command_id p = Some c)
     (map (\<lambda>(i, r). change_publication r (env i)) (List.enumerate n rs))) =
   map completion_payload (terminal_changes c rs)"
  by (induction rs arbitrary: n)
    (simp_all add: change_publication_completed)

text \<open>\<open>b'\<close> is \<open>b\<close> after a step that reports the records \<open>ends c\<close> as the terminal records of each \<open>c\<close>.\<close>

definition reports :: "(string \<Rightarrow> command_record list) \<Rightarrow> event_bus \<Rightarrow> event_bus \<Rightarrow> bool" where
  "reports ends b b' \<longleftrightarrow>
     eb_maxlen b' = eb_maxlen b \<and>
     (\<forall>hist. bus_represents hist b \<longrightarrow> 4 \<le> eb_maxlen b \<longrightarrow>
        bus_represents (hist @ new_events b b') b' \<and>
        (\<forall>c. completions c (new_events b b') = map completion_payload (ends c)))"

lemma reports_publish_changes:
  assumes "length rs \<le> 4" and "\<And>c. ends c = terminal_changes c rs"
  shows "reports ends b (publish_changes env rs b)"
  unfolding reports_def
proof (intro conjI allI impI)
  let ?ps = "change_publications env rs"
  show "eb_maxlen (publish_changes env rs b) = eb_maxlen b"
    by (simp add: publish_changes_def collect_publish_frame)
  fix hist
  assume hist: "bus_represents hist b" and four: "4 \<le> eb_maxlen b"
  from bus.represents_emit_all [OF hist, of ?ps]
  have rep: "bus_represents (hist @ fst (collect publish ?ps b)) (publish_changes env rs b)"
    by (simp add: publish_changes_def)
  have new: "new_events b (publish_changes env rs b) = fst (collect publish ?ps b)"
    using hist four assms(1)
    by (intro new_events_exact [OF rep])
      (simp_all add: bus_represents_def publish_changes_def collect_publish_frame change_publications_def)
  with rep show "bus_represents (hist @ new_events b (publish_changes env rs b)) (publish_changes env rs b)"
    by simp
  show "completions c (new_events b (publish_changes env rs b)) = map completion_payload (ends c)" for c
    unfolding new collect_publish_completions
    by (simp add: change_publications_def change_publications_completed assms(2))
qed

lemma reports_quiet:
  assumes "\<And>hist. bus_represents hist b \<Longrightarrow> bus_represents hist b'" and "eb_maxlen b' = eb_maxlen b"
  shows "reports (\<lambda>c. []) b b'"
  unfolding reports_def
proof (intro conjI allI impI)
  fix hist
  assume hist: "bus_represents hist b"
  then have rep: "bus_represents hist b'" and "eb_sequence b = length hist"
    using assms(1) by (auto simp: bus_represents_def)
  then have new: "new_events b b' = []" by (rule new_events_none)
  with rep show "bus_represents (hist @ new_events b b') b'" by simp
  from new show "completions c (new_events b b') = map completion_payload []" for c by simp
qed (fact assms)

lemma reports_same [simp]: "reports (\<lambda>c. []) b b"
  by (rule reports_quiet) simp_all

lemma newly_terminal_refl [simp]: "newly_terminal h h = (\<lambda>c. [])"
  by (simp add: fun_eq_iff)

lemma reports_publish_other:
  assumes "pub_command_id p = None"
  shows "reports (\<lambda>c. []) b (snd (publish p b))"
  unfolding reports_def
proof (intro conjI allI impI)
  fix hist
  assume hist: "bus_represents hist b" and "4 \<le> eb_maxlen b"
  from bus_represents_publish [OF hist, of p] have
    rep: "bus_represents (hist @ [make_event p b]) (snd (publish p b))" by simp
  then have new: "new_events b (snd (publish p b)) = [make_event p b]"
    using hist \<open>4 \<le> eb_maxlen b\<close> by (intro new_events_exact [OF rep]) (simp_all add: bus_represents_def)
  with rep show "bus_represents (hist @ new_events b (snd (publish p b))) (snd (publish p b))" by simp
  show "completions c (new_events b (snd (publish p b))) = map completion_payload []" for c
    using assms by (simp add: new completions_def make_event_def)
qed simp

section \<open>Every step is good\<close>

text \<open>A step refines every runner, keeps the invariant, and publishes exactly one completion for each
  command it makes terminal.\<close>

definition good_step :: "device_runtime \<Rightarrow> device_runtime \<Rightarrow> bool" where
  "good_step rt rt' \<longleftrightarrow>
     follows rt rt' \<and> rt_inv rt' \<and>
     reports (newly_terminal (lg_by_command_id (rt_ledger rt)) (lg_by_command_id (rt_ledger rt')))
       (rt_events rt) (rt_events rt')"

text \<open>A step that touches neither the runners nor the ledger.\<close>

lemma good_step_quiet:
  assumes "rt_inv rt" and "rt_runners rt' = rt_runners rt" and "rt_ledger rt' = rt_ledger rt"
    and "rt_adapters rt' = rt_adapters rt" and "config_inv (rt_config rt')"
    and "reports (\<lambda>c. []) (rt_events rt) (rt_events rt')"
  shows "good_step rt rt'"
  unfolding good_step_def
proof (intro conjI)
  show "follows rt rt'"
    using assms by (intro follows_same) simp_all
  then show "rt_inv rt'"
    using assms rt_invD [OF assms(1)] by (intro rt_inv_follows [OF assms(1)]) simp_all
qed (use assms in simp)

lemma good_step_bump:
  assumes "rt_inv rt" and "rt_runners rt' = bump_all (rt_runners rt)" and "rt_ledger rt' = rt_ledger rt"
    and "rt_adapters rt' = rt_adapters rt" and "config_inv (rt_config rt')" and "rt_events rt' = rt_events rt"
  shows "good_step rt rt'"
  unfolding good_step_def
proof (intro conjI)
  show f: "follows rt rt'"
    using follows_bump [of rt] assms(2,3) by (simp add: follows_def world_of_def)
  show "rt_inv rt'"
    using assms rt_invD [OF assms(1)] by (intro rt_inv_follows [OF assms(1) f]) simp_all
qed (use assms in simp)

lemma good_step_segment:
  assumes inv: "rt_inv rt" and tr: "dget (rt_runners rt) tid = Some tr"
    and good: "good_segment (world_of tr rt) w"
  shows "good_step rt (put_world env tid w rt)"
  unfolding good_step_def
  using follows_put_world [OF assms] rt_inv_put_world [OF assms] good
  by (auto simp: good_segment_def intro!: reports_publish_changes)

lemma good_step_in_runner:
  assumes inv: "rt_inv rt"
    and "\<And>tr. dget (rt_runners rt) tid = Some tr \<Longrightarrow> good_segment (world_of tr rt) (f (world_of tr rt))"
  shows "good_step rt (in_runner env tid f rt)"
proof (cases "dget (rt_runners rt) tid")
  case None
  with inv show ?thesis
    by (simp add: in_runner_def good_step_quiet rt_inv_config)
next
  case (Some tr)
  with assms show ?thesis
    by (simp add: in_runner_def good_step_segment)
qed

lemma ledger_begin_keeps_records:
  assumes "fst (ledger_begin req new_id rid boot gen now lg) = Inl e \<or>
    fst (ledger_begin req new_id rid boot gen now lg) = Inr (c, False)"
  shows "snd (ledger_begin req new_id rid boot gen now lg) = lg"
  using assms by (auto simp: ledger_begin_def Let_def split: option.splits if_splits)

text \<open>A new command in the ledger: a queued record that every runner sees filed.\<close>

lemma good_step_begin:
  assumes inv: "rt_inv rt" and fresh: "lg_by_command_id (rt_ledger rt) new_id = None"
    and beg: "ledger_begin req new_id rid boot gen now (rt_ledger rt) = (Inr (c, True), lg)"
    and tgt: "sr_target_id req \<in> set (dkeys (rt_runners rt))"
    and rt': "rt_runners rt' = rt_runners rt" "rt_ledger rt' = lg" "rt_adapters rt' = rt_adapters rt"
      "rt_config rt' = rt_config rt"
  shows "follows rt rt' \<and> rt_inv rt' \<and> c = new_id \<and> lg_by_command_id lg =
    (lg_by_command_id (rt_ledger rt))(c \<mapsto> new_command_record req c rid boot gen now)"
proof (intro conjI)
  show c: "c = new_id" and lg: "lg_by_command_id lg =
      (lg_by_command_id (rt_ledger rt))(c \<mapsto> new_command_record req c rid boot gen now)"
    using beg by (auto simp: ledger_begin_def Let_def split: option.splits if_splits)
  have step: "runner_step (world_of tr rt) (world_of tr rt')" for tr
    using step_file [of "world_of tr rt" c "new_command_record req c rid boot gen now"] fresh c lg rt'(2)
    by (simp add: world_of_def record_ok_def)
  then show f: "follows rt rt'"
    using rt'(1) by (auto simp: follows_def intro: runner_run_one)
  have "ledger_inv lg"
    using ledger_inv_begin [OF rt_inv_ledger [OF inv] fresh, of req rid boot gen now] beg by simp
  moreover have "cr_target_id r \<in> set (dkeys (rt_runners rt))"
    if "lg_by_command_id (rt_ledger rt') d = Some r" for d r
    using that lg rt'(2) tgt rt_inv_target [OF inv, of d r] by (cases "d = c") (auto simp del: set_map)
  ultimately show "rt_inv rt'"
    using rt' rt_inv_config [OF inv] by (intro rt_inv_follows [OF inv f]) simp_all
qed

lemma good_step_reject:
  assumes inv: "rt_inv rt" and r: "lg_by_command_id (rt_ledger rt) c = Some r" and "cr_status r = QUEUED"
  shows "good_step rt (reject_command env c e rt)"
proof -
  let ?rt = "reject_command env c e rt" and ?r = "reject_record (error_to_dict e) r"
  let ?h = "lg_by_command_id (rt_ledger rt)"
  have h': "lg_by_command_id (rt_ledger ?rt) = ?h(c \<mapsto> ?r)"
    and rest: "rt_runners ?rt = rt_runners rt" "rt_adapters ?rt = rt_adapters rt" "rt_config ?rt = rt_config rt"
      "rt_ledger ?rt = (rt_ledger rt)\<lparr>lg_by_command_id := ?h(c \<mapsto> ?r)\<rparr>"
      "rt_events ?rt = publish_changes env [?r] (rt_events rt)"
    using r by (simp_all add: reject_command_def Let_def)
  have sc: "same_content r ?r"
    by (simp add: reject_record_def same_content_def)
  have "runner_step (world_of tr rt) (world_of tr ?rt)" for tr
    using step_reject [of "world_of tr rt" c r "error_to_dict e"] r assms(3) h'
    by (simp add: world_of_def update_record_def)
  then have f: "follows rt ?rt"
    using rest(1) by (auto simp: follows_def intro: runner_run_one)
  have "ledger_inv (rt_ledger ?rt)"
    using rt_inv_ledger [OF inv] records_evolve_update [of ?h, OF r sc] rest(4)
    by (simp add: ledger_inv_evolve)
  moreover have "cr_target_id x \<in> set (dkeys (rt_runners rt))"
    if "lg_by_command_id (rt_ledger ?rt) d = Some x" for d x
    using that h' sc rt_inv_target [OF inv r] rt_inv_target [OF inv, of d x]
    by (cases "d = c") (auto simp: same_content_def)
  ultimately have "rt_inv ?rt"
    using rest rt_inv_config [OF inv] by (intro rt_inv_follows [OF inv f]) simp_all
  moreover have "reports (newly_terminal ?h (?h(c \<mapsto> ?r))) (rt_events rt) (rt_events ?rt)"
    unfolding rest(5) using r assms(3) rt_inv_ids [OF inv r]
    by (intro reports_publish_changes)
      (auto simp: terminal_changes_def reject_record_def terminal_in_def newly_terminal_def split: option.split)
  ultimately show ?thesis
    using f h' by (simp add: good_step_def)
qed

text \<open>A step followed by one that only adds a queued record before it is still a good step.\<close>

lemma good_step_after_begin:
  assumes "follows rt rt1" and good: "good_step rt1 rt2" and "rt_events rt1 = rt_events rt"
    and h: "lg_by_command_id (rt_ledger rt1) = (lg_by_command_id (rt_ledger rt))(c \<mapsto> r)"
    and "cr_status r = QUEUED" and fresh: "lg_by_command_id (rt_ledger rt) c = None"
  shows "good_step rt rt2"
proof -
  have "newly_terminal (lg_by_command_id (rt_ledger rt)) h' d =
      newly_terminal (lg_by_command_id (rt_ledger rt1)) h' d" for h' d
    using assms(5) fresh by (auto simp: newly_terminal_def terminal_in_def h split: option.split)
  then have "newly_terminal (lg_by_command_id (rt_ledger rt)) = newly_terminal (lg_by_command_id (rt_ledger rt1))"
    by (simp add: fun_eq_iff)
  with assms(1,3) good show ?thesis
    by (auto simp: good_step_def intro: follows_trans)
qed

lemma good_step_submit:
  assumes inv: "rt_inv rt" and fresh: "lg_by_command_id (rt_ledger rt) new_id = None"
  shows "good_step rt (snd (submit_command env new_id now wall req rt))"
proof (cases "(dget (rt_runners rt) (sr_target_id req), dget (rt_adapters rt) (sr_target_id req))")
  case (Pair ro mo)
  have quiet: "good_step rt (rt\<lparr>rt_sessions := sm\<rparr>)" for sm
    using inv by (intro good_step_quiet) (simp_all add: rt_inv_config)
  show ?thesis
  proof (cases "ro = None \<or> mo = None \<or> \<not> is_ok (fst (validate (sr_control_session_id req) now (rt_sessions rt)))")
    case True
    with Pair quiet inv good_step_quiet [of rt rt] show ?thesis
      by (auto simp: submit_command_def rt_inv_config split: option.splits prod.splits sum.splits)
  next
    case False
    then obtain runner manifest where ro: "dget (rt_runners rt) (sr_target_id req) = Some runner"
      "dget (rt_adapters rt) (sr_target_id req) = Some manifest" using Pair by auto
    obtain s sm where val: "validate (sr_control_session_id req) now (rt_sessions rt) = (Inr s, sm)"
      using False by (metis is_okD surj_pair fst_conv)
    let ?rt1 = "rt\<lparr>rt_sessions := sm\<rparr>"
    obtain res lg where beg: "ledger_begin req new_id (rt_runtime_id rt) (rt_runtime_boot_id rt)
        (tr_execution_generation runner) wall (rt_ledger rt) = (res, lg)" by (rule prod.exhaust)
    show ?thesis
    proof (cases "\<exists>c. res = Inr (c, True)")
      case False
      with beg have "lg = rt_ledger rt"
        using ledger_begin_keeps_records [of req new_id "rt_runtime_id rt" "rt_runtime_boot_id rt"
            "tr_execution_generation runner" wall "rt_ledger rt"]
        by (cases res) auto
      moreover have "rt\<lparr>rt_sessions := sm, rt_ledger := rt_ledger rt\<rparr> = ?rt1" by simp
      ultimately show ?thesis
        using False ro val beg quiet [of sm]
        by (cases res) (auto simp: submit_command_def Let_def split: sum.split prod.split bool.split)
    next
      case True
      then obtain c where res: "res = Inr (c, True)" by blast
      let ?rt2 = "?rt1\<lparr>rt_ledger := lg\<rparr>" and ?w = "world_of runner (?rt1\<lparr>rt_ledger := lg\<rparr>)"
      have key: "sr_target_id req \<in> set (dkeys (rt_runners rt))"
        using ro(1) by (rule dget_Some_key)
      define r where "r = new_command_record req c (rt_runtime_id rt) (rt_runtime_boot_id rt)
        (tr_execution_generation runner) wall"
      from good_step_begin [OF inv fresh beg [unfolded res] key, of ?rt2]
      have f: "follows rt ?rt2" and inv2: "rt_inv ?rt2" and c: "c = new_id"
        and h: "lg_by_command_id lg = (lg_by_command_id (rt_ledger rt))(c \<mapsto> r)"
        by (simp_all add: r_def)
      have r: "lg_by_command_id (rt_ledger ?rt2) c = Some r" "cr_status r = QUEUED"
        "cr_target_id r = sr_target_id req" "cr_command_id r = c"
        by (simp_all add: h r_def)
      have ro2: "dget (rt_runners ?rt2) (sr_target_id req) = Some runner"
        using ro(1) by simp
      have tid: "tr_target_id runner = sr_target_id req"
        using inv ro(1) by (rule rt_inv_tid)
      have sub: "snd (submit_command env new_id now wall req rt) =
          (case submit_begin manifest c wall ?w of Inl e \<Rightarrow> reject_command env c e ?rt2
           | Inr w \<Rightarrow> put_world env (sr_target_id req) w ?rt2)"
        using ro val beg res by (simp add: submit_command_def split: sum.split)
      have "good_step ?rt2 (snd (submit_command env new_id now wall req rt))"
      proof (cases "submit_begin manifest c wall ?w")
        case (Inl e)
        with good_step_reject [OF inv2 r(1,2)] show ?thesis by (simp add: sub)
      next
        case (Inr w)
        have "good_segment ?w w"
          using rt_inv_runner [OF inv2 ro2] r tid Inr by (intro good_submit [of _ c r manifest wall]) simp_all
        with good_step_segment [OF inv2 ro2] Inr show ?thesis by (simp add: sub)
      qed
      then show ?thesis
        by (rule good_step_after_begin [OF f, of _ c r]) (use h r(2) fresh c in simp_all)
    qed
  qed
qed

text \<open>Every admissible operation is a good step.\<close>

lemma good_step_perform:
  assumes inv: "rt_inv rt" and "op_admissible p rt"
  shows "good_step rt (runtime_perform p rt)"
proof -
  note ids = rt_inv_ids [OF inv] and cfg = rt_inv_config [OF inv]
  have seg: "runner_inv (world_of tr rt)" if "dget (rt_runners rt) tid = Some tr" for tid tr
    using inv that by (rule rt_inv_runner)
  show ?thesis
  proof (cases p)
    case (Rt_submit env c now wall req)
    with assms show ?thesis by (simp add: good_step_submit)
  next
    case (Rt_resume env tid res c wall)
    with seg ids inv show ?thesis
      by (auto simp: resume_command_def intro!: good_step_in_runner good_resume)
  next
    case (Rt_observe env tid c t0 now answer wall)
    with seg ids inv show ?thesis
      by (auto simp: observe_command_def intro!: good_step_in_runner good_observe)
  next
    case (Rt_cancel env tid c wall)
    with seg ids inv show ?thesis
      by (auto simp: cancel_observation_def intro!: good_step_in_runner good_cancelled)
next
    case (Rt_publish ty target payload ew)
    define p where "p = \<lparr>pub_event_id = fst ew, pub_type = ty, pub_target_id = target, pub_command_id = None,
      pub_run_id = None, pub_cue_id = None, pub_payload = payload, pub_wall = snd ew\<rparr>"
    have "reports (\<lambda>c. []) (rt_events rt) (snd (publish p (rt_events rt)))"
      by (rule reports_publish_other) (simp add: p_def)
    with inv cfg Rt_publish show ?thesis
      by (auto simp: publish_event_def split_beta p_def Let_def intro!: good_step_quiet)
  next
    case Rt_subscribe
    with inv cfg show ?thesis
      by (auto simp: subscribe_events_def split_beta Let_def subscribe_def
          intro!: good_step_quiet reports_quiet bus_represents_subscribe [unfolded subscribe_def Let_def snd_conv])
  next
    case (Rt_unsubscribe i)
    with inv cfg show ?thesis
      by (auto simp: unsubscribe_events_def unsubscribe_def
          intro!: good_step_quiet reports_quiet bus_represents_unsubscribe [unfolded unsubscribe_def])
  next
    case (Rt_get i)
    have "eb_maxlen (snd (queue_get i (rt_events rt))) = eb_maxlen (rt_events rt)"
      by (simp add: queue_get_def split: list.split)
    with Rt_get inv cfg show ?thesis
      by (auto intro!: good_step_quiet reports_quiet bus_represents_get)
  next
    case (Rt_acquire new_id actor mode ttl now)
    with inv cfg show ?thesis
      by (auto simp: acquire_control_session_def Let_def split_beta intro!: good_step_bump)
  next
    case (Rt_release sid)
    with inv cfg show ?thesis
      by (auto simp: release_control_session_def intro!: good_step_bump)
  next
    case (Rt_apply_begin a rid expected)
    show ?thesis
    proof (cases "apply_begin a rid expected (rt_config rt)")
      case (Inl e)
      with Rt_apply_begin inv cfg show ?thesis
        by (simp add: apply_config_begin_def good_step_quiet)
    next
      case (Inr cfg')
      with assms(2) Rt_apply_begin have "config_inv cfg'"
        using config_inv_begin [OF cfg Inr] by simp
      with Inr Rt_apply_begin inv show ?thesis
        by (simp add: apply_config_begin_def good_step_quiet)
    qed
  next
    case (Rt_apply_enter a now)
    with inv cfg show ?thesis
      by (auto simp: apply_config_enter_def split_beta Let_def intro!: good_step_quiet config_inv_enter)
  next
    case (Rt_apply_resume g a now)
    define g' where "g' = (case g of None \<Rightarrow> default_apply_guard rt | Some g \<Rightarrow> g)"
    let ?x = "apply_resume bump_all g' a now (rt_config rt, rt_runners rt)"
    have cfg': "config_inv (fst (snd ?x))"
      using cfg by (rule config_inv_resume)
    have eq: "runtime_perform p rt = rt\<lparr>rt_config := fst (snd ?x), rt_runners := snd (snd ?x)\<rparr>"
      by (simp add: Rt_apply_resume apply_config_resume_def g'_def split_beta Let_def)
    have "snd (snd ?x) = rt_runners rt \<or> snd (snd ?x) = bump_all (rt_runners rt)"
      by (simp add: apply_resume_def split_beta Let_def split: option.split apply_call.split guard_result.split)
    then show ?thesis
    proof
      assume "snd (snd ?x) = rt_runners rt"
      then show ?thesis unfolding eq using inv cfg' by (intro good_step_quiet) simp_all
    next
      assume "snd (snd ?x) = bump_all (rt_runners rt)"
      then show ?thesis unfolding eq using inv cfg' by (intro good_step_bump) simp_all
    qed
  qed (use inv cfg in \<open>auto simp: renew_control_session_def stage_config_def save_blob_def split_beta Let_def
      intro!: good_step_quiet config_inv_stage config_inv_cancel_waiting
      split: sum.split blob_error.split prod.split\<close>)
qed

end
