(* ===== verification/Runtime_Safety.thy ===== *)
theory Runtime_Safety
  imports Runtime_Runs
begin

text \<open>
  The properties of a whole Runtime, over every run of \<open>runtime_perform\<close> operations from a Runtime
  just constructed: its runners are refined, its completion events are exact, its control sessions are
  an instance of \<open>session_authority\<close>, and handover, Apply and resubmission do what clients rely on.
\<close>

section \<open>A new Runtime\<close>

lemma new_runtime_parts:
  assumes "new_device_runtime rid boot adapters blobs = Inr rt"
  shows "rt = \<lparr>rt_runtime_id = rid, rt_runtime_boot_id = boot, rt_adapters = adapters,
     rt_ledger = new_ledger,
     rt_events = new_event_bus rid boot DEFAULT_REPLAY_BUFFER_SIZE DEFAULT_SUBSCRIBER_QUEUE_SIZE,
     rt_sessions = new_session_manager boot, rt_config = new_config_service DEFAULT_JOURNAL_LIMIT,
     rt_blobs = blobs, rt_runners = map (\<lambda>(tid, m). (tid, new_target_runner tid)) adapters\<rparr>"
  using assms by (simp add: new_device_runtime_def split: sum.splits)

lemma new_runners:
  "dget (map (\<lambda>(tid, m). (tid, new_target_runner tid)) adapters) tid =
     (if tid \<in> set (dkeys adapters) then Some (new_target_runner tid) else None)"
  by (induction adapters) auto

lemma new_runtime_inv:
  assumes "new_device_runtime rid boot adapters blobs = Inr rt"
  shows "rt_inv rt"
proof -
  note rt = new_runtime_parts [OF assms]
  have runners: "rt_runners rt = map (\<lambda>(tid, m). (tid, new_target_runner tid)) adapters"
    and h: "lg_by_command_id (rt_ledger rt) = Map.empty"
    by (simp_all add: rt new_ledger_def)
  have "tr_target_id tr = tid \<and> runner_inv (world_of tr rt)"
    if "dget (rt_runners rt) tid = Some tr" for tid tr
  proof -
    have tr: "tr = new_target_runner tid"
      using that by (simp add: runners new_runners split: if_splits)
    have "runner_inv (world_of tr rt)"
      unfolding world_of_def tr h by (rule runner_inv_new) simp
    then show ?thesis by (simp add: tr new_target_runner_def)
  qed
  moreover have "dkeys (rt_runners rt) = dkeys (rt_adapters rt)"
    unfolding runners by (simp add: rt split_beta comp_def)
  ultimately show ?thesis
    by (simp add: rt_inv_def h) (simp add: rt ledger_inv_new config_inv_new)
qed

lemma new_runtime_world:
  assumes "new_device_runtime rid boot adapters blobs = Inr rt" and "tid \<in> set (dkeys adapters)"
  shows "\<exists>tr. dget (rt_runners rt) tid = Some tr \<and> world_of tr rt = initial_world tid"
  unfolding new_runtime_parts [OF assms(1)]
  using assms(2) by (simp add: new_runners world_of_def initial_world_def new_ledger_def)

section \<open>Runs\<close>

lemma runtime_run_good:
  assumes "runtime_run rt0 hist rt" and "rt_inv rt0"
  shows "follows rt0 rt \<and> rt_inv rt"
  using assms
proof (induction rule: runtime_run.induct)
  case (rt_step hist rt p)
  then have inv: "rt_inv rt" and f: "follows rt0 rt" by blast+
  from good_step_perform [OF inv rt_step.hyps(2)] f show ?case
    by (auto simp: good_step_def intro: follows_trans)
qed simp

lemmas runtime_run_inv = runtime_run_good [THEN conjunct2]
lemmas runtime_run_follows = runtime_run_good [THEN conjunct1]

lemma runtime_run_trans:
  "runtime_run rt1 hist2 rt2 \<Longrightarrow> runtime_run rt0 hist1 rt1 \<Longrightarrow> runtime_run rt0 (hist1 @ hist2) rt2"
proof (induction rule: runtime_run.induct)
  case (rt_step hist rt p)
  from runtime_run.rt_step [OF rt_step.IH [OF rt_step.prems] rt_step.hyps(2)] show ?case by simp
qed simp

text \<open>A terminal record stays as it is in every step.\<close>

lemma terminal_stays:
  assumes inv: "rt_inv rt" and f: "follows rt rt'"
    and r: "lg_by_command_id (rt_ledger rt) c = Some r" "cr_status r = TERMINAL"
  shows "lg_by_command_id (rt_ledger rt') c = Some r"
proof -
  obtain tr where tr: "dget (rt_runners rt) (cr_target_id r) = Some tr"
    using rt_inv_target [OF inv r(1)] dget_None_iff [of "rt_runners rt" "cr_target_id r"]
    by (cases "dget (rt_runners rt) (cr_target_id r)") simp_all
  from followsD [OF f tr] obtain tr' where "runner_run (world_of tr rt) (world_of tr' rt')" by blast
  from runner_run_advances [OF this rt_inv_runner [OF inv tr], of c r] r rt_inv_tid [OF inv tr]
  show ?thesis by (auto simp: record_advances_def)
qed

lemma completions_step:
  assumes inv: "rt_inv rt" and good: "good_step rt rt'"
    and hist: "bus_represents hist (rt_events rt)" "4 \<le> eb_maxlen (rt_events rt)"
    and all: "completions c hist = map completion_payload
      (newly_terminal Map.empty (lg_by_command_id (rt_ledger rt)) c)"
  shows "completions c (hist @ new_events (rt_events rt) (rt_events rt')) = map completion_payload
      (newly_terminal Map.empty (lg_by_command_id (rt_ledger rt')) c)"
proof -
  let ?h = "lg_by_command_id (rt_ledger rt)" and ?h' = "lg_by_command_id (rt_ledger rt')"
  have new: "completions c (new_events (rt_events rt) (rt_events rt')) =
      map completion_payload (newly_terminal ?h ?h' c)"
    using good hist by (auto simp: good_step_def reports_def)
  have "newly_terminal Map.empty ?h' c = newly_terminal Map.empty ?h c @ newly_terminal ?h ?h' c"
  proof (cases "terminal_in ?h c")
    case True
    then obtain r where r: "?h c = Some r" "cr_status r = TERMINAL" by (auto simp: terminal_in_def)
    have "?h' c = Some r"
      using good by (intro terminal_stays [OF inv _ r]) (simp add: good_step_def)
    with r show ?thesis by (simp add: newly_terminal_def terminal_in_def)
  next
    case False
    then have "newly_terminal Map.empty ?h c = []"
      by (simp add: newly_terminal_def terminal_in_def split: option.split)
    moreover have "newly_terminal Map.empty ?h' c = newly_terminal ?h ?h' c"
      using False by (simp add: newly_terminal_def terminal_in_def [of Map.empty] cong: option.case_cong)
    ultimately show ?thesis by simp
  qed
  with all new show ?thesis by simp
qed

lemma runtime_run_events:
  assumes "runtime_run rt0 hist rt" and "new_device_runtime rid boot adapters blobs = Inr rt0"
  shows "bus_represents hist (rt_events rt) \<and> eb_maxlen (rt_events rt) = DEFAULT_REPLAY_BUFFER_SIZE \<and>
    (\<forall>c. completions c hist = map completion_payload
       (newly_terminal Map.empty (lg_by_command_id (rt_ledger rt)) c))"
  using assms
proof (induction rule: runtime_run.induct)
  case rt_refl
  show ?case
    unfolding new_runtime_parts [OF rt_refl]
    by (simp add: bus_represents_new newly_terminal_def new_ledger_def) (simp add: new_event_bus_def)
next
  case (rt_step hist rt p)
  note IH = rt_step.IH [OF rt_step.prems]
  have inv: "rt_inv rt"
    using rt_step.hyps(1) new_runtime_inv [OF rt_step.prems] by (rule runtime_run_inv)
  have good: "good_step rt (runtime_perform p rt)"
    using inv rt_step.hyps(2) by (rule good_step_perform)
  have four: "4 \<le> eb_maxlen (rt_events rt)"
    using IH by (simp add: DEFAULT_REPLAY_BUFFER_SIZE_def)
  with IH good completions_step [OF inv good, of hist] show ?case
    by (auto simp: good_step_def reports_def)
qed

section \<open>Control sessions of a Runtime\<close>

definition rt_session_valid :: "device_runtime \<Rightarrow> string \<Rightarrow> time \<Rightarrow> bool" where
  "rt_session_valid rt i t \<longleftrightarrow> session_valid (rt_sessions rt) i t"

fun rt_reads_from :: "runtime_op \<Rightarrow> time \<Rightarrow> bool" where
  "rt_reads_from (Rt_submit _ _ now _ _) t \<longleftrightarrow> t \<le> now"
| "rt_reads_from (Rt_acquire _ _ _ _ now) t \<longleftrightarrow> t \<le> now"
| "rt_reads_from (Rt_renew _ now now') t \<longleftrightarrow> t \<le> now \<and> t \<le> now'"
| "rt_reads_from _ t \<longleftrightarrow> True"

fun rt_issues :: "runtime_op \<Rightarrow> string option" where
  "rt_issues (Rt_acquire new_id _ _ _ _) = Some new_id"
| "rt_issues _ = None"

lemma submit_command_sessions:
  "rt_sessions (snd (submit_command env c now wall req rt)) \<in>
     {rt_sessions rt, snd (validate (sr_control_session_id req) now (rt_sessions rt))}"
  by (auto simp: submit_command_def reject_command_def Let_def
      split: option.split prod.split sum.split bool.split)

lemma in_runner_sessions [simp]: "rt_sessions (in_runner env tid f rt) = rt_sessions rt"
  by (simp add: in_runner_def split: option.split)

lemma rt_step_dead:
  assumes "\<not> rt_session_valid rt i t" and "rt_reads_from p t" and "rt_issues p \<noteq> Some i"
  shows "\<not> rt_session_valid (runtime_perform p rt) i t"
proof -
  let ?sm = "rt_sessions rt" and ?sm' = "rt_sessions (runtime_perform p rt)"
  have step: "\<not> session_valid (session_perform q ?sm) i t"
    if "session_reads_from q t" "session_issues q \<noteq> Some i" for q
    using manager.step_dead [of ?sm i t q] assms(1) that by (simp add: rt_session_valid_def)
  have "?sm' = ?sm \<or> (\<exists>q. ?sm' = session_perform q ?sm \<and> session_reads_from q t \<and> session_issues q \<noteq> Some i)"
  proof (cases p)
    case (Rt_submit env c now wall req)
    then show ?thesis
      using assms(2) submit_command_sessions [of env c now wall req rt]
      by (auto intro!: exI [of _ "Op_validate (sr_control_session_id req) now"])
  next
    case (Rt_acquire new_id actor mode ttl now)
    then show ?thesis
      using assms(2,3) by (intro disjI2 exI [of _ "Op_acquire new_id actor mode ttl now"])
        (simp add: acquire_control_session_def Let_def split_beta)
  next
    case (Rt_renew sid now now')
    then show ?thesis
      using assms(2) by (intro disjI2 exI [of _ "Op_renew sid None now now'"])
        (simp add: renew_control_session_def Let_def split_beta)
  next
    case (Rt_release sid)
    then show ?thesis
      by (intro disjI2 exI [of _ "Op_release sid"]) (simp add: release_control_session_def)
  qed (simp_all add: resume_command_def observe_command_def cancel_observation_def publish_event_def
      subscribe_events_def unsubscribe_events_def stage_config_def apply_config_begin_def
      apply_config_enter_def apply_config_resume_def save_blob_def split_beta Let_def
      split: sum.split prod.split blob_error.split)
  with step assms(1) show ?thesis
    by (auto simp: rt_session_valid_def)
qed

interpretation runtime: session_authority rt_session_valid runtime_perform rt_reads_from rt_issues
proof
  show "rt_session_valid rt i t' \<Longrightarrow> t \<le> t' \<Longrightarrow> rt_session_valid rt i t" for rt i t t'
    unfolding rt_session_valid_def by (rule session_valid_earlier)
qed (rule rt_step_dead)

text \<open>The Runtime's events are a history for its readers, like the bus's.\<close>

lemma publish_event_bus:
  "fst (publish_event ty target payload ew rt) = fst (publish
     \<lparr>pub_event_id = fst ew, pub_type = ty, pub_target_id = target, pub_command_id = None, pub_run_id = None,
      pub_cue_id = None, pub_payload = payload, pub_wall = snd ew\<rparr> (rt_events rt)) \<and>
   rt_events (snd (publish_event ty target payload ew rt)) = snd (publish
     \<lparr>pub_event_id = fst ew, pub_type = ty, pub_target_id = target, pub_command_id = None, pub_run_id = None,
      pub_cue_id = None, pub_payload = payload, pub_wall = snd ew\<rparr> (rt_events rt))"
  by (simp add: publish_event_def split_beta Let_def)

definition rt_emit :: "string \<times> string option \<times> params \<times> string \<times> time \<Rightarrow> device_runtime \<Rightarrow> event \<times> device_runtime" where
  "rt_emit a rt = (case a of (ty, target, payload, ew) \<Rightarrow> publish_event ty target payload ew rt)"

interpretation rt_bus: event_history "\<lambda>hist rt. bus_represents hist (rt_events rt)" rt_emit
    runtime_replay_since subscribe_events "\<lambda>rt i. i \<in> set (eb_subscribers (rt_events rt))"
    "\<lambda>rt. eb_queues (rt_events rt)" "\<lambda>rt. eb_maxlen (rt_events rt)"
  by unfold_locales
    (auto simp: rt_emit_def publish_event_bus runtime_replay_since_def subscribe_events_def split_beta Let_def
      split: prod.splits simp del: publish_frame
      intro: bus.represents_emit bus.represents_open bus.open_queue bus.replay_exact
      dest: bus.emit_queue)

section \<open>Invalidation\<close>

text \<open>
  The operations that hand control over or change the configuration: issuing a session, releasing
  one, and an Apply that succeeds. Each of them bumps the generation of every runner.
\<close>

fun invalidates :: "runtime_op \<Rightarrow> device_runtime \<Rightarrow> bool" where
  "invalidates (Rt_acquire _ _ _ _ _) rt \<longleftrightarrow> True"
| "invalidates (Rt_release _) rt \<longleftrightarrow> True"
| "invalidates (Rt_apply_resume g a now) rt \<longleftrightarrow>
     (case fst (apply_config_resume g a now rt) of None \<Rightarrow> False | Some r \<Rightarrow> ar_outcome r = Apply_SUCCEEDED)"
| "invalidates _ rt \<longleftrightarrow> False"

lemma invalidates_bumps:
  assumes "invalidates p rt"
  shows "rt_runners (runtime_perform p rt) = bump_all (rt_runners rt) \<and>
    rt_ledger (runtime_perform p rt) = rt_ledger rt"
proof (cases p)
  case (Rt_apply_resume g a now)
  with assms show ?thesis
    by (auto simp: apply_config_resume_def apply_resume_def split_beta Let_def
        split: option.splits apply_call.splits guard_result.splits)
qed (use assms in \<open>simp_all add: acquire_control_session_def release_control_session_def split_beta Let_def\<close>)

lemma invalidated_doomed:
  assumes inv: "rt_inv rt" and p: "invalidates p rt" "op_admissible p rt"
    and tr: "dget (rt_runners rt) tid = Some tr"
    and f: "tr_frames tr c = Some f" "frame_status f = OBSERVING"
    and run: "runtime_run (runtime_perform p rt) hist rt'"
  shows "\<exists>tr'. dget (rt_runners rt') tid = Some tr' \<and> doomed c (world_of tr' rt')"
proof -
  let ?rt1 = "runtime_perform p rt"
  from invalidates_bumps [OF p(1)] tr have tr1: "dget (rt_runners ?rt1) tid = Some (bump_generation tr)"
    by (simp add: bump_all_def)
  have inv1: "rt_inv ?rt1"
    using good_step_perform [OF inv p(2)] by (simp add: good_step_def)
  have "frame_gen f \<le> tr_execution_generation tr"
    using runner_inv_frame [OF rt_inv_runner [OF inv tr]] f(1) by (fastforce simp: frame_ok_def)
  then have "doomed c (world_of (bump_generation tr) ?rt1)"
    using f by (auto simp: doomed_def)
  moreover obtain tr' where "dget (rt_runners rt') tid = Some tr'"
    and "runner_run (world_of (bump_generation tr) ?rt1) (world_of tr' rt')"
    using followsD [OF runtime_run_follows [OF run inv1] tr1] by blast
  ultimately show ?thesis
    using doomed_run rt_inv_runner [OF inv1 tr1] by blast
qed

section \<open>A request stays bound to its command\<close>

lemma in_runner_requests [simp]:
  "lg_by_request_id (rt_ledger (in_runner env tid f rt)) = lg_by_request_id (rt_ledger rt)"
  by (simp add: in_runner_def split: option.split)

lemma submit_keeps_entry:
  assumes "lg_by_request_id (rt_ledger rt) q = Some e"
  shows "lg_by_request_id (rt_ledger (snd (submit_command env c now wall req rt))) q = Some e"
proof -
  have "lg_by_request_id lg q = Some e"
    if "ledger_begin req c rid boot gen w (rt_ledger rt) = (res, lg)" for rid boot gen w res lg
    using ledger_begin_keeps_entry [OF assms, of req c rid boot gen w] that by simp
  with assms show ?thesis
    by (auto simp: submit_command_def reject_command_def Let_def
        split: option.split prod.split sum.split bool.split)
qed

lemma perform_keeps_entry:
  "lg_by_request_id (rt_ledger rt) q = Some e \<Longrightarrow>
   lg_by_request_id (rt_ledger (runtime_perform p rt)) q = Some e"
  by (cases p)
    (auto simp: submit_keeps_entry resume_command_def observe_command_def cancel_observation_def publish_event_def
      subscribe_events_def unsubscribe_events_def stage_config_def apply_config_begin_def
      apply_config_enter_def apply_config_resume_def save_blob_def acquire_control_session_def
      release_control_session_def renew_control_session_def split_beta Let_def
      split: sum.split prod.split blob_error.split)

lemma run_keeps_entry:
  "runtime_run rt0 hist rt \<Longrightarrow> lg_by_request_id (rt_ledger rt0) q = Some e \<Longrightarrow>
   lg_by_request_id (rt_ledger rt) q = Some e"
  by (induction rule: runtime_run.induct) (simp_all add: perform_keeps_entry)

lemma submitted_entry:
  assumes "fst (submit_command env c now wall req rt) = Inr (Suspended d)"
  shows "lg_by_request_id (rt_ledger (snd (submit_command env c now wall req rt))) (sr_request_id req) =
    Some \<lparr>le_fingerprint = fingerprint req, le_command_id = d\<rparr>"
  using assms
  by (auto simp: submit_command_def ledger_begin_def Let_def
      split: option.splits prod.splits sum.splits bool.splits if_splits)

lemma validate_valid:
  "session_valid sm sid now \<Longrightarrow> \<exists>s. validate (Some sid) now sm = (Inr s, sm)"
  by (auto simp: validate_def require_active_def session_valid_def)

lemma submit_known:
  assumes inv: "rt_inv rt" and e: "lg_by_request_id (rt_ledger rt) (sr_request_id req) = Some e"
    and sid: "sr_control_session_id req = Some sid" "rt_session_valid rt sid now"
    and tid: "sr_target_id req \<in> set (dkeys (rt_adapters rt))"
  shows "submit_command env c now wall req rt =
    (if fingerprint_eq (le_fingerprint e) (fingerprint req) then Inr (Returned (le_command_id e))
     else Inl (Some (FusionError REQUEST_ID_CONFLICT
       (''request_id '' @ quoted (sr_request_id req) @ '' already used with different content''))), rt)"
proof -
  from sid obtain s where val: "validate (sr_control_session_id req) now (rt_sessions rt) = (Inr s, rt_sessions rt)"
    using validate_valid [of "rt_sessions rt" sid now] by (auto simp: rt_session_valid_def)
  obtain m where m: "dget (rt_adapters rt) (sr_target_id req) = Some m"
    using tid dget_None_iff [of "rt_adapters rt" "sr_target_id req"]
    by (cases "dget (rt_adapters rt) (sr_target_id req)") simp_all
  have "sr_target_id req \<in> set (dkeys (rt_runners rt))"
    using tid rt_inv_keys [OF inv] by simp
  then obtain tr where tr: "dget (rt_runners rt) (sr_target_id req) = Some tr"
    using dget_None_iff [of "rt_runners rt" "sr_target_id req"]
    by (cases "dget (rt_runners rt) (sr_target_id req)") simp_all
  show ?thesis
    using ledger_begin_known [OF rt_inv_ledger [OF inv] e, of c "rt_runtime_id rt" "rt_runtime_boot_id rt"
        "tr_execution_generation tr" wall]
    by (simp add: submit_command_def m tr val)
qed

section \<open>The default guard\<close>

lemma default_guard_idle:
  assumes inv: "rt_inv rt" and wf: "dict_wf (rt_runners rt)"
  shows "(\<forall>tid tr. dget (rt_runners rt) tid = Some tr \<longrightarrow> tr_active tr = None) \<longleftrightarrow>
    default_apply_guard rt = Guard_ok"
proof -
  have busy: "runner_busy (world_of tr rt) \<longleftrightarrow> tr_active tr \<noteq> None"
    if "(tid, tr) \<in> set (rt_runners rt)" for tid tr
    using that rt_inv_runner [OF inv, of tid tr] wf
    by (simp add: runner_busy_iff)
  have "default_apply_guard rt = Guard_ok \<longleftrightarrow>
      (\<forall>(tid, tr) \<in> set (rt_runners rt). \<not> runner_busy (world_of tr rt))"
    by (force simp: default_apply_guard_def Let_def split: if_splits)
  also have "\<dots> \<longleftrightarrow> (\<forall>(tid, tr) \<in> set (rt_runners rt). tr_active tr = None)"
    using busy by auto
  also have "\<dots> \<longleftrightarrow> (\<forall>tid tr. dget (rt_runners rt) tid = Some tr \<longrightarrow> tr_active tr = None)"
    using wf by (auto simp: dict_wf_in_dget [symmetric])
  finally show ?thesis by simp
qed

section \<open>A Runtime for the witnesses\<close>

text \<open>One motor target, a control session, and a move command under observation.\<close>

definition demo_env :: event_env where
  "demo_env n = (''evt-'' @ nat_str n, 0)"

definition demo_rt0 :: device_runtime where
  "demo_rt0 = (case new_device_runtime ''motor-01'' ''boot'' [(''motor01'', demo_manifest)]
      \<lparr>bs_max_bytes = 10, bs_files = Map.empty\<rparr> of Inr rt \<Rightarrow> rt)"

definition demo_rt1 :: device_runtime where
  "demo_rt1 = runtime_perform (Rt_acquire ''session-1'' ''ui'' MANUAL None 0) demo_rt0"

definition demo_rt2 :: device_runtime where
  "demo_rt2 = runtime_perform
     (Rt_submit demo_env ''cmd-1'' 1 1 (demo_request ''r1'' ''move'' (PInt 5))) demo_rt1"

definition demo_rt3 :: device_runtime where
  "demo_rt3 = runtime_perform (Rt_resume demo_env ''motor01'' Exec_ok ''cmd-1'' 2) demo_rt2"

lemma demo_rt0_new:
  "new_device_runtime ''motor-01'' ''boot'' [(''motor01'', demo_manifest)]
     \<lparr>bs_max_bytes = 10, bs_files = Map.empty\<rparr> = Inr demo_rt0"
proof -
  have "validate_all [(''motor01'', demo_manifest)] = Inr ()"
    by (simp add: validate_manifest_def demo_manifest_def)
  then show ?thesis
    by (simp add: demo_rt0_def new_device_runtime_def)
qed

lemma demo_rt2_run: "\<exists>hist. runtime_run demo_rt0 hist demo_rt2"
proof -
  have "lg_by_command_id (rt_ledger demo_rt1) ''cmd-1'' = None"
    by (simp add: demo_rt1_def acquire_control_session_def split_beta Let_def
        new_runtime_parts [OF demo_rt0_new] new_ledger_def)
  moreover have "runtime_run demo_rt0 ([] @ new_events (rt_events demo_rt0) (rt_events demo_rt1)) demo_rt1"
    unfolding demo_rt1_def by (rule rt_step [OF rt_refl]) simp
  ultimately show ?thesis
    unfolding demo_rt2_def using rt_step [of demo_rt0 _ demo_rt1
        "Rt_submit demo_env ''cmd-1'' 1 1 (demo_request ''r1'' ''move'' (PInt 5))"] by fastforce
qed

lemma demo_rt3_run: "\<exists>hist. runtime_run demo_rt0 hist demo_rt3"
  using demo_rt2_run rt_step [of demo_rt0 _ demo_rt2 "Rt_resume demo_env ''motor01'' Exec_ok ''cmd-1'' 2"]
  unfolding demo_rt3_def by fastforce

section \<open>Properties\<close>

text \<open>
  \<^bold>\<open>C1\<close> Refinement: whatever sequence of operations a Runtime goes through (commands from any clients
  to any targets, session handovers, Stage and Apply, adapter answers in any order), seen from each of
  its targets it is a run of that target's runner from its initial state. Every theorem about runs of
  one runner holds of each target of the Runtime.
\<close>

theorem runtime_refines_runners:
  assumes "new_device_runtime rid boot adapters blobs = Inr rt0"
    and "runtime_run rt0 hist rt" and "tid \<in> set (dkeys adapters)"
  shows "\<exists>tr. dget (rt_runners rt) tid = Some tr \<and> runner_run (initial_world tid) (world_of tr rt)"
proof -
  obtain tr0 where "dget (rt_runners rt0) tid = Some tr0" and "world_of tr0 rt0 = initial_world tid"
    using new_runtime_world [OF assms(1,3)] by blast
  with followsD [OF runtime_run_follows [OF assms(2) new_runtime_inv [OF assms(1)]]]
  show ?thesis by fastforce
qed

theorem runtime_refines_runners_witness:
  "\<exists>tr. dget (rt_runners demo_rt3) ''motor01'' = Some tr \<and>
     runner_run (initial_world ''motor01'') (world_of tr demo_rt3)"
  using runtime_refines_runners [OF demo_rt0_new] demo_rt3_run by fastforce

text \<open>
  \<^bold>\<open>C4\<close> Every command completes on the event stream exactly once and truthfully: in every run of a
  Runtime, the \<open>command.completed\<close> events for a command in the whole stream are one event carrying the
  outcome and the achieved completion of its record if that record is terminal, and none if it is not
  or the command is unknown. The events of the stream are numbered from 1 without gaps.
\<close>

theorem completed_exactly_once:
  assumes "new_device_runtime rid boot adapters blobs = Inr rt0" and "runtime_run rt0 hist rt"
  shows "completions c hist =
      (case get_command c rt of
         None \<Rightarrow> []
       | Some r \<Rightarrow> if cr_status r = TERMINAL then [completion_payload r] else []) \<and>
    map ev_sequence hist = [1..<Suc (length hist)]"
  using runtime_run_events [OF assms(2,1)]
  by (auto simp: get_command_def ledger_get_def newly_terminal_def terminal_in_def bus_represents_def
      split: option.split)

theorem completed_exactly_once_witness:
  "\<exists>hist. runtime_run demo_rt0 hist demo_rt3 \<and> completions ''cmd-1'' hist = []"
proof -
  obtain hist where run: "runtime_run demo_rt0 hist demo_rt3"
    using demo_rt3_run by blast
  have "map_option cr_status (get_command ''cmd-1'' demo_rt3) = Some OBSERVING"
    by code_simp
  with completed_exactly_once [OF demo_rt0_new run, of "''cmd-1''"] run show ?thesis
    by (auto split: option.splits)
qed

text \<open>
  \<^bold>\<open>C5\<close> Only the holder of control commands the devices. If a control session is not valid at time
  \<open>t\<close>, then after any operations from \<open>t\<close> on that do not issue the same identifier, a command submitted
  under it is refused with the error of an unknown target, an invalid or an expired session; no record
  is made, no runner is touched, nothing reaches an adapter and no event is published.
\<close>

theorem dead_session_commands_nothing:
  assumes "\<not> rt_session_valid rt sid t"
    and "\<forall>p \<in> set ops. rt_reads_from p t \<and> rt_issues p \<noteq> Some sid"
    and "t \<le> now" and "sr_control_session_id req = Some sid"
  shows "let rt1 = fold runtime_perform ops rt; (res, rt2) = submit_command env c now wall req rt1
    in (\<exists>e. res = Inl (Some e) \<and>
          fe_code e \<in> {UNKNOWN_TARGET, CONTROL_SESSION_INVALID, CONTROL_SESSION_EXPIRED}) \<and>
       rt2 = rt1\<lparr>rt_sessions := rt_sessions rt2\<rparr>"
proof -
  have "\<not> rt_session_valid (fold runtime_perform ops rt) sid now"
    using assms(1-3) by (rule runtime.run_dead)
  then show ?thesis
    using assms(4)
    by (auto simp: submit_command_def validate_def require_active_def rt_session_valid_def session_valid_def Let_def
        split: option.split sum.split prod.split)
qed

theorem dead_session_commands_nothing_witness:
  "\<exists>e. fst (submit_command demo_env ''cmd-2'' 9 9 (demo_request ''r2'' ''move'' (PInt 1))
      (fold runtime_perform [Rt_acquire ''session-2'' ''ui2'' MANUAL None 6, Rt_release ''session-2'']
        (runtime_perform (Rt_release ''session-1'') demo_rt3))) = Inl (Some e)"
proof -
  have "\<not> rt_session_valid (runtime_perform (Rt_release ''session-1'') demo_rt3) ''session-1'' 5"
    by (simp add: rt_session_valid_def release_control_session_def release_valid)
  from dead_session_commands_nothing [OF this, of
      "[Rt_acquire ''session-2'' ''ui2'' MANUAL None 6, Rt_release ''session-2'']" 9
      "demo_request ''r2'' ''move'' (PInt 1)" demo_env "''cmd-2''" 9]
  show ?thesis by (auto simp: Let_def split_beta demo_request_def)
qed

text \<open>
  \<^bold>\<open>C2\<close> Handover invalidates: when control is acquired or released, or an Apply succeeds, every command
  under observation on any target at that moment has lost: however the Runtime goes on, if its record
  becomes terminal its outcome is \<open>CANCELLED\<close> or \<open>EXPIRED\<close>, never \<open>SUCCEEDED\<close>.
\<close>

theorem handover_invalidates:
  assumes "new_device_runtime rid boot adapters blobs = Inr rt0" and "runtime_run rt0 hist rt"
    and "invalidates p rt" and "op_admissible p rt"
    and "dget (rt_runners rt) tid = Some tr" and "tr_frames tr c = Some f" and "frame_status f = OBSERVING"
    and "runtime_run (runtime_perform p rt) hist' rt'"
    and "get_command c rt' = Some r" and "cr_status r = TERMINAL"
  shows "cr_outcome r \<in> {Some CANCELLED, Some EXPIRED}"
proof -
  have inv: "rt_inv rt"
    using assms(2) new_runtime_inv [OF assms(1)] by (rule runtime_run_inv)
  obtain tr' where tr': "dget (rt_runners rt') tid = Some tr'" and d: "doomed c (world_of tr' rt')"
    using invalidated_doomed [OF inv assms(3-8)] by blast
  have "rt_inv rt'"
    using runtime_run_inv [OF assms(8)] good_step_perform [OF inv assms(4)] by (simp add: good_step_def)
  from runner_inv_frame [OF rt_inv_runner [OF this tr'], of c] d assms(9,10)
  show ?thesis
    by (fastforce simp: doomed_def frame_ok_def get_command_def ledger_get_def)
qed

theorem handover_invalidates_witness:
  "map_option cr_outcome (get_command ''cmd-1''
     (runtime_perform (Rt_observe demo_env ''motor01'' ''cmd-1'' 4 4 Complete 5)
       (runtime_perform (Rt_acquire ''session-2'' ''ui2'' MANUAL None 3) demo_rt3))) \<in>
   {Some (Some CANCELLED), Some (Some EXPIRED)}"
proof -
  let ?p = "Rt_acquire ''session-2'' ''ui2'' MANUAL None 3"
  let ?q = "Rt_observe demo_env ''motor01'' ''cmd-1'' 4 4 Complete 5"
  obtain hist where run: "runtime_run demo_rt0 hist demo_rt3"
    using demo_rt3_run by blast
  have "map_option (\<lambda>tr. tr_frames tr ''cmd-1'') (dget (rt_runners demo_rt3) ''motor01'') =
      Some (Some (Observe_start 2))"
    by code_simp
  then obtain tr where tr: "dget (rt_runners demo_rt3) ''motor01'' = Some tr"
    "tr_frames tr ''cmd-1'' = Some (Observe_start 2)" by auto
  have "map_option cr_status (get_command ''cmd-1'' (runtime_perform ?q (runtime_perform ?p demo_rt3))) =
      Some TERMINAL"
    by code_simp
  then obtain r where r: "get_command ''cmd-1'' (runtime_perform ?q (runtime_perform ?p demo_rt3)) = Some r"
    "cr_status r = TERMINAL" by auto
  from handover_invalidates [OF demo_rt0_new run _ _ tr _ rt_step [OF rt_refl] r] r(1)
  show ?thesis by simp
qed

text \<open>
  \<^bold>\<open>C3\<close> Submitting twice executes once. After a command has been accepted for a request, however the
  Runtime goes on, a later request with the same \<open>request_id\<close> under a valid session gets the first
  command's record back if its content is equal, and \<open>REQUEST_ID_CONFLICT\<close> if not. In both cases the
  Runtime is left exactly as it was: nothing is dispatched again.
\<close>

theorem resubmission_executes_nothing:
  assumes "new_device_runtime rid boot adapters blobs = Inr rt0" and "runtime_run rt0 hist rt"
    and "op_admissible (Rt_submit env c now wall req) rt"
    and "submit_command env c now wall req rt = (Inr (Suspended d), rt1)"
    and "runtime_run rt1 hist' rt2"
    and "sr_request_id req' = sr_request_id req" and "sr_target_id req' \<in> set (dkeys (rt_adapters rt2))"
    and "sr_control_session_id req' = Some sid" and "rt_session_valid rt2 sid now'"
  shows "submit_command env' c' now' wall' req' rt2 =
    (if fingerprint_eq (fingerprint req) (fingerprint req') then Inr (Returned d)
     else Inl (Some (FusionError REQUEST_ID_CONFLICT
       (''request_id '' @ quoted (sr_request_id req) @ '' already used with different content''))), rt2)"
proof -
  have inv: "rt_inv rt"
    using assms(2) new_runtime_inv [OF assms(1)] by (rule runtime_run_inv)
  have "rt_inv rt1"
    using good_step_perform [OF inv assms(3)] assms(4) by (simp add: good_step_def)
  with assms(5) have inv2: "rt_inv rt2" by (rule runtime_run_inv)
  have "lg_by_request_id (rt_ledger rt1) (sr_request_id req) =
      Some \<lparr>le_fingerprint = fingerprint req, le_command_id = d\<rparr>"
    using submitted_entry [of env c now wall req rt d] assms(4) by simp
  from run_keeps_entry [OF assms(5) this] have
    "lg_by_request_id (rt_ledger rt2) (sr_request_id req') =
      Some \<lparr>le_fingerprint = fingerprint req, le_command_id = d\<rparr>"
    by (simp add: assms(6))
  from submit_known [OF inv2 this assms(8,9,7)] show ?thesis
    by (simp add: assms(6))
qed

theorem resubmission_executes_nothing_witness:
  "submit_command demo_env ''cmd-2'' 3 3 (demo_request ''r1'' ''move'' (PFloat 5)) demo_rt3 =
     (Inr (Returned ''cmd-1''), demo_rt3)"
proof -
  let ?req = "demo_request ''r1'' ''move'' (PInt 5)"
  have run1: "runtime_run demo_rt0 ([] @ new_events (rt_events demo_rt0) (rt_events demo_rt1)) demo_rt1"
    unfolding demo_rt1_def by (rule rt_step [OF rt_refl]) simp
  have adm: "op_admissible (Rt_submit demo_env ''cmd-1'' 1 1 ?req) demo_rt1"
    by code_simp
  have "case fst (submit_command demo_env ''cmd-1'' 1 1 ?req demo_rt1) of
      Inr (Suspended d) \<Rightarrow> d = ''cmd-1'' | _ \<Rightarrow> False"
    by code_simp
  then have sub: "submit_command demo_env ''cmd-1'' 1 1 ?req demo_rt1 = (Inr (Suspended ''cmd-1''), demo_rt2)"
    by (auto simp: demo_rt2_def prod_eq_iff split: sum.splits submit_reply.splits)
  have run3: "runtime_run demo_rt2 ([] @ new_events (rt_events demo_rt2) (rt_events demo_rt3)) demo_rt3"
    unfolding demo_rt3_def by (rule rt_step [OF rt_refl]) simp
  have "''motor01'' \<in> set (dkeys (rt_adapters demo_rt3)) \<and>
      is_ok (fst (validate (Some ''session-1'') 3 (rt_sessions demo_rt3)))"
    by code_simp
  then have "''motor01'' \<in> set (dkeys (rt_adapters demo_rt3))" "rt_session_valid demo_rt3 ''session-1'' 3"
    by (simp_all add: rt_session_valid_def validate_ok_iff)
  with resubmission_executes_nothing [OF demo_rt0_new run1 adm sub run3, of
      "demo_request ''r1'' ''move'' (PFloat 5)" "''session-1''" 3 demo_env "''cmd-2''" 3]
  show ?thesis
    by (simp add: demo_request_def fingerprint_def py_eq_def)
qed

text \<open>
  The default guard: an Apply that asks the default guard succeeds only at a moment when no
  target of the Runtime has an active command, and then bumps every runner and makes its revision
  active; when some target is active the Apply is rejected and runners and active revision stay as
  they are.
\<close>

theorem default_guard_applies_when_idle:
  assumes "new_device_runtime rid boot adapters blobs = Inr rt0" and "runtime_run rt0 hist rt"
    and "dict_wf adapters" and "cfg_calls (rt_config rt) a = Some (Guarding rev_id expected)"
  shows "case apply_config_resume None a now rt of (ro, rt') \<Rightarrow>
    (if \<forall>tid tr. dget (rt_runners rt) tid = Some tr \<longrightarrow> tr_active tr = None
     then map_option ar_outcome ro = Some Apply_SUCCEEDED \<and>
       cfg_active_revision_id (rt_config rt') = Some rev_id \<and>
       rt_runners rt' = bump_all (rt_runners rt)
     else map_option ar_outcome ro = Some Apply_REJECTED \<and>
       cfg_active_revision_id (rt_config rt') = cfg_active_revision_id (rt_config rt) \<and>
       rt_runners rt' = rt_runners rt)"
proof -
  have inv: "rt_inv rt"
    using assms(2) new_runtime_inv [OF assms(1)] by (rule runtime_run_inv)
  have idle: "(\<forall>tid tr. dget (rt_runners rt) tid = Some tr \<longrightarrow> tr_active tr = None) \<longleftrightarrow>
      default_apply_guard rt = Guard_ok"
  proof (rule default_guard_idle [OF inv])
    have "dkeys (rt_runners rt0) = dkeys adapters"
      by (simp add: new_runtime_parts [OF assms(1)] split_beta comp_def)
    with assms(3) show "dict_wf (rt_runners rt)"
      using runtime_run_follows [OF assms(2) new_runtime_inv [OF assms(1)]] by (simp add: follows_def)
  qed
  have "default_apply_guard rt = Guard_ok \<or> (\<exists>m. default_apply_guard rt = Guard_refused m)"
    by (simp add: default_apply_guard_def Let_def)
  with assms(4) show ?thesis
    unfolding idle by (auto simp: apply_config_resume_def apply_resume_def split_beta Let_def)
qed

definition demo_rt_guarding :: device_runtime where
  "demo_rt_guarding = fold runtime_perform
     [Rt_stage ''site'' [] ''rev-1'' ''h1'' 3, Rt_apply_begin 0 ''rev-1'' None, Rt_apply_enter 0 4] demo_rt3"

lemma demo_rt_guarding_run: "\<exists>hist. runtime_run demo_rt0 hist demo_rt_guarding"
proof -
  let ?a = "runtime_perform (Rt_stage ''site'' [] ''rev-1'' ''h1'' 3) demo_rt3"
  let ?b = "runtime_perform (Rt_apply_begin 0 ''rev-1'' None) ?a"
  obtain hist where run: "runtime_run demo_rt0 hist demo_rt3"
    using demo_rt3_run by blast
  have "cfg_calls (rt_config ?a) 0 = None"
    by code_simp
  with rt_step [OF rt_step [OF rt_step [OF run, of "Rt_stage ''site'' [] ''rev-1'' ''h1'' 3"],
        of "Rt_apply_begin 0 ''rev-1'' None"], of "Rt_apply_enter 0 4"]
  show ?thesis by (auto simp: demo_rt_guarding_def)
qed

theorem default_guard_applies_when_idle_witness:
  "map_option ar_outcome (fst (apply_config_resume None 0 5 demo_rt_guarding)) = Some Apply_REJECTED"
proof -
  obtain hist where run: "runtime_run demo_rt0 hist demo_rt_guarding"
    using demo_rt_guarding_run by blast
  have call: "cfg_calls (rt_config demo_rt_guarding) 0 = Some (Guarding ''rev-1'' None)"
    by code_simp
  have "map_option tr_active (dget (rt_runners demo_rt_guarding) ''motor01'') = Some (Some ''cmd-1'')"
    by code_simp
  then have "\<not> (\<forall>tid tr. dget (rt_runners demo_rt_guarding) tid = Some tr \<longrightarrow> tr_active tr = None)"
    by auto
  with default_guard_applies_when_idle [OF demo_rt0_new run _ call, of 5] show ?thesis
    by (auto simp: split_beta)
qed

end
