(* ===== verification/Timeline.thy ===== *)
theory Timeline
  imports Contracts
begin

text \<open>
  Cues, timelines and their structural validation (\<open>contracts/timeline.py\<close>). \<open>visit\<close> of the code is
  a depth-first search that colours nodes and reports an edge back to a grey node; the loop over the
  dependencies of one node is \<open>visit_deps\<close>, whose recursion for a white dependency is the nested call
  of \<open>visit\<close>. It terminates because each nested call starts with fewer white nodes. The theorem at the
  end says that validation finds no error exactly for timelines whose dependency graph is well-formed
  and acyclic. The depth limit of Python's own stack is not modelled.
\<close>

section \<open>Data\<close>

datatype late_mode = Late_skip | Late_abort

record late_policy =
  lp_max_lateness_ms :: int
  lp_mode :: late_mode

definition DEFAULT_MAX_LATENESS_MS :: int where
  "DEFAULT_MAX_LATENESS_MS = 500"

definition default_late_policy :: late_policy where
  "default_late_policy = \<lparr>lp_max_lateness_ms = DEFAULT_MAX_LATENESS_MS, lp_mode = Late_skip\<rparr>"

record cue =
  cue_id :: string
  cue_at_ms :: int
  cue_runtime :: string
  cue_target_id :: string
  cue_action :: string
  cue_params :: params
  cue_completion_requirement :: completion_requirement
  cue_depends_on :: "string list"
  cue_late_policy :: late_policy

type_synonym timeline = "cue list"

definition get_cue :: "timeline \<Rightarrow> string \<Rightarrow> cue option" where
  "get_cue cues cid = find (\<lambda>c. cue_id c = cid) cues"

section \<open>Validation\<close>

fun duplicate_errors :: "string set \<Rightarrow> cue list \<Rightarrow> string list" where
  "duplicate_errors seen [] = []"
| "duplicate_errors seen (c # cs) =
     (if cue_id c \<in> seen then [''duplicate cue_id '' @ quoted (cue_id c)] else []) @
     duplicate_errors (insert (cue_id c) seen) cs"

definition unknown_errors :: "timeline \<Rightarrow> string list" where
  "unknown_errors cues =
     (let known_ids = set (map cue_id cues)
      in [''cue '' @ quoted (cue_id c) @ '' depends_on unknown cue '' @ quoted dep.
            c \<leftarrow> cues, dep \<leftarrow> cue_depends_on c, dep \<notin> known_ids])"

datatype color = WHITE | GRAY | BLACK

type_synonym graph = "(string, string list) dict"
type_synonym search = "(string, color) dict \<times> string list"

definition dependency_graph :: "timeline \<Rightarrow> graph" where
  "dependency_graph cues = fold (\<lambda>c. dset (cue_id c) (cue_depends_on c)) cues []"

definition cycle_error :: "string list \<Rightarrow> string \<Rightarrow> string \<Rightarrow> string" where
  "cycle_error path node dep = ''dependency cycle: '' @ str_join '' -> '' (path @ [node, dep])"

function (domintros) visit_deps :: "graph \<Rightarrow> string \<Rightarrow> string list \<Rightarrow> string list \<Rightarrow> search \<Rightarrow> search" where
  "visit_deps g node path [] s = s"
| "visit_deps g node path (dep # deps) (colors, errors) =
     (if dget colors dep = Some GRAY
      then visit_deps g node path deps (colors, errors @ [cycle_error path node dep])
      else if dget colors dep = Some WHITE
      then (case dget g dep of
              None \<Rightarrow> visit_deps g node path deps (colors, errors)
            | Some deps' \<Rightarrow>
                let s1 = visit_deps g dep (path @ [node]) deps' (dset dep GRAY colors, errors)
                in visit_deps g node path deps (dset dep BLACK (fst s1), snd s1))
      else visit_deps g node path deps (colors, errors))"
  by pat_completeness auto

definition white_count :: "(string, color) dict \<Rightarrow> nat" where
  "white_count colors = length (filter (\<lambda>(k, v). v = WHITE) colors)"

lemma white_count_visit:
  "dget colors k = Some WHITE \<Longrightarrow> v \<noteq> WHITE \<Longrightarrow> white_count (dset k v colors) < white_count colors"
  by (induction colors) (auto simp: white_count_def split: if_splits)

lemma white_count_set:
  "v \<noteq> WHITE \<Longrightarrow> white_count (dset k v colors) \<le> white_count colors"
  by (induction colors) (auto simp: white_count_def)

lemma visit_deps_white:
  "visit_deps_dom (g, node, path, deps, s) \<Longrightarrow>
   white_count (fst (visit_deps g node path deps s)) \<le> white_count (fst s)"
proof (induction rule: visit_deps.pinduct)
  case (1 g node path s)
  then show ?case by (simp add: visit_deps.psimps)
next
  case (2 g node path dep deps colors errors)
  show ?case
  proof (cases "dget colors dep = Some WHITE \<and> dget g dep \<noteq> None")
    case True
    then obtain deps' where "dget g dep = Some deps'" by auto
    with True 2 white_count_visit [of colors dep GRAY] white_count_set [of BLACK dep]
    show ?thesis
      by (simp add: visit_deps.psimps Let_def) (meson le_trans less_imp_le)
  next
    case False
    with 2 show ?thesis
      by (auto simp: visit_deps.psimps split: option.split)
  qed
qed

termination visit_deps
proof (relation "inv_image (less_than <*lex*> less_than)
    (\<lambda>(g, node, path, deps, s). (white_count (fst s), length deps))")
  show "((g, node, path, deps, dset dep BLACK (fst s1), snd s1), g, node, path, dep # deps, colors, errors)
      \<in> inv_image (less_than <*lex*> less_than) (\<lambda>(g, node, path, deps, s). (white_count (fst s), length deps))"
    if "dget colors dep = Some WHITE"
      "s1 = visit_deps g dep (path @ [node]) deps' (dset dep GRAY colors, errors)"
      "visit_deps_dom (g, dep, path @ [node], deps', dset dep GRAY colors, errors)"
    for g node path dep deps colors errors deps' s1
    using visit_deps_white [OF that(3)] white_count_visit [of colors dep GRAY] that(1,2)
      white_count_set [of BLACK dep "fst s1"] by simp
qed (auto simp: white_count_visit)

definition visit :: "graph \<Rightarrow> string \<Rightarrow> search \<Rightarrow> search" where
  "visit g node s =
     (case dget g node of
        None \<Rightarrow> s
      | Some deps \<Rightarrow>
          let s1 = visit_deps g node [] deps (dset node GRAY (fst s), snd s)
          in (dset node BLACK (fst s1), snd s1))"

definition find_cycles :: "timeline \<Rightarrow> string list" where
  "find_cycles cues =
     (let g = dependency_graph cues
      in snd (fold (\<lambda>cid s. if dget (fst s) cid = Some WHITE then visit g cid s else s) (dkeys g)
                (map (\<lambda>k. (k, WHITE)) (dkeys g), [])))"

definition validate_timeline :: "timeline \<Rightarrow> string list" where
  "validate_timeline cues = duplicate_errors {} cues @ unknown_errors cues @ find_cycles cues"

section \<open>What the search finds\<close>

definition graph_edges :: "graph \<Rightarrow> (string \<times> string) set" where
  "graph_edges g = {(a, b). \<exists>deps. dget g a = Some deps \<and> b \<in> set deps}"

lemma graph_edgesI: "dget g a = Some deps \<Longrightarrow> b \<in> set deps \<Longrightarrow> (a, b) \<in> graph_edges g"
  by (auto simp: graph_edges_def)

lemma acyclic_add_source:
  assumes "acyclic r" and "\<forall>a. (a, x) \<notin> r" and "x \<notin> S"
  shows "acyclic (r \<union> {x} \<times> S)"
proof -
  have "(a, b) \<in> (r \<union> {x} \<times> S)\<^sup>+ \<Longrightarrow> b \<noteq> x \<and> (a \<noteq> x \<longrightarrow> (a, b) \<in> r\<^sup>+)" for a b
  proof (induction rule: trancl_induct)
    case (base b)
    with assms(2,3) show ?case by auto
  next
    case (step b c)
    with assms(2,3) show ?case by (auto intro: trancl_into_trancl)
  qed
  with assms(1) show ?thesis
    by (metis acyclic_def)
qed

subsection \<open>Errors mean a cycle\<close>

text \<open>
  A grey node reaches the node being visited. The search restores the grey set and reports an error
  only when it has found a cycle.
\<close>

lemma visit_deps_sound:
  assumes "\<forall>x. dget (fst s) x = Some GRAY \<longrightarrow> (x, node) \<in> (graph_edges g)\<^sup>*"
    and "\<forall>d \<in> set deps. (node, d) \<in> graph_edges g"
  shows "(\<forall>x. dget (fst (visit_deps g node path deps s)) x = Some GRAY \<longleftrightarrow> dget (fst s) x = Some GRAY) \<and>
    (snd (visit_deps g node path deps s) = snd s \<or> \<not> acyclic (graph_edges g))"
  using assms
proof (induction g node path deps s rule: visit_deps.induct)
  case (1 g node path s)
  then show ?case by simp
next
  case (2 g node path dep deps colors errors)
  let ?E = "graph_edges g"
  have edge: "(node, dep) \<in> ?E" and rest: "\<forall>d \<in> set deps. (node, d) \<in> ?E"
    using 2(7) by simp_all
  consider (gray) "dget colors dep = Some GRAY"
    | (white) deps' where "dget colors dep = Some WHITE" "dget g dep = Some deps'"
    | (other) "dget colors dep \<noteq> Some GRAY" "dget colors dep = Some WHITE \<Longrightarrow> dget g dep = None"
    by (cases "dget colors dep = Some WHITE"; cases "dget g dep") auto
  then show ?case
  proof cases
    case gray
    with 2(6) edge have "(dep, dep) \<in> ?E\<^sup>+"
      by (auto intro: rtrancl_into_trancl1)
    then have "\<not> acyclic ?E" by (auto simp: acyclic_def)
    with gray 2(1) [OF gray] 2(6) rest show ?thesis by simp
  next
    case white
    let ?s1 = "visit_deps g dep (path @ [node]) deps' (dset dep GRAY colors, errors)"
    have "\<forall>x. dget (dset dep GRAY colors) x = Some GRAY \<longrightarrow> (x, dep) \<in> ?E\<^sup>*"
      using 2(6) edge by (auto simp: dget_dset intro: rtrancl_into_rtrancl)
    moreover have "\<forall>d \<in> set deps'. (dep, d) \<in> ?E"
      using white(2) by (auto intro: graph_edgesI)
    ultimately have s1: "\<forall>x. dget (fst ?s1) x = Some GRAY \<longleftrightarrow> dget (dset dep GRAY colors) x = Some GRAY"
      "snd ?s1 = errors \<or> \<not> acyclic ?E"
      using 2(3) [OF _ white(1,2)] white(1) by simp_all
    have gray2: "\<forall>x. dget (dset dep BLACK (fst ?s1)) x = Some GRAY \<longleftrightarrow> dget colors x = Some GRAY"
      using s1(1) white(1) by (auto simp: dget_dset)
    then have "\<forall>x. dget (dset dep BLACK (fst ?s1)) x = Some GRAY \<longrightarrow> (x, node) \<in> ?E\<^sup>*"
      using 2(6) by simp
    with 2(4) [OF _ white(1,2) refl] rest white s1(2) gray2 show ?thesis
      by (auto simp: Let_def)
  next
    case other
    with 2(2) [OF other(1)] 2(5,7) 2(6) rest show ?thesis
      by (cases "dget colors dep = Some WHITE") auto
  qed
qed

subsection \<open>No error means no cycle\<close>

lemma visit_deps_cases:
  obtains (gray) "dget colors dep = Some GRAY"
    | (white) deps' where "dget colors dep \<noteq> Some GRAY" "dget colors dep = Some WHITE" "dget g dep = Some deps'"
    | (unknown) "dget colors dep \<noteq> Some GRAY" "dget colors dep = Some WHITE" "dget g dep = None"
    | (other) "dget colors dep \<noteq> Some GRAY" "dget colors dep \<noteq> Some WHITE"
  by (cases "dget colors dep = Some WHITE"; cases "dget g dep") auto

text \<open>The search restores the grey set, keeps the keys, and only adds errors.\<close>

lemma visit_deps_frame:
  "(\<forall>x. dget (fst (visit_deps g node path deps s)) x = Some GRAY \<longleftrightarrow> dget (fst s) x = Some GRAY) \<and>
   (\<forall>x. dget (fst (visit_deps g node path deps s)) x = None \<longleftrightarrow> dget (fst s) x = None) \<and>
   length (snd s) \<le> length (snd (visit_deps g node path deps s))"
proof (induction g node path deps s rule: visit_deps.induct)
  case (2 g node path dep deps colors errors)
  show ?case
  proof (cases rule: visit_deps_cases [where colors = colors and dep = dep and g = g])
    case gray
    with 2(1) [OF gray] show ?thesis by simp
  next
    case (white deps')
    let ?s1 = "visit_deps g dep (path @ [node]) deps' (dset dep GRAY colors, errors)"
    note IH1 = 2(3) [OF white] and IH2 = 2(4) [OF white refl]
    have "dget (dset dep BLACK (fst ?s1)) x = Some GRAY \<longleftrightarrow> dget colors x = Some GRAY"
      "dget (dset dep BLACK (fst ?s1)) x = None \<longleftrightarrow> dget colors x = None" for x
      using IH1 white(2) by (cases "x = dep"; simp add: dget_dset del: dget_None_iff)+
    with white IH1 IH2 show ?thesis
      by (simp add: Let_def del: dget_None_iff)
  next
    case unknown
    with 2(2) [OF unknown] show ?thesis by simp
  next
    case other
    with 2(5) [OF other] show ?thesis by simp
  qed
qed simp

lemma visit_deps_errors: "\<exists>es. snd (visit_deps g node path deps s) = snd s @ es"
proof (induction g node path deps s rule: visit_deps.induct)
  case (2 g node path dep deps colors errors)
  show ?case
  proof (cases rule: visit_deps_cases [where colors = colors and dep = dep and g = g])
    case gray
    with 2(1) [OF gray] show ?thesis by auto
  next
    case (white deps')
    with 2(3) [OF white] 2(4) [OF white refl] show ?thesis by (auto simp: Let_def)
  next
    case unknown
    with 2(2) [OF unknown] show ?thesis by simp
  next
    case other
    with 2(5) [OF other] show ?thesis by simp
  qed
qed simp

definition black :: "(string, color) dict \<Rightarrow> string set" where
  "black colors = {x. dget colors x = Some BLACK}"

lemma black_dset [simp]:
  "black (dset k BLACK c) = insert k (black c)"
  "black (dset k GRAY c) = black c - {k}"
  by (auto simp: black_def dget_dset)

text \<open>The finished part of the graph is closed under dependencies and acyclic.\<close>

definition search_inv :: "graph \<Rightarrow> (string, color) dict \<Rightarrow> bool" where
  "search_inv g c \<longleftrightarrow>
     (\<forall>x. dget c x = None \<longleftrightarrow> dget g x = None) \<and>
     (\<forall>x y. x \<in> black c \<longrightarrow> (x, y) \<in> graph_edges g \<longrightarrow> dget g y \<noteq> None \<longrightarrow> y \<in> black c) \<and>
     acyclic (graph_edges g \<inter> black c \<times> black c)"

lemma search_inv_gray:
  "search_inv g c \<Longrightarrow> dget c k = Some WHITE \<Longrightarrow> search_inv g (dset k GRAY c)"
proof -
  assume inv: "search_inv g c" and white: "dget c k = Some WHITE"
  then have "k \<notin> black c" by (simp add: black_def)
  then have "black c - {k} = black c" by blast
  moreover have "dget (dset k GRAY c) x = None \<longleftrightarrow> dget c x = None" for x
    using white by (cases "x = k") (simp_all add: dget_dset del: dget_None_iff)
  ultimately show ?thesis
    using inv by (simp add: search_inv_def del: dget_None_iff)
qed

text \<open>Finishing a grey node all of whose dependencies are finished.\<close>

lemma search_inv_finish:
  assumes inv: "search_inv g c" and gray: "dget c k = Some GRAY" and deps: "dget g k = Some deps"
    and fin: "\<forall>d \<in> set deps. dget g d \<noteq> None \<longrightarrow> d \<in> black c"
  shows "search_inv g (dset k BLACK c)"
proof -
  let ?E = "graph_edges g" and ?B = "black c"
  have k: "k \<notin> ?B"
    using gray by (simp add: black_def)
  have out: "(k, y) \<in> ?E \<Longrightarrow> dget g y \<noteq> None \<Longrightarrow> y \<in> ?B" for y
    using deps fin by (auto simp: graph_edges_def simp del: dget_None_iff)
  have into: "x \<in> ?B \<Longrightarrow> (x, k) \<notin> ?E" for x
    using inv k deps unfolding search_inv_def by fastforce
  have "?E \<inter> insert k ?B \<times> insert k ?B = (?E \<inter> ?B \<times> ?B) \<union> {k} \<times> {y \<in> insert k ?B. (k, y) \<in> ?E}"
    using into by auto
  moreover have "acyclic \<dots>"
  proof (rule acyclic_add_source)
    show "acyclic (?E \<inter> ?B \<times> ?B)"
      using inv by (simp add: search_inv_def)
    show "\<forall>a. (a, k) \<notin> ?E \<inter> ?B \<times> ?B"
      using k by blast
    show "k \<notin> {y \<in> insert k ?B. (k, y) \<in> ?E}"
      using out [of k] deps k by auto
  qed
  moreover have "dget (dset k BLACK c) x = None \<longleftrightarrow> dget c x = None" for x
    using gray by (cases "x = k") (simp_all add: dget_dset del: dget_None_iff)
  ultimately show ?thesis
    using inv out unfolding search_inv_def by (simp del: dget_None_iff)
qed

lemma visit_deps_complete:
  assumes "search_inv g (fst s)" and "snd (visit_deps g node path deps s) = snd s"
  shows "search_inv g (fst (visit_deps g node path deps s)) \<and>
    black (fst s) \<subseteq> black (fst (visit_deps g node path deps s)) \<and>
    (\<forall>d \<in> set deps. dget g d \<noteq> None \<longrightarrow> d \<in> black (fst (visit_deps g node path deps s)))"
  using assms
proof (induction g node path deps s rule: visit_deps.induct)
  case (2 g node path dep deps colors errors)
  note inv = 2(6) [unfolded fst_conv] and none = 2(7)
  show ?case
  proof (cases rule: visit_deps_cases [where colors = colors and dep = dep and g = g])
    case gray
    have "length (errors @ [cycle_error path node dep]) \<le>
        length (snd (visit_deps g node path (dep # deps) (colors, errors)))"
      using gray visit_deps_frame [of g node path deps "(colors, errors @ [cycle_error path node dep])"] by simp
    with none show ?thesis by simp
  next
    case (white deps')
    let ?s1 = "visit_deps g dep (path @ [node]) deps' (dset dep GRAY colors, errors)"
    let ?s2 = "(dset dep BLACK (fst ?s1), snd ?s1)"
    let ?r = "visit_deps g node path deps ?s2"
    have r: "visit_deps g node path (dep # deps) (colors, errors) = ?r"
      using white by (simp add: Let_def)
    obtain es where es: "snd ?s1 = errors @ es"
      using visit_deps_errors [of g dep "path @ [node]" deps' "(dset dep GRAY colors, errors)"] by auto
    obtain es' where es': "snd ?r = snd ?s1 @ es'"
      using visit_deps_errors [of g node path deps ?s2] by auto
    from none r es es' have quiet: "snd ?s1 = errors" "snd ?r = snd ?s1" by simp_all
    have gray1: "dget (fst ?s1) dep = Some GRAY"
      using visit_deps_frame [of g dep "path @ [node]" deps' "(dset dep GRAY colors, errors)"] by simp
    have IH1: "search_inv g (fst ?s1)" "black (dset dep GRAY colors) \<subseteq> black (fst ?s1)"
      "\<forall>d \<in> set deps'. dget g d \<noteq> None \<longrightarrow> d \<in> black (fst ?s1)"
      using 2(3) [OF white] search_inv_gray [OF inv white(2)] quiet(1) by simp_all
    have "search_inv g (fst ?s2)"
      using search_inv_finish [OF IH1(1) gray1 white(3) IH1(3)] by simp
    with 2(4) [OF white refl] quiet(2) have IH2: "search_inv g (fst ?r)" "black (fst ?s2) \<subseteq> black (fst ?r)"
      "\<forall>d \<in> set deps. dget g d \<noteq> None \<longrightarrow> d \<in> black (fst ?r)" by simp_all
    have "dep \<notin> black colors"
      using white(2) by (simp add: black_def)
    with IH1(2) IH2 show ?thesis
      unfolding r by auto
  next
    case unknown
    with 2(2) [OF unknown] inv none show ?thesis by simp
  next
    case other
    have "dget g dep \<noteq> None \<Longrightarrow> dep \<in> black colors"
      using other inv by (cases "dget colors dep"; cases "the (dget colors dep)")
        (auto simp: search_inv_def black_def)
    with other 2(5) [OF other] inv none show ?thesis by auto
  qed
qed simp

subsection \<open>The whole search\<close>

definition visit_if_white :: "graph \<Rightarrow> string \<Rightarrow> search \<Rightarrow> search" where
  "visit_if_white g cid s = (if dget (fst s) cid = Some WHITE then visit g cid s else s)"

definition no_gray :: "search \<Rightarrow> bool" where
  "no_gray s \<longleftrightarrow> (\<forall>x. dget (fst s) x \<noteq> Some GRAY)"

lemma visit_step:
  assumes ng: "no_gray s" and keys: "\<forall>x. dget (fst s) x = None \<longleftrightarrow> dget g x = None"
    and k: "dget g k \<noteq> None"
  defines "s' \<equiv> visit_if_white g k s"
  shows "no_gray s' \<and> (\<forall>x. dget (fst s') x = None \<longleftrightarrow> dget g x = None) \<and>
    (\<exists>es. snd s' = snd s @ es) \<and> (snd s' = snd s \<or> \<not> acyclic (graph_edges g)) \<and>
    (search_inv g (fst s) \<longrightarrow> snd s' = snd s \<longrightarrow>
       search_inv g (fst s') \<and> insert k (black (fst s)) \<subseteq> black (fst s'))"
proof (cases "dget (fst s) k = Some WHITE")
  case False
  have "k \<in> black (fst s)"
    using False ng keys k
    by (cases "dget (fst s) k"; cases "the (dget (fst s) k)")
      (auto simp: no_gray_def black_def simp del: dget_None_iff)
  with assms False show ?thesis
    by (simp add: visit_if_white_def del: dget_None_iff)
next
  case True
  from k obtain deps where deps: "dget g k = Some deps" by auto
  let ?s0 = "(dset k GRAY (fst s), snd s)"
  let ?s1 = "visit_deps g k [] deps ?s0"
  have s': "s' = (dset k BLACK (fst ?s1), snd ?s1)"
    using True deps by (simp add: s'_def visit_if_white_def visit_def Let_def)
  note frame = visit_deps_frame [of g k "[]" deps ?s0]
  have gray1: "dget (fst ?s1) k = Some GRAY"
    using frame by simp
  have ng': "no_gray s'"
    using frame ng by (auto simp: s' no_gray_def dget_dset simp del: dget_None_iff)
  have keys': "dget (fst s') x = None \<longleftrightarrow> dget g x = None" for x
    using frame keys True deps by (cases "x = k") (simp_all add: s' dget_dset del: dget_None_iff)
  have sound: "snd ?s1 = snd s \<or> \<not> acyclic (graph_edges g)"
  proof -
    have "\<forall>x. dget (fst ?s0) x = Some GRAY \<longrightarrow> (x, k) \<in> (graph_edges g)\<^sup>*"
      using ng by (simp add: no_gray_def dget_dset)
    moreover have "\<forall>d \<in> set deps. (k, d) \<in> graph_edges g"
      using deps by (auto intro: graph_edgesI)
    ultimately show ?thesis
      using visit_deps_sound [of ?s0 k g deps "[]"] by auto
  qed
  have complete: "search_inv g (fst s') \<and> insert k (black (fst s)) \<subseteq> black (fst s')"
    if inv: "search_inv g (fst s)" and quiet: "snd s' = snd s"
  proof -
    have "k \<notin> black (fst s)"
      using True by (simp add: black_def)
    with visit_deps_complete [of g ?s0 k "[]" deps] search_inv_gray [OF inv True] quiet
    have "search_inv g (fst ?s1)" "black (fst s) \<subseteq> black (fst ?s1)"
      "\<forall>d \<in> set deps. dget g d \<noteq> None \<longrightarrow> d \<in> black (fst ?s1)"
      by (auto simp: s' simp del: dget_None_iff)
    with search_inv_finish [OF _ gray1 deps] show ?thesis
      by (auto simp: s')
  qed
  have "\<exists>es. snd s' = snd s @ es"
    using visit_deps_errors [of g k "[]" deps ?s0] by (simp add: s')
  with ng' keys' sound complete show ?thesis
    by (simp add: s' del: dget_None_iff)
qed

lemma fold_visit_errors: "\<exists>es. snd (fold (visit_if_white g) ks s) = snd s @ es"
proof (induction ks arbitrary: s)
  case (Cons k ks)
  have "\<exists>es. snd (visit_if_white g k s) = snd s @ es"
  proof (cases "dget g k")
    case (Some deps)
    with visit_deps_errors [of g k "[]" deps "(dset k GRAY (fst s), snd s)"] show ?thesis
      by (simp add: visit_if_white_def visit_def Let_def)
  qed (simp add: visit_if_white_def visit_def)
  with Cons.IH [of "visit_if_white g k s"] show ?case by auto
qed simp

lemma visit_all:
  assumes "no_gray s" and "\<forall>x. dget (fst s) x = None \<longleftrightarrow> dget g x = None"
    and "\<forall>k \<in> set ks. dget g k \<noteq> None" and "search_inv g (fst s)"
  shows "let s' = fold (visit_if_white g) ks s in
    (\<exists>es. snd s' = snd s @ es) \<and> (snd s' = snd s \<or> \<not> acyclic (graph_edges g)) \<and>
    (snd s' = snd s \<longrightarrow> search_inv g (fst s') \<and> set ks \<union> black (fst s) \<subseteq> black (fst s'))"
  using assms
proof (induction ks arbitrary: s)
  case (Cons k ks)
  let ?s1 = "visit_if_white g k s" and ?s' = "fold (visit_if_white g) ks (visit_if_white g k s)"
  have k: "dget g k \<noteq> None" using Cons.prems(3) by simp
  from visit_step [OF Cons.prems(1,2) k] Cons.prems(4)
  have ng1: "no_gray ?s1" and keys1: "\<forall>x. dget (fst ?s1) x = None \<longleftrightarrow> dget g x = None"
    and es1: "\<exists>es. snd ?s1 = snd s @ es" and sound1: "snd ?s1 = snd s \<or> \<not> acyclic (graph_edges g)"
    and comp1: "snd ?s1 = snd s \<Longrightarrow>
      search_inv g (fst ?s1) \<and> insert k (black (fst s)) \<subseteq> black (fst ?s1)"
    by blast+
  show ?case
  proof (cases "snd ?s1 = snd s")
    case True
    with comp1 have inv1: "search_inv g (fst ?s1)" and sub1: "insert k (black (fst s)) \<subseteq> black (fst ?s1)"
      by blast+
    have "\<forall>k \<in> set ks. dget g k \<noteq> None" using Cons.prems(3) by simp
    from Cons.IH [OF ng1 keys1 this inv1] True sub1 show ?thesis
      by (auto simp: Let_def)
  next
    case False
    have "\<exists>es. snd ?s' = snd ?s1 @ es"
      using fold_visit_errors .
    with False es1 sound1 show ?thesis by (auto simp: Let_def)
  qed
qed simp

subsection \<open>The graph of a timeline\<close>

lemma acyclic_known:
  assumes "acyclic (graph_edges g \<inter> K \<times> K)" and "\<And>x. dget g x \<noteq> None \<Longrightarrow> x \<in> K"
  shows "acyclic (graph_edges g)"
proof -
  have "(x, y) \<in> (graph_edges g)\<^sup>+ \<Longrightarrow> y \<in> K \<Longrightarrow> (x, y) \<in> (graph_edges g \<inter> K \<times> K)\<^sup>+" for x y
  proof (induction rule: trancl_induct)
    case (base y)
    then have "x \<in> K" by (intro assms(2)) (auto simp: graph_edges_def simp del: dget_None_iff)
    with base show ?case by auto
  next
    case (step y z)
    then have "y \<in> K" by (intro assms(2)) (auto simp: graph_edges_def simp del: dget_None_iff)
    with step show ?case by (auto intro: trancl_into_trancl)
  qed
  moreover have "(x, x) \<in> (graph_edges g)\<^sup>+ \<Longrightarrow> x \<in> K" for x
    by (drule tranclD) (auto simp: graph_edges_def simp del: dget_None_iff intro!: assms(2))
  ultimately show ?thesis
    using assms(1) by (auto simp: acyclic_def)
qed

lemma find_cycles_graph:
  "snd (fold (visit_if_white g) (dkeys g) (map (\<lambda>k. (k, WHITE)) (dkeys g), [])) = [] \<longleftrightarrow>
   acyclic (graph_edges g)"
proof -
  let ?s0 = "(map (\<lambda>k. (k, WHITE)) (dkeys g), [] :: string list)"
  have colors: "dget (fst ?s0) x = (if dget g x = None then None else Some WHITE)" for x
    by (induction g) auto
  have ng: "no_gray ?s0" and inv: "search_inv g (fst ?s0)" and keys: "\<forall>x. dget (fst ?s0) x = None \<longleftrightarrow> dget g x = None"
  proof -
    have "black (fst ?s0) = {}"
      unfolding black_def colors by simp
    then show "search_inv g (fst ?s0)"
      unfolding search_inv_def colors by (simp add: acyclic_def)
    show "no_gray ?s0"
      unfolding no_gray_def colors by simp
    show "\<forall>x. dget (fst ?s0) x = None \<longleftrightarrow> dget g x = None"
      unfolding colors by simp
  qed
  have ks: "\<forall>k \<in> set (dkeys g). dget g k \<noteq> None"
    by (simp add: dget_None_iff)
  note all = visit_all [OF ng keys ks inv, unfolded Let_def snd_conv append_Nil]
  show ?thesis
  proof
    assume none: "snd (fold (visit_if_white g) (dkeys g) ?s0) = []"
    let ?K = "black (fst (fold (visit_if_white g) (dkeys g) ?s0))"
    from all none have "acyclic (graph_edges g \<inter> ?K \<times> ?K)" "set (dkeys g) \<subseteq> ?K"
      by (simp_all add: search_inv_def)
    then show "acyclic (graph_edges g)"
      by (elim acyclic_known) (auto simp: dget_None_iff simp del: set_map)
  qed (use all in blast)
qed

lemma duplicate_errors_Nil:
  "duplicate_errors seen cs = [] \<longleftrightarrow> distinct (map cue_id cs) \<and> set (map cue_id cs) \<inter> seen = {}"
  by (induction cs arbitrary: seen) auto

lemma unknown_errors_Nil:
  "unknown_errors cues = [] \<longleftrightarrow> (\<forall>c \<in> set cues. set (cue_depends_on c) \<subseteq> set (map cue_id cues))"
  by (auto simp: unknown_errors_def Let_def)

lemma dependency_graph_get:
  assumes "distinct (map cue_id cues)"
  shows "dget (dependency_graph cues) x = Some deps \<longleftrightarrow> (\<exists>c \<in> set cues. cue_id c = x \<and> cue_depends_on c = deps)"
proof -
  have "dget (fold (\<lambda>c. dset (cue_id c) (cue_depends_on c)) cs g) x =
      (case find (\<lambda>c. cue_id c = x) cs of Some c \<Rightarrow> Some (cue_depends_on c) | None \<Rightarrow> dget g x)"
    if "distinct (map cue_id cs)" for cs g
    using that
  proof (induction cs arbitrary: g)
    case (Cons c cs)
    have "x = cue_id c \<Longrightarrow> find (\<lambda>c'. cue_id c' = x) cs = None"
      using Cons.prems by (auto simp: find_None_iff) (metis image_eqI)
    with Cons show ?case by (auto simp: dget_dset split: option.split)
  qed simp
  from this [OF assms, of "[]"] have "dget (dependency_graph cues) x =
      map_option cue_depends_on (find (\<lambda>c. cue_id c = x) cues)"
    by (simp add: dependency_graph_def split: option.split)
  moreover have "find (\<lambda>c. cue_id c = x) cues = Some c \<longleftrightarrow> c \<in> set cues \<and> cue_id c = x" for c
    using find_unique_key [OF assms, of c] by (auto simp: find_Some_iff)
  ultimately show ?thesis by auto
qed

lemma validated_parts:
  "validate_timeline cues = [] \<longleftrightarrow>
     distinct (map cue_id cues) \<and>
     (\<forall>c \<in> set cues. set (cue_depends_on c) \<subseteq> set (map cue_id cues)) \<and>
     acyclic {(cue_id c, dep) | c dep. c \<in> set cues \<and> dep \<in> set (cue_depends_on c)}"
proof (cases "distinct (map cue_id cues)")
  case False
  then show ?thesis
    by (simp add: validate_timeline_def duplicate_errors_Nil)
next
  case True
  have "graph_edges (dependency_graph cues) =
      {(cue_id c, dep) | c dep. c \<in> set cues \<and> dep \<in> set (cue_depends_on c)}"
    using dependency_graph_get [OF True] by (auto simp: graph_edges_def)
  moreover have "find_cycles cues = [] \<longleftrightarrow> acyclic (graph_edges (dependency_graph cues))"
    using find_cycles_graph [of "dependency_graph cues"]
    by (simp add: find_cycles_def Let_def visit_if_white_def [abs_def])
  ultimately show ?thesis
    using True by (simp add: validate_timeline_def duplicate_errors_Nil unknown_errors_Nil)
qed

section \<open>Properties\<close>

text \<open>
  \<^bold>\<open>C18\<close> Validation is sound and complete: \<open>validate_timeline\<close> always returns, and it returns no error
  exactly when the cue identifiers are pairwise different, every dependency names a cue of the timeline,
  and the dependency relation has no cycle.
\<close>

theorem validate_timeline_iff:
  "validate_timeline cues = [] \<longleftrightarrow>
     distinct (map cue_id cues) \<and>
     (\<Union>c \<in> set cues. set (cue_depends_on c)) \<subseteq> set (map cue_id cues) \<and>
     acyclic {(cue_id c, dep) | c dep. c \<in> set cues \<and> dep \<in> set (cue_depends_on c)}"
  unfolding validated_parts UN_subset_iff ..

text \<open>
  A validated timeline has an order in which every cue comes after its dependencies; in particular the
  dependency relation is well-founded, which the executor's progress rests on.
\<close>

definition cue_dependency :: "timeline \<Rightarrow> (string \<times> string) set" where
  "cue_dependency cues = {(dep, cue_id c) | c dep. c \<in> set cues \<and> dep \<in> set (cue_depends_on c)}"

lemma validated_wf:
  assumes "validate_timeline cues = []"
  shows "wf (cue_dependency cues)"
proof (rule finite_acyclic_wf)
  have "cue_dependency cues \<subseteq> (\<Union>c \<in> set cues. (\<lambda>dep. (dep, cue_id c)) ` set (cue_depends_on c))"
    by (auto simp: cue_dependency_def)
  then show "finite (cue_dependency cues)"
    by (rule finite_subset) simp
  let ?E = "{(cue_id c, dep) | c dep. c \<in> set cues \<and> dep \<in> set (cue_depends_on c)}"
  have "cue_dependency cues = ?E\<inverse>"
    by (auto simp: cue_dependency_def)
  moreover have "acyclic ?E"
    using assms validated_parts by blast
  ultimately show "acyclic (cue_dependency cues)"
    by simp
qed

end
