(* ===== verification/Timeline_Executor.thy ===== *)
theory Timeline_Executor
  imports Timeline
begin

text \<open>
  The timeline executor of \<open>core/timeline_executor.py\<close>. Each cue has a task that runs \<open>_run_cue\<close>, cut at
  its suspension points; \<open>cue_task\<close> is what the task waits for. The Runtimes the cues are sent to are the
  environment: \<open>ex_remote\<close> is their commands (the cue of each, and its outcome once terminal) and
  \<open>ex_streams\<close> the \<open>command.completed\<close> events of each Runtime that its listener has not read yet, of the
  commands that were still open when their submission was answered (nobody waits for the others).
  \<open>ex_lost\<close> are the Runtimes whose stream has lost an event. \<open>Show_System\<close> puts the Runtimes of
  \<open>Device_Runtime\<close> in the place of this environment and proves that they behave like it.

  A call to a Runtime is two steps: the Runtime answers, then the task gets the answer; anything may
  happen in between. Outcomes are the strings of the wire.
\<close>

section \<open>State\<close>

datatype submit_answer =
    Submit_error string
  | Submit_crashed
  | Submit_open string
  | Submit_terminal string string

datatype cue_task =
    Deps "string list"
  | Timing
  | Submitting
  | Answered submit_answer
  | Checking string
  | Checked string "string option"
  | Awaiting string
  | Finished
  | Raised

record executor =
  ex_start :: time
  ex_outcomes :: "string \<rightharpoonup> string"
  ex_pending :: "string \<rightharpoonup> string option"
  ex_tasks :: "string \<rightharpoonup> cue_task"
  ex_calls :: "(string \<times> time) list"
  ex_remote :: "string \<rightharpoonup> string \<times> string option"
  ex_streams :: "string \<Rightarrow> (string \<times> string) list"
  ex_listening :: "string set"
  ex_lost :: "string set"

definition SUCCESS :: string where
  "SUCCESS = outcome_value SUCCEEDED"

definition new_executor :: "timeline \<Rightarrow> string set \<Rightarrow> time \<Rightarrow> executor" where
  "new_executor cues clients start =
     \<lparr>ex_start = start, ex_outcomes = Map.empty, ex_pending = Map.empty,
      ex_tasks = map_of (map (\<lambda>c. (cue_id c, Deps (cue_depends_on c))) cues), ex_calls = [],
      ex_remote = Map.empty, ex_streams = (\<lambda>_. []), ex_listening = clients, ex_lost = {}\<rparr>"

definition set_task :: "string \<Rightarrow> cue_task \<Rightarrow> executor \<Rightarrow> executor" where
  "set_task cid st ex = ex\<lparr>ex_tasks := (ex_tasks ex)(cid \<mapsto> st)\<rparr>"

text \<open>\<open>_finish\<close> records the outcome and sets the cue's event; a cue is done when it has an outcome.\<close>

definition finish_cue :: "string \<Rightarrow> string \<Rightarrow> executor \<Rightarrow> executor" where
  "finish_cue cid outcome ex = ex\<lparr>ex_outcomes := (ex_outcomes ex)(cid \<mapsto> outcome)\<rparr>"

section \<open>The segments of \<open>_run_cue\<close>\<close>

text \<open>
  One turn of the loop over the dependencies, when the first one's event is set. A dependency that is
  not a cue of the timeline has no event: \<open>self._done_events[dep]\<close> raises \<open>KeyError\<close>.
\<close>

definition dep_turn :: "timeline \<Rightarrow> string \<Rightarrow> executor \<Rightarrow> executor" where
  "dep_turn cues cid ex =
     (case ex_tasks ex cid of
        Some (Deps []) \<Rightarrow> set_task cid Timing ex
      | Some (Deps (dep # deps)) \<Rightarrow>
          if dep \<notin> set (map cue_id cues) then set_task cid Raised ex
          else (case ex_outcomes ex dep of
                  None \<Rightarrow> ex
                | Some outcome \<Rightarrow>
                    if outcome \<noteq> SUCCESS then set_task cid Finished (finish_cue cid ''SKIPPED'' ex)
                    else set_task cid (Deps deps) ex)
      | _ \<Rightarrow> ex)"

definition cue_deadline :: "cue \<Rightarrow> executor \<Rightarrow> time" where
  "cue_deadline c ex = ex_start ex + of_int (cue_at_ms c) / 1000"

text \<open>
  A turn of the waiting loop, whose condition reads the clock as \<open>now\<close>; after the loop the clock is
  read again, as \<open>now'\<close>, for the lateness.
\<close>

definition time_turn :: "cue \<Rightarrow> time \<Rightarrow> time \<Rightarrow> bool \<Rightarrow> executor \<Rightarrow> executor" where
  "time_turn c now now' held ex =
     (if ex_tasks ex (cue_id c) \<noteq> Some Timing \<or> now < cue_deadline c ex then ex
      else
        let lateness_ms = (now' - cue_deadline c ex) * 1000
        in if lateness_ms > of_int (lp_max_lateness_ms (cue_late_policy c))
           then (case lp_mode (cue_late_policy c) of
                   Late_skip \<Rightarrow> set_task (cue_id c) Finished (finish_cue (cue_id c) ''SKIPPED'' ex)
                 | Late_abort \<Rightarrow> set_task (cue_id c) Raised (finish_cue (cue_id c) ''FAILED'' ex))
           else if held then set_task (cue_id c) Finished (finish_cue (cue_id c) ''SKIPPED'' ex)
           else set_task (cue_id c) Submitting (ex\<lparr>ex_calls := ex_calls ex @ [(cue_id c, now')]\<rparr>))"

text \<open>The task gets the answer to \<open>submit_command\<close>.\<close>

definition submit_response :: "string \<Rightarrow> executor \<Rightarrow> executor" where
  "submit_response cid ex =
     (case ex_tasks ex cid of
        Some (Answered (Submit_error m)) \<Rightarrow> set_task cid Finished (finish_cue cid ''FAILED'' ex)
      | Some (Answered Submit_crashed) \<Rightarrow> set_task cid Raised ex
      | Some (Answered (Submit_terminal cmd outcome)) \<Rightarrow> set_task cid Finished (finish_cue cid outcome ex)
      | Some (Answered (Submit_open cmd)) \<Rightarrow>
          set_task cid (Checking cmd) (ex\<lparr>ex_pending := (ex_pending ex)(cmd \<mapsto> None)\<rparr>)
      | _ \<Rightarrow> ex)"

text \<open>The task gets the answer to \<open>get_command\<close>: it resolves its own future if need be.\<close>

definition check_response :: "string \<Rightarrow> executor \<Rightarrow> executor" where
  "check_response cid ex =
     (case ex_tasks ex cid of
        Some (Checked cmd status) \<Rightarrow>
          set_task cid (Awaiting cmd)
            (if ex_pending ex cmd = Some None \<and> status \<noteq> None
             then ex\<lparr>ex_pending := (ex_pending ex)(cmd \<mapsto> status)\<rparr> else ex)
      | _ \<Rightarrow> ex)"

definition wake :: "string \<Rightarrow> executor \<Rightarrow> executor" where
  "wake cid ex =
     (case ex_tasks ex cid of
        Some (Awaiting cmd) \<Rightarrow>
          (case ex_pending ex cmd of
             Some (Some outcome) \<Rightarrow> set_task cid Finished (finish_cue cid outcome ex)
           | _ \<Rightarrow> ex)
      | _ \<Rightarrow> ex)"

section \<open>The listeners\<close>

definition resolve :: "string \<Rightarrow> string \<Rightarrow> executor \<Rightarrow> executor" where
  "resolve cmd outcome ex =
     (if ex_pending ex cmd = Some None then ex\<lparr>ex_pending := (ex_pending ex)(cmd \<mapsto> Some outcome)\<rparr> else ex)"

text \<open>The listener of a client reads its next completion event.\<close>

definition listen :: "string \<Rightarrow> executor \<Rightarrow> executor" where
  "listen client ex =
     (if client \<notin> ex_listening ex then ex
      else case ex_streams ex client of
        [] \<Rightarrow> ex
      | (cmd, outcome) # rest \<Rightarrow>
          resolve cmd outcome (ex\<lparr>ex_streams := (ex_streams ex)(client := rest)\<rparr>))"

text \<open>\<open>ResyncRequired\<close>: every unresolved future becomes UNKNOWN, and the listener ends.\<close>

definition resync :: "string \<Rightarrow> executor \<Rightarrow> executor" where
  "resync client ex =
     (if client \<notin> ex_listening ex then ex
      else ex\<lparr>ex_pending := (\<lambda>cmd. if ex_pending ex cmd = Some None then Some (Some ''UNKNOWN'')
                                   else ex_pending ex cmd),
             ex_listening := ex_listening ex - {client}\<rparr>)"

text \<open>The connection of a listener fails: its task ends with the exception, and nothing is resolved.\<close>

definition drop_listener :: "string \<Rightarrow> executor \<Rightarrow> executor" where
  "drop_listener client ex = ex\<lparr>ex_listening := ex_listening ex - {client}\<rparr>"

text \<open>
  The end of \<open>run\<close>: \<open>gather\<close> returns when every task has returned and raises as soon as one has raised,
  without cancelling the others; either way the listeners are cancelled.
\<close>

definition run_ended :: "executor \<Rightarrow> bool" where
  "run_ended ex \<longleftrightarrow> Raised \<in> ran (ex_tasks ex) \<or> ran (ex_tasks ex) \<subseteq> {Finished}"

definition end_run :: "executor \<Rightarrow> executor" where
  "end_run ex = ex\<lparr>ex_listening := {}\<rparr>"

section \<open>The Runtimes\<close>

text \<open>
  A Runtime answers a submission: it refuses it or fails, or it accepts it as a new command, which is
  open or already terminal. A stream may lose an event (\<open>published_during_replay_is_lost\<close>).
\<close>

definition complete :: "string \<Rightarrow> string \<Rightarrow> string \<Rightarrow> executor \<Rightarrow> executor" where
  "complete client cmd outcome ex =
     ex\<lparr>ex_remote := (ex_remote ex)(cmd := map_option (\<lambda>(cid, _). (cid, Some outcome)) (ex_remote ex cmd)),
        ex_streams := (ex_streams ex)(client := ex_streams ex client @ [(cmd, outcome)])\<rparr>"

definition miss :: "string \<Rightarrow> executor \<Rightarrow> executor" where
  "miss client ex = ex\<lparr>ex_streams := (ex_streams ex)(client := drop 1 (ex_streams ex client)),
     ex_lost := insert client (ex_lost ex)\<rparr>"

definition remote_submit :: "cue \<Rightarrow> submit_answer \<Rightarrow> executor \<Rightarrow> executor" where
  "remote_submit c answer ex =
     (let accept = (\<lambda>cmd status. ex\<lparr>ex_remote := (ex_remote ex)(cmd \<mapsto> (cue_id c, status))\<rparr>)
      in set_task (cue_id c) (Answered answer)
           (case answer of
              Submit_open cmd \<Rightarrow> accept cmd None
            | Submit_terminal cmd outcome \<Rightarrow> accept cmd (Some outcome)
            | _ \<Rightarrow> ex))"

text \<open>A Runtime answers \<open>get_command\<close> with the command's present status (or the call fails).\<close>

definition remote_check :: "string \<Rightarrow> bool \<Rightarrow> executor \<Rightarrow> executor" where
  "remote_check cid answered ex =
     (case ex_tasks ex cid of
        Some (Checking cmd) \<Rightarrow>
          if \<not> answered then set_task cid Raised ex
          else set_task cid (Checked cmd (Option.bind (ex_remote ex cmd) snd)) ex
      | _ \<Rightarrow> ex)"

section \<open>Runs\<close>

datatype exec_op =
    Ex_dep string
  | Ex_time cue time time bool
  | Ex_remote_submit cue submit_answer
  | Ex_submit_response string
  | Ex_remote_check string bool
  | Ex_check_response string
  | Ex_wake string
  | Ex_listen string
  | Ex_resync string
  | Ex_drop_listener string
  | Ex_complete cue string string
  | Ex_miss string
  | Ex_end

fun exec_perform :: "timeline \<Rightarrow> exec_op \<Rightarrow> executor \<Rightarrow> executor" where
  "exec_perform cues (Ex_dep cid) ex = dep_turn cues cid ex"
| "exec_perform cues (Ex_time c now now' held) ex = time_turn c now now' held ex"
| "exec_perform cues (Ex_remote_submit c answer) ex = remote_submit c answer ex"
| "exec_perform cues (Ex_submit_response cid) ex = submit_response cid ex"
| "exec_perform cues (Ex_remote_check cid answered) ex = remote_check cid answered ex"
| "exec_perform cues (Ex_check_response cid) ex = check_response cid ex"
| "exec_perform cues (Ex_wake cid) ex = wake cid ex"
| "exec_perform cues (Ex_listen client) ex = listen client ex"
| "exec_perform cues (Ex_resync client) ex = resync client ex"
| "exec_perform cues (Ex_drop_listener client) ex = drop_listener client ex"
| "exec_perform cues (Ex_complete c cmd outcome) ex = complete (cue_runtime c) cmd outcome ex"
| "exec_perform cues (Ex_miss client) ex = miss client ex"
| "exec_perform cues Ex_end ex = end_run ex"

fun answer_fresh :: "submit_answer \<Rightarrow> executor \<Rightarrow> bool" where
  "answer_fresh (Submit_open cmd) ex \<longleftrightarrow> ex_remote ex cmd = None"
| "answer_fresh (Submit_terminal cmd _) ex \<longleftrightarrow> ex_remote ex cmd = None"
| "answer_fresh _ ex \<longleftrightarrow> True"

text \<open>
  When an operation can occur: the clock's second read is not before its first; a Runtime answers a
  call that was made, with a fresh command; an open command completes once.
\<close>

fun exec_possible :: "timeline \<Rightarrow> exec_op \<Rightarrow> executor \<Rightarrow> bool" where
  "exec_possible cues (Ex_time c now now' held) ex \<longleftrightarrow> c \<in> set cues \<and> now \<le> now'"
| "exec_possible cues (Ex_remote_submit c answer) ex \<longleftrightarrow>
     c \<in> set cues \<and> ex_tasks ex (cue_id c) = Some Submitting \<and> answer_fresh answer ex"
| "exec_possible cues (Ex_complete c cmd outcome) ex \<longleftrightarrow>
     c \<in> set cues \<and> ex_remote ex cmd = Some (cue_id c, None)"
| "exec_possible cues Ex_end ex \<longleftrightarrow> run_ended ex"
| "exec_possible cues _ ex \<longleftrightarrow> True"

inductive exec_run :: "timeline \<Rightarrow> executor \<Rightarrow> executor \<Rightarrow> bool" for cues ex0 where
  exec_refl: "exec_run cues ex0 ex0"
| exec_step: "exec_run cues ex0 ex \<Longrightarrow> exec_possible cues p ex \<Longrightarrow>
    exec_run cues ex0 (exec_perform cues p ex)"

section \<open>Invariants\<close>

text \<open>
  The dependencies of a cue: those its task has passed have succeeded, and so have all of them once it
  goes on to wait for its time; a cue that has not ended has no outcome.
\<close>

definition deps_inv :: "timeline \<Rightarrow> executor \<Rightarrow> bool" where
  "deps_inv cues ex \<longleftrightarrow>
     (\<forall>c \<in> set cues. \<forall>st. ex_tasks ex (cue_id c) = Some st \<longrightarrow>
        (st \<notin> {Finished, Raised} \<longrightarrow> ex_outcomes ex (cue_id c) = None) \<and>
        (\<forall>ds. st = Deps ds \<longrightarrow>
           (\<exists>pre. cue_depends_on c = pre @ ds \<and> (\<forall>d \<in> set pre. ex_outcomes ex d = Some SUCCESS))) \<and>
        ((\<forall>ds. st \<noteq> Deps ds) \<and> st \<notin> {Finished, Raised} \<longrightarrow>
           (\<forall>d \<in> set (cue_depends_on c). ex_outcomes ex d = Some SUCCESS))) \<and>
     dom (ex_tasks ex) = set (map cue_id cues)"

lemma deps_invD:
  assumes "deps_inv cues ex" and "c \<in> set cues" and "ex_tasks ex (cue_id c) = Some st"
  shows "st \<notin> {Finished, Raised} \<Longrightarrow> ex_outcomes ex (cue_id c) = None"
    and "st = Deps ds \<Longrightarrow>
      \<exists>pre. cue_depends_on c = pre @ ds \<and> (\<forall>d \<in> set pre. ex_outcomes ex d = Some SUCCESS)"
    and "\<forall>ds. st \<noteq> Deps ds \<Longrightarrow> st \<notin> {Finished, Raised} \<Longrightarrow> d \<in> set (cue_depends_on c) \<Longrightarrow>
      ex_outcomes ex d = Some SUCCESS"
  using assms unfolding deps_inv_def by blast+

lemma executor_parts [simp]:
  "ex_tasks (set_task cid st ex) = (ex_tasks ex)(cid \<mapsto> st)"
  "ex_outcomes (set_task cid st ex) = ex_outcomes ex"
  "ex_pending (set_task cid st ex) = ex_pending ex"
  "ex_calls (set_task cid st ex) = ex_calls ex"
  "ex_remote (set_task cid st ex) = ex_remote ex"
  "ex_streams (set_task cid st ex) = ex_streams ex"
  "ex_listening (set_task cid st ex) = ex_listening ex"
  "ex_start (set_task cid st ex) = ex_start ex"
  "ex_lost (set_task cid st ex) = ex_lost ex"
  "ex_tasks (finish_cue cid out ex) = ex_tasks ex"
  "ex_outcomes (finish_cue cid out ex) = (ex_outcomes ex)(cid \<mapsto> out)"
  "ex_pending (finish_cue cid out ex) = ex_pending ex"
  "ex_calls (finish_cue cid out ex) = ex_calls ex"
  "ex_remote (finish_cue cid out ex) = ex_remote ex"
  "ex_streams (finish_cue cid out ex) = ex_streams ex"
  "ex_listening (finish_cue cid out ex) = ex_listening ex"
  "ex_start (finish_cue cid out ex) = ex_start ex"
  "ex_lost (finish_cue cid out ex) = ex_lost ex"
  by (simp_all add: set_task_def finish_cue_def)

text \<open>
  How the tasks move: a step leaves a task as it is or moves it on; \<open>task_moves\<close> is what may happen to
  the task of one cue and to the outcomes in a step, whatever the rest.
\<close>

definition task_moves :: "timeline \<Rightarrow> executor \<Rightarrow> executor \<Rightarrow> bool" where
  "task_moves cues ex ex' \<longleftrightarrow>
     (ex_tasks ex' = ex_tasks ex \<and> ex_outcomes ex' = ex_outcomes ex) \<or>
     (\<exists>cid st st'. ex_tasks ex cid = Some st \<and> ex_tasks ex' = (ex_tasks ex)(cid \<mapsto> st') \<and>
        st \<notin> {Finished, Raised} \<and>
        ((st' \<in> {Finished, Raised} \<and> (\<exists>out. ex_outcomes ex' = (ex_outcomes ex)(cid \<mapsto> out))) \<or>
         (ex_outcomes ex' = ex_outcomes ex \<and>
           (st' = Raised \<or>
            (\<exists>d ds. st = Deps (d # ds) \<and> st' = Deps ds \<and> ex_outcomes ex d = Some SUCCESS) \<or>
            ((st = Deps [] \<or> (\<forall>ds. st \<noteq> Deps ds)) \<and> (\<forall>ds. st' \<noteq> Deps ds) \<and> st' \<noteq> Finished)))))"

lemma task_moves_same:
  "ex_tasks ex' = ex_tasks ex \<Longrightarrow> ex_outcomes ex' = ex_outcomes ex \<Longrightarrow> task_moves cues ex ex'"
  by (simp add: task_moves_def)

lemma task_moves_end:
  "ex_tasks ex cid = Some st \<Longrightarrow> st \<notin> {Finished, Raised} \<Longrightarrow> st' \<in> {Finished, Raised} \<Longrightarrow>
   task_moves cues ex (set_task cid st' (finish_cue cid out ex))"
  unfolding task_moves_def
  by (rule disjI2, rule exI [of _ cid], rule exI [of _ st], rule exI [of _ st']) auto

lemma task_moves_on:
  "ex_tasks ex cid = Some st \<Longrightarrow> st \<notin> {Finished, Raised} \<Longrightarrow>
   ex_tasks ex1 = ex_tasks ex \<Longrightarrow> ex_outcomes ex1 = ex_outcomes ex \<Longrightarrow>
   st' = Raised \<or> (\<exists>d ds. st = Deps (d # ds) \<and> st' = Deps ds \<and> ex_outcomes ex d = Some SUCCESS) \<or>
   (st = Deps [] \<or> (\<forall>ds. st \<noteq> Deps ds)) \<and> (\<forall>ds. st' \<noteq> Deps ds) \<and> st' \<noteq> Finished \<Longrightarrow>
   task_moves cues ex (set_task cid st' ex1)"
  unfolding task_moves_def
  by (rule disjI2, rule exI [of _ cid], rule exI [of _ st], rule exI [of _ st']) auto

text \<open>A segment that depends on what one task waits for.\<close>

lemma by_task:
  assumes "ex_tasks ex cid = None \<Longrightarrow> P" and "\<And>st. ex_tasks ex cid = Some st \<Longrightarrow> P"
  shows P
  using assms by (cases "ex_tasks ex cid") auto

lemma exec_task_moves:
  assumes "exec_possible cues p ex"
  shows "task_moves cues ex (exec_perform cues p ex)"
proof (cases p)
  case (Ex_dep cid)
  show ?thesis
  proof (cases rule: by_task [of ex cid])
    case (2 st)
    have "task_moves cues ex (set_task cid Raised ex)" "task_moves cues ex (set_task cid Finished (finish_cue cid out ex))"
      if "st \<notin> {Finished, Raised}" for out
      using task_moves_on [OF 2 that refl refl, of Raised] task_moves_end [OF 2 that, of Finished] by simp_all
    moreover have "task_moves cues ex (set_task cid Timing ex)" if "st = Deps []"
      using that by (intro task_moves_on [OF 2]) simp_all
    moreover have "task_moves cues ex (set_task cid (Deps ds) ex)"
      if "st = Deps (d # ds)" "ex_outcomes ex d = Some SUCCESS" for d ds
      using that by (intro task_moves_on [OF 2]) simp_all
    ultimately show ?thesis
      using 2 task_moves_same [of ex ex] unfolding Ex_dep exec_perform.simps dep_turn_def
      by (simp split: cue_task.split list.split option.split)
  qed (simp add: Ex_dep dep_turn_def task_moves_same)
next
  case (Ex_time c now now' held)
  show ?thesis
  proof (cases "ex_tasks ex (cue_id c) = Some Timing")
    case True
    note task_moves_end [OF this, of _ cues] task_moves_on [OF this, of _ Submitting cues]
    with Ex_time show ?thesis
      by (simp add: time_turn_def Let_def task_moves_same split: late_mode.split)
  qed (simp add: Ex_time time_turn_def task_moves_same)
next
  case (Ex_remote_submit c answer)
  with assms have "ex_tasks ex (cue_id c) = Some Submitting" by simp
  note task_moves_on [OF this, of _ "Answered answer" cues]
  then show ?thesis
    by (simp add: Ex_remote_submit remote_submit_def Let_def split: submit_answer.split)
next
  case (Ex_submit_response cid)
  show ?thesis
  proof (cases rule: by_task [of ex cid])
    case (2 st)
    note task_moves_end [OF 2, of _ cues] task_moves_on [OF 2, of _ _ cues]
    with 2 show ?thesis
      by (simp add: Ex_submit_response submit_response_def task_moves_same split: cue_task.split submit_answer.split)
  qed (simp add: Ex_submit_response submit_response_def task_moves_same)
next
  case (Ex_remote_check cid answered)
  show ?thesis
  proof (cases rule: by_task [of ex cid])
    case (2 st)
    note task_moves_on [OF 2, of ex _ cues]
    with 2 show ?thesis
      by (simp add: Ex_remote_check remote_check_def task_moves_same split: cue_task.split)
  qed (simp add: Ex_remote_check remote_check_def task_moves_same)
next
  case (Ex_check_response cid)
  show ?thesis
  proof (cases rule: by_task [of ex cid])
    case (2 st)
    note task_moves_on [OF 2, of _ _ cues]
    with 2 show ?thesis
      by (simp add: Ex_check_response check_response_def task_moves_same split: cue_task.split)
  qed (simp add: Ex_check_response check_response_def task_moves_same)
next
  case (Ex_wake cid)
  show ?thesis
  proof (cases rule: by_task [of ex cid])
    case (2 st)
    note task_moves_end [OF 2, of _ cues]
    with 2 show ?thesis
      by (simp add: Ex_wake wake_def task_moves_same split: cue_task.split option.split)
  qed (simp add: Ex_wake wake_def task_moves_same)
next
  case (Ex_listen client)
  then show ?thesis
    by (simp add: listen_def resolve_def task_moves_same split: list.split)
qed (simp_all add: resync_def drop_listener_def miss_def complete_def end_run_def task_moves_same)

lemma cue_of_task:
  assumes "deps_inv cues ex" and "ex_tasks ex cid = Some st"
  obtains c where "c \<in> set cues" and "cue_id c = cid"
  using assms unfolding deps_inv_def by auto (metis (no_types, lifting) domI imageE)

text \<open>Outcomes are final.\<close>

lemma moves_keep_outcomes:
  assumes inv: "deps_inv cues ex" and mv: "task_moves cues ex ex'" and d: "ex_outcomes ex d = Some out"
  shows "ex_outcomes ex' d = Some out"
proof (cases "ex_outcomes ex' = ex_outcomes ex")
  case False
  with mv obtain cid st out' where st: "ex_tasks ex cid = Some st" "st \<notin> {Finished, Raised}"
    and out': "ex_outcomes ex' = (ex_outcomes ex)(cid \<mapsto> out')"
    unfolding task_moves_def by auto
  obtain c where "c \<in> set cues" "cue_id c = cid"
    using inv st(1) by (rule cue_of_task)
  with deps_invD(1) [OF inv, of c st] st have "ex_outcomes ex cid = None" by simp
  with out' d show ?thesis by auto
qed (use d in simp)

lemma task_moves_cases:
  assumes "task_moves cues ex ex'"
  obtains (same) "ex_tasks ex' = ex_tasks ex" "ex_outcomes ex' = ex_outcomes ex"
    | (moved) cid st st' where "ex_tasks ex cid = Some st" "ex_tasks ex' = (ex_tasks ex)(cid \<mapsto> st')"
        "st \<notin> {Finished, Raised}"
        "(\<forall>d. d \<noteq> cid \<longrightarrow> ex_outcomes ex' d = ex_outcomes ex d)"
        "st' \<in> {Finished, Raised} \<or>
         ex_outcomes ex' = ex_outcomes ex \<and>
           ((\<exists>d ds. st = Deps (d # ds) \<and> st' = Deps ds \<and> ex_outcomes ex d = Some SUCCESS) \<or>
            ((st = Deps [] \<or> (\<forall>ds. st \<noteq> Deps ds)) \<and> (\<forall>ds. st' \<noteq> Deps ds)))"
  using assms unfolding task_moves_def
proof (elim disjE exE conjE, goal_cases)
  case 1
  then show ?case by blast
next
  case (2 cid st st' out)
  then show ?case by (intro 2(2) [of cid st st']) simp_all
next
  case (3 cid st st')
  then show ?case by (intro 3(2) [of cid st st']) simp_all
next
  case (4 cid st st' d ds)
  then show ?case by (intro 4(2) [of cid st st']) simp_all
next
  case (5 cid st st')
  then show ?case by (intro 5(2) [of cid st st']) simp_all
next
  case (6 cid st st')
  then show ?case by (intro 6(2) [of cid st st']) simp_all
qed

lemma moves_deps_inv:
  assumes inv: "deps_inv cues ex" and mv: "task_moves cues ex ex'" and uniq: "distinct (map cue_id cues)"
  shows "deps_inv cues ex'"
proof -
  note keep = moves_keep_outcomes [OF inv mv]
  consider (same) "ex_tasks ex' = ex_tasks ex" "ex_outcomes ex' = ex_outcomes ex"
    | (moved) cid st st' where "ex_tasks ex cid = Some st" "ex_tasks ex' = (ex_tasks ex)(cid \<mapsto> st')"
        "st \<notin> {Finished, Raised}"
        "(\<forall>d. d \<noteq> cid \<longrightarrow> ex_outcomes ex' d = ex_outcomes ex d)"
        "st' \<in> {Finished, Raised} \<or>
         ex_outcomes ex' = ex_outcomes ex \<and>
           ((\<exists>d ds. st = Deps (d # ds) \<and> st' = Deps ds \<and> ex_outcomes ex d = Some SUCCESS) \<or>
            ((st = Deps [] \<or> (\<forall>ds. st \<noteq> Deps ds)) \<and> (\<forall>ds. st' \<noteq> Deps ds)))"
    using mv by (rule task_moves_cases)
  then show ?thesis
  proof cases
    case same
    with inv show ?thesis by (simp add: deps_inv_def)
  next
    case (moved cid st st')
    have dom: "dom (ex_tasks ex') = set (map cue_id cues)"
      using inv moved(1,2) unfolding deps_inv_def by auto
    have "(st1 \<notin> {Finished, Raised} \<longrightarrow> ex_outcomes ex' (cue_id c) = None) \<and>
        (\<forall>ds. st1 = Deps ds \<longrightarrow>
           (\<exists>pre. cue_depends_on c = pre @ ds \<and> (\<forall>d \<in> set pre. ex_outcomes ex' d = Some SUCCESS))) \<and>
        ((\<forall>ds. st1 \<noteq> Deps ds) \<and> st1 \<notin> {Finished, Raised} \<longrightarrow>
           (\<forall>d \<in> set (cue_depends_on c). ex_outcomes ex' d = Some SUCCESS))"
      if c: "c \<in> set cues" and st1: "ex_tasks ex' (cue_id c) = Some st1" for c st1
    proof (cases "cue_id c = cid")
      case False
      then have t: "ex_tasks ex (cue_id c) = Some st1" using st1 moved(2) by simp
      show ?thesis
      proof (intro conjI impI allI ballI)
        assume "st1 \<notin> {Finished, Raised}"
        then show "ex_outcomes ex' (cue_id c) = None"
          using deps_invD(1) [OF inv c t] moved(4) False by simp
      next
        fix ds assume "st1 = Deps ds"
        with deps_invD(2) [OF inv c t] show "\<exists>pre. cue_depends_on c = pre @ ds \<and>
            (\<forall>d \<in> set pre. ex_outcomes ex' d = Some SUCCESS)"
          using keep by blast
      next
        fix d assume "(\<forall>ds. st1 \<noteq> Deps ds) \<and> st1 \<notin> {Finished, Raised}" "d \<in> set (cue_depends_on c)"
        then show "ex_outcomes ex' d = Some SUCCESS"
          using deps_invD(3) [OF inv c t] keep by blast
      qed
    next
      case True
      then have t: "ex_tasks ex (cue_id c) = Some st" and st1: "st1 = st'"
        using st1 moved(1,2) by simp_all
      show ?thesis
      proof (cases "st' \<in> {Finished, Raised}")
        case False
        with moved(5) have out: "ex_outcomes ex' = ex_outcomes ex"
          and mv': "(\<exists>d ds. st = Deps (d # ds) \<and> st' = Deps ds \<and> ex_outcomes ex d = Some SUCCESS) \<or>
            ((st = Deps [] \<or> (\<forall>ds. st \<noteq> Deps ds)) \<and> (\<forall>ds. st' \<noteq> Deps ds))" by auto
        have none: "ex_outcomes ex (cue_id c) = None"
          using deps_invD(1) [OF inv c t moved(3)] .
        from mv' show ?thesis
        proof
          assume "\<exists>d ds. st = Deps (d # ds) \<and> st' = Deps ds \<and> ex_outcomes ex d = Some SUCCESS"
          then obtain d ds where d: "st = Deps (d # ds)" "st' = Deps ds" "ex_outcomes ex d = Some SUCCESS" by blast
          from deps_invD(2) [OF inv c t d(1)] obtain pre where
            "cue_depends_on c = pre @ d # ds" "\<forall>d \<in> set pre. ex_outcomes ex d = Some SUCCESS" by blast
          with d none show ?thesis
            by (auto simp: st1 out intro!: exI [of _ "pre @ [d]"])
        next
          assume later: "(st = Deps [] \<or> (\<forall>ds. st \<noteq> Deps ds)) \<and> (\<forall>ds. st' \<noteq> Deps ds)"
          have "ex_outcomes ex d = Some SUCCESS" if "d \<in> set (cue_depends_on c)" for d
            using later deps_invD(2) [OF inv c t, of "[]"] deps_invD(3) [OF inv c t _ moved(3)] that by auto
          with later none show ?thesis by (auto simp: st1 out)
        qed
      qed (auto simp: st1)
    qed
    with dom show ?thesis unfolding deps_inv_def by blast
  qed
qed

lemma deps_inv_new:
  assumes "distinct (map cue_id cues)"
  shows "deps_inv cues (new_executor cues clients start)"
proof -
  have "map_of (map (\<lambda>c. (cue_id c, Deps (cue_depends_on c))) cues) (cue_id c) = Some (Deps (cue_depends_on c))"
    if "c \<in> set cues" for c
    using assms that by (intro map_of_is_SomeI) (auto simp: comp_def)
  then show ?thesis
    by (auto simp: deps_inv_def new_executor_def dom_map_of_conv_image_fst image_image)
qed

lemma exec_run_deps_inv:
  assumes "exec_run cues ex0 ex" and "deps_inv cues ex0" and "distinct (map cue_id cues)"
  shows "deps_inv cues ex"
  using assms by (induction rule: exec_run.induct) (auto intro: moves_deps_inv exec_task_moves)

lemma exec_run_keeps_outcome:
  assumes "exec_run cues ex0 ex" and "deps_inv cues ex0" and "distinct (map cue_id cues)"
    and "ex_outcomes ex0 d = Some out"
  shows "ex_outcomes ex d = Some out"
  using assms
  by (induction rule: exec_run.induct) (auto intro: moves_keep_outcomes exec_task_moves exec_run_deps_inv)

end
