(* ===== verification/Executor_Runs.thy ===== *)
theory Executor_Runs
  imports Timeline_Executor
begin

text \<open>
  What the runs of the timeline executor guarantee: when cues are submitted, what their outcomes mean, that
  the dependencies cannot block each other, that a completion is not missed while the listener of its
  Runtime is alive, and that it is when the listener has ended.
\<close>

lemmas segment_defs = dep_turn_def time_turn_def submit_response_def check_response_def wake_def
  resolve_def listen_def resync_def drop_listener_def miss_def complete_def remote_submit_def remote_check_def end_run_def Let_def

lemmas segment_splits = cue_task.splits submit_answer.splits list.splits option.splits late_mode.splits
  prod.splits if_splits

section \<open>When cues are submitted\<close>

lemma exec_start [simp]: "ex_start (exec_perform cues p ex) = ex_start ex"
  by (cases p) (simp_all add: segment_defs split: segment_splits)

lemma exec_run_start: "exec_run cues ex0 ex \<Longrightarrow> ex_start ex = ex_start ex0"
  by (induction rule: exec_run.induct) simp_all

text \<open>A task that has passed the wait for its time does not wait for it again.\<close>

definition past_timing :: "cue_task option \<Rightarrow> bool" where
  "past_timing st \<longleftrightarrow> (\<forall>ds. st \<noteq> Some (Deps ds)) \<and> st \<noteq> Some Timing \<and> st \<noteq> None"

lemma past_timing_simps [simp]:
  "\<not> past_timing None" "\<not> past_timing (Some (Deps ds))" "\<not> past_timing (Some Timing)"
  "past_timing (Some Submitting)" "past_timing (Some (Answered a))" "past_timing (Some (Checking c))"
  "past_timing (Some (Checked c s))" "past_timing (Some (Awaiting c))" "past_timing (Some Finished)"
  "past_timing (Some Raised)"
  by (simp_all add: past_timing_def)

lemma past_timing_stays:
  "past_timing (ex_tasks ex cid) \<Longrightarrow> past_timing (ex_tasks (exec_perform cues p ex) cid)"
  by (cases p) (auto simp: segment_defs split: segment_splits)

lemma exec_calls:
  assumes "exec_possible cues p ex"
  shows "ex_calls (exec_perform cues p ex) = ex_calls ex \<or>
    (\<exists>c now. c \<in> set cues \<and> ex_tasks ex (cue_id c) = Some Timing \<and> cue_deadline c ex \<le> now \<and>
       (now - cue_deadline c ex) * 1000 \<le> of_int (lp_max_lateness_ms (cue_late_policy c)) \<and>
       ex_calls (exec_perform cues p ex) = ex_calls ex @ [(cue_id c, now)] \<and>
       ex_tasks (exec_perform cues p ex) (cue_id c) = Some Submitting)"
proof (cases p)
  case (Ex_time c now now' held)
  with assms show ?thesis
    by (cases "lp_mode (cue_late_policy c)") (auto simp: time_turn_def Let_def intro!: exI [of _ c])
qed (simp_all add: segment_defs split: segment_splits)

definition calls_inv :: "timeline \<Rightarrow> executor \<Rightarrow> bool" where
  "calls_inv cues ex \<longleftrightarrow>
     distinct (map fst (ex_calls ex)) \<and>
     (\<forall>(cid, t) \<in> set (ex_calls ex). past_timing (ex_tasks ex cid) \<and>
        (\<exists>c \<in> set cues. cue_id c = cid \<and> (\<forall>d \<in> set (cue_depends_on c). ex_outcomes ex d = Some SUCCESS) \<and>
           cue_deadline c ex \<le> t \<and>
           (t - cue_deadline c ex) * 1000 \<le> of_int (lp_max_lateness_ms (cue_late_policy c))))"

lemma calls_inv_step:
  assumes inv: "calls_inv cues ex" and deps: "deps_inv cues ex" and p: "exec_possible cues p ex"
  shows "calls_inv cues (exec_perform cues p ex)"
proof -
  let ?ex = "exec_perform cues p ex"
  note keep = moves_keep_outcomes [OF deps exec_task_moves [OF p]]
  have old: "past_timing (ex_tasks ?ex cid) \<and>
      (\<exists>c \<in> set cues. cue_id c = cid \<and> (\<forall>d \<in> set (cue_depends_on c). ex_outcomes ?ex d = Some SUCCESS) \<and>
         cue_deadline c ?ex \<le> t \<and>
         (t - cue_deadline c ?ex) * 1000 \<le> of_int (lp_max_lateness_ms (cue_late_policy c)))"
    if "(cid, t) \<in> set (ex_calls ex)" for cid t
    using inv that past_timing_stays [of ex cid cues p] keep
    unfolding calls_inv_def cue_deadline_def by fastforce
  from exec_calls [OF p] show ?thesis
  proof (elim disjE exE conjE)
    assume "ex_calls ?ex = ex_calls ex"
    with old inv show ?thesis unfolding calls_inv_def by auto
  next
    fix c now
    assume c: "c \<in> set cues" "ex_tasks ex (cue_id c) = Some Timing" "cue_deadline c ex \<le> now"
      "(now - cue_deadline c ex) * 1000 \<le> of_int (lp_max_lateness_ms (cue_late_policy c))"
      and calls: "ex_calls ?ex = ex_calls ex @ [(cue_id c, now)]"
      and st: "ex_tasks ?ex (cue_id c) = Some Submitting"
    have "ex_outcomes ?ex d = Some SUCCESS" if "d \<in> set (cue_depends_on c)" for d
      using deps_invD(3) [OF deps c(1,2) _ _ that] keep by simp
    moreover have "cue_id c \<notin> fst ` set (ex_calls ex)"
      using inv c(2) unfolding calls_inv_def by fastforce
    moreover have "cue_deadline c ?ex = cue_deadline c ex" by (simp add: cue_deadline_def)
    ultimately show ?thesis
      using old inv c st unfolding calls_inv_def calls by auto
  qed
qed

lemma exec_run_calls:
  assumes "exec_run cues (new_executor cues clients start) ex" and "distinct (map cue_id cues)"
  shows "calls_inv cues ex"
  using assms
proof (induction rule: exec_run.induct)
  case exec_refl
  then show ?case by (simp add: calls_inv_def new_executor_def)
next
  case (exec_step ex p)
  then show ?case
    using exec_run_deps_inv [OF exec_step.hyps(1) deps_inv_new] calls_inv_step by blast
qed

section \<open>What outcomes mean\<close>

text \<open>A Runtime's commands are never forgotten, keep their cue, and end once.\<close>

definition remote_grows :: "executor \<Rightarrow> executor \<Rightarrow> bool" where
  "remote_grows ex ex' \<longleftrightarrow>
     (\<forall>cmd cid. ex_remote ex cmd = Some (cid, None) \<longrightarrow> (\<exists>out. ex_remote ex' cmd = Some (cid, out))) \<and>
     (\<forall>cmd cid out. ex_remote ex cmd = Some (cid, Some out) \<longrightarrow> ex_remote ex' cmd = Some (cid, Some out)) \<and>
     dom (ex_pending ex) \<subseteq> dom (ex_pending ex')"

lemma remote_grows_step:
  assumes "exec_possible cues p ex"
  shows "remote_grows ex (exec_perform cues p ex)"
proof (cases p)
  case (Ex_remote_submit c answer)
  with assms show ?thesis
    by (cases answer) (auto simp: remote_grows_def segment_defs)
next
  case (Ex_complete c cmd out)
  with assms show ?thesis by (auto simp: remote_grows_def segment_defs)
next
  case (Ex_miss client)
  then show ?thesis by (auto simp: remote_grows_def segment_defs)
next
  case (Ex_listen client)
  then show ?thesis by (auto simp: remote_grows_def segment_defs split: list.split)
next
  case (Ex_time c now now' held)
  then show ?thesis by (auto simp: remote_grows_def segment_defs split: late_mode.split)
qed (auto simp: remote_grows_def segment_defs split: cue_task.split submit_answer.split option.split list.split)

fun task_true :: "executor \<Rightarrow> string \<Rightarrow> cue_task \<Rightarrow> bool" where
  "task_true ex cid (Answered (Submit_open cmd)) \<longleftrightarrow> (\<exists>out. ex_remote ex cmd = Some (cid, out))"
| "task_true ex cid (Answered (Submit_terminal cmd out)) \<longleftrightarrow> ex_remote ex cmd = Some (cid, Some out)"
| "task_true ex cid (Checking cmd) \<longleftrightarrow> (\<exists>out. ex_remote ex cmd = Some (cid, out)) \<and> ex_pending ex cmd \<noteq> None"
| "task_true ex cid (Checked cmd status) \<longleftrightarrow>
     (\<exists>out. ex_remote ex cmd = Some (cid, out) \<and> (status \<noteq> None \<longrightarrow> out = status)) \<and> ex_pending ex cmd \<noteq> None"
| "task_true ex cid (Awaiting cmd) \<longleftrightarrow> (\<exists>out. ex_remote ex cmd = Some (cid, out)) \<and> ex_pending ex cmd \<noteq> None"
| "task_true ex cid _ \<longleftrightarrow> True"

lemma remote_grows_get:
  assumes "remote_grows ex ex'" and "ex_remote ex cmd = Some (cid, out)"
  shows "\<exists>out'. ex_remote ex' cmd = Some (cid, out') \<and> (out \<noteq> None \<longrightarrow> out' = out)"
  using assms unfolding remote_grows_def by (cases out) auto

lemma task_true_grows:
  assumes "remote_grows ex ex'" and "task_true ex cid st"
  shows "task_true ex' cid st"
proof -
  note get = remote_grows_get [OF assms(1)]
  have pend: "ex_pending ex cmd \<noteq> None \<Longrightarrow> ex_pending ex' cmd \<noteq> None" for cmd
    using assms(1) unfolding remote_grows_def by auto
  show ?thesis
  proof (cases st)
    case (Answered a)
    with assms(2) get show ?thesis by (cases a) fastforce+
  next
    case (Checked cmd status)
    with assms(2) get pend show ?thesis by (simp, metis)
  qed (use assms(2) get pend in \<open>simp; metis\<close>)+
qed

definition truth_inv :: "executor \<Rightarrow> bool" where
  "truth_inv ex \<longleftrightarrow>
     (\<forall>cid st. ex_tasks ex cid = Some st \<longrightarrow> task_true ex cid st) \<and>
     (\<forall>cmd out. ex_pending ex cmd = Some (Some out) \<longrightarrow>
        out = ''UNKNOWN'' \<or> (\<exists>cid. ex_remote ex cmd = Some (cid, Some out))) \<and>
     (\<forall>client cmd out. (cmd, out) \<in> set (ex_streams ex client) \<longrightarrow>
        (\<exists>cid. ex_remote ex cmd = Some (cid, Some out))) \<and>
     (\<forall>cid. ex_outcomes ex cid = Some SUCCESS \<longrightarrow> (\<exists>cmd. ex_remote ex cmd = Some (cid, Some SUCCESS)))"

lemma SUCCESS_other [simp]: "SUCCESS \<noteq> ''UNKNOWN''" "SUCCESS \<noteq> ''SKIPPED''" "SUCCESS \<noteq> ''FAILED''"
  "''UNKNOWN'' \<noteq> SUCCESS" "''SKIPPED'' \<noteq> SUCCESS" "''FAILED'' \<noteq> SUCCESS"
  by (simp_all add: SUCCESS_def)

lemma truth_invD:
  assumes "truth_inv ex"
  shows "ex_tasks ex cid = Some st \<Longrightarrow> task_true ex cid st"
    and "ex_pending ex cmd = Some (Some out) \<Longrightarrow> out = ''UNKNOWN'' \<or> (\<exists>cid. ex_remote ex cmd = Some (cid, Some out))"
    and "(cmd, out) \<in> set (ex_streams ex client) \<Longrightarrow> \<exists>cid. ex_remote ex cmd = Some (cid, Some out)"
    and "ex_outcomes ex cid = Some SUCCESS \<Longrightarrow> \<exists>cmd. ex_remote ex cmd = Some (cid, Some SUCCESS)"
  using assms unfolding truth_inv_def by blast+

text \<open>
  It suffices to look at what a step changes: the task of one cue, new resolved futures, new events and
  new successes.
\<close>

lemma truth_inv_by_changes:
  assumes inv: "truth_inv ex" and grows: "remote_grows ex ex'"
    and task: "\<And>cid st. ex_tasks ex' cid = Some st \<Longrightarrow> ex_tasks ex cid \<noteq> Some st \<Longrightarrow> task_true ex' cid st"
    and pend: "\<And>cmd out. ex_pending ex' cmd = Some (Some out) \<Longrightarrow> ex_pending ex cmd \<noteq> Some (Some out) \<Longrightarrow>
      out = ''UNKNOWN'' \<or> (\<exists>cid. ex_remote ex' cmd = Some (cid, Some out))"
    and stream: "\<And>client cmd out. (cmd, out) \<in> set (ex_streams ex' client) \<Longrightarrow>
      (cmd, out) \<notin> set (ex_streams ex client) \<Longrightarrow> \<exists>cid. ex_remote ex' cmd = Some (cid, Some out)"
    and succ: "\<And>cid. ex_outcomes ex' cid = Some SUCCESS \<Longrightarrow> ex_outcomes ex cid \<noteq> Some SUCCESS \<Longrightarrow>
      \<exists>cmd. ex_remote ex' cmd = Some (cid, Some SUCCESS)"
  shows "truth_inv ex'"
proof -
  have get: "ex_remote ex cmd = Some (cid, Some out) \<Longrightarrow> ex_remote ex' cmd = Some (cid, Some out)" for cmd cid out
    using grows unfolding remote_grows_def by blast
  show ?thesis
    unfolding truth_inv_def
  proof (intro conjI allI impI)
    fix cid st assume "ex_tasks ex' cid = Some st"
    then show "task_true ex' cid st"
      using task truth_invD(1) [OF inv] task_true_grows [OF grows] by blast
  next
    fix cmd out assume "ex_pending ex' cmd = Some (Some out)"
    then show "out = ''UNKNOWN'' \<or> (\<exists>cid. ex_remote ex' cmd = Some (cid, Some out))"
      using pend truth_invD(2) [OF inv] get by blast
  next
    fix client cmd out assume "(cmd, out) \<in> set (ex_streams ex' client)"
    then show "\<exists>cid. ex_remote ex' cmd = Some (cid, Some out)"
      using stream truth_invD(3) [OF inv] get by blast
  next
    fix cid assume "ex_outcomes ex' cid = Some SUCCESS"
    then show "\<exists>cmd. ex_remote ex' cmd = Some (cid, Some SUCCESS)"
      using succ truth_invD(4) [OF inv] get by blast
  qed
qed

lemma truth_inv_step:
  assumes inv: "truth_inv ex" and p: "exec_possible cues p ex"
  shows "truth_inv (exec_perform cues p ex)"
proof (rule truth_inv_by_changes [OF inv remote_grows_step [OF p]])
  let ?ex = "exec_perform cues p ex"
  note true = truth_invD [OF inv]
  show "task_true ?ex cid st" if "ex_tasks ?ex cid = Some st" "ex_tasks ex cid \<noteq> Some st" for cid st
  proof (cases p)
    case (Ex_remote_submit c answer)
    with that p show ?thesis
      by (cases answer) (auto simp: segment_defs split: if_splits)
  next
    case (Ex_submit_response cid')
    with that true(1) [of cid'] show ?thesis
      by (auto simp: segment_defs split: segment_splits)
  next
    case (Ex_remote_check cid' answered)
    with that true(1) [of cid'] show ?thesis
      by (auto simp: segment_defs split: segment_splits)
  next
    case (Ex_check_response cid')
    with that true(1) [of cid'] show ?thesis
      by (auto simp: segment_defs split: segment_splits)
  next
    case (Ex_time c now now' held)
    with that show ?thesis by (auto simp: segment_defs split: segment_splits)
  next
    case (Ex_dep cid')
    with that show ?thesis by (auto simp: segment_defs split: segment_splits)
  next
    case (Ex_wake cid')
    with that show ?thesis by (auto simp: segment_defs split: segment_splits)
  qed (use that in \<open>auto simp: segment_defs split: segment_splits\<close>)
  show "out = ''UNKNOWN'' \<or> (\<exists>cid. ex_remote ?ex cmd = Some (cid, Some out))"
    if "ex_pending ?ex cmd = Some (Some out)" "ex_pending ex cmd \<noteq> Some (Some out)" for cmd out
  proof (cases p)
    case (Ex_check_response cid')
    with that true(1) [of cid'] show ?thesis
      by (auto simp: segment_defs split: segment_splits)
  next
    case (Ex_listen client)
    with that true(3) [of cmd out client] show ?thesis
      by (auto simp: segment_defs split: segment_splits)
  next
    case (Ex_remote_submit c answer)
    with that show ?thesis by (cases answer) (auto simp: segment_defs)
  next
    case (Ex_time c now now' held)
    with that show ?thesis by (auto simp: segment_defs split: segment_splits)
  qed (use that in \<open>auto simp: segment_defs split: segment_splits\<close>)
  show "\<exists>cid. ex_remote ?ex cmd = Some (cid, Some out)"
    if "(cmd, out) \<in> set (ex_streams ?ex client)" "(cmd, out) \<notin> set (ex_streams ex client)" for client cmd out
  proof (cases p)
    case (Ex_remote_submit c answer)
    with that show ?thesis by (cases answer) (auto simp: segment_defs split: if_splits)
  next
    case (Ex_complete c cmd' out')
    with that p show ?thesis by (auto simp: segment_defs split: if_splits)
  next
    case (Ex_miss client')
    with that show ?thesis by (auto simp: segment_defs dest: in_set_dropD split: if_splits)
  next
    case (Ex_time c now now' held)
    with that show ?thesis by (auto simp: segment_defs split: segment_splits)
  qed (use that in \<open>auto simp: segment_defs split: segment_splits\<close>)
  show "\<exists>cmd. ex_remote ?ex cmd = Some (cid, Some SUCCESS)"
    if "ex_outcomes ?ex cid = Some SUCCESS" "ex_outcomes ex cid \<noteq> Some SUCCESS" for cid
  proof (cases p)
    case (Ex_submit_response cid')
    with that true(1) [of cid'] show ?thesis
      by (auto simp: segment_defs split: segment_splits)
  next
    case (Ex_wake cid')
    with that obtain cmd where "cid' = cid" "ex_tasks ex cid = Some (Awaiting cmd)"
      and pend: "ex_pending ex cmd = Some (Some SUCCESS)"
      by (auto simp: segment_defs split: segment_splits)
    with true(1) have "\<exists>out. ex_remote ex cmd = Some (cid, out)" by fastforce
    with true(2) [OF pend] have "ex_remote ex cmd = Some (cid, Some SUCCESS)" by auto
    with Ex_wake show ?thesis
      by (auto simp: segment_defs split: cue_task.split option.split)
  next
    case (Ex_remote_submit c answer)
    with that show ?thesis by (cases answer) (auto simp: segment_defs)
  next
    case (Ex_time c now now' held)
    with that show ?thesis by (auto simp: segment_defs split: segment_splits)
  qed (use that in \<open>auto simp: segment_defs split: segment_splits\<close>)
qed

lemma truth_inv_new: "truth_inv (new_executor cues clients start)"
proof -
  have "task_true ex cid st" if "st \<in> range Deps" for ex cid st using that by auto
  moreover have "st \<in> range Deps" if "ex_tasks (new_executor cues clients start) cid = Some st" for cid st
    using that by (auto simp: new_executor_def dest!: map_of_SomeD)
  ultimately show ?thesis by (auto simp: truth_inv_def new_executor_def)
qed

lemma exec_run_truth:
  assumes "exec_run cues (new_executor cues clients start) ex"
  shows "truth_inv ex"
  using assms by (induction rule: exec_run.induct) (auto intro: truth_inv_new truth_inv_step)

section \<open>Dependencies do not block each other\<close>

definition blocked :: "executor \<Rightarrow> cue_task \<Rightarrow> bool" where
  "blocked ex st \<longleftrightarrow> (case st of Deps (dep # deps) \<Rightarrow> ex_outcomes ex dep = None | _ \<Rightarrow> False)"

lemma finished_step:
  assumes "task_moves cues ex ex'" and "deps_inv cues ex"
    and "\<forall>cid. ex_tasks ex cid = Some Finished \<longrightarrow> ex_outcomes ex cid \<noteq> None"
  shows "\<forall>cid. ex_tasks ex' cid = Some Finished \<longrightarrow> ex_outcomes ex' cid \<noteq> None"
proof -
  note keep = moves_keep_outcomes [OF assms(2,1)]
  show ?thesis
    using assms(1,3) keep unfolding task_moves_def
    by (elim disjE exE conjE) (fastforce split: if_splits)+
qed

lemma exec_run_finished:
  assumes "exec_run cues (new_executor cues clients start) ex" and "distinct (map cue_id cues)"
  shows "\<forall>cid. ex_tasks ex cid = Some Finished \<longrightarrow> ex_outcomes ex cid \<noteq> None"
  using assms
proof (induction rule: exec_run.induct)
  case exec_refl
  then show ?case by (auto simp: new_executor_def dest!: map_of_SomeD)
next
  case (exec_step ex p)
  then show ?case
    using exec_run_deps_inv [OF exec_step.hyps(1) deps_inv_new] finished_step exec_task_moves by blast
qed

lemma some_unblocked:
  assumes deps: "deps_inv cues ex" and valid: "validate_timeline cues = []"
    and fin: "\<forall>cid. ex_tasks ex cid = Some Finished \<longrightarrow> ex_outcomes ex cid \<noteq> None"
    and ok: "Raised \<notin> ran (ex_tasks ex)"
  shows "ex_tasks ex cid = Some st \<Longrightarrow> st \<noteq> Finished \<Longrightarrow>
    \<exists>cid' st'. ex_tasks ex cid' = Some st' \<and> st' \<noteq> Finished \<and> \<not> blocked ex st'"
proof (induction cid arbitrary: st rule: wf_induct_rule [OF validated_wf [OF valid]])
  case (1 cid)
  show ?case
  proof (cases "blocked ex st")
    case False
    with 1 show ?thesis by blast
  next
    case True
    then obtain dep ds where st: "st = Deps (dep # ds)" and none: "ex_outcomes ex dep = None"
      by (auto simp: blocked_def split: cue_task.splits list.splits)
    obtain c where c: "c \<in> set cues" "cue_id c = cid"
      using deps 1(2) by (rule cue_of_task)
    from deps_invD(2) [OF deps c(1), of st] 1(2) c st have dep: "dep \<in> set (cue_depends_on c)"
      by fastforce
    with c have "(dep, cid) \<in> cue_dependency cues" by (auto simp: cue_dependency_def)
    moreover have "dep \<in> set (map cue_id cues)"
      using valid dep c(1) unfolding validated_parts by blast
    then obtain st1 where "ex_tasks ex dep = Some st1"
      using deps unfolding deps_inv_def by (metis domD)
    moreover from this fin none have "st1 \<noteq> Finished" by blast
    ultimately show ?thesis by (rule 1(1))
  qed
qed

section \<open>Completions are heard\<close>

text \<open>
  Once a task has registered its future and its Runtime has been asked, a completion it does not know of
  is still on the stream, as long as the listener reads it.
\<close>

definition heard_inv :: "timeline \<Rightarrow> executor \<Rightarrow> bool" where
  "heard_inv cues ex \<longleftrightarrow>
     (\<forall>c cmd out. c \<in> set cues \<longrightarrow> ex_tasks ex (cue_id c) \<in> {Some (Checked cmd None), Some (Awaiting cmd)} \<longrightarrow>
        ex_pending ex cmd = Some None \<longrightarrow> ex_remote ex cmd = Some (cue_id c, Some out) \<longrightarrow>
        cue_runtime c \<in> ex_listening ex \<longrightarrow> cue_runtime c \<notin> ex_lost ex \<longrightarrow>
        (cmd, out) \<in> set (ex_streams ex (cue_runtime c)))"

lemma heard_invD:
  "heard_inv cues ex \<Longrightarrow> c \<in> set cues \<Longrightarrow>
   ex_tasks ex (cue_id c) \<in> {Some (Checked cmd None), Some (Awaiting cmd)} \<Longrightarrow>
   ex_pending ex cmd = Some None \<Longrightarrow> ex_remote ex cmd = Some (cue_id c, Some out) \<Longrightarrow>
   cue_runtime c \<in> ex_listening ex \<Longrightarrow> cue_runtime c \<notin> ex_lost ex \<Longrightarrow> (cmd, out) \<in> set (ex_streams ex (cue_runtime c))"
  unfolding heard_inv_def by blast

lemma heard_inv_step:
  assumes inv: "heard_inv cues ex" and true: "truth_inv ex" and p: "exec_possible cues p ex"
    and uniq: "distinct (map cue_id cues)"
  shows "heard_inv cues (exec_perform cues p ex)"
proof -
  let ?ex = "exec_perform cues p ex"
  note invD = heard_invD [OF inv]
  have "(cmd, out) \<in> set (ex_streams ?ex (cue_runtime c))"
    if c: "c \<in> set cues" and st: "ex_tasks ?ex (cue_id c) \<in> {Some (Checked cmd None), Some (Awaiting cmd)}"
      and pend: "ex_pending ?ex cmd = Some None" and rem: "ex_remote ?ex cmd = Some (cue_id c, Some out)"
      and lis: "cue_runtime c \<in> ex_listening ?ex" "cue_runtime c \<notin> ex_lost ?ex" for c cmd out
  proof (cases p)
    case (Ex_complete c1 cmd1 out1)
    show ?thesis
    proof (cases "cmd1 = cmd")
      case True
      with p Ex_complete rem have "cue_id c1 = cue_id c" "c1 \<in> set cues" "out1 = out"
        by (auto simp: segment_defs)
      then have "c1 = c" using uniq c by (metis distinct_map inj_onD)
      with True \<open>out1 = out\<close> show ?thesis by (simp add: Ex_complete segment_defs)
    next
      case False
      with Ex_complete st pend rem lis show ?thesis
        using invD [OF c, of cmd out] by (auto simp: segment_defs)
    qed
  next
    case (Ex_remote_submit c1 answer)
    show ?thesis
    proof (cases "\<exists>o1. ex_remote ex cmd = Some (cue_id c, o1)")
      case True
      with Ex_remote_submit p rem have "ex_remote ex cmd = Some (cue_id c, Some out)"
        by (cases answer) (auto simp: segment_defs split: if_splits)
      with Ex_remote_submit st pend lis show ?thesis
        using invD [OF c, of cmd out] by (cases answer) (auto simp: segment_defs split: if_splits)
    next
      case False
      have "ex_tasks ex (cue_id c) \<in> {Some (Checked cmd None), Some (Awaiting cmd)}"
        using Ex_remote_submit st by (cases answer) (auto simp: segment_defs split: if_splits)
      then have "\<exists>o1. ex_remote ex cmd = Some (cue_id c, o1)"
        using truth_invD(1) [OF true] by fastforce
      with False show ?thesis by simp
    qed
  next
    case (Ex_listen client)
    with st pend rem lis show ?thesis
      using invD [OF c, of cmd out] by (auto simp: segment_defs split: list.splits if_splits)
  next
    case (Ex_time c1 now now' held)
    with st pend rem lis show ?thesis
      using invD [OF c, of cmd out] by (auto simp: segment_defs split: segment_splits)
  next
    case (Ex_dep cid)
    with st pend rem lis show ?thesis
      using invD [OF c, of cmd out] by (auto simp: segment_defs split: segment_splits)
  next
    case (Ex_submit_response cid)
    with st pend rem lis show ?thesis
      using invD [OF c, of cmd out] truth_invD(1) [OF true, of cid] by (auto simp: segment_defs split: segment_splits)
  next
    case (Ex_remote_check cid answered)
    with st pend rem lis show ?thesis
      using invD [OF c, of cmd out] by (auto simp: segment_defs split: segment_splits)
  next
    case (Ex_check_response cid)
    with st pend rem lis show ?thesis
      using invD [OF c, of cmd out] by (auto simp: segment_defs split: segment_splits)
  next
    case (Ex_wake cid)
    with st pend rem lis show ?thesis
      using invD [OF c, of cmd out] by (auto simp: segment_defs split: segment_splits)
  next
    case (Ex_resync client)
    with st pend rem lis show ?thesis
      using invD [OF c, of cmd out] by (auto simp: segment_defs split: if_splits)
  next
    case (Ex_drop_listener client)
    with st pend rem lis show ?thesis
      using invD [OF c, of cmd out] by (auto simp: segment_defs)
  next
    case (Ex_miss client)
    with st pend rem lis show ?thesis
      using invD [OF c, of cmd out] by (auto simp: segment_defs)
  next
    case Ex_end
    with lis show ?thesis by (simp add: segment_defs)
  qed
  then show ?thesis unfolding heard_inv_def by blast
qed

lemma exec_run_heard:
  assumes "exec_run cues (new_executor cues clients start) ex" and "distinct (map cue_id cues)"
  shows "heard_inv cues ex"
  using assms
proof (induction rule: exec_run.induct)
  case exec_refl
  then show ?case by (simp add: heard_inv_def new_executor_def)
next
  case (exec_step ex p)
  then show ?case using exec_run_truth heard_inv_step by blast
qed

text \<open>Reading the stream to its end resolves the future of an event on it.\<close>

lemma listen_all:
  assumes "client \<in> ex_listening ex" and "(cmd, out) \<in> set (ex_streams ex client)"
    and "ex_pending ex cmd \<noteq> None"
  shows "\<exists>n x. ex_pending ((listen client ^^ n) ex) cmd = Some (Some x) \<and>
    ex_tasks ((listen client ^^ n) ex) = ex_tasks ex"
  using assms
proof (induction "ex_streams ex client" arbitrary: ex)
  case (Cons ev rest)
  let ?ex = "listen client ex"
  have parts: "ex_tasks ?ex = ex_tasks ex" "ex_listening ?ex = ex_listening ex" "ex_streams ?ex client = rest"
    "ex_pending ex cmd \<noteq> None \<longrightarrow> ex_pending ?ex cmd \<noteq> None"
    using Cons.prems(1) Cons.hyps(2) by (auto simp: listen_def resolve_def split: list.splits)
  have rec: "(listen client ^^ Suc n) ex = (listen client ^^ n) ?ex" for n
    by (simp add: funpow_swap1)
  show ?case
  proof (cases "(cmd, out) \<in> set rest")
    case True
    with Cons.hyps(1) [of ?ex] parts Cons.prems obtain n x where
      "ex_pending ((listen client ^^ n) ?ex) cmd = Some (Some x)"
      "ex_tasks ((listen client ^^ n) ?ex) = ex_tasks ex" by auto
    then show ?thesis unfolding rec [symmetric] by blast
  next
    case False
    with Cons.prems(2) Cons.hyps(2) have "ev = (cmd, out)" by (metis set_ConsD)
    with Cons.hyps(2) Cons.prems(1) have "?ex = resolve cmd out (ex\<lparr>ex_streams := (ex_streams ex)(client := rest)\<rparr>)"
      by (simp add: listen_def flip: Cons.hyps(2))
    with Cons.prems(3) obtain x where "ex_pending ?ex cmd = Some (Some x)"
      by (cases "ex_pending ex cmd = Some None") (auto simp: resolve_def)
    with parts(1) rec [of 0] show ?thesis by (intro exI [of _ "Suc 0"]) auto
  qed
qed simp

section \<open>The listener has ended\<close>

definition deaf :: "string \<Rightarrow> string \<Rightarrow> executor \<Rightarrow> bool" where
  "deaf cid cmd ex \<longleftrightarrow> ex_listening ex = {} \<and> ex_tasks ex cid = Some (Awaiting cmd) \<and>
     ex_pending ex cmd = Some None \<and> ex_outcomes ex cid = None"

lemma deaf_step:
  assumes "truth_inv ex" and "deaf cid cmd ex" and "exec_possible cues p ex"
  shows "deaf cid cmd (exec_perform cues p ex)"
proof -
  have own: "\<exists>out. ex_remote ex cmd = Some (cid, out)"
    using truth_invD(1) [OF assms(1), of cid "Awaiting cmd"] assms(2) by (simp add: deaf_def)
  show ?thesis
  proof (cases p)
    case (Ex_remote_submit c answer)
    with assms(2,3) show ?thesis by (cases answer) (auto simp: deaf_def segment_defs)
  next
    case (Ex_check_response cid1)
    with assms(2,3) own truth_invD(1) [OF assms(1), of cid1] show ?thesis
      by (auto simp: deaf_def segment_defs split: segment_splits)
  qed (use assms(2,3) in \<open>auto simp: deaf_def segment_defs split: segment_splits\<close>)
qed

lemma exec_run_trans:
  assumes "exec_run cues ex1 ex2" and "exec_run cues ex0 ex1"
  shows "exec_run cues ex0 ex2"
  using assms by (induction rule: exec_run.induct) (auto intro: exec_step)

lemma deaf_run:
  assumes "exec_run cues ex ex'" and "exec_run cues (new_executor cues clients start) ex" and "deaf cid cmd ex"
  shows "deaf cid cmd ex'"
  using assms
proof (induction rule: exec_run.induct)
  case (exec_step ex1 p)
  have "truth_inv ex1"
    by (rule exec_run_truth [OF exec_run_trans [OF exec_step.hyps(1) exec_step.prems(1)]])
  moreover have "deaf cid cmd ex1" using exec_step.IH exec_step.prems by simp
  ultimately show ?case using exec_step.hyps(2) by (rule deaf_step)
qed

section \<open>Properties\<close>

text \<open>
  \<^bold>\<open>C23\<close> In every run of a timeline with pairwise different cues, whatever the Runtimes, the clock and the hold
  button do, each cue is submitted at most once, and only after all its dependencies have ended
  SUCCEEDED, not before its time, and not later than its late policy allows.
\<close>

theorem cues_submitted_in_order:
  assumes "exec_run cues (new_executor cues clients start) ex" and "distinct (map cue_id cues)"
    and "(cid, t) \<in> set (ex_calls ex)"
  shows "distinct (map fst (ex_calls ex)) \<and>
    (\<exists>c. c \<in> set cues \<and> cue_id c = cid \<and>
       set (cue_depends_on c) \<subseteq> {d. ex_outcomes ex d = Some SUCCESS} \<and>
       start + of_int (cue_at_ms c) / 1000 \<le> t \<and>
       (t - (start + of_int (cue_at_ms c) / 1000)) * 1000 \<le> of_int (lp_max_lateness_ms (cue_late_policy c)))"
  using exec_run_calls [OF assms(1,2)] assms(3) exec_run_start [OF assms(1)]
  unfolding calls_inv_def cue_deadline_def by (fastforce simp: new_executor_def)

text \<open>
  Outcomes are truthful: in every run, a cue recorded as SUCCEEDED was submitted to a Runtime, and the
  command it became there is terminal and SUCCEEDED.
\<close>

theorem cue_success_is_real:
  assumes "exec_run cues (new_executor cues clients start) ex" and "ex_outcomes ex cid = Some SUCCESS"
  shows "\<exists>cmd. ex_remote ex cmd = Some (cid, Some SUCCESS)"
  using exec_run_truth [OF assms(1)] assms(2) by (rule truth_invD(4))

text \<open>
  \<^bold>\<open>C24\<close> No deadlock: in every run of a validated timeline in which no task has raised, if a cue has not ended
  then some cue has not ended and does not wait for a dependency that has not.
\<close>

theorem executor_never_deadlocks:
  assumes "exec_run cues (new_executor cues clients start) ex" and "validate_timeline cues = []"
    and "Raised \<notin> ran (ex_tasks ex)" and "ex_tasks ex cid = Some st" and "st \<noteq> Finished"
  shows "\<exists>cid' st'. ex_tasks ex cid' = Some st' \<and> st' \<noteq> Finished \<and> \<not> blocked ex st'"
proof -
  have uniq: "distinct (map cue_id cues)" using assms(2) unfolding validated_parts by blast
  show ?thesis
    using exec_run_deps_inv [OF assms(1) deps_inv_new [OF uniq] uniq] assms(2)
      exec_run_finished [OF assms(1) uniq] assms(3-5) by (rule some_unblocked)
qed

text \<open>
  No completion is missed: in every run, if a cue awaits a command that is terminal, the listener of
  its Runtime is alive and its stream has lost nothing, then after the listener has read what is on its stream the cue can end. The
  race between the completion event and the registration of the future is closed by the second look
  at the command's record.
\<close>

theorem completion_is_not_missed:
  assumes "exec_run cues (new_executor cues clients start) ex" and "distinct (map cue_id cues)"
    and "c \<in> set cues" and "ex_tasks ex (cue_id c) = Some (Awaiting cmd)"
    and "ex_remote ex cmd = Some (cue_id c, Some out)" and "cue_runtime c \<in> ex_listening ex"
    and "cue_runtime c \<notin> ex_lost ex"
  shows "\<exists>n. ex_outcomes (wake (cue_id c) ((listen (cue_runtime c) ^^ n) ex)) (cue_id c) \<noteq> None"
proof -
  have pend: "ex_pending ex cmd \<noteq> None"
    using truth_invD(1) [OF exec_run_truth [OF assms(1)] assms(4)] by simp
  have "\<exists>n x. ex_pending ((listen (cue_runtime c) ^^ n) ex) cmd = Some (Some x) \<and>
      ex_tasks ((listen (cue_runtime c) ^^ n) ex) = ex_tasks ex"
  proof (cases "ex_pending ex cmd = Some None")
    case True
    from heard_invD [OF exec_run_heard [OF assms(1,2)] assms(3) _ True assms(5-7)] assms(4)
    have "(cmd, out) \<in> set (ex_streams ex (cue_runtime c))" by simp
    with assms(6) pend show ?thesis by (intro listen_all)
  next
    case False
    with pend obtain x where "ex_pending ex cmd = Some (Some x)"
      by (metis not_None_eq)
    then show ?thesis by (intro exI [of _ 0]) simp
  qed
  then obtain n x where "ex_pending ((listen (cue_runtime c) ^^ n) ex) cmd = Some (Some x)"
    "ex_tasks ((listen (cue_runtime c) ^^ n) ex) = ex_tasks ex" by blast
  with assms(4) show ?thesis
    by (intro exI [of _ n]) (simp add: wake_def)
qed

text \<open>
  When no listener is alive any more, because each has met a resync or lost its connection, a cue whose command is still open
  when it starts to wait never ends, whatever happens later: the listener is not started again, and
  nobody asks the Runtime a second time.
\<close>

theorem no_listener_no_completion:
  assumes "exec_run cues (new_executor cues clients start) ex" and "exec_run cues ex ex'"
    and "ex_listening ex = {}" and "ex_tasks ex cid = Some (Awaiting cmd)"
    and "ex_pending ex cmd = Some None" and "ex_outcomes ex cid = None"
  shows "ex_tasks ex' cid = Some (Awaiting cmd) \<and> ex_outcomes ex' cid = None"
  using deaf_run [OF assms(2,1), of cid cmd] assms(3-6) by (simp add: deaf_def)

section \<open>A run\<close>

text \<open>One cue on the Runtime \<open>m\<close>, submitted, awaited, completed and recorded.\<close>

definition demo_cue :: cue where
  "demo_cue = \<lparr>cue_id = ''c1'', cue_at_ms = 20, cue_runtime = ''m'', cue_target_id = ''motor01'', cue_action = ''move'',
     cue_params = [], cue_completion_requirement = Req_OBSERVED, cue_depends_on = [],
     cue_late_policy = default_late_policy\<rparr>"

definition demo_exec :: "exec_op list \<Rightarrow> executor" where
  "demo_exec ps = fold (exec_perform [demo_cue]) ps (new_executor [demo_cue] {''m''} 0)"

definition demo_ops :: "exec_op list" where
  "demo_ops = [Ex_dep ''c1'', Ex_time demo_cue (1 / 50) (3 / 100) False, Ex_remote_submit demo_cue (Submit_open ''k''),
     Ex_submit_response ''c1'', Ex_remote_check ''c1'' True, Ex_check_response ''c1'']"

lemmas demo_exec_defs = demo_exec_def demo_ops_def demo_cue_def default_late_policy_def
  DEFAULT_MAX_LATENESS_MS_def new_executor_def cue_deadline_def segment_defs set_task_def finish_cue_def

text \<open>A list of operations each of which is possible when it comes is a run.\<close>

fun all_possible :: "timeline \<Rightarrow> exec_op list \<Rightarrow> executor \<Rightarrow> bool" where
  "all_possible cues [] ex \<longleftrightarrow> True"
| "all_possible cues (p # ps) ex \<longleftrightarrow> exec_possible cues p ex \<and> all_possible cues ps (exec_perform cues p ex)"

lemma exec_run_all:
  "all_possible cues ps ex \<Longrightarrow> exec_run cues ex0 ex \<Longrightarrow> exec_run cues ex0 (fold (exec_perform cues) ps ex)"
  by (induction ps arbitrary: ex) (auto intro: exec_step)

lemma demo_exec_run:
  "all_possible [demo_cue] ps (new_executor [demo_cue] {''m''} 0) \<Longrightarrow>
   exec_run [demo_cue] (new_executor [demo_cue] {''m''} 0) (demo_exec ps)"
  unfolding demo_exec_def by (rule exec_run_all [OF _ exec_refl])

definition demo_terminal :: executor where
  "demo_terminal = demo_exec (demo_ops @ [Ex_complete demo_cue ''k'' SUCCESS])"

definition demo_done :: executor where
  "demo_done = demo_exec (demo_ops @ [Ex_complete demo_cue ''k'' SUCCESS, Ex_listen ''m'', Ex_wake ''c1''])"

definition demo_deaf :: executor where
  "demo_deaf = demo_exec (Ex_resync ''m'' # demo_ops)"

lemma demo_runs:
  "exec_run [demo_cue] (new_executor [demo_cue] {''m''} 0) demo_terminal"
  "exec_run [demo_cue] (new_executor [demo_cue] {''m''} 0) demo_done"
  "exec_run [demo_cue] (new_executor [demo_cue] {''m''} 0) demo_deaf"
  unfolding demo_terminal_def demo_done_def demo_deaf_def
  by (rule demo_exec_run, simp add: demo_exec_defs)+

lemmas demo_states = demo_terminal_def demo_done_def demo_deaf_def demo_exec_defs

theorem cues_submitted_in_order_witness:
  "(0 :: rat) + 20 / 1000 \<le> 3 / 100 \<and> distinct (map fst (ex_calls demo_done))"
  using cues_submitted_in_order [OF demo_runs(2), of "''c1''" "3 / 100"]
  by (simp add: demo_states)

theorem cue_success_is_real_witness: "\<exists>cmd. ex_remote demo_done cmd = Some (''c1'', Some SUCCESS)"
  by (rule cue_success_is_real [OF demo_runs(2)]) (simp add: demo_states)

theorem executor_never_deadlocks_witness:
  "\<exists>cid' st'. ex_tasks demo_terminal cid' = Some st' \<and> st' \<noteq> Finished \<and> \<not> blocked demo_terminal st'"
proof (rule executor_never_deadlocks [OF demo_runs(1)])
  have "acyclic ({} :: (string \<times> string) set)" by (simp add: acyclic_def)
  then show "validate_timeline [demo_cue] = []"
    unfolding validated_parts by (simp add: demo_cue_def)
  show "Raised \<notin> ran (ex_tasks demo_terminal)"
    by (auto simp: demo_states ran_def split: if_splits)
  show "ex_tasks demo_terminal ''c1'' = Some (Awaiting ''k'')"
    by (simp add: demo_states)
qed simp

theorem completion_is_not_missed_witness:
  "\<exists>n. ex_outcomes (wake ''c1'' ((listen ''m'' ^^ n) demo_terminal)) ''c1'' \<noteq> None"
proof -
  have "cue_id demo_cue = ''c1''" "cue_runtime demo_cue = ''m''" by (simp_all add: demo_cue_def)
  then show ?thesis
    using completion_is_not_missed [OF demo_runs(1), of demo_cue "''k''" SUCCESS]
    by (simp add: demo_states)
qed

theorem no_listener_no_completion_witness:
  "ex_outcomes (exec_perform [demo_cue] (Ex_complete demo_cue ''k'' SUCCESS) demo_deaf) ''c1'' = None"
proof -
  have "exec_possible [demo_cue] (Ex_complete demo_cue ''k'' SUCCESS) demo_deaf"
    by (simp add: demo_states)
  then have "exec_run [demo_cue] demo_deaf (exec_perform [demo_cue] (Ex_complete demo_cue ''k'' SUCCESS) demo_deaf)"
    by (intro exec_step exec_refl)
  from no_listener_no_completion [OF demo_runs(3) this, of "''c1''" "''k''"] show ?thesis
    by (simp add: demo_states)
qed

end
