(* ===== verification/Show_System.thy ===== *)
theory Show_System
  imports Executor_Runs Runtime_Safety
begin

text \<open>
  The whole of a Show: the timeline executor of \<open>Timeline_Executor\<close> and the Runtimes of \<open>Device_Runtime\<close>
  it sends its cues to, over a network that may delay, fail and lose events. The Runtimes have other
  clients too, who may do anything a Runtime offers at any time. The proof is a simulation: seen from the
  executor, the Runtimes behave as the environment that \<open>Timeline_Executor\<close> assumes, so what is proved of
  the executor alone holds here of real command records.
\<close>

section \<open>State\<close>

text \<open>
  Of the executor the fields \<open>ex_remote\<close> and \<open>ex_streams\<close> are not used here: the Runtimes are the real ones.
  \<open>sy_history\<close> is all a Runtime has published, \<open>sy_cursor\<close> how much of it its listener is past (at first the
  sequence of the snapshot). \<open>sy_inflight\<close> are the cues whose command a Runtime is carrying out and has
  not answered. \<open>sy_adopted\<close> and \<open>sy_awaited\<close> record whose command an answer named, and which of these
  were still open in the answer.
\<close>

record show_system =
  sy_exec :: executor
  sy_runtimes :: "string \<Rightarrow> device_runtime"
  sy_history :: "string \<Rightarrow> event list"
  sy_cursor :: "string \<Rightarrow> nat"
  sy_inflight :: "string \<rightharpoonup> string"
  sy_adopted :: "string \<rightharpoonup> cue"
  sy_awaited :: "string set"

definition record_at :: "show_system \<Rightarrow> string \<Rightarrow> string \<Rightarrow> command_record option" where
  "record_at sy n cmd = get_command cmd (sy_runtimes sy n)"

text \<open>The request for a cue, as the call of \<open>submit_command\<close> in \<open>_run_cue\<close> builds it.\<close>

definition cue_request_id :: "string \<Rightarrow> string \<Rightarrow> string" where
  "cue_request_id run_id cid = run_id @ '':'' @ cid"

definition cue_request :: "string \<Rightarrow> string \<Rightarrow> cue \<Rightarrow> command_submit_request" where
  "cue_request run_id session c =
     \<lparr>sr_protocol_version = 1, sr_request_id = cue_request_id run_id (cue_id c),
      sr_control_session_id = Some session, sr_run_id = Some run_id, sr_cue_id = Some (cue_id c),
      sr_show_generation = None, sr_target_id = cue_target_id c, sr_action = cue_action c,
      sr_params = cue_params c, sr_completion_requirement = cue_completion_requirement c,
      sr_source = ''timeline'', sr_actor = None\<rparr>"

section \<open>What the executor reads from records and events\<close>

text \<open>
  The outcome as the client sees it in the JSON of a record, and in the payload of a completion, where it
  is a string or null (\<open>str(None)\<close>).
\<close>

definition wire_outcome :: "command_record \<Rightarrow> string" where
  "wire_outcome r = (case cr_outcome r of None \<Rightarrow> ''None'' | Some out \<Rightarrow> outcome_value out)"

definition record_end :: "command_record \<Rightarrow> string option" where
  "record_end r = (if cr_status r = TERMINAL then Some (wire_outcome r) else None)"

definition record_answer :: "string \<Rightarrow> command_record option \<Rightarrow> submit_answer" where
  "record_answer cmd ro =
     (case ro of
        None \<Rightarrow> Submit_crashed
      | Some r \<Rightarrow> (case record_end r of None \<Rightarrow> Submit_open cmd | Some out \<Rightarrow> Submit_terminal cmd out))"

definition payload_outcome :: "params \<Rightarrow> string" where
  "payload_outcome p =
     (case dget p ''outcome'' of None \<Rightarrow> ''UNKNOWN'' | Some (PStr s) \<Rightarrow> s | Some _ \<Rightarrow> ''None'')"

definition completion_of :: "event \<Rightarrow> (string \<times> string) option" where
  "completion_of e =
     (if ev_type e = ''command.completed''
      then map_option (\<lambda>cmd. (cmd, payload_outcome (ev_payload e))) (ev_command_id e) else None)"

section \<open>Steps\<close>

text \<open>An operation of a Runtime, by whoever caused it.\<close>

definition on_runtime :: "string \<Rightarrow> runtime_op \<Rightarrow> show_system \<Rightarrow> show_system" where
  "on_runtime n p sy =
     (let rt = sy_runtimes sy n; rt' = runtime_perform p rt
      in sy\<lparr>sy_runtimes := (sy_runtimes sy)(n := rt'),
            sy_history := (sy_history sy)(n := sy_history sy n @ new_events (rt_events rt) (rt_events rt'))\<rparr>)"

definition on_exec :: "(executor \<Rightarrow> executor) \<Rightarrow> show_system \<Rightarrow> show_system" where
  "on_exec f sy = sy\<lparr>sy_exec := f (sy_exec sy)\<rparr>"

text \<open>The answer to the submission of a cue arrives: it names a record, or it is an error.\<close>

definition answer_cue :: "cue \<Rightarrow> submit_answer \<Rightarrow> show_system \<Rightarrow> show_system" where
  "answer_cue c answer sy =
     on_exec (set_task (cue_id c) (Answered answer)) (sy\<lparr>sy_inflight := (sy_inflight sy)(cue_id c := None)\<rparr>)"

definition name_command :: "cue \<Rightarrow> string \<Rightarrow> bool \<Rightarrow> show_system \<Rightarrow> show_system" where
  "name_command c cmd still_open sy =
     sy\<lparr>sy_adopted := (sy_adopted sy)(cmd \<mapsto> c),
        sy_awaited := (if still_open then insert cmd (sy_awaited sy) else sy_awaited sy)\<rparr>"

definition adopt :: "cue \<Rightarrow> string \<Rightarrow> show_system \<Rightarrow> show_system" where
  "adopt c cmd sy =
     (let answer = record_answer cmd (record_at sy (cue_runtime c) cmd)
      in answer_cue c answer (name_command c cmd (answer = Submit_open cmd) sy))"

text \<open>
  The request of a cue reaches its Runtime. A refusal and a known request are answered at once; a new
  command is with its adapter, and the answer comes when \<open>execute\<close> has returned.
\<close>

definition submit_cue ::
    "string \<Rightarrow> string \<Rightarrow> cue \<Rightarrow> event_env \<Rightarrow> string \<Rightarrow> time \<Rightarrow> time \<Rightarrow> show_system \<Rightarrow> show_system" where
  "submit_cue run_id session c env new_id now wall sy =
     (let req = cue_request run_id session c;
          sy1 = on_runtime (cue_runtime c) (Rt_submit env new_id now wall req) sy
      in case fst (submit_command env new_id now wall req (sy_runtimes sy (cue_runtime c))) of
           Inl (Some e) \<Rightarrow> answer_cue c (Submit_error (fe_message e)) sy1
         | Inl None \<Rightarrow> answer_cue c Submit_crashed sy1
         | Inr (Returned cmd) \<Rightarrow> adopt c cmd sy1
         | Inr (Suspended cmd) \<Rightarrow> sy1\<lparr>sy_inflight := (sy_inflight sy)(cue_id c \<mapsto> cmd)\<rparr>)"

definition execute_returned :: "string \<Rightarrow> device_runtime \<Rightarrow> bool" where
  "execute_returned cmd rt =
     (case get_command cmd rt of
        None \<Rightarrow> False
      | Some r \<Rightarrow>
          (case dget (rt_runners rt) (cr_target_id r) of
             None \<Rightarrow> False
           | Some tr \<Rightarrow> (case tr_frames tr cmd of Some (In_execute _) \<Rightarrow> False | _ \<Rightarrow> True)))"

definition answer_submit :: "cue \<Rightarrow> show_system \<Rightarrow> show_system" where
  "answer_submit c sy =
     (case sy_inflight sy (cue_id c) of
        None \<Rightarrow> sy
      | Some cmd \<Rightarrow> if execute_returned cmd (sy_runtimes sy (cue_runtime c)) then adopt c cmd sy else sy)"

text \<open>\<open>get_command\<close> is answered from the record, or the call fails.\<close>

definition check_cue :: "cue \<Rightarrow> bool \<Rightarrow> show_system \<Rightarrow> show_system" where
  "check_cue c answered sy =
     (case ex_tasks (sy_exec sy) (cue_id c) of
        Some (Checking cmd) \<Rightarrow>
          on_exec (set_task (cue_id c)
            (case record_at sy (cue_runtime c) cmd of
               Some r \<Rightarrow> if answered then Checked cmd (record_end r) else Raised
             | None \<Rightarrow> Raised)) sy
      | _ \<Rightarrow> sy)"

text \<open>A listener reads the next event of its stream; the stream may lose it on the way.\<close>

definition next_event :: "string \<Rightarrow> show_system \<Rightarrow> event option" where
  "next_event n sy =
     (if sy_cursor sy n < length (sy_history sy n) then Some (sy_history sy n ! sy_cursor sy n) else None)"

definition advance_cursor :: "string \<Rightarrow> show_system \<Rightarrow> show_system" where
  "advance_cursor n sy = sy\<lparr>sy_cursor := (sy_cursor sy)(n := Suc (sy_cursor sy n))\<rparr>"

definition listen_event :: "string \<Rightarrow> show_system \<Rightarrow> show_system" where
  "listen_event n sy =
     (case next_event n sy of
        None \<Rightarrow> sy
      | Some e \<Rightarrow>
          if n \<notin> ex_listening (sy_exec sy) then sy
          else (case completion_of e of
                  None \<Rightarrow> advance_cursor n sy
                | Some (cmd, out) \<Rightarrow> on_exec (resolve cmd out) (advance_cursor n sy)))"

definition lose_event :: "string \<Rightarrow> show_system \<Rightarrow> show_system" where
  "lose_event n sy =
     (case next_event n sy of
        None \<Rightarrow> sy
      | Some e \<Rightarrow>
          (case completion_of e of
             Some (cmd, out) \<Rightarrow>
               if cmd \<in> sy_awaited sy
               then on_exec (\<lambda>ex. ex\<lparr>ex_lost := insert n (ex_lost ex)\<rparr>) (advance_cursor n sy)
               else advance_cursor n sy
           | None \<Rightarrow> advance_cursor n sy))"

section \<open>Runs of the system\<close>

text \<open>
  \<open>Sys_exec\<close> is a segment of the executor's own; \<open>Sys_crash\<close> a submission whose answer never comes (a
  timeout, a broken connection, no client or session for the Runtime), whether it has arrived or not.
\<close>

datatype sys_op =
    Sys_exec exec_op
  | Sys_submit cue string event_env string time time
  | Sys_answer cue
  | Sys_crash cue
  | Sys_check cue bool
  | Sys_listen string
  | Sys_lose string
  | Sys_runtime string runtime_op

fun own_segment :: "exec_op \<Rightarrow> bool" where
  "own_segment (Ex_remote_submit _ _) = False"
| "own_segment (Ex_remote_check _ _) = False"
| "own_segment (Ex_complete _ _ _) = False"
| "own_segment (Ex_miss _) = False"
| "own_segment (Ex_listen _) = False"
| "own_segment _ = True"

fun sys_perform :: "timeline \<Rightarrow> string \<Rightarrow> sys_op \<Rightarrow> show_system \<Rightarrow> show_system" where
  "sys_perform cues run_id (Sys_exec p) sy = on_exec (exec_perform cues p) sy"
| "sys_perform cues run_id (Sys_submit c session env new_id now wall) sy =
     submit_cue run_id session c env new_id now wall sy"
| "sys_perform cues run_id (Sys_answer c) sy = answer_submit c sy"
| "sys_perform cues run_id (Sys_crash c) sy = answer_cue c Submit_crashed sy"
| "sys_perform cues run_id (Sys_check c answered) sy = check_cue c answered sy"
| "sys_perform cues run_id (Sys_listen n) sy = listen_event n sy"
| "sys_perform cues run_id (Sys_lose n) sy = lose_event n sy"
| "sys_perform cues run_id (Sys_runtime n p) sy = on_runtime n p sy"

text \<open>Command ids are \<open>uuid4\<close>s: a new one is in no Runtime's ledger.\<close>

definition fresh_command :: "string \<Rightarrow> show_system \<Rightarrow> bool" where
  "fresh_command cmd sy \<longleftrightarrow> (\<forall>n. record_at sy n cmd = None)"

fun sys_possible :: "timeline \<Rightarrow> sys_op \<Rightarrow> show_system \<Rightarrow> bool" where
  "sys_possible cues (Sys_exec p) sy \<longleftrightarrow> own_segment p \<and> exec_possible cues p (sy_exec sy)"
| "sys_possible cues (Sys_submit c session env new_id now wall) sy \<longleftrightarrow>
     c \<in> set cues \<and> ex_tasks (sy_exec sy) (cue_id c) = Some Submitting \<and>
     sy_inflight sy (cue_id c) = None \<and> fresh_command new_id sy"
| "sys_possible cues (Sys_answer c) sy \<longleftrightarrow> c \<in> set cues"
| "sys_possible cues (Sys_crash c) sy \<longleftrightarrow>
     c \<in> set cues \<and> ex_tasks (sy_exec sy) (cue_id c) = Some Submitting"
| "sys_possible cues (Sys_check c answered) sy \<longleftrightarrow> c \<in> set cues"
| "sys_possible cues (Sys_listen n) sy \<longleftrightarrow> True"
| "sys_possible cues (Sys_lose n) sy \<longleftrightarrow> True"
| "sys_possible cues (Sys_runtime n p) sy \<longleftrightarrow>
     op_admissible p (sy_runtimes sy n) \<and>
     (case p of Rt_submit env new_id now wall req \<Rightarrow> fresh_command new_id sy | _ \<Rightarrow> True)"

inductive sys_run :: "timeline \<Rightarrow> string \<Rightarrow> show_system \<Rightarrow> show_system \<Rightarrow> bool" for cues run_id sy0 where
  sys_refl: "sys_run cues run_id sy0 sy0"
| sys_step: "sys_run cues run_id sy0 sy \<Longrightarrow> sys_possible cues p sy \<Longrightarrow>
    sys_run cues run_id sy0 (sys_perform cues run_id p sy)"

text \<open>
  The start of a run: the executor is new; each Runtime has gone through any run of its own, so it may
  have been in use for long; no command id is in two Runtimes' ledgers.
\<close>

definition started :: "device_runtime \<Rightarrow> event list \<Rightarrow> bool" where
  "started rt hist \<longleftrightarrow>
     (\<exists>rid boot adapters blobs rt0. new_device_runtime rid boot adapters blobs = Inr rt0 \<and> runtime_run rt0 hist rt)"

definition show_start :: "timeline \<Rightarrow> string set \<Rightarrow> time \<Rightarrow> show_system \<Rightarrow> bool" where
  "show_start cues clients start sy \<longleftrightarrow>
     sy_exec sy = new_executor cues clients start \<and>
     (\<forall>n. started (sy_runtimes sy n) (sy_history sy n)) \<and>
     (\<forall>n m cmd. record_at sy n cmd \<noteq> None \<longrightarrow> record_at sy m cmd \<noteq> None \<longrightarrow> n = m) \<and>
     (\<forall>n. sy_cursor sy n \<le> length (sy_history sy n)) \<and>
     sy_inflight sy = Map.empty \<and> sy_adopted sy = Map.empty \<and> sy_awaited sy = {}"

end
