(* ===== verification/Show_Simulation.thy ===== *)
theory Show_Simulation
  imports Show_System
begin

text \<open>
  The simulation: \<open>sys_abs\<close> is the executor's view of the system, in which the records of the commands the
  Runtimes have named to it are \<open>ex_remote\<close> and the unread completions of those it waits for are \<open>ex_streams\<close>;
  \<open>sys_inv\<close> is the invariant. Every step of the system is, in this view, nothing or steps of the executor and
  its environment.
\<close>

section \<open>Runtimes, by themselves\<close>

lemma startedD:
  assumes "started rt hist"
  shows "rt_inv rt" and "bus_represents hist (rt_events rt)" and "4 \<le> eb_maxlen (rt_events rt)"
    and "completions c hist = map completion_payload (newly_terminal Map.empty (lg_by_command_id (rt_ledger rt)) c)"
proof -
  from assms obtain rid boot adapters blobs rt0 where
    new: "new_device_runtime rid boot adapters blobs = Inr rt0" and run: "runtime_run rt0 hist rt"
    unfolding started_def by blast
  show "rt_inv rt" using run new_runtime_inv [OF new] by (rule runtime_run_inv)
  show "bus_represents hist (rt_events rt)" and "4 \<le> eb_maxlen (rt_events rt)"
    and "completions c hist = map completion_payload (newly_terminal Map.empty (lg_by_command_id (rt_ledger rt)) c)"
    using runtime_run_events [OF run new] by (simp_all add: DEFAULT_REPLAY_BUFFER_SIZE_def)
qed

lemma started_step:
  "started rt hist \<Longrightarrow> op_admissible p rt \<Longrightarrow>
   started (runtime_perform p rt) (hist @ new_events (rt_events rt) (rt_events (runtime_perform p rt)))"
  unfolding started_def by (blast intro: rt_step)

text \<open>Records persist, keep their content, and are final once terminal.\<close>

definition record_kept :: "command_record \<Rightarrow> command_record \<Rightarrow> bool" where
  "record_kept r r' \<longleftrightarrow> same_content r r' \<and> (cr_status r = TERMINAL \<longrightarrow> r' = r)"

lemma get_command_records: "get_command c rt = lg_by_command_id (rt_ledger rt) c"
  by (simp add: get_command_def ledger_get_def)

lemma record_kept_step:
  assumes inv: "rt_inv rt" and f: "follows rt rt'" and r: "get_command c rt = Some r"
  shows "\<exists>r'. get_command c rt' = Some r' \<and> record_kept r r'"
proof -
  have r': "lg_by_command_id (rt_ledger rt) c = Some r" using r by (simp add: get_command_records)
  obtain tr where tr: "dget (rt_runners rt) (cr_target_id r) = Some tr"
    using rt_inv_target [OF inv r'] dget_None_iff [of "rt_runners rt" "cr_target_id r"]
    by (cases "dget (rt_runners rt) (cr_target_id r)") simp_all
  from followsD [OF f tr] obtain tr' where "runner_run (world_of tr rt) (world_of tr' rt')" by blast
  from runner_run_advances [OF this rt_inv_runner [OF inv tr], of c r] r' rt_inv_tid [OF inv tr]
  show ?thesis by (auto simp: record_advances_def record_kept_def get_command_records)
qed

text \<open>Only a submission makes a record, under the id given to it.\<close>

fun op_command :: "runtime_op \<Rightarrow> string option" where
  "op_command (Rt_submit env new_id now wall req) = Some new_id"
| "op_command _ = None"

lemma in_runner_no_new:
  assumes inv: "rt_inv rt"
    and "\<And>tr. dget (rt_runners rt) tid = Some tr \<Longrightarrow> good_segment (world_of tr rt) (f (world_of tr rt))"
    and "get_command c rt = None"
  shows "get_command c (in_runner env tid f rt) = None"
proof (cases "dget (rt_runners rt) tid")
  case (Some tr)
  from assms(2) [OF Some] have "records_evolve (lg_by_command_id (rt_ledger rt)) (rw_records (f (world_of tr rt)))"
    by (simp add: good_segment_def)
  from records_evolve_bwd [OF this, of c] assms(3) Some show ?thesis
    by (cases "rw_records (f (world_of tr rt)) c") (auto simp: in_runner_def get_command_records)
qed (use assms(3) in \<open>simp add: in_runner_def\<close>)

text \<open>
  The ways \<open>submit_command\<close> can end: an error before the ledger, the ledger's answer to a known request,
  or a new record, which the runner refuses or takes.
\<close>

definition filed :: "command_submit_request \<Rightarrow> string \<Rightarrow> nat \<Rightarrow> time \<Rightarrow> session_manager \<Rightarrow> device_runtime \<Rightarrow> device_runtime" where
  "filed req new_id gen wall sm rt =
     rt\<lparr>rt_sessions := sm,
        rt_ledger := snd (ledger_begin req new_id (rt_runtime_id rt) (rt_runtime_boot_id rt) gen wall (rt_ledger rt))\<rparr>"

lemma submit_command_cases:
  assumes inv: "rt_inv rt"
  obtains (early) e sm where "submit_command env new_id now wall req rt = (Inl (Some e), rt\<lparr>rt_sessions := sm\<rparr>)"
  | (known) entry sm where "lg_by_request_id (rt_ledger rt) (sr_request_id req) = Some entry"
      "fingerprint_eq (le_fingerprint entry) (fingerprint req)"
      "submit_command env new_id now wall req rt = (Inr (Returned (le_command_id entry)), rt\<lparr>rt_sessions := sm\<rparr>)"
  | (refused) e gen sm where "lg_by_request_id (rt_ledger rt) (sr_request_id req) = None"
      "submit_command env new_id now wall req rt =
         (Inl (Some e), reject_command env new_id e (filed req new_id gen wall sm rt))"
  | (taken) m runner gen sm w where "lg_by_request_id (rt_ledger rt) (sr_request_id req) = None"
      "submit_begin m new_id wall (world_of runner (filed req new_id gen wall sm rt)) = Inr w"
      "submit_command env new_id now wall req rt =
         (Inr (Suspended new_id), put_world env (sr_target_id req) w (filed req new_id gen wall sm rt))"
proof (cases "\<exists>runner m s sm. dget (rt_runners rt) (sr_target_id req) = Some runner \<and>
    dget (rt_adapters rt) (sr_target_id req) = Some m \<and>
    validate (sr_control_session_id req) now (rt_sessions rt) = (Inr s, sm)")
  case False
  have "rt\<lparr>rt_sessions := rt_sessions rt\<rparr> = rt" by simp
  with False show thesis
    by (intro early [of "case fst (submit_command env new_id now wall req rt) of Inl (Some e) \<Rightarrow> e"
          "rt_sessions (snd (submit_command env new_id now wall req rt))"])
      (auto simp: submit_command_def split: option.split prod.split sum.split)
next
  case True
  then obtain runner m s sm where ok: "dget (rt_runners rt) (sr_target_id req) = Some runner"
    "dget (rt_adapters rt) (sr_target_id req) = Some m"
    "validate (sr_control_session_id req) now (rt_sessions rt) = (Inr s, sm)" by blast
  let ?gen = "tr_execution_generation runner"
  show thesis
  proof (cases "lg_by_request_id (rt_ledger rt) (sr_request_id req)")
    case (Some entry)
    note beg = ledger_begin_known [OF rt_inv_ledger [OF inv] Some, of new_id "rt_runtime_id rt" "rt_runtime_boot_id rt" ?gen wall]
    show thesis
    proof (cases "fingerprint_eq (le_fingerprint entry) (fingerprint req)")
      case eq: True
      from ok beg eq show thesis by (intro known [OF Some eq, of sm]) (simp add: submit_command_def)
    next
      case False
      from ok beg False show thesis by (intro early [of _ sm]) (simp add: submit_command_def)
    qed
  next
    case None
    let ?rt = "filed req new_id ?gen wall sm rt"
    have beg: "fst (ledger_begin req new_id (rt_runtime_id rt) (rt_runtime_boot_id rt) ?gen wall (rt_ledger rt)) = Inr (new_id, True)"
      by (simp add: ledger_begin_new [OF None])
    have rt: "rt\<lparr>rt_sessions := sm, rt_ledger := snd (ledger_begin req new_id (rt_runtime_id rt)
        (rt_runtime_boot_id rt) ?gen wall (rt_ledger rt))\<rparr> = ?rt" by (simp add: filed_def)
    have sub: "submit_command env new_id now wall req rt =
        (case submit_begin m new_id wall (world_of runner ?rt) of
           Inl e \<Rightarrow> (Inl (Some e), reject_command env new_id e ?rt)
         | Inr w \<Rightarrow> (Inr (Suspended new_id), put_world env (sr_target_id req) w ?rt))"
      using ok beg by (simp add: submit_command_def rt split_beta split: prod.split) (simp add: rt prod_eq_iff split: sum.split)
    show thesis
    proof (cases "submit_begin m new_id wall (world_of runner ?rt)")
      case (Inl e)
      with sub show thesis by (intro refused [OF None]) simp
    next
      case (Inr w)
      with sub show thesis by (intro taken [OF None Inr]) simp
    qed
  qed
qed

lemma filed_parts:
  assumes "lg_by_request_id (rt_ledger rt) (sr_request_id req) = None"
  shows "lg_by_command_id (rt_ledger (filed req new_id gen wall sm rt)) = (lg_by_command_id (rt_ledger rt))
      (new_id \<mapsto> new_command_record req new_id (rt_runtime_id rt) (rt_runtime_boot_id rt) gen wall)"
  by (simp add: filed_def ledger_begin_new [OF assms])

lemma submit_no_new:
  assumes inv: "rt_inv rt" and none: "get_command c rt = None" and "c \<noteq> new_id"
  shows "get_command c (snd (submit_command env new_id now wall req rt)) = None"
  using inv
proof (cases rule: submit_command_cases [of rt env new_id now wall req])
  case (refused e gen sm)
  with none \<open>c \<noteq> new_id\<close> filed_parts [OF refused(1)] show ?thesis
    by (simp add: reject_command_def get_command_records Let_def)
next
  case (taken m runner gen sm w)
  have r: "rw_records (world_of runner (filed req new_id gen wall sm rt)) new_id =
      Some (new_command_record req new_id (rt_runtime_id rt) (rt_runtime_boot_id rt) gen wall)"
    by (simp add: filed_parts [OF taken(1)])
  have "rw_records w c = lg_by_command_id (rt_ledger (filed req new_id gen wall sm rt)) c"
    by (rule submit_begin_Some [OF r taken(2)]) (use \<open>c \<noteq> new_id\<close> in simp)
  with taken none \<open>c \<noteq> new_id\<close> filed_parts [OF taken(1)] show ?thesis
    by (simp add: get_command_records)
qed (use none in \<open>simp_all add: get_command_records\<close>)

lemma perform_no_new:
  assumes inv: "rt_inv rt" and none: "get_command c rt = None" and "op_command p \<noteq> Some c"
  shows "get_command c (runtime_perform p rt) = None"
proof -
  note ids = rt_inv_ids [OF inv] and seg = rt_inv_runner [OF inv]
  show ?thesis
  proof (cases p)
    case (Rt_submit env new_id now wall req)
    with assms show ?thesis by (simp add: submit_no_new)
  next
    case (Rt_resume env tid res d wall)
    with none seg ids show ?thesis
      by (auto simp: resume_command_def intro!: in_runner_no_new [OF inv] good_resume)
  next
    case (Rt_observe env tid d t0 now answer wall)
    with none seg ids show ?thesis
      by (auto simp: observe_command_def intro!: in_runner_no_new [OF inv] good_observe)
  next
    case (Rt_cancel env tid d wall)
    with none seg ids show ?thesis
      by (auto simp: cancel_observation_def intro!: in_runner_no_new [OF inv] good_cancelled)
  qed (use none in \<open>simp_all add: get_command_records publish_event_def subscribe_events_def unsubscribe_events_def
      stage_config_def apply_config_begin_def apply_config_enter_def apply_config_resume_def save_blob_def
      acquire_control_session_def release_control_session_def renew_control_session_def split_beta Let_def
      split: sum.split prod.split blob_error.split\<close>)
qed

text \<open>The record an answer names carries the request.\<close>

definition carries :: "command_submit_request \<Rightarrow> command_record \<Rightarrow> bool" where
  "carries req r \<longleftrightarrow> cr_request_id r = sr_request_id req \<and>
     fingerprint_eq (record_fingerprint r) (fingerprint req)"

lemma carries_kept: "carries req r \<Longrightarrow> record_kept r r' \<Longrightarrow> carries req r'"
  by (simp add: carries_def record_kept_def same_content_def record_fingerprint_def)

lemma entry_record:
  assumes "rt_inv rt" and "lg_by_request_id (rt_ledger rt) (sr_request_id req) = Some e"
    and "fingerprint_eq (le_fingerprint e) (fingerprint req)"
  shows "\<exists>r. get_command (le_command_id e) rt = Some r \<and> carries req r"
  using ledger_inv_entry [OF rt_inv_ledger [OF assms(1)] assms(2)] assms(3)
  by (auto simp: get_command_records carries_def)

lemma submitted_record:
  assumes inv: "rt_inv rt" and fresh: "get_command new_id rt = None"
    and sub: "fst (submit_command env new_id now wall req rt) \<in> {Inr (Returned cmd), Inr (Suspended cmd)}"
  shows "\<exists>r. get_command cmd (snd (submit_command env new_id now wall req rt)) = Some r \<and> carries req r"
proof -
  let ?rt = "snd (submit_command env new_id now wall req rt)"
  have inv': "rt_inv ?rt"
    using good_step_submit [OF inv, of new_id] fresh by (simp add: good_step_def get_command_records)
  show ?thesis
    using inv
  proof (cases rule: submit_command_cases [of rt env new_id now wall req])
    case (known entry sm)
    with sub entry_record [OF inv known(1,2)] show ?thesis by (simp add: get_command_records)
  next
    case (taken m runner gen sm w)
    with sub have "fst (submit_command env new_id now wall req rt) = Inr (Suspended cmd)" by simp
    from submitted_entry [OF this] entry_record [OF inv', of req] show ?thesis by fastforce
  qed (use sub in simp_all)
qed

text \<open>Two records with one request id in a ledger are one record.\<close>

lemma one_record_per_request:
  assumes "rt_inv rt" and "get_command c rt = Some r" and "get_command d rt = Some r'"
    and "cr_request_id r = cr_request_id r'"
  shows "c = d"
proof -
  have "lg_by_command_id (rt_ledger rt) c = Some r" "lg_by_command_id (rt_ledger rt) d = Some r'"
    using assms(2,3) by (simp_all add: get_command_records)
  from this [THEN ledger_inv_record [OF rt_inv_ledger [OF assms(1)]]] assms(4) show ?thesis by auto
qed

text \<open>A terminal record has an outcome, and it achieved what was required exactly when it succeeded.\<close>

lemma record_truthful:
  assumes inv: "rt_inv rt" and r: "get_command c rt = Some r"
  shows "record_ok r"
proof -
  have r': "lg_by_command_id (rt_ledger rt) c = Some r" using r by (simp add: get_command_records)
  obtain tr where tr: "dget (rt_runners rt) (cr_target_id r) = Some tr"
    using rt_inv_target [OF inv r'] dget_None_iff [of "rt_runners rt" "cr_target_id r"]
    by (cases "dget (rt_runners rt) (cr_target_id r)") simp_all
  from runner_inv_record [OF rt_inv_runner [OF inv tr], of c r] r' rt_inv_tid [OF inv tr]
  show ?thesis by simp
qed

section \<open>The completions a Runtime publishes\<close>

abbreviation completed_in :: "event list \<Rightarrow> (string \<times> string) list" where
  "completed_in es \<equiv> List.map_filter completion_of es"

lemma payload_outcome_completion [simp]: "payload_outcome (completion_payload r) = wire_outcome r"
  by (simp add: payload_outcome_def completion_payload_def wire_outcome_def opt_str_def split: option.split)

lemma map_filter_append [simp]: "List.map_filter f (xs @ ys) = List.map_filter f xs @ List.map_filter f ys"
  by (induction xs) (simp_all split: option.split)

lemma completed_in_of:
  "filter (\<lambda>p. fst p = cmd) (completed_in es) = map (\<lambda>p. (cmd, payload_outcome p)) (completions cmd es)"
proof (induction es)
  case (Cons e es)
  then show ?case by (cases "ev_command_id e") (simp_all add: completions_def completion_of_def)
qed (simp add: completions_def)

lemma completed_in_iff:
  "(cmd, out) \<in> set (completed_in es) \<longleftrightarrow> out \<in> payload_outcome ` set (completions cmd es)"
proof -
  have "(cmd, out) \<in> set (completed_in es) \<longleftrightarrow> (cmd, out) \<in> set (filter (\<lambda>p. fst p = cmd) (completed_in es))" by auto
  then show ?thesis unfolding completed_in_of by auto
qed

lemma distinct_fst:
  assumes "\<And>a. length (filter (\<lambda>p. fst p = a) ps) \<le> 1"
  shows "distinct (map fst ps)"
  using assms
proof (induction ps)
  case (Cons p ps)
  have "length (filter (\<lambda>q. fst q = a) ps) \<le> 1" for a
    using Cons.prems [of a] by (auto split: if_splits)
  moreover have "filter (\<lambda>q. fst q = fst p) ps = []"
    using Cons.prems [of "fst p"] by simp
  ultimately show ?case using Cons.IH by (auto simp: filter_empty_conv)
qed simp

text \<open>What a step adds to them: one for each record it makes terminal.\<close>

lemma step_completions:
  assumes "started rt hist" and "op_admissible p rt"
  defines "rt' \<equiv> runtime_perform p rt"
  shows "(cmd, out) \<in> set (completed_in (new_events (rt_events rt) (rt_events rt'))) \<longleftrightarrow>
      (\<exists>r. get_command cmd rt' = Some r \<and> record_end r = Some out \<and>
         (\<forall>r0. get_command cmd rt = Some r0 \<longrightarrow> record_end r0 = None))"
    and "distinct (map fst (completed_in (new_events (rt_events rt) (rt_events rt'))))"
proof -
  have good: "good_step rt rt'"
    unfolding rt'_def using startedD(1) [OF assms(1)] assms(2) by (rule good_step_perform)
  then have new: "completions c (new_events (rt_events rt) (rt_events rt')) = map completion_payload
      (newly_terminal (lg_by_command_id (rt_ledger rt)) (lg_by_command_id (rt_ledger rt')) c)" for c
    using startedD(2,3) [OF assms(1)] by (auto simp: good_step_def reports_def)
  show "(cmd, out) \<in> set (completed_in (new_events (rt_events rt) (rt_events rt'))) \<longleftrightarrow>
      (\<exists>r. get_command cmd rt' = Some r \<and> record_end r = Some out \<and>
         (\<forall>r0. get_command cmd rt = Some r0 \<longrightarrow> record_end r0 = None))"
    unfolding completed_in_iff new get_command_records
    by (cases "lg_by_command_id (rt_ledger rt') cmd"; cases "lg_by_command_id (rt_ledger rt) cmd")
      (auto simp: newly_terminal_def terminal_in_def record_end_def)
  show "distinct (map fst (completed_in (new_events (rt_events rt) (rt_events rt'))))"
    by (rule distinct_fst) (simp add: completed_in_of new newly_terminal_def split: option.split)
qed

lemma open_not_completed:
  assumes "started rt hist" and "get_command cmd rt = Some r" and "record_end r = None"
  shows "(cmd, out) \<notin> set (completed_in hist)"
proof -
  have "completions cmd hist = []"
    unfolding startedD(4) [OF assms(1)] using assms(2,3)
    by (auto simp: newly_terminal_def record_end_def get_command_records split: if_splits)
  then show ?thesis by (simp add: completed_in_iff)
qed

section \<open>The executor's view of the system\<close>

definition sys_remote :: "show_system \<Rightarrow> string \<rightharpoonup> string \<times> string option" where
  "sys_remote sy cmd =
     map_option (\<lambda>c. (cue_id c, Option.bind (record_at sy (cue_runtime c) cmd) record_end)) (sy_adopted sy cmd)"

definition sys_stream :: "show_system \<Rightarrow> string \<Rightarrow> (string \<times> string) list" where
  "sys_stream sy n = filter (\<lambda>p. fst p \<in> sy_awaited sy) (completed_in (drop (sy_cursor sy n) (sy_history sy n)))"

definition sys_abs :: "show_system \<Rightarrow> executor" where
  "sys_abs sy = (sy_exec sy)\<lparr>ex_remote := sys_remote sy, ex_streams := sys_stream sy\<rparr>"

lemma sys_abs_parts [simp]:
  "ex_tasks (sys_abs sy) = ex_tasks (sy_exec sy)"
  "ex_outcomes (sys_abs sy) = ex_outcomes (sy_exec sy)"
  "ex_pending (sys_abs sy) = ex_pending (sy_exec sy)"
  "ex_calls (sys_abs sy) = ex_calls (sy_exec sy)"
  "ex_listening (sys_abs sy) = ex_listening (sy_exec sy)"
  "ex_lost (sys_abs sy) = ex_lost (sy_exec sy)"
  "ex_remote (sys_abs sy) = sys_remote sy"
  "ex_streams (sys_abs sy) = sys_stream sy"
  "ex_start (sys_abs sy) = ex_start (sy_exec sy)"
  by (simp_all add: sys_abs_def)

lemma on_exec_parts [simp]:
  "sy_exec (on_exec f sy) = f (sy_exec sy)"
  "sy_runtimes (on_exec f sy) = sy_runtimes sy"
  "sy_history (on_exec f sy) = sy_history sy"
  "sy_cursor (on_exec f sy) = sy_cursor sy"
  "sy_inflight (on_exec f sy) = sy_inflight sy"
  "sy_adopted (on_exec f sy) = sy_adopted sy"
  "sy_awaited (on_exec f sy) = sy_awaited sy"
  "record_at (on_exec f sy) = record_at sy"
  "sys_remote (on_exec f sy) = sys_remote sy"
  "sys_stream (on_exec f sy) = sys_stream sy"
  by (simp_all add: on_exec_def record_at_def sys_remote_def sys_stream_def fun_eq_iff)

lemma answer_cue_parts [simp]:
  "sy_exec (answer_cue c a sy) = set_task (cue_id c) (Answered a) (sy_exec sy)"
  "sy_runtimes (answer_cue c a sy) = sy_runtimes sy"
  "sy_history (answer_cue c a sy) = sy_history sy"
  "sy_cursor (answer_cue c a sy) = sy_cursor sy"
  "sy_inflight (answer_cue c a sy) = (sy_inflight sy)(cue_id c := None)"
  "sy_adopted (answer_cue c a sy) = sy_adopted sy"
  "sy_awaited (answer_cue c a sy) = sy_awaited sy"
  "record_at (answer_cue c a sy) = record_at sy"
  "sys_remote (answer_cue c a sy) = sys_remote sy"
  "sys_stream (answer_cue c a sy) = sys_stream sy"
  by (simp_all add: answer_cue_def on_exec_def record_at_def sys_remote_def sys_stream_def fun_eq_iff)

text \<open>A cue whose submission has been answered stays so.\<close>

definition answered_task :: "cue_task option \<Rightarrow> bool" where
  "answered_task st \<longleftrightarrow> past_timing st \<and> st \<noteq> Some Submitting"

definition sys_inv :: "timeline \<Rightarrow> string \<Rightarrow> show_system \<Rightarrow> bool" where
  "sys_inv cues run_id sy \<longleftrightarrow>
     (\<forall>n. started (sy_runtimes sy n) (sy_history sy n)) \<and>
     (\<forall>n m cmd. record_at sy n cmd \<noteq> None \<longrightarrow> record_at sy m cmd \<noteq> None \<longrightarrow> n = m) \<and>
     (\<forall>cmd c. sy_adopted sy cmd = Some c \<longrightarrow> c \<in> set cues \<and> answered_task (ex_tasks (sy_exec sy) (cue_id c)) \<and>
        (\<exists>r. record_at sy (cue_runtime c) cmd = Some r \<and> carries (cue_request run_id [] c) r \<and>
           (cmd \<notin> sy_awaited sy \<longrightarrow> record_end r \<noteq> None))) \<and>
     (\<forall>cid cmd. sy_inflight sy cid = Some cmd \<longrightarrow> ex_tasks (sy_exec sy) cid = Some Submitting \<and>
        (\<exists>c \<in> set cues. cue_id c = cid \<and>
           (\<exists>r. record_at sy (cue_runtime c) cmd = Some r \<and> carries (cue_request run_id [] c) r))) \<and>
     sy_awaited sy \<subseteq> dom (sy_adopted sy) \<and>
     dom (ex_pending (sy_exec sy)) \<subseteq> sy_awaited sy \<and>
     (\<forall>cid cmd. ex_tasks (sy_exec sy) cid = Some (Answered (Submit_open cmd)) \<longrightarrow> cmd \<in> sy_awaited sy) \<and>
     (\<forall>n. sy_cursor sy n \<le> length (sy_history sy n))"

lemma sys_invD:
  assumes "sys_inv cues run_id sy"
  shows "started (sy_runtimes sy n) (sy_history sy n)"
    and "record_at sy n cmd \<noteq> None \<Longrightarrow> record_at sy m cmd \<noteq> None \<Longrightarrow> n = m"
    and "sy_adopted sy cmd = Some c \<Longrightarrow> c \<in> set cues \<and> answered_task (ex_tasks (sy_exec sy) (cue_id c)) \<and>
        (\<exists>r. record_at sy (cue_runtime c) cmd = Some r \<and> carries (cue_request run_id [] c) r \<and>
           (cmd \<notin> sy_awaited sy \<longrightarrow> record_end r \<noteq> None))"
    and "sy_inflight sy cid = Some cmd \<Longrightarrow> ex_tasks (sy_exec sy) cid = Some Submitting \<and>
        (\<exists>c \<in> set cues. cue_id c = cid \<and>
           (\<exists>r. record_at sy (cue_runtime c) cmd = Some r \<and> carries (cue_request run_id [] c) r))"
    and "sy_awaited sy \<subseteq> dom (sy_adopted sy)"
    and "dom (ex_pending (sy_exec sy)) \<subseteq> sy_awaited sy"
    and "ex_tasks (sy_exec sy) cid = Some (Answered (Submit_open cmd)) \<Longrightarrow> cmd \<in> sy_awaited sy"
    and "sy_cursor sy n \<le> length (sy_history sy n)"
  using assms unfolding sys_inv_def by blast+

text \<open>What one step of the system is for the executor: nothing, or steps of its own.\<close>

definition simulates :: "timeline \<Rightarrow> string \<Rightarrow> show_system \<Rightarrow> show_system \<Rightarrow> bool" where
  "simulates cues run_id sy sy' \<longleftrightarrow> exec_run cues (sys_abs sy) (sys_abs sy') \<and> sys_inv cues run_id sy'"

lemma exec_run_one: "exec_possible cues p ex \<Longrightarrow> exec_run cues ex (exec_perform cues p ex)"
  by (rule exec_step [OF exec_refl])

subsection \<open>The executor's own segments\<close>

lemma own_segment_commutes:
  assumes "own_segment p"
  shows "exec_perform cues p (sys_abs sy) = sys_abs (on_exec (exec_perform cues p) sy)"
  using assms
  by (cases p) (auto simp: segment_defs sys_abs_def set_task_def finish_cue_def cue_deadline_def split: segment_splits cong: if_cong)

lemma own_segment_possible:
  "own_segment p \<Longrightarrow> exec_possible cues p (sy_exec sy) = exec_possible cues p (sys_abs sy)"
  by (cases p) (simp_all add: run_ended_def)

lemma own_segment_tasks:
  assumes "own_segment p"
  shows "ex_tasks ex cid = Some Submitting \<Longrightarrow> ex_tasks (exec_perform cues p ex) cid = Some Submitting"
    and "answered_task (ex_tasks ex cid) \<Longrightarrow> answered_task (ex_tasks (exec_perform cues p ex) cid)"
    and "ex_tasks (exec_perform cues p ex) cid = Some (Answered a) \<Longrightarrow> ex_tasks ex cid = Some (Answered a)"
  using assms
  by (cases p; auto simp: segment_defs answered_task_def split: segment_splits if_splits)+

lemma own_segment_pending:
  assumes "own_segment p" and "dom (ex_pending ex) \<subseteq> A"
    and "\<And>cid cmd. ex_tasks ex cid = Some (Answered (Submit_open cmd)) \<Longrightarrow> cmd \<in> A"
  shows "dom (ex_pending (exec_perform cues p ex)) \<subseteq> A"
  using assms
  by (cases p) (auto simp: segment_defs split: segment_splits)

lemma sys_inv_on_exec:
  assumes inv: "sys_inv cues run_id sy"
    and sub: "\<And>cid. ex_tasks (sy_exec sy) cid = Some Submitting \<Longrightarrow> ex_tasks (f (sy_exec sy)) cid = Some Submitting"
    and ans: "\<And>cid. answered_task (ex_tasks (sy_exec sy) cid) \<Longrightarrow> answered_task (ex_tasks (f (sy_exec sy)) cid)"
    and pend: "dom (ex_pending (f (sy_exec sy))) \<subseteq> sy_awaited sy"
    and opn: "\<And>cid cmd. ex_tasks (f (sy_exec sy)) cid = Some (Answered (Submit_open cmd)) \<Longrightarrow> cmd \<in> sy_awaited sy"
  shows "sys_inv cues run_id (on_exec f sy)"
  unfolding sys_inv_def on_exec_parts
proof (intro conjI allI impI)
  show "started (sy_runtimes sy n) (sy_history sy n)" for n using sys_invD(1) [OF inv] .
  show "n = m" if "record_at sy n cmd \<noteq> None" "record_at sy m cmd \<noteq> None" for n m cmd
    using sys_invD(2) [OF inv that] .
  fix cmd c assume c: "sy_adopted sy cmd = Some c"
  note * = sys_invD(3) [OF inv c]
  show "c \<in> set cues" "answered_task (ex_tasks (f (sy_exec sy)) (cue_id c))" using * ans by blast+
  show "\<exists>r. record_at sy (cue_runtime c) cmd = Some r \<and> carries (cue_request run_id [] c) r \<and>
      (cmd \<notin> sy_awaited sy \<longrightarrow> record_end r \<noteq> None)" using * by blast
next
  fix cid cmd assume c: "sy_inflight sy cid = Some cmd"
  note * = sys_invD(4) [OF inv c]
  show "ex_tasks (f (sy_exec sy)) cid = Some Submitting" using * sub by blast
  show "\<exists>c\<in>set cues. cue_id c = cid \<and>
      (\<exists>r. record_at sy (cue_runtime c) cmd = Some r \<and> carries (cue_request run_id [] c) r)" using * by blast
qed (use sys_invD(5,8) [OF inv] pend opn in blast)+

lemma simulates_exec:
  assumes inv: "sys_inv cues run_id sy" and p: "own_segment p" "exec_possible cues p (sy_exec sy)"
  shows "simulates cues run_id sy (on_exec (exec_perform cues p) sy)"
proof -
  have "exec_run cues (sys_abs sy) (sys_abs (on_exec (exec_perform cues p) sy))"
    using p exec_run_one [of cues p "sys_abs sy"] by (simp add: own_segment_commutes own_segment_possible)
  moreover have "sys_inv cues run_id (on_exec (exec_perform cues p) sy)"
  proof (rule sys_inv_on_exec [OF inv])
    show "dom (ex_pending (exec_perform cues p (sy_exec sy))) \<subseteq> sy_awaited sy"
      using p(1) sys_invD(6,7) [OF inv] by (rule own_segment_pending)
    show "cmd \<in> sy_awaited sy" if "ex_tasks (exec_perform cues p (sy_exec sy)) cid = Some (Answered (Submit_open cmd))"
      for cid cmd using sys_invD(7) [OF inv] own_segment_tasks(3) [OF p(1) that] by blast
  qed (use own_segment_tasks [OF p(1)] in blast)+
  ultimately show ?thesis by (simp add: simulates_def)
qed

subsection \<open>The Runtimes' operations\<close>

lemma on_runtime_parts [simp]:
  "sy_exec (on_runtime n p sy) = sy_exec sy"
  "sy_cursor (on_runtime n p sy) = sy_cursor sy"
  "sy_inflight (on_runtime n p sy) = sy_inflight sy"
  "sy_adopted (on_runtime n p sy) = sy_adopted sy"
  "sy_awaited (on_runtime n p sy) = sy_awaited sy"
  "sy_runtimes (on_runtime n p sy) = (sy_runtimes sy)(n := runtime_perform p (sy_runtimes sy n))"
  "sy_history (on_runtime n p sy) = (sy_history sy)(n := sy_history sy n @
     new_events (rt_events (sy_runtimes sy n)) (rt_events (runtime_perform p (sy_runtimes sy n))))"
  by (simp_all add: on_runtime_def Let_def)

definition runtime_op_possible :: "string \<Rightarrow> runtime_op \<Rightarrow> show_system \<Rightarrow> bool" where
  "runtime_op_possible n p sy \<longleftrightarrow> op_admissible p (sy_runtimes sy n) \<and>
     (\<forall>cmd. op_command p = Some cmd \<longrightarrow> fresh_command cmd sy)"

lemma on_runtime_record:
  assumes inv: "sys_inv cues run_id sy" and p: "runtime_op_possible n p sy" and r: "record_at sy m cmd = Some r"
  shows "\<exists>r'. record_at (on_runtime n p sy) m cmd = Some r' \<and> record_kept r r'"
proof (cases "m = n")
  case True
  have "rt_inv (sy_runtimes sy n)" using startedD(1) [OF sys_invD(1) [OF inv]] .
  moreover from this have "follows (sy_runtimes sy n) (runtime_perform p (sy_runtimes sy n))"
    using p good_step_perform by (simp add: runtime_op_possible_def good_step_def)
  ultimately show ?thesis using record_kept_step r True by (simp add: record_at_def)
qed (use r in \<open>simp add: record_at_def record_kept_def\<close>)

lemma on_runtime_new_record:
  assumes inv: "sys_inv cues run_id sy" and "record_at (on_runtime n p sy) m cmd \<noteq> None"
  shows "record_at sy m cmd \<noteq> None \<or> m = n \<and> op_command p = Some cmd"
proof (cases "m = n")
  case True
  show ?thesis
  proof (rule ccontr)
    assume "\<not> ?thesis"
    with True have "get_command cmd (sy_runtimes sy n) = None" "op_command p \<noteq> Some cmd"
      by (simp_all add: record_at_def)
    from perform_no_new [OF startedD(1) [OF sys_invD(1) [OF inv]] this] assms(2) True show False
      by (simp add: record_at_def)
  qed
qed (use assms(2) in \<open>simp add: record_at_def\<close>)

lemma sys_inv_on_runtime:
  assumes inv: "sys_inv cues run_id sy" and p: "runtime_op_possible n p sy"
  shows "sys_inv cues run_id (on_runtime n p sy)"
proof -
  note keep = on_runtime_record [OF inv p]
  have kept: "\<exists>r'. record_at (on_runtime n p sy) m cmd = Some r' \<and> carries req r' \<and>
      (record_end r \<noteq> None \<longrightarrow> record_end r' \<noteq> None)"
    if "record_at sy m cmd = Some r" "carries req r" for m cmd r req
    using keep [OF that(1)] carries_kept [OF that(2)]
    by (force simp: record_kept_def record_end_def split: if_splits)
  show ?thesis
    unfolding sys_inv_def
  proof (intro conjI allI impI)
    show "started (sy_runtimes (on_runtime n p sy) m) (sy_history (on_runtime n p sy) m)" for m
      using started_step [OF sys_invD(1) [OF inv], of p n] sys_invD(1) [OF inv, of m] p
      by (auto simp: runtime_op_possible_def)
    show "m = k" if "record_at (on_runtime n p sy) m cmd \<noteq> None" "record_at (on_runtime n p sy) k cmd \<noteq> None" for m k cmd
      using on_runtime_new_record [OF inv that(1)] on_runtime_new_record [OF inv that(2)] sys_invD(2) [OF inv, of m cmd k] p
      by (auto simp: runtime_op_possible_def fresh_command_def)
    fix cmd c assume c: "sy_adopted (on_runtime n p sy) cmd = Some c"
    then have *: "sy_adopted sy cmd = Some c" by simp
    note d = sys_invD(3) [OF inv *]
    show "c \<in> set cues" "answered_task (ex_tasks (sy_exec (on_runtime n p sy)) (cue_id c))" using d by simp_all
    from d obtain r where r: "record_at sy (cue_runtime c) cmd = Some r" "carries (cue_request run_id [] c) r"
      "cmd \<notin> sy_awaited sy \<longrightarrow> record_end r \<noteq> None" by blast
    from kept [OF r(1,2)] r(3) show "\<exists>r. record_at (on_runtime n p sy) (cue_runtime c) cmd = Some r \<and>
        carries (cue_request run_id [] c) r \<and> (cmd \<notin> sy_awaited (on_runtime n p sy) \<longrightarrow> record_end r \<noteq> None)" by auto
  next
    fix cid cmd assume c: "sy_inflight (on_runtime n p sy) cid = Some cmd"
    then have *: "sy_inflight sy cid = Some cmd" by simp
    note d = sys_invD(4) [OF inv *]
    show "ex_tasks (sy_exec (on_runtime n p sy)) cid = Some Submitting" using d by simp
    from d obtain c r where c: "c \<in> set cues" "cue_id c = cid"
      and r: "record_at sy (cue_runtime c) cmd = Some r" "carries (cue_request run_id [] c) r" by blast
    from kept [OF r] c show "\<exists>c\<in>set cues. cue_id c = cid \<and> (\<exists>r. record_at (on_runtime n p sy) (cue_runtime c) cmd = Some r \<and>
        carries (cue_request run_id [] c) r)" by blast
  qed (use sys_invD(5-8) [OF inv] in \<open>simp_all add: trans_le_add1\<close>)
qed

text \<open>A step of a Runtime is, for the executor, the completions of the commands it waits for.\<close>

definition complete_all :: "string \<Rightarrow> (string \<times> string) list \<Rightarrow> executor \<Rightarrow> executor" where
  "complete_all n ps ex = fold (\<lambda>(cmd, out). complete n cmd out) ps ex"

lemma complete_all_sel:
  assumes "distinct (map fst ps)"
  shows "complete_all n ps ex = ex\<lparr>
     ex_remote := (\<lambda>cmd. case map_of ps cmd of None \<Rightarrow> ex_remote ex cmd
        | Some out \<Rightarrow> map_option (\<lambda>(cid, _). (cid, Some out)) (ex_remote ex cmd)),
     ex_streams := (ex_streams ex)(n := ex_streams ex n @ ps)\<rparr>"
  using assms
proof (induction ps arbitrary: ex)
  case (Cons p ps)
  obtain cmd out where p: "p = (cmd, out)" by (cases p)
  have notin: "map_of ps cmd = None" using Cons.prems p by (simp add: map_of_eq_None_iff)
  have "complete_all n (p # ps) ex = complete_all n ps (complete n cmd out ex)"
    by (simp add: complete_all_def p)
  also have "\<dots> = ex\<lparr>
     ex_remote := (\<lambda>d. case map_of (p # ps) d of None \<Rightarrow> ex_remote ex d
        | Some out \<Rightarrow> map_option (\<lambda>(cid, _). (cid, Some out)) (ex_remote ex d)),
     ex_streams := (ex_streams ex)(n := ex_streams ex n @ p # ps)\<rparr>"
    using Cons.prems notin by (subst Cons.IH) (auto simp: complete_def p fun_eq_iff split: option.split)
  finally show ?case .
qed (simp add: complete_all_def)

lemma complete_all_run:
  assumes "distinct (map fst ps)"
    and "\<And>cmd out. (cmd, out) \<in> set ps \<Longrightarrow> \<exists>c \<in> set cues. cue_runtime c = n \<and> ex_remote ex cmd = Some (cue_id c, None)"
  shows "exec_run cues ex (complete_all n ps ex)"
  using assms
proof (induction ps arbitrary: ex)
  case Nil
  then show ?case by (simp add: complete_all_def exec_refl)
next
  case (Cons p ps)
  obtain cmd out where p: "p = (cmd, out)" by (cases p)
  with Cons.prems(2) [of cmd out] obtain c where c: "c \<in> set cues" "cue_runtime c = n" "ex_remote ex cmd = Some (cue_id c, None)"
    by auto
  then have one: "exec_run cues ex (complete n cmd out ex)"
    using exec_run_one [of cues "Ex_complete c cmd out" ex] by simp
  have "exec_run cues (complete n cmd out ex) (complete_all n ps (complete n cmd out ex))"
  proof (rule Cons.IH)
    show "distinct (map fst ps)" using Cons.prems(1) by simp
    fix cmd' out' assume "(cmd', out') \<in> set ps"
    then have "cmd' \<noteq> cmd" using Cons.prems(1) p by (auto simp: rev_image_eqI)
    moreover obtain c' where "c' \<in> set cues" "cue_runtime c' = n" "ex_remote ex cmd' = Some (cue_id c', None)"
      using Cons.prems(2) [of cmd' out'] \<open>(cmd', out') \<in> set ps\<close> by auto
    ultimately show "\<exists>c \<in> set cues. cue_runtime c = n \<and> ex_remote (complete n cmd out ex) cmd' = Some (cue_id c, None)"
      by (auto simp: complete_def)
  qed
  with one show ?case by (simp add: complete_all_def p) (blast intro: exec_run_trans)
qed

lemma record_end_kept: "record_kept r r' \<Longrightarrow> record_end r \<noteq> None \<Longrightarrow> r' = r"
  by (simp add: record_kept_def record_end_def split: if_splits)

text \<open>The completions a step of Runtime \<open>n\<close> adds, and those of commands the executor waits for.\<close>

definition step_completed :: "string \<Rightarrow> runtime_op \<Rightarrow> show_system \<Rightarrow> (string \<times> string) list" where
  "step_completed n p sy =
     completed_in (new_events (rt_events (sy_runtimes sy n)) (rt_events (runtime_perform p (sy_runtimes sy n))))"

abbreviation awaited_completed :: "string \<Rightarrow> runtime_op \<Rightarrow> show_system \<Rightarrow> (string \<times> string) list" where
  "awaited_completed n p sy \<equiv> filter (\<lambda>q. fst q \<in> sy_awaited sy) (step_completed n p sy)"

lemma step_completed_iff:
  assumes inv: "sys_inv cues run_id sy" and p: "runtime_op_possible n p sy"
  shows "(cmd, out) \<in> set (step_completed n p sy) \<longleftrightarrow>
      (\<exists>r. record_at (on_runtime n p sy) n cmd = Some r \<and> record_end r = Some out \<and>
        (\<forall>r0. record_at sy n cmd = Some r0 \<longrightarrow> record_end r0 = None))"
    and "distinct (map fst (awaited_completed n p sy))"
proof -
  have st: "started (sy_runtimes sy n) (sy_history sy n)" and adm: "op_admissible p (sy_runtimes sy n)"
    using sys_invD(1) [OF inv] p by (simp_all add: runtime_op_possible_def)
  show "(cmd, out) \<in> set (step_completed n p sy) \<longleftrightarrow>
      (\<exists>r. record_at (on_runtime n p sy) n cmd = Some r \<and> record_end r = Some out \<and>
        (\<forall>r0. record_at sy n cmd = Some r0 \<longrightarrow> record_end r0 = None))"
    unfolding step_completed_def step_completions(1) [OF st adm] by (simp add: record_at_def)
  show "distinct (map fst (awaited_completed n p sy))"
    using step_completions(2) [OF st adm] unfolding step_completed_def by (rule distinct_map_filter)
qed

lemma awaited_completed_cue:
  assumes inv: "sys_inv cues run_id sy" and p: "runtime_op_possible n p sy"
    and q: "(cmd, out) \<in> set (awaited_completed n p sy)"
  shows "\<exists>c \<in> set cues. sy_adopted sy cmd = Some c \<and> cue_runtime c = n \<and>
    (\<exists>r0. record_at sy n cmd = Some r0 \<and> record_end r0 = None)"
proof -
  from q have aw: "cmd \<in> sy_awaited sy" and q': "(cmd, out) \<in> set (step_completed n p sy)" by auto
  then obtain c where c: "sy_adopted sy cmd = Some c" using sys_invD(5) [OF inv] by auto
  from sys_invD(3) [OF inv c] obtain r0 where r0: "c \<in> set cues" "record_at sy (cue_runtime c) cmd = Some r0" by blast
  from q' obtain r where r: "record_at (on_runtime n p sy) n cmd = Some r"
    unfolding step_completed_iff(1) [OF inv p] by blast
  from on_runtime_record [OF inv p r0(2)] obtain r1 where
    "record_at (on_runtime n p sy) (cue_runtime c) cmd = Some r1" by blast
  with r have "cue_runtime c = n"
    using sys_invD(2) [OF sys_inv_on_runtime [OF inv p], of "cue_runtime c" cmd n] by auto
  with c r0 q' show ?thesis unfolding step_completed_iff(1) [OF inv p] by auto
qed

lemma on_runtime_remote:
  assumes inv: "sys_inv cues run_id sy" and p: "runtime_op_possible n p sy"
  shows "(case map_of (awaited_completed n p sy) cmd of None \<Rightarrow> sys_remote sy cmd
      | Some out \<Rightarrow> map_option (\<lambda>(cid, _). (cid, Some out)) (sys_remote sy cmd)) = sys_remote (on_runtime n p sy) cmd"
proof (cases "sy_adopted sy cmd")
  case None
  then show ?thesis by (simp add: sys_remote_def split: option.split)
next
  case ad: (Some c)
  from sys_invD(3) [OF inv ad] obtain r where
    r: "record_at sy (cue_runtime c) cmd = Some r" "cmd \<notin> sy_awaited sy \<longrightarrow> record_end r \<noteq> None" by blast
  from on_runtime_record [OF inv p r(1)] obtain r' where
    r': "record_at (on_runtime n p sy) (cue_runtime c) cmd = Some r'" "record_kept r r'" by blast
  show ?thesis
  proof (cases "map_of (awaited_completed n p sy) cmd")
    case (Some out)
    then have q: "(cmd, out) \<in> set (awaited_completed n p sy)" by (rule map_of_SomeD)
    from awaited_completed_cue [OF inv p q] ad have "cue_runtime c = n" by auto
    moreover from q have "(cmd, out) \<in> set (step_completed n p sy)" by simp
    ultimately have "record_end r' = Some out" using r'(1) unfolding step_completed_iff(1) [OF inv p] by auto
    with ad Some r' show ?thesis by (simp add: sys_remote_def)
  next
    case None
    have "record_end r' = record_end r"
    proof (cases "record_end r = None \<and> cue_runtime c = n")
      case True
      have "(cmd, out) \<notin> set (step_completed n p sy)" for out
        using None r(2) True by (force simp: map_of_eq_None_iff)
      with r r' True show ?thesis unfolding step_completed_iff(1) [OF inv p] by (cases "record_end r'") auto
    next
      case False
      with record_end_kept [OF r'(2)] r r' show ?thesis by (auto simp: record_at_def)
    qed
    with ad None r r' show ?thesis by (simp add: sys_remote_def)
  qed
qed

lemma simulates_runtime:
  assumes inv: "sys_inv cues run_id sy" and p: "runtime_op_possible n p sy"
  shows "simulates cues run_id sy (on_runtime n p sy)"
proof -
  let ?sy = "on_runtime n p sy" and ?ps = "awaited_completed n p sy"
  have "exec_run cues (sys_abs sy) (complete_all n ?ps (sys_abs sy))"
    using step_completed_iff(2) [OF inv p]
    by (rule complete_all_run) (use awaited_completed_cue [OF inv p] in \<open>fastforce simp: sys_remote_def\<close>)
  moreover have "complete_all n ?ps (sys_abs sy) = sys_abs ?sy"
  proof -
    have "sys_stream ?sy = (sys_stream sy)(n := sys_stream sy n @ ?ps)"
      using sys_invD(8) [OF inv, of n] by (auto simp: sys_stream_def step_completed_def fun_eq_iff)
    moreover have "(\<lambda>cmd. case map_of ?ps cmd of None \<Rightarrow> sys_remote sy cmd
        | Some out \<Rightarrow> map_option (\<lambda>(cid, _). (cid, Some out)) (sys_remote sy cmd)) = sys_remote ?sy"
      using on_runtime_remote [OF inv p] by (rule ext)
    ultimately show ?thesis
      unfolding complete_all_sel [OF step_completed_iff(2) [OF inv p]] sys_abs_parts by (simp add: sys_abs_def)
  qed
  ultimately show ?thesis using sys_inv_on_runtime [OF inv p] by (simp add: simulates_def)
qed

subsection \<open>Answers to submissions\<close>

text \<open>A command that has not been answered yet, and carries the request of a cue still submitting, is nobody else's.\<close>

lemma not_adopted:
  assumes inv: "sys_inv cues run_id sy" and uniq: "distinct (map cue_id cues)" and c: "c \<in> set cues"
    and st: "ex_tasks (sy_exec sy) (cue_id c) = Some Submitting"
    and r: "record_at sy (cue_runtime c) cmd = Some r" "carries (cue_request run_id [] c) r"
  shows "sy_adopted sy cmd = None"
proof (cases "sy_adopted sy cmd")
  case (Some c')
  from sys_invD(3) [OF inv Some] obtain r' where c': "c' \<in> set cues" "answered_task (ex_tasks (sy_exec sy) (cue_id c'))"
    and r': "record_at sy (cue_runtime c') cmd = Some r'" "carries (cue_request run_id [] c') r'" by blast
  have "cue_runtime c' = cue_runtime c"
    using sys_invD(2) [OF inv, of "cue_runtime c'" cmd "cue_runtime c"] r r' by simp
  with r r' have "cue_id c' = cue_id c"
    by (simp add: carries_def cue_request_def cue_request_id_def)
  with c'(2) st show ?thesis by (simp add: answered_task_def)
qed simp

lemma cue_request_session: "carries (cue_request run_id s c) r = carries (cue_request run_id s' c) r"
  by (simp add: carries_def cue_request_def fingerprint_def)

lemma sys_inv_answer_error:
  assumes inv: "sys_inv cues run_id sy" and "ex_tasks (sy_exec sy) (cue_id c) = Some Submitting"
    and a: "\<And>cmd. a \<noteq> Submit_open cmd"
  shows "sys_inv cues run_id (answer_cue c a sy)"
  unfolding sys_inv_def answer_cue_parts executor_parts
proof (intro conjI allI impI)
  show "n = m" if "record_at sy n cmd \<noteq> None" "record_at sy m cmd \<noteq> None" for n m cmd
    using sys_invD(2) [OF inv that] .
  fix cmd d assume "sy_adopted sy cmd = Some d"
  note * = sys_invD(3) [OF inv this]
  show "d \<in> set cues" and "\<exists>r. record_at sy (cue_runtime d) cmd = Some r \<and> carries (cue_request run_id [] d) r \<and>
      (cmd \<notin> sy_awaited sy \<longrightarrow> record_end r \<noteq> None)" using * by blast+
  show "answered_task (((ex_tasks (sy_exec sy))(cue_id c \<mapsto> Answered a)) (cue_id d))"
    using * by (simp add: answered_task_def)
next
  fix cid cmd assume i: "((sy_inflight sy)(cue_id c := None)) cid = Some cmd"
  then have ne: "cid \<noteq> cue_id c" and "sy_inflight sy cid = Some cmd" by (auto split: if_splits)
  note * = sys_invD(4) [OF inv this(2)]
  show "((ex_tasks (sy_exec sy))(cue_id c \<mapsto> Answered a)) cid = Some Submitting" using * ne by simp
  show "\<exists>d\<in>set cues. cue_id d = cid \<and> (\<exists>r. record_at sy (cue_runtime d) cmd = Some r \<and>
      carries (cue_request run_id [] d) r)" using * by blast
next
  fix cid cmd assume "((ex_tasks (sy_exec sy))(cue_id c \<mapsto> Answered a)) cid = Some (Answered (Submit_open cmd))"
  with a have "ex_tasks (sy_exec sy) cid = Some (Answered (Submit_open cmd))" by (auto split: if_splits)
  then show "cmd \<in> sy_awaited sy" by (rule sys_invD(7) [OF inv])
qed (use sys_invD(1,5,6,8) [OF inv] in simp_all)

lemma simulates_answer_error:
  assumes inv: "sys_inv cues run_id sy" and c: "c \<in> set cues" and st: "ex_tasks (sy_exec sy) (cue_id c) = Some Submitting"
    and a: "a = Submit_crashed \<or> (\<exists>m. a = Submit_error m)"
  shows "simulates cues run_id sy (answer_cue c a sy)"
proof -
  have "exec_possible cues (Ex_remote_submit c a) (sys_abs sy)" using c st a by auto
  moreover have "exec_perform cues (Ex_remote_submit c a) (sys_abs sy) = sys_abs (answer_cue c a sy)"
    using a by (auto simp: remote_submit_def sys_abs_def set_task_def)
  ultimately have "exec_run cues (sys_abs sy) (sys_abs (answer_cue c a sy))" using exec_run_one by metis
  moreover have "\<And>cmd. a \<noteq> Submit_open cmd" using a by auto
  ultimately show ?thesis using sys_inv_answer_error [OF inv st] by (simp add: simulates_def)
qed

lemma name_command_parts [simp]:
  "sy_exec (name_command c cmd op sy) = sy_exec sy"
  "sy_runtimes (name_command c cmd op sy) = sy_runtimes sy"
  "sy_history (name_command c cmd op sy) = sy_history sy"
  "sy_cursor (name_command c cmd op sy) = sy_cursor sy"
  "sy_inflight (name_command c cmd op sy) = sy_inflight sy"
  "sy_adopted (name_command c cmd op sy) = (sy_adopted sy)(cmd \<mapsto> c)"
  "sy_awaited (name_command c cmd op sy) = (if op then insert cmd (sy_awaited sy) else sy_awaited sy)"
  "record_at (name_command c cmd op sy) = record_at sy"
  by (simp_all add: name_command_def record_at_def fun_eq_iff)

lemma adopt_known:
  assumes "record_at sy (cue_runtime c) cmd = Some r"
  shows "adopt c cmd sy = answer_cue c (record_answer cmd (Some r)) (name_command c cmd (record_end r = None) sy)"
  using assms by (simp add: adopt_def record_answer_def Let_def split: option.split)

lemma not_in_history:
  assumes inv: "sys_inv cues run_id sy" and r: "record_at sy m cmd = Some r" "record_end r = None"
  shows "(cmd, out) \<notin> set (completed_in (drop k (sy_history sy n)))"
proof -
  have "(cmd, out) \<notin> set (completed_in (sy_history sy n))"
  proof (cases "record_at sy n cmd")
    case None
    then have "completions cmd (sy_history sy n) = []"
      using startedD(4) [OF sys_invD(1) [OF inv, of n], of cmd]
      by (simp add: newly_terminal_def record_at_def get_command_records)
    then show ?thesis by (simp add: completed_in_iff)
  next
    case (Some r')
    with sys_invD(2) [OF inv, of n cmd m] r have "n = m" by simp
    with r show ?thesis
      using open_not_completed [OF sys_invD(1) [OF inv]] by (simp add: record_at_def)
  qed
  then show ?thesis
    using append_take_drop_id [of k "sy_history sy n"] by (metis Un_iff map_filter_append set_append)
qed

lemma sys_inv_adopt:
  assumes inv: "sys_inv cues run_id sy" and c: "c \<in> set cues"
    and st: "ex_tasks (sy_exec sy) (cue_id c) = Some Submitting"
    and r: "record_at sy (cue_runtime c) cmd = Some r" "carries (cue_request run_id [] c) r"
  shows "sys_inv cues run_id (adopt c cmd sy)"
  unfolding sys_inv_def adopt_known [OF r(1)] answer_cue_parts name_command_parts executor_parts
proof (intro conjI allI impI)
  let ?a = "record_answer cmd (Some r)"
  let ?aw = "if record_end r = None then insert cmd (sy_awaited sy) else sy_awaited sy"
  let ?t = "(ex_tasks (sy_exec sy))(cue_id c \<mapsto> Answered ?a)"
  show "n = m" if "record_at sy n d \<noteq> None" "record_at sy m d \<noteq> None" for n m d
    using sys_invD(2) [OF inv that] .
  fix d e assume ad: "((sy_adopted sy)(cmd \<mapsto> c)) d = Some e"
  have "e \<in> set cues \<and> answered_task (?t (cue_id e)) \<and>
      (\<exists>r'. record_at sy (cue_runtime e) d = Some r' \<and> carries (cue_request run_id [] e) r' \<and>
         (d \<notin> ?aw \<longrightarrow> record_end r' \<noteq> None))"
  proof (cases "d = cmd")
    case True
    with ad c r show ?thesis by (auto simp: answered_task_def)
  next
    case False
    with ad have "sy_adopted sy d = Some e" by simp
    from sys_invD(3) [OF inv this] show ?thesis by (auto simp: answered_task_def)
  qed
  then show "e \<in> set cues" and "answered_task (?t (cue_id e))"
    and "\<exists>r'. record_at sy (cue_runtime e) d = Some r' \<and> carries (cue_request run_id [] e) r' \<and>
      (d \<notin> ?aw \<longrightarrow> record_end r' \<noteq> None)" by simp_all
next
  let ?a = "record_answer cmd (Some r)"
  let ?t = "(ex_tasks (sy_exec sy))(cue_id c \<mapsto> Answered ?a)"
  fix cid d assume i: "((sy_inflight sy)(cue_id c := None)) cid = Some d"
  then have ne: "cid \<noteq> cue_id c" and "sy_inflight sy cid = Some d" by (auto split: if_splits)
  note * = sys_invD(4) [OF inv this(2)]
  show "?t cid = Some Submitting" using * ne by simp
  show "\<exists>e\<in>set cues. cue_id e = cid \<and> (\<exists>r. record_at sy (cue_runtime e) d = Some r \<and>
    carries (cue_request run_id [] e) r)" using * by blast
next
  fix cid d assume "((ex_tasks (sy_exec sy))(cue_id c \<mapsto> Answered (record_answer cmd (Some r)))) cid =
    Some (Answered (Submit_open d))"
  then show "d \<in> (if record_end r = None then insert cmd (sy_awaited sy) else sy_awaited sy)"
    using sys_invD(7) [OF inv, of cid d] by (auto simp: record_answer_def split: if_splits option.splits)
qed (use sys_invD(1,5,6,8) [OF inv] in \<open>auto simp: subset_iff\<close>)

lemma simulates_adopt:
  assumes inv: "sys_inv cues run_id sy" and uniq: "distinct (map cue_id cues)" and c: "c \<in> set cues"
    and st: "ex_tasks (sy_exec sy) (cue_id c) = Some Submitting"
    and r: "record_at sy (cue_runtime c) cmd = Some r" "carries (cue_request run_id [] c) r"
  shows "simulates cues run_id sy (adopt c cmd sy)"
proof -
  let ?a = "record_answer cmd (Some r)" and ?sy = "adopt c cmd sy"
  have none: "sy_adopted sy cmd = None" by (rule not_adopted [OF assms])
  have remote: "sys_remote ?sy = (sys_remote sy)(cmd \<mapsto> (cue_id c, record_end r))"
    by (simp add: adopt_known [OF r(1)]) (simp add: sys_remote_def r(1) fun_eq_iff)
  have "sys_stream (name_command c cmd (record_end r = None) sy) = sys_stream sy"
    using not_in_history [OF inv r(1)] by (auto simp: sys_stream_def fun_eq_iff intro!: filter_cong)
  then have stream: "sys_stream ?sy = sys_stream sy" by (simp add: adopt_known [OF r(1)])
  have "exec_possible cues (Ex_remote_submit c ?a) (sys_abs sy)"
    using c st none by (auto simp: record_answer_def sys_remote_def split: option.split)
  moreover have "exec_perform cues (Ex_remote_submit c ?a) (sys_abs sy) = sys_abs ?sy"
    unfolding sys_abs_def [of ?sy] remote stream
    by (auto simp: remote_submit_def record_answer_def sys_abs_def set_task_def adopt_known [OF r(1)] split: option.split)
  ultimately have "exec_run cues (sys_abs sy) (sys_abs ?sy)" using exec_run_one by metis
  with sys_inv_adopt [OF inv c st r] show ?thesis by (simp add: simulates_def)
qed

subsection \<open>The steps\<close>

lemma simulates_trans: "simulates cues run_id sy1 sy2 \<Longrightarrow> simulates cues run_id sy2 sy3 \<Longrightarrow> simulates cues run_id sy1 sy3"
  by (auto simp: simulates_def intro: exec_run_trans)

lemma simulates_stutter: "sys_inv cues run_id sy \<Longrightarrow> simulates cues run_id sy sy"
  by (simp add: simulates_def exec_refl)

lemma simulates_submit:
  assumes inv: "sys_inv cues run_id sy" and uniq: "distinct (map cue_id cues)"
    and poss: "sys_possible cues (Sys_submit c session env new_id now wall) sy"
  shows "simulates cues run_id sy (submit_cue run_id session c env new_id now wall sy)"
proof -
  let ?n = "cue_runtime c" and ?req = "cue_request run_id session c"
  let ?p = "Rt_submit env new_id now wall ?req" and ?rt = "sy_runtimes sy (cue_runtime c)"
  let ?sy = "on_runtime ?n ?p sy" and ?res = "submit_command env new_id now wall ?req ?rt"
  have c: "c \<in> set cues" and st: "ex_tasks (sy_exec sy) (cue_id c) = Some Submitting"
    and fresh: "fresh_command new_id sy" using poss by simp_all
  have fresh': "get_command new_id ?rt = None" using fresh by (simp add: fresh_command_def record_at_def)
  then have "runtime_op_possible ?n ?p sy"
    using fresh by (simp add: runtime_op_possible_def get_command_records)
  from simulates_runtime [OF inv this] have sim: "simulates cues run_id sy ?sy" .
  then have inv': "sys_inv cues run_id ?sy" by (simp add: simulates_def)
  have st': "ex_tasks (sy_exec ?sy) (cue_id c) = Some Submitting" using st by simp
  have rec: "\<exists>r. record_at ?sy ?n cmd = Some r \<and> carries (cue_request run_id [] c) r"
    if "fst ?res \<in> {Inr (Returned cmd), Inr (Suspended cmd)}" for cmd
    using submitted_record [OF startedD(1) [OF sys_invD(1) [OF inv]] fresh' that]
    by (simp add: record_at_def cue_request_session [where s = session and s' = "[]"])
  show ?thesis
  proof (cases "fst ?res")
    case (Inl e)
    have "simulates cues run_id ?sy (answer_cue c (case e of None \<Rightarrow> Submit_crashed | Some e \<Rightarrow> Submit_error (fe_message e)) ?sy)"
      by (rule simulates_answer_error [OF inv' c st']) (simp split: option.split)
    from simulates_trans [OF sim this] Inl show ?thesis
      by (simp add: submit_cue_def Let_def split: option.splits)
  next
    case (Inr reply)
    show ?thesis
    proof (cases reply)
      case (Returned cmd)
      with Inr rec [of cmd] obtain r where "record_at ?sy ?n cmd = Some r" "carries (cue_request run_id [] c) r" by auto
      from simulates_trans [OF sim simulates_adopt [OF inv' uniq c st' this]] Inr Returned show ?thesis
        by (simp add: submit_cue_def)
    next
      case (Suspended cmd)
      let ?sy' = "?sy\<lparr>sy_inflight := (sy_inflight sy)(cue_id c \<mapsto> cmd)\<rparr>"
      have same: "sys_abs ?sy' = sys_abs ?sy" "record_at ?sy' = record_at ?sy"
        by (simp_all add: sys_abs_def sys_remote_def sys_stream_def record_at_def fun_eq_iff)
      have "sys_inv cues run_id ?sy'"
        using inv' st rec [of cmd] Inr Suspended c unfolding sys_inv_def same by (auto split: if_splits)
      with sim Inr Suspended show ?thesis by (simp add: submit_cue_def simulates_def same)
    qed
  qed
qed

lemma simulates_answer:
  assumes inv: "sys_inv cues run_id sy" and uniq: "distinct (map cue_id cues)" and c: "c \<in> set cues"
  shows "simulates cues run_id sy (answer_submit c sy)"
proof (cases "sy_inflight sy (cue_id c)")
  case (Some cmd)
  from sys_invD(4) [OF inv Some] obtain c' r where st: "ex_tasks (sy_exec sy) (cue_id c) = Some Submitting"
    and c': "c' \<in> set cues" "cue_id c' = cue_id c"
    and r: "record_at sy (cue_runtime c') cmd = Some r" "carries (cue_request run_id [] c') r" by blast
  have "c' = c" using uniq c c' by (metis distinct_map inj_onD)
  with simulates_adopt [OF inv uniq c st] r Some simulates_stutter [OF inv] show ?thesis
    by (simp add: answer_submit_def)
qed (simp add: answer_submit_def simulates_stutter [OF inv])

lemma simulates_check:
  assumes inv: "sys_inv cues run_id sy" and uniq: "distinct (map cue_id cues)" and c: "c \<in> set cues"
    and true: "truth_inv (sys_abs sy)"
  shows "simulates cues run_id sy (check_cue c answered sy)"
proof (cases "\<exists>cmd. ex_tasks (sy_exec sy) (cue_id c) = Some (Checking cmd)")
  case True
  then obtain cmd where st: "ex_tasks (sy_exec sy) (cue_id c) = Some (Checking cmd)" by blast
  from truth_invD(1) [OF true, of "cue_id c" "Checking cmd"] st obtain c' where
    "sy_adopted sy cmd = Some c'" "cue_id c' = cue_id c" by (auto simp: sys_remote_def)
  with sys_invD(3) [OF inv this(1)] obtain r where ad: "sy_adopted sy cmd = Some c"
    and r: "record_at sy (cue_runtime c) cmd = Some r"
    using uniq c by (metis distinct_map inj_onD)
  define st' where "st' = (if answered then Checked cmd (record_end r) else Raised)"
  have sy': "check_cue c answered sy = on_exec (set_task (cue_id c) st') sy"
    using st r by (simp add: check_cue_def st'_def)
  have "exec_perform cues (Ex_remote_check (cue_id c) answered) (sys_abs sy) = sys_abs (check_cue c answered sy)"
    using st ad r by (auto simp: sy' st'_def remote_check_def sys_remote_def)
  with exec_run_one [of cues "Ex_remote_check (cue_id c) answered" "sys_abs sy"]
  have "exec_run cues (sys_abs sy) (sys_abs (check_cue c answered sy))" by simp
  moreover have "sys_inv cues run_id (on_exec (set_task (cue_id c) st') sy)"
  proof (rule sys_inv_on_exec [OF inv])
    show "dom (ex_pending (set_task (cue_id c) st' (sy_exec sy))) \<subseteq> sy_awaited sy"
      using sys_invD(6) [OF inv] by simp
    show "d \<in> sy_awaited sy" if "ex_tasks (set_task (cue_id c) st' (sy_exec sy)) cid = Some (Answered (Submit_open d))" for cid d
      using that sys_invD(7) [OF inv, of cid d] by (auto simp: st'_def split: if_splits)
  qed (use st in \<open>auto simp: st'_def answered_task_def\<close>)
  ultimately show ?thesis by (simp add: simulates_def sy')
next
  case False
  then have "check_cue c answered sy = sy" by (auto simp: check_cue_def split: option.split cue_task.split)
  then show ?thesis by (simp add: simulates_stutter [OF inv])
qed

lemma next_event_drop:
  "next_event n sy = Some e \<Longrightarrow> drop (sy_cursor sy n) (sy_history sy n) = e # drop (Suc (sy_cursor sy n)) (sy_history sy n)"
  unfolding next_event_def by (metis Cons_nth_drop_Suc option.distinct(1) option.inject)

lemma advance_cursor_parts [simp]:
  "sy_exec (advance_cursor n sy) = sy_exec sy"
  "sy_runtimes (advance_cursor n sy) = sy_runtimes sy"
  "sy_history (advance_cursor n sy) = sy_history sy"
  "sy_cursor (advance_cursor n sy) = (sy_cursor sy)(n := Suc (sy_cursor sy n))"
  "sy_inflight (advance_cursor n sy) = sy_inflight sy"
  "sy_adopted (advance_cursor n sy) = sy_adopted sy"
  "sy_awaited (advance_cursor n sy) = sy_awaited sy"
  "record_at (advance_cursor n sy) = record_at sy"
  "sys_remote (advance_cursor n sy) = sys_remote sy"
  by (simp_all add: advance_cursor_def record_at_def sys_remote_def fun_eq_iff)

lemma sys_inv_advance:
  assumes "sys_inv cues run_id sy" and "next_event n sy = Some e"
  shows "sys_inv cues run_id (advance_cursor n sy)"
proof -
  have "Suc (sy_cursor sy n) \<le> length (sy_history sy n)"
    using assms(2) by (simp add: next_event_def split: if_splits)
  with assms(1) show ?thesis unfolding sys_inv_def advance_cursor_parts by auto
qed

text \<open>What an event read or lost is for the executor's stream.\<close>

lemma sys_stream_advance:
  assumes "next_event n sy = Some e"
  shows "sys_stream sy n = (case completion_of e of Some p \<Rightarrow> if fst p \<in> sy_awaited sy then [p] else [] | None \<Rightarrow> []) @
      sys_stream (advance_cursor n sy) n"
    and "sys_stream (advance_cursor n sy) = (sys_stream sy)(n := sys_stream (advance_cursor n sy) n)"
  by (simp_all add: sys_stream_def next_event_drop [OF assms] fun_eq_iff split: option.split)

lemma sys_abs_advance_quiet:
  assumes "next_event n sy = Some e" and "\<And>cmd out. completion_of e = Some (cmd, out) \<Longrightarrow> cmd \<notin> sy_awaited sy"
  shows "sys_abs (advance_cursor n sy) = sys_abs sy"
proof -
  have "sys_stream (advance_cursor n sy) n = sys_stream sy n"
    using sys_stream_advance(1) [OF assms(1)] assms(2) by (cases "completion_of e") auto
  then have "sys_stream (advance_cursor n sy) = sys_stream sy"
    using sys_stream_advance(2) [OF assms(1)] by simp
  then show ?thesis by (simp add: sys_abs_def)
qed

lemma simulates_listen:
  assumes inv: "sys_inv cues run_id sy"
  shows "simulates cues run_id sy (listen_event n sy)"
proof (cases "next_event n sy")
  case (Some e)
  note inv' = sys_inv_advance [OF inv Some]
  show ?thesis
  proof (cases "n \<in> ex_listening (sy_exec sy) \<and> completion_of e \<noteq> None")
    case True
    then obtain cmd out where e: "completion_of e = Some (cmd, out)" and n: "n \<in> ex_listening (sy_exec sy)" by auto
    have sy': "listen_event n sy = on_exec (resolve cmd out) (advance_cursor n sy)"
      using Some e n by (simp add: listen_event_def)
    have inv2: "sys_inv cues run_id (on_exec (resolve cmd out) (advance_cursor n sy))"
      using sys_invD(6,7) [OF inv] by (intro sys_inv_on_exec [OF inv']) (auto simp: resolve_def split: if_splits)
    show ?thesis
    proof (cases "cmd \<in> sy_awaited sy")
      case True
      have "exec_perform cues (Ex_listen n) (sys_abs sy) = sys_abs (listen_event n sy)"
        using n e True sys_stream_advance(2) [OF Some]
        by (simp add: listen_def sys_stream_advance(1) [OF Some] sy')
          (auto simp: resolve_def sys_abs_def)
      with exec_run_one [of cues "Ex_listen n" "sys_abs sy"] inv2 show ?thesis
        by (simp add: simulates_def sy')
    next
      case False
      with sys_invD(6) [OF inv] have "ex_pending (sy_exec sy) cmd = None" by auto
      then have "listen_event n sy = advance_cursor n sy"
        by (simp add: sy' on_exec_def resolve_def)
      with sys_abs_advance_quiet [OF Some] e False inv' show ?thesis
        by (simp add: simulates_def exec_refl)
    qed
  next
    case False
    then have "listen_event n sy \<in> {sy, advance_cursor n sy} \<and>
        (listen_event n sy \<noteq> sy \<longrightarrow> completion_of e = None)"
      using Some by (cases "completion_of e") (simp_all add: listen_event_def)
    with sys_abs_advance_quiet [OF Some] inv inv' show ?thesis
      by (auto simp: simulates_def exec_refl)
  qed
qed (simp add: listen_event_def simulates_stutter [OF inv])

lemma simulates_lose:
  assumes inv: "sys_inv cues run_id sy"
  shows "simulates cues run_id sy (lose_event n sy)"
proof (cases "next_event n sy")
  case (Some e)
  note inv' = sys_inv_advance [OF inv Some]
  show ?thesis
  proof (cases "\<exists>cmd out. completion_of e = Some (cmd, out) \<and> cmd \<in> sy_awaited sy")
    case True
    then obtain cmd out where e: "completion_of e = Some (cmd, out)" "cmd \<in> sy_awaited sy" by blast
    let ?f = "\<lambda>ex. ex\<lparr>ex_lost := insert n (ex_lost ex)\<rparr>"
    have sy': "lose_event n sy = on_exec ?f (advance_cursor n sy)"
      using Some e by (simp add: lose_event_def)
    have inv2: "sys_inv cues run_id (on_exec ?f (advance_cursor n sy))"
      using sys_invD(6,7) [OF inv] by (intro sys_inv_on_exec [OF inv']) simp_all
    have "exec_perform cues (Ex_miss n) (sys_abs sy) = sys_abs (lose_event n sy)"
      using e sys_stream_advance(2) [OF Some]
      by (simp add: miss_def sys_stream_advance(1) [OF Some] sy' sys_abs_def)
    with exec_run_one [of cues "Ex_miss n" "sys_abs sy"] inv2 show ?thesis
      by (simp add: simulates_def sy')
  next
    case False
    then have "lose_event n sy = advance_cursor n sy"
      using Some by (auto simp: lose_event_def split: option.split)
    moreover have "sys_abs (advance_cursor n sy) = sys_abs sy"
      using Some by (rule sys_abs_advance_quiet) (use False in blast)
    ultimately show ?thesis using inv' by (simp add: simulates_def exec_refl)
  qed
qed (simp add: lose_event_def simulates_stutter [OF inv])

lemma simulates_step:
  assumes inv: "sys_inv cues run_id sy" and uniq: "distinct (map cue_id cues)"
    and true: "truth_inv (sys_abs sy)" and p: "sys_possible cues p sy"
  shows "simulates cues run_id sy (sys_perform cues run_id p sy)"
proof (cases p)
  case (Sys_runtime n q)
  with p have "runtime_op_possible n q sy" by (cases q) (simp_all add: runtime_op_possible_def)
  with Sys_runtime simulates_runtime [OF inv] show ?thesis by simp
next
  case (Sys_submit c session env new_id now wall)
  with p simulates_submit [OF inv uniq] show ?thesis by (simp del: sys_possible.simps)
qed (use p simulates_exec [OF inv] simulates_answer [OF inv uniq] simulates_answer_error [OF inv]
    simulates_check [OF inv uniq _ true] simulates_listen [OF inv] simulates_lose [OF inv] in simp_all)

lemma show_start_inv:
  assumes "show_start cues clients start sy"
  shows "sys_inv cues run_id sy" and "sys_abs sy = new_executor cues clients start"
proof -
  have s: "sy_exec sy = new_executor cues clients start" "sy_adopted sy = Map.empty" "sy_awaited sy = {}"
    using assms by (simp_all add: show_start_def)
  have "ex_tasks (sy_exec sy) cid \<noteq> Some (Answered a)" for cid a
    by (auto simp: s new_executor_def dest!: map_of_SomeD)
  with assms show "sys_inv cues run_id sy"
    by (simp add: show_start_def sys_inv_def) (simp add: new_executor_def)
  have "sys_remote sy = Map.empty" "sys_stream sy = (\<lambda>_. [])"
    using s by (simp_all add: sys_remote_def sys_stream_def fun_eq_iff)
  then show "sys_abs sy = new_executor cues clients start"
    by (simp add: sys_abs_def s new_executor_def)
qed

lemma sys_run_simulates:
  assumes "sys_run cues run_id sy0 sy" and "show_start cues clients start sy0" and "distinct (map cue_id cues)"
  shows "exec_run cues (new_executor cues clients start) (sys_abs sy) \<and> sys_inv cues run_id sy"
  using assms
proof (induction rule: sys_run.induct)
  case sys_refl
  with show_start_inv [OF sys_refl(1)] show ?case by (simp add: exec_refl)
next
  case (sys_step sy p)
  then have run: "exec_run cues (new_executor cues clients start) (sys_abs sy)" and inv: "sys_inv cues run_id sy"
    by blast+
  from simulates_step [OF inv sys_step.prems(2) exec_run_truth [OF run] sys_step.hyps(2)] run show ?case
    by (auto simp: simulates_def intro: exec_run_trans)
qed

end
