(* ===== verification/Show_Runs.thy ===== *)
theory Show_Runs
  imports Show_Simulation
begin

text \<open>
  What a Show does to its devices: the runs of \<open>Show_System\<close> are runs of the executor, so its theorems hold
  of the command records of real Runtimes.
\<close>

section \<open>Listening\<close>

text \<open>A listener that reads its stream to the end resolves the future of a completion on it.\<close>

lemma listen_event_all:
  assumes "n \<in> ex_listening (sy_exec sy)" and "(cmd, out) \<in> set (completed_in (drop (sy_cursor sy n) (sy_history sy n)))"
    and "ex_pending (sy_exec sy) cmd \<noteq> None"
  shows "\<exists>k x. ex_pending (sy_exec ((listen_event n ^^ k) sy)) cmd = Some (Some x) \<and>
    ex_tasks (sy_exec ((listen_event n ^^ k) sy)) = ex_tasks (sy_exec sy)"
  using assms
proof (induction "length (sy_history sy n) - sy_cursor sy n" arbitrary: sy)
  case 0
  then show ?case by simp
next
  case (Suc m)
  let ?sy = "listen_event n sy"
  have "sy_cursor sy n < length (sy_history sy n)" using Suc.hyps(2) by simp
  then obtain e where e: "next_event n sy = Some e" by (simp add: next_event_def)
  have step: "sy_cursor ?sy n = Suc (sy_cursor sy n)" "sy_history ?sy n = sy_history sy n"
    "ex_listening (sy_exec ?sy) = ex_listening (sy_exec sy)" "ex_tasks (sy_exec ?sy) = ex_tasks (sy_exec sy)"
    "ex_pending (sy_exec ?sy) cmd \<noteq> None"
    using e Suc.prems(1,3) by (auto simp: listen_event_def resolve_def split: option.split)
  have rec: "(listen_event n ^^ Suc k) sy = (listen_event n ^^ k) ?sy" for k by (simp add: funpow_swap1)
  show ?case
  proof (cases "completion_of e = Some (cmd, out)")
    case True
    then have "\<exists>x. ex_pending (sy_exec ?sy) cmd = Some (Some x)"
      using e Suc.prems(1,3) by (cases "ex_pending (sy_exec sy) cmd = Some None") (auto simp: listen_event_def resolve_def)
    with step rec [of 0] show ?thesis by (intro exI [of _ "Suc 0"]) auto
  next
    case False
    then have "(cmd, out) \<in> set (completed_in (drop (sy_cursor ?sy n) (sy_history ?sy n)))"
      using Suc.prems(2) unfolding next_event_drop [OF e] step by (auto split: option.splits)
    moreover have "m = length (sy_history ?sy n) - sy_cursor ?sy n" "n \<in> ex_listening (sy_exec ?sy)"
      using Suc.hyps(2) Suc.prems(1) step by simp_all
    ultimately have "\<exists>k x. ex_pending (sy_exec ((listen_event n ^^ k) ?sy)) cmd = Some (Some x) \<and>
       ex_tasks (sy_exec ((listen_event n ^^ k) ?sy)) = ex_tasks (sy_exec sy)"
      using Suc.hyps(1) [of ?sy] step by simp
    then show ?thesis unfolding rec [symmetric] by blast
  qed
qed

section \<open>Properties\<close>

lemma requirement_value_inj: "requirement_value a = requirement_value b \<longleftrightarrow> a = b"
  by (cases a; cases b) simp_all

lemma outcome_value_inj: "outcome_value a = outcome_value b \<longleftrightarrow> a = b"
  by (cases a; cases b) simp_all

text \<open>What it means on the device that a cue has succeeded.\<close>

definition device_succeeded :: "string \<Rightarrow> show_system \<Rightarrow> cue \<Rightarrow> bool" where
  "device_succeeded run_id sy c \<longleftrightarrow>
     (\<exists>cmd r. get_command cmd (sy_runtimes sy (cue_runtime c)) = Some r \<and>
        cr_status r = TERMINAL \<and> cr_outcome r = Some SUCCEEDED \<and>
        cr_achieved_completion r = Some (cue_completion_requirement c) \<and>
        cr_request_id r = cue_request_id run_id (cue_id c) \<and>
        cr_target_id r = cue_target_id c \<and> cr_action r = cue_action c \<and>
        list_all2 (\<lambda>(k, v) (k', v'). k = k' \<and> py_eq v v') (sort_key fst (cr_params r)) (sort_key fst (cue_params c)))"

lemma success_on_device:
  assumes inv: "sys_inv cues run_id sy" and true: "truth_inv (sys_abs sy)" and out: "ex_outcomes (sy_exec sy) cid = Some SUCCESS"
  shows "\<exists>c \<in> set cues. cue_id c = cid \<and> device_succeeded run_id sy c"
proof -
  from truth_invD(4) [OF true, of cid] out obtain cmd where "sys_remote sy cmd = Some (cid, Some SUCCESS)" by auto
  then obtain c r where ad: "sy_adopted sy cmd = Some c" and cid: "cue_id c = cid"
    and r: "record_at sy (cue_runtime c) cmd = Some r" and e: "record_end r = Some SUCCESS"
    by (auto simp: sys_remote_def bind_eq_Some_conv)
  from sys_invD(3) [OF inv ad] r have c: "c \<in> set cues" and carry: "carries (cue_request run_id [] c) r" by auto
  have "cr_status r = TERMINAL" and succ: "cr_outcome r = Some SUCCEEDED"
    using e by (auto simp: record_end_def wire_outcome_def SUCCESS_def outcome_value_inj [of _ SUCCEEDED, simplified] split: if_splits option.splits)
  moreover have "record_ok r"
    using record_truthful [OF startedD(1) [OF sys_invD(1) [OF inv]]] r by (simp add: record_at_def)
  moreover have "cr_completion_requirement r = cue_completion_requirement c"
    and "cr_target_id r = cue_target_id c" and "cr_action r = cue_action c"
    and "cr_request_id r = cue_request_id run_id (cue_id c)"
    and "list_all2 (\<lambda>(k, v) (k', v'). k = k' \<and> py_eq v v') (sort_key fst (cr_params r)) (sort_key fst (cue_params c))"
    using carry by (simp_all add: carries_def cue_request_def record_fingerprint_def fingerprint_def requirement_value_inj)
  ultimately have "device_succeeded run_id sy c"
    unfolding device_succeeded_def using r by (auto simp: record_at_def record_ok_def)
  with c cid show ?thesis by blast
qed

text \<open>
  \<^bold>\<open>C13\<close> Refinement: whatever a Show does with real Runtimes that other clients use at the same time, over a
  network that may delay, fail and lose events, seen from the executor it is a run of the executor in the
  environment of \<open>Timeline_Executor\<close>. Every theorem about runs of the executor holds of the whole system.
\<close>

theorem show_refines_executor:
  assumes "show_start cues clients start sy0" and "distinct (map cue_id cues)" and "sys_run cues run_id sy0 sy"
  shows "exec_run cues (new_executor cues clients start) (sys_abs sy)"
  using sys_run_simulates [OF assms(3,1,2)] by blast

text \<open>
  \<^bold>\<open>C12\<close> A cue's success is the device's: in every run of a Show, a cue recorded as SUCCEEDED has, in the ledger of
  the Runtime it names, a terminal command made by this run's request for it, with its target, its action
  and (in Python's sense) its parameters, whose outcome is SUCCEEDED and whose achieved completion is the
  one the cue requires.
\<close>

theorem cue_success_on_device:
  assumes "show_start cues clients start sy0" and "distinct (map cue_id cues)" and "sys_run cues run_id sy0 sy"
    and "ex_outcomes (sy_exec sy) cid = Some SUCCESS"
  shows "\<exists>c \<in> set cues. cue_id c = cid \<and> device_succeeded run_id sy c"
  using sys_run_simulates [OF assms(3,1,2)] exec_run_truth success_on_device assms(4) by blast

text \<open>
  Nothing reaches a device before what it depends on has happened on the devices: whenever the request of a
  cue can arrive at its Runtime, each cue it depends on has, on its own Runtime, a command that ended
  SUCCEEDED with the required completion.
\<close>

theorem nothing_sent_before_dependencies:
  assumes "show_start cues clients start sy0" and "distinct (map cue_id cues)" and "sys_run cues run_id sy0 sy"
    and "sys_possible cues (Sys_submit c session env new_id now wall) sy" and "d \<in> set (cue_depends_on c)"
  shows "\<exists>c' \<in> set cues. cue_id c' = d \<and> device_succeeded run_id sy c'"
proof -
  from sys_run_simulates [OF assms(3,1,2)] have run: "exec_run cues (new_executor cues clients start) (sys_abs sy)"
    and inv: "sys_inv cues run_id sy" by blast+
  have "deps_inv cues (sys_abs sy)"
    using exec_run_deps_inv [OF run deps_inv_new [OF assms(2)] assms(2)] .
  from deps_invD(3) [OF this, of c Submitting] assms(4,5) have "ex_outcomes (sy_exec sy) d = Some SUCCESS" by simp
  with success_on_device [OF inv exec_run_truth [OF run]] show ?thesis by blast
qed

text \<open>
  \<^bold>\<open>C14\<close> A device's completion ends its cue: in every run of a Show, if a cue awaits a command whose record on its
  Runtime is terminal, and the listener of that Runtime is alive and its stream has lost nothing, then after
  the listener has read what the Runtime has published the cue can end.
\<close>

theorem device_completion_ends_cue:
  assumes "show_start cues clients start sy0" and "distinct (map cue_id cues)" and "sys_run cues run_id sy0 sy"
    and "c \<in> set cues" and "ex_tasks (sy_exec sy) (cue_id c) = Some (Awaiting cmd)"
    and "get_command cmd (sy_runtimes sy (cue_runtime c)) = Some r" and "cr_status r = TERMINAL"
    and "cue_runtime c \<in> ex_listening (sy_exec sy)" and "cue_runtime c \<notin> ex_lost (sy_exec sy)"
  shows "\<exists>k. ex_outcomes (wake (cue_id c) (sy_exec ((listen_event (cue_runtime c) ^^ k) sy))) (cue_id c) \<noteq> None"
proof -
  let ?n = "cue_runtime c"
  from sys_run_simulates [OF assms(3,1,2)] have run: "exec_run cues (new_executor cues clients start) (sys_abs sy)"
    and inv: "sys_inv cues run_id sy" by blast+
  note true = truth_invD(1) [OF exec_run_truth [OF run], of "cue_id c" "Awaiting cmd"]
  from true assms(5) obtain c' where ad: "sy_adopted sy cmd = Some c'" "cue_id c' = cue_id c"
    and pend: "ex_pending (sy_exec sy) cmd \<noteq> None" by (auto simp: sys_remote_def)
  have "c' = c" using assms(2,4) sys_invD(3) [OF inv ad(1)] ad(2) by (metis distinct_map inj_onD)
  with ad assms(6,7) have rem: "sys_remote sy cmd = Some (cue_id c, Some (wire_outcome r))"
    by (simp add: sys_remote_def record_at_def record_end_def)
  have "\<exists>k x. ex_pending (sy_exec ((listen_event ?n ^^ k) sy)) cmd = Some (Some x) \<and>
      ex_tasks (sy_exec ((listen_event ?n ^^ k) sy)) = ex_tasks (sy_exec sy)"
  proof (cases "ex_pending (sy_exec sy) cmd = Some None")
    case True
    have "(cmd, wire_outcome r) \<in> set (sys_stream sy ?n)"
      using heard_invD [OF exec_run_heard [OF run assms(2)] assms(4), of cmd "wire_outcome r"] True rem assms(5,8,9) by simp
    then have "(cmd, wire_outcome r) \<in> set (completed_in (drop (sy_cursor sy ?n) (sy_history sy ?n)))"
      by (simp add: sys_stream_def)
    with assms(8) pend show ?thesis by (intro listen_event_all)
  next
    case False
    with pend obtain x where "ex_pending (sy_exec sy) cmd = Some (Some x)" by (metis not_None_eq)
    then show ?thesis by (intro exI [of _ 0]) simp
  qed
  then obtain k x where "ex_pending (sy_exec ((listen_event ?n ^^ k) sy)) cmd = Some (Some x)"
    "ex_tasks (sy_exec ((listen_event ?n ^^ k) sy)) = ex_tasks (sy_exec sy)" by blast
  with assms(5) show ?thesis by (intro exI [of _ k]) (simp add: wake_def)
qed

section \<open>A run\<close>

text \<open>
  Two cues on the Runtime of \<open>Runtime_Safety\<close>, the second after the first: the first from its submission to
  its recorded success, the second until its request can be sent.
\<close>

definition show_cue :: "string \<Rightarrow> string list \<Rightarrow> cue" where
  "show_cue cid deps = \<lparr>cue_id = cid, cue_at_ms = 20, cue_runtime = ''m'', cue_target_id = ''motor01'',
     cue_action = ''move'', cue_params = [(''position'', PInt 5)], cue_completion_requirement = Req_OBSERVED,
     cue_depends_on = deps, cue_late_policy = default_late_policy\<rparr>"

abbreviation "cue1 \<equiv> show_cue ''c1'' []"
abbreviation "cue2 \<equiv> show_cue ''c2'' [''c1'']"

definition show_cues :: timeline where
  "show_cues = [cue1, cue2]"

definition show_begin :: show_system where
  "show_begin = \<lparr>sy_exec = new_executor show_cues {''m''} 0,
     sy_runtimes = (\<lambda>_. demo_rt0)(''m'' := demo_rt1), sy_history = (\<lambda>_. []), sy_cursor = (\<lambda>_. 0),
     sy_inflight = Map.empty, sy_adopted = Map.empty, sy_awaited = {}\<rparr>"

abbreviation perform_all :: "sys_op list \<Rightarrow> show_system \<Rightarrow> show_system" where
  "perform_all ps sy \<equiv> fold (sys_perform show_cues ''run'') ps sy"

definition ops_before :: "sys_op list" where
  "ops_before = [Sys_exec (Ex_dep ''c1''), Sys_exec (Ex_time cue1 (1 / 50) (3 / 100) False)]"

definition ops_after :: "sys_op list" where
  "ops_after = [Sys_runtime ''m'' (Rt_resume demo_env ''motor01'' Exec_ok ''cmd-1'' 2), Sys_answer cue1,
     Sys_exec (Ex_submit_response ''c1''), Sys_check cue1 True, Sys_exec (Ex_check_response ''c1''),
     Sys_runtime ''m'' (Rt_observe demo_env ''motor01'' ''cmd-1'' 3 3 Complete 4),
     Sys_listen ''m'', Sys_listen ''m'', Sys_listen ''m'', Sys_listen ''m'', Sys_listen ''m'', Sys_exec (Ex_wake ''c1''),
     Sys_exec (Ex_dep ''c2''), Sys_exec (Ex_dep ''c2''), Sys_exec (Ex_time cue2 (1 / 50) (3 / 100) False)]"

definition show_submitting :: show_system where
  "show_submitting = perform_all ops_before show_begin"

definition show_submitted :: show_system where
  "show_submitted = sys_perform show_cues ''run''
     (Sys_submit cue1 ''session-1'' demo_env ''cmd-1'' 1 1) show_submitting"

definition show_awaiting :: show_system where
  "show_awaiting = perform_all (take 6 ops_after) show_submitted"

definition show_done :: show_system where
  "show_done = perform_all ops_after show_submitted"

fun all_sys_possible :: "timeline \<Rightarrow> string \<Rightarrow> sys_op list \<Rightarrow> show_system \<Rightarrow> bool" where
  "all_sys_possible cues run_id [] sy \<longleftrightarrow> True"
| "all_sys_possible cues run_id (p # ps) sy \<longleftrightarrow>
     sys_possible cues p sy \<and> all_sys_possible cues run_id ps (sys_perform cues run_id p sy)"

lemma sys_run_all:
  "all_sys_possible cues run_id ps sy \<Longrightarrow> sys_run cues run_id sy0 sy \<Longrightarrow>
   sys_run cues run_id sy0 (fold (sys_perform cues run_id) ps sy)"
  by (induction ps arbitrary: sy) (auto intro: sys_step)

text \<open>The Runtimes an operation does not name stay as they are.\<close>

fun names_only :: "string \<Rightarrow> sys_op \<Rightarrow> bool" where
  "names_only n (Sys_submit c _ _ _ _ _) \<longleftrightarrow> cue_runtime c = n"
| "names_only n (Sys_runtime m _) \<longleftrightarrow> m = n"
| "names_only n _ \<longleftrightarrow> True"

lemma runtimes_elsewhere:
  assumes "names_only n p" and "m \<noteq> n"
  shows "sy_runtimes (sys_perform cues run_id p sy) m = sy_runtimes sy m"
  using assms
  by (cases p) (auto simp: submit_cue_def adopt_def answer_submit_def check_cue_def listen_event_def lose_event_def
      Let_def split: option.split sum.split submit_reply.split cue_task.split)

lemma runtimes_elsewhere_all:
  "list_all (names_only n) ps \<Longrightarrow> m \<noteq> n \<Longrightarrow> sy_runtimes (fold (sys_perform cues run_id) ps sy) m = sy_runtimes sy m"
  by (induction ps arbitrary: sy) (auto simp: runtimes_elsewhere [of n])

lemma demo_records: "get_command cmd demo_rt0 = None" "get_command cmd demo_rt1 = None"
  by (simp_all add: demo_rt1_def acquire_control_session_def split_beta Let_def get_command_records
      new_runtime_parts [OF demo_rt0_new] new_ledger_def)

lemma show_begin_start: "show_start show_cues {''m''} 0 show_begin"
proof -
  have "started demo_rt0 []" unfolding started_def using demo_rt0_new rt_refl by blast
  moreover have "new_events (rt_events demo_rt0) (rt_events demo_rt1) = []" by code_simp
  then have "started demo_rt1 []"
    using started_step [OF \<open>started demo_rt0 []\<close>, of "Rt_acquire ''session-1'' ''ui'' MANUAL None 0"]
    by (simp add: demo_rt1_def)
  ultimately show ?thesis
    by (auto simp: show_start_def show_begin_def record_at_def demo_records split: if_splits)
qed

lemma show_cues_distinct: "distinct (map cue_id show_cues)"
  by (simp add: show_cues_def show_cue_def)

lemma show_submitting_run: "sys_run show_cues ''run'' show_begin show_submitting"
  unfolding show_submitting_def
  by (rule sys_run_all [OF _ sys_refl]) (simp add: ops_before_def show_cues_def)

lemma show_submitted_run: "sys_run show_cues ''run'' show_begin show_submitted"
proof -
  have "ex_tasks (sy_exec show_submitting) ''c1'' = Some Submitting \<and> sy_inflight show_submitting ''c1'' = None"
    by code_simp
  moreover have "sy_runtimes show_submitting = sy_runtimes show_begin"
    by (simp add: show_submitting_def ops_before_def)
  then have "fresh_command ''cmd-1'' show_submitting"
    by (simp add: fresh_command_def record_at_def show_begin_def demo_records)
  ultimately have "sys_possible show_cues (Sys_submit cue1 ''session-1'' demo_env ''cmd-1'' 1 1) show_submitting"
    by (simp add: show_cues_def show_cue_def)
  then show ?thesis
    unfolding show_submitted_def by (rule sys_step [OF show_submitting_run])
qed

lemma show_later_runs:
  "sys_run show_cues ''run'' show_begin show_awaiting" "sys_run show_cues ''run'' show_begin show_done"
  unfolding show_awaiting_def show_done_def
  by (rule sys_run_all [OF _ show_submitted_run], simp add: ops_after_def show_cues_def)+

lemmas show_done_run = show_later_runs(2)

lemma show_done_facts:
  "(\<lambda>s. (ex_outcomes (sy_exec s) ''c1'', ex_tasks (sy_exec s) ''c2'', sy_inflight s ''c2'',
      get_command ''cmd-2'' (sy_runtimes s ''m''))) show_done = (Some SUCCESS, Some Submitting, None, None)"
  by code_simp

lemma show_awaiting_facts:
  "(\<lambda>s. (map_option cr_status (get_command ''cmd-1'' (sy_runtimes s ''m'')), ex_tasks (sy_exec s) ''c1'',
      ''m'' \<in> ex_listening (sy_exec s), ''m'' \<in> ex_lost (sy_exec s))) show_awaiting =
   (Some TERMINAL, Some (Awaiting ''cmd-1''), True, False)"
  by code_simp

theorem show_refines_executor_witness:
  "exec_run show_cues (new_executor show_cues {''m''} 0) (sys_abs show_done)"
  by (rule show_refines_executor [OF show_begin_start show_cues_distinct show_done_run])

theorem cue_success_on_device_witness:
  "\<exists>c \<in> set show_cues. cue_id c = ''c1'' \<and> device_succeeded ''run'' show_done c"
proof -
  have "ex_outcomes (sy_exec show_done) ''c1'' = Some SUCCESS" using show_done_facts by simp
  then show ?thesis by (rule cue_success_on_device [OF show_begin_start show_cues_distinct show_done_run])
qed

theorem nothing_sent_before_dependencies_witness: "\<exists>c' \<in> set show_cues. device_succeeded ''run'' show_done c'"
proof -
  have "ex_tasks (sy_exec show_done) ''c2'' = Some Submitting \<and> sy_inflight show_done ''c2'' = None"
    using show_done_facts by simp
  moreover have "fresh_command ''cmd-2'' show_done"
  proof -
    have "get_command ''cmd-2'' (sy_runtimes show_done ''m'') = None" using show_done_facts by simp
    moreover have "n \<noteq> ''m'' \<longrightarrow> sy_runtimes show_done n = demo_rt0" for n
    proof
      assume n: "n \<noteq> ''m''"
      have "names_only ''m'' (Sys_submit cue1 ''session-1'' demo_env ''cmd-1'' 1 1)"
        and "list_all (names_only ''m'') ops_before" and "list_all (names_only ''m'') ops_after"
        by (simp_all add: ops_before_def ops_after_def show_cue_def)
      with n have "sy_runtimes show_done n = sy_runtimes show_begin n"
        unfolding show_done_def show_submitted_def show_submitting_def
        by (simp only: runtimes_elsewhere_all [of "''m''"] runtimes_elsewhere [of "''m''"] not_False_eq_True)
      with n show "sy_runtimes show_done n = demo_rt0" by (simp add: show_begin_def)
    qed
    ultimately show ?thesis by (metis fresh_command_def record_at_def demo_records(1))
  qed
  ultimately have "sys_possible show_cues (Sys_submit cue2 ''session-1'' demo_env ''cmd-2'' 5 5) show_done"
    by (simp add: show_cues_def show_cue_def)
  from nothing_sent_before_dependencies [OF show_begin_start show_cues_distinct show_done_run this, of "''c1''"]
  show ?thesis by (auto simp: show_cue_def)
qed

theorem device_completion_ends_cue_witness:
  "\<exists>k. ex_outcomes (wake ''c1'' (sy_exec ((listen_event ''m'' ^^ k) show_awaiting))) ''c1'' \<noteq> None"
proof -
  have "map_option cr_status (get_command ''cmd-1'' (sy_runtimes show_awaiting ''m'')) = Some TERMINAL"
    and awaits: "ex_tasks (sy_exec show_awaiting) ''c1'' = Some (Awaiting ''cmd-1'')"
    and "''m'' \<in> ex_listening (sy_exec show_awaiting) \<and> ''m'' \<notin> ex_lost (sy_exec show_awaiting)"
    using show_awaiting_facts by simp_all
  then obtain r where r: "get_command ''cmd-1'' (sy_runtimes show_awaiting ''m'') = Some r" "cr_status r = TERMINAL"
    and lis: "''m'' \<in> ex_listening (sy_exec show_awaiting)" "''m'' \<notin> ex_lost (sy_exec show_awaiting)" by auto
  from device_completion_ends_cue [OF show_begin_start show_cues_distinct show_later_runs(1), of cue1 "''cmd-1''" r]
    awaits r lis show ?thesis by (simp add: show_cues_def) (simp add: show_cue_def)
qed

end
