(* ===== verification/Show_Controller.thy ===== *)
theory Show_Controller
  imports Contracts
begin

text \<open>
  The Show state machine of \<open>core/show_controller.py\<close>. The coroutines \<open>arm\<close> and \<open>abort\<close> are cut where
  they await: \<open>arm_begin\<close>/\<open>arm_resume\<close> around \<open>prepare()\<close>, \<open>abort_begin\<close>/\<open>abort_joined\<close>/\<open>abort_end\<close>
  around the cancelled run task and \<open>stop_all()\<close>. A suspended call is a \<open>show_frame\<close> under an identifier
  of its own. \<open>start\<close> creates the task that runs \<open>_drive\<close>; \<open>drive_end\<close> is its last segment, when the
  injected \<open>run()\<close> has returned, raised or been cancelled. \<open>sc_tasks\<close> holds the tasks that have not
  ended, with whether their cancellation was requested. What the injected callables do is an input.
\<close>

section \<open>State and operations\<close>

datatype show_state = IDLE | PREPARING | ARMED | RUNNING | HOLDING | STOPPING | FAULTED

fun show_state_value :: "show_state \<Rightarrow> string" where
  "show_state_value IDLE = ''IDLE''"
| "show_state_value PREPARING = ''PREPARING''"
| "show_state_value ARMED = ''ARMED''"
| "show_state_value RUNNING = ''RUNNING''"
| "show_state_value HOLDING = ''HOLDING''"
| "show_state_value STOPPING = ''STOPPING''"
| "show_state_value FAULTED = ''FAULTED''"

datatype show_frame = In_prepare | Awaiting_run nat | In_stop_all

datatype call_result = Call_ok | Call_raised string | Call_cancelled

record show_controller =
  sc_state :: show_state
  sc_run_id :: "string option"
  sc_last_error :: "string option"
  sc_run_task :: "nat option"
  sc_hold_requested :: bool
  sc_tasks :: "nat \<rightharpoonup> bool"
  sc_frames :: "nat \<rightharpoonup> show_frame"
  sc_changes :: "show_state list"

definition new_show_controller :: show_controller where
  "new_show_controller =
     \<lparr>sc_state = IDLE, sc_run_id = None, sc_last_error = None, sc_run_task = None,
      sc_hold_requested = False, sc_tasks = Map.empty, sc_frames = Map.empty, sc_changes = []\<rparr>"

definition set_state :: "show_state \<Rightarrow> show_controller \<Rightarrow> show_controller" where
  "set_state st sc = sc\<lparr>sc_state := st, sc_changes := sc_changes sc @ [st]\<rparr>"

definition show_status :: "show_controller \<Rightarrow> string \<times> string option \<times> string option" where
  "show_status sc = (show_state_value (sc_state sc), sc_run_id sc, sc_last_error sc)"

text \<open>The operations that raise \<open>RuntimeError\<close> return its message.\<close>

definition arm_begin :: "nat \<Rightarrow> show_controller \<Rightarrow> string + show_controller" where
  "arm_begin a sc =
     (if sc_state sc \<noteq> IDLE then Inl (''cannot arm from state '' @ show_state_value (sc_state sc))
      else Inr ((set_state PREPARING sc)\<lparr>sc_frames := (sc_frames sc)(a \<mapsto> In_prepare)\<rparr>))"

definition arm_resume :: "call_result \<Rightarrow> nat \<Rightarrow> show_controller \<Rightarrow> show_controller" where
  "arm_resume res a sc =
     (if sc_frames sc a = Some In_prepare
      then let sc0 = sc\<lparr>sc_frames := (sc_frames sc)(a := None)\<rparr>
           in (case res of
                 Call_ok \<Rightarrow> set_state ARMED (sc0\<lparr>sc_last_error := None\<rparr>)
               | Call_raised m \<Rightarrow> set_state IDLE (sc0\<lparr>sc_last_error := Some m\<rparr>)
               | Call_cancelled \<Rightarrow> sc0)
      else sc)"

definition start :: "string \<Rightarrow> nat \<Rightarrow> show_controller \<Rightarrow> string + show_controller" where
  "start run_id t sc =
     (if sc_state sc \<noteq> ARMED
      then Inl (''cannot start a Show from state '' @ show_state_value (sc_state sc))
      else Inr ((set_state RUNNING
        (sc\<lparr>sc_run_id := Some run_id, sc_last_error := None, sc_hold_requested := False\<rparr>))
          \<lparr>sc_run_task := Some t, sc_tasks := (sc_tasks sc)(t \<mapsto> False)\<rparr>))"

definition drive_end :: "call_result \<Rightarrow> nat \<Rightarrow> show_controller \<Rightarrow> show_controller" where
  "drive_end res t sc =
     (if sc_tasks sc t = None then sc
      else let sc0 = sc\<lparr>sc_tasks := (sc_tasks sc)(t := None)\<rparr>
           in (case res of
                 Call_ok \<Rightarrow> if sc_state sc \<in> {RUNNING, HOLDING} then set_state IDLE sc0 else sc0
               | Call_cancelled \<Rightarrow> sc0
               | Call_raised m \<Rightarrow> set_state FAULTED (sc0\<lparr>sc_last_error := Some m\<rparr>)))"

definition hold :: "show_controller \<Rightarrow> string + show_controller" where
  "hold sc =
     (if sc_state sc \<noteq> RUNNING
      then Inl (''cannot hold a Show from state '' @ show_state_value (sc_state sc))
      else Inr (set_state HOLDING (sc\<lparr>sc_hold_requested := True\<rparr>)))"

definition abort_begin :: "nat \<Rightarrow> show_controller \<Rightarrow> string + show_controller" where
  "abort_begin a sc =
     (if sc_state sc \<notin> {RUNNING, HOLDING, FAULTED}
      then Inl (''cannot abort a Show from state '' @ show_state_value (sc_state sc))
      else
        let sc1 = set_state STOPPING sc
        in Inr (case sc_run_task sc of
             None \<Rightarrow> sc1\<lparr>sc_frames := (sc_frames sc)(a \<mapsto> In_stop_all)\<rparr>
           | Some t \<Rightarrow>
               if sc_tasks sc t = None then sc1\<lparr>sc_frames := (sc_frames sc)(a \<mapsto> In_stop_all)\<rparr>
               else sc1\<lparr>sc_tasks := (sc_tasks sc)(t \<mapsto> True),
                        sc_frames := (sc_frames sc)(a \<mapsto> Awaiting_run t)\<rparr>))"

text \<open>The awaited task has ended (its \<open>CancelledError\<close> is suppressed).\<close>

definition abort_joined :: "nat \<Rightarrow> show_controller \<Rightarrow> show_controller" where
  "abort_joined a sc =
     (case sc_frames sc a of
        Some (Awaiting_run t) \<Rightarrow>
          if sc_tasks sc t = None then sc\<lparr>sc_frames := (sc_frames sc)(a \<mapsto> In_stop_all)\<rparr> else sc
      | _ \<Rightarrow> sc)"

definition abort_end :: "call_result \<Rightarrow> nat \<Rightarrow> show_controller \<Rightarrow> show_controller" where
  "abort_end res a sc =
     (if sc_frames sc a = Some In_stop_all
      then let sc0 = sc\<lparr>sc_frames := (sc_frames sc)(a := None)\<rparr>
           in if res = Call_ok then set_state IDLE sc0 else sc0
      else sc)"

section \<open>Runs\<close>

datatype show_op =
    Sh_arm nat
  | Sh_arm_resume call_result nat
  | Sh_start string nat
  | Sh_drive_end call_result nat
  | Sh_hold
  | Sh_abort nat
  | Sh_abort_joined nat
  | Sh_abort_end call_result nat

fun show_perform :: "show_op \<Rightarrow> show_controller \<Rightarrow> show_controller" where
  "show_perform (Sh_arm a) sc = (case arm_begin a sc of Inl _ \<Rightarrow> sc | Inr sc' \<Rightarrow> sc')"
| "show_perform (Sh_arm_resume res a) sc = arm_resume res a sc"
| "show_perform (Sh_start run_id t) sc = (case start run_id t sc of Inl _ \<Rightarrow> sc | Inr sc' \<Rightarrow> sc')"
| "show_perform (Sh_drive_end res t) sc = drive_end res t sc"
| "show_perform Sh_hold sc = (case hold sc of Inl _ \<Rightarrow> sc | Inr sc' \<Rightarrow> sc')"
| "show_perform (Sh_abort a) sc = (case abort_begin a sc of Inl _ \<Rightarrow> sc | Inr sc' \<Rightarrow> sc')"
| "show_perform (Sh_abort_joined a) sc = abort_joined a sc"
| "show_perform (Sh_abort_end res a) sc = abort_end res a sc"

text \<open>Identifiers of calls and tasks are fresh.\<close>

fun show_fresh :: "show_op \<Rightarrow> show_controller \<Rightarrow> bool" where
  "show_fresh (Sh_arm a) sc \<longleftrightarrow> sc_frames sc a = None"
| "show_fresh (Sh_abort a) sc \<longleftrightarrow> sc_frames sc a = None"
| "show_fresh (Sh_start _ t) sc \<longleftrightarrow> sc_tasks sc t = None"
| "show_fresh _ sc \<longleftrightarrow> True"

text \<open>
  What the controller relies on of the injected \<open>run()\<close>: once it has been cancelled it ends as
  cancelled or returns, but does not raise something else.
\<close>

fun run_obeys_cancel :: "show_op \<Rightarrow> show_controller \<Rightarrow> bool" where
  "run_obeys_cancel (Sh_drive_end res t) sc \<longleftrightarrow> sc_tasks sc t = Some True \<longrightarrow> (\<forall>m. res \<noteq> Call_raised m)"
| "run_obeys_cancel _ sc \<longleftrightarrow> True"

inductive show_run :: "(show_op \<Rightarrow> show_controller \<Rightarrow> bool) \<Rightarrow> show_controller \<Rightarrow> bool" for ok where
  show_new: "show_run ok new_show_controller"
| show_step: "show_run ok sc \<Longrightarrow> show_fresh p sc \<Longrightarrow> ok p sc \<Longrightarrow> show_run ok (show_perform p sc)"

section \<open>The invariant\<close>

text \<open>
  By state: \<open>prepare()\<close> is suspended only while PREPARING; while RUNNING or HOLDING only the current run
  task can be live, its cancellation not requested; while STOPPING there is at most one \<open>abort\<close>, which waits
  for that task (now cancelled) or for \<open>stop_all()\<close>; otherwise nothing is suspended and no task is live.
\<close>

definition show_inv :: "show_controller \<Rightarrow> bool" where
  "show_inv sc \<longleftrightarrow>
     (case sc_state sc of
        PREPARING \<Rightarrow> sc_tasks sc = Map.empty \<and>
          (sc_frames sc = Map.empty \<or> (\<exists>a. sc_frames sc = [a \<mapsto> In_prepare]))
      | RUNNING \<Rightarrow> sc_frames sc = Map.empty \<and> (\<exists>t. sc_run_task sc = Some t \<and> sc_tasks sc \<in> {Map.empty, [t \<mapsto> False]})
      | HOLDING \<Rightarrow> sc_frames sc = Map.empty \<and> (\<exists>t. sc_run_task sc = Some t \<and> sc_tasks sc \<in> {Map.empty, [t \<mapsto> False]})
      | STOPPING \<Rightarrow>
          sc_tasks sc = Map.empty \<and>
            (sc_frames sc = Map.empty \<or> (\<exists>a. sc_frames sc = [a \<mapsto> In_stop_all])) \<or>
          (\<exists>a t. sc_frames sc = [a \<mapsto> Awaiting_run t] \<and> sc_run_task sc = Some t \<and>
             sc_tasks sc \<in> {Map.empty, [t \<mapsto> True]})
      | _ \<Rightarrow> sc_frames sc = Map.empty \<and> sc_tasks sc = Map.empty)"

lemmas show_defs = arm_begin_def arm_resume_def start_def drive_end_def hold_def abort_begin_def
  abort_joined_def abort_end_def set_state_def Let_def

lemma show_inv_new: "show_inv new_show_controller"
  by (simp add: show_inv_def new_show_controller_def)

lemma show_inv_perform:
  assumes inv: "show_inv sc" and "show_fresh p sc" and "run_obeys_cancel p sc"
  shows "show_inv (show_perform p sc)"
proof (cases p)
  case (Sh_arm a)
  with inv show ?thesis
    by (cases "sc_state sc") (auto simp: show_inv_def show_defs)
next
  case (Sh_arm_resume res a)
  with inv show ?thesis
    by (cases "sc_state sc"; cases res) (auto simp: show_inv_def show_defs fun_upd_idem_iff split: if_splits)
next
  case (Sh_start run_id t)
  with inv show ?thesis
    by (cases "sc_state sc") (auto simp: show_inv_def show_defs)
next
  case (Sh_drive_end res t)
  with inv assms(3) show ?thesis
    by (cases "sc_state sc"; cases res) (auto simp: show_inv_def show_defs split: if_splits)
next
  case Sh_hold
  with inv show ?thesis
    by (cases "sc_state sc") (auto simp: show_inv_def show_defs)
next
  case (Sh_abort a)
  with inv show ?thesis
    by (cases "sc_state sc") (auto simp: show_inv_def show_defs split: option.split)
next
  case (Sh_abort_joined a)
  with inv show ?thesis
    by (cases "sc_state sc") (auto simp: show_inv_def show_defs split: option.split show_frame.split if_splits)
next
  case (Sh_abort_end res a)
  with inv show ?thesis
    by (cases "sc_state sc") (auto simp: show_inv_def show_defs split: if_splits)
qed

lemma show_run_inv: "show_run run_obeys_cancel sc \<Longrightarrow> show_inv sc"
  by (induction rule: show_run.induct) (simp_all add: show_inv_new show_inv_perform)

section \<open>Stuck states\<close>

text \<open>
  PREPARING without a suspended \<open>arm\<close>, and STOPPING without a suspended \<open>abort\<close>: every operation
  either refuses or changes nothing.
\<close>

definition show_stuck :: "show_controller \<Rightarrow> bool" where
  "show_stuck sc \<longleftrightarrow>
     sc_state sc \<in> {PREPARING, STOPPING} \<and> sc_frames sc = Map.empty \<and> sc_tasks sc = Map.empty"

lemma show_stuck_perform: "show_stuck sc \<Longrightarrow> show_perform p sc = sc"
  by (cases p) (auto simp: show_stuck_def show_defs split: option.split)

section \<open>The way back\<close>

lemma recovers_by:
  "sc_state (fold show_perform ps sc) = IDLE \<Longrightarrow> \<exists>ps. sc_state (fold show_perform ps sc) = IDLE"
  by blast

lemma stopping_recovers:
  assumes "sc_state sc = STOPPING" and "sc_frames sc = [a \<mapsto> Awaiting_run t] \<or> sc_frames sc = [a \<mapsto> In_stop_all]"
    and "sc_tasks sc = Map.empty \<or> sc_tasks sc = [t \<mapsto> c]"
  shows "\<exists>ps. sc_state (fold show_perform ps sc) = IDLE"
  by (rule recovers_by [of "[Sh_drive_end Call_cancelled t, Sh_abort_joined a, Sh_abort_end Call_ok a]"])
    (use assms in \<open>auto simp: show_defs\<close>)

lemma running_recovers:
  assumes "sc_state sc \<in> {RUNNING, HOLDING, FAULTED}" and "sc_frames sc = Map.empty"
    and "sc_tasks sc = Map.empty \<or> (\<exists>t. sc_run_task sc = Some t \<and> sc_tasks sc = [t \<mapsto> False])"
  shows "\<exists>ps. sc_state (fold show_perform ps sc) = IDLE"
proof -
  let ?sc = "show_perform (Sh_abort 0) sc"
  have "sc_state ?sc = STOPPING" "\<exists>t. (sc_frames ?sc = [0 \<mapsto> Awaiting_run t] \<or> sc_frames ?sc = [0 \<mapsto> In_stop_all]) \<and>
      (sc_tasks ?sc = Map.empty \<or> sc_tasks ?sc = [t \<mapsto> True])"
    using assms by (auto simp: show_defs split: option.split)
  then obtain ps where "sc_state (fold show_perform ps ?sc) = IDLE"
    using stopping_recovers by blast
  then show ?thesis
    by (intro recovers_by [of "Sh_abort 0 # ps"]) simp
qed

lemma show_recovers:
  assumes "\<not> show_stuck sc" and inv: "show_inv sc"
  shows "\<exists>ps. sc_state (fold show_perform ps sc) = IDLE"
proof (cases "sc_state sc")
  case IDLE
  then show ?thesis by (intro recovers_by [of "[]"]) simp
next
  case PREPARING
  with assms obtain a where "sc_frames sc = [a \<mapsto> In_prepare]"
    by (auto simp: show_inv_def show_stuck_def)
  then show ?thesis
    by (intro recovers_by [of "[Sh_arm_resume (Call_raised []) a]"]) (simp add: show_defs)
next
  case ARMED
  let ?sc = "show_perform (Sh_start [] 0) sc"
  have "\<exists>ps. sc_state (fold show_perform ps ?sc) = IDLE"
    using ARMED inv by (intro running_recovers) (simp_all add: show_inv_def show_defs)
  then obtain ps where "sc_state (fold show_perform ps ?sc) = IDLE" by blast
  then show ?thesis
    by (intro recovers_by [of "Sh_start [] 0 # ps"]) simp
next
  case STOPPING
  with assms show ?thesis
    using stopping_recovers [OF STOPPING] by (fastforce simp: show_inv_def show_stuck_def)
qed (use inv in \<open>auto simp: show_inv_def intro!: running_recovers\<close>)

text \<open>
  One whole \<open>abort\<close>, where \<open>res\<close> is how the run ends that it cancels, if one is live, and \<open>stop_all()\<close> returns.
\<close>

definition abort_ops :: "nat \<Rightarrow> call_result \<Rightarrow> show_controller \<Rightarrow> show_op list" where
  "abort_ops a res sc =
     (case sc_run_task sc of
        Some t \<Rightarrow>
          if sc_tasks sc t \<noteq> None then [Sh_abort a, Sh_drive_end res t, Sh_abort_joined a, Sh_abort_end Call_ok a]
          else [Sh_abort a, Sh_abort_end Call_ok a]
      | None \<Rightarrow> [Sh_abort a, Sh_abort_end Call_ok a])"

lemma abort_goes_home:
  assumes "show_inv sc" and "sc_state sc \<in> {RUNNING, HOLDING, FAULTED}" and "res \<in> {Call_ok, Call_cancelled}"
  shows "sc_state (fold show_perform (abort_ops a res sc) sc) = IDLE"
proof -
  have "sc_frames sc = Map.empty"
    and "sc_tasks sc = Map.empty \<or> (\<exists>t. sc_run_task sc = Some t \<and> sc_tasks sc = [t \<mapsto> False])"
    using assms(1,2) by (auto simp: show_inv_def)
  then show ?thesis
    using assms(2,3) by (auto simp: abort_ops_def show_defs split: option.split)
qed

lemma pending_calls_decide:
  assumes "show_inv sc"
  shows "sc_frames sc a = Some In_prepare \<Longrightarrow> sc_state sc = PREPARING"
    and "sc_tasks sc t = Some False \<Longrightarrow> sc_state sc \<in> {RUNNING, HOLDING}"
    and "sc_frames sc a = Some In_stop_all \<Longrightarrow> sc_state sc = STOPPING"
  using assms by (cases "sc_state sc"; auto simp: show_inv_def split: if_splits)+

section \<open>Properties\<close>

text \<open>
  One Show at a time: in every run in which a cancelled \<open>run()\<close> does not raise anything else, at
  most one Show task is live, it belongs to the current run, and it lives only while the state is
  RUNNING, HOLDING, or STOPPING with its cancellation requested. So \<open>start\<close>, which needs ARMED, never
  finds a live task: repeated button presses cannot start a second Show.
\<close>

theorem one_show_at_a_time:
  assumes "show_run run_obeys_cancel sc" and "sc_tasks sc t = Some c"
  shows "sc_run_task sc = Some t \<and> (\<forall>t'. sc_tasks sc t' \<noteq> None \<longrightarrow> t' = t) \<and>
    (sc_state sc = RUNNING \<or> sc_state sc = HOLDING \<or> sc_state sc = STOPPING \<and> c) \<and>
    \<not> is_ok (start run_id t' sc)"
  using show_run_inv [OF assms(1)] assms(2)
  by (cases "sc_state sc") (auto simp: show_inv_def start_def split: if_splits)

definition demo_show :: "show_op list \<Rightarrow> show_controller" where
  "demo_show ps = fold show_perform ps new_show_controller"

lemma demo_running: "show_run run_obeys_cancel (demo_show [Sh_arm 0, Sh_arm_resume Call_ok 0, Sh_start ''run-1'' 7])"
  unfolding demo_show_def fold.simps comp_def id_def
  by (intro show_step show_new) (simp_all add: show_defs new_show_controller_def)

theorem one_show_at_a_time_witness:
  "\<not> is_ok (start ''run-2'' 8 (demo_show [Sh_arm 0, Sh_arm_resume Call_ok 0, Sh_start ''run-1'' 7]))"
  using one_show_at_a_time [OF demo_running, of 7 False "''run-2''" 8]
  by (simp add: demo_show_def show_defs new_show_controller_def)

text \<open>
  Without that assumption the guarantee is lost: there is a run, in which a cancelled \<open>run()\<close> raises
  while it is torn down, that ends with two live Show tasks. The exception faults the Show during the
  \<open>abort\<close>, a second \<open>abort\<close> is let in, the first one finishes to IDLE, a new Show is armed and started,
  and the second \<open>abort\<close> then declares the running Show IDLE.
\<close>

theorem two_shows_if_cancelled_run_raises:
  "\<exists>sc t t'. show_run (\<lambda>_ _. True) sc \<and> t \<noteq> t' \<and> sc_tasks sc t \<noteq> None \<and> sc_tasks sc t' \<noteq> None"
proof -
  let ?ps = "[Sh_arm 0, Sh_arm_resume Call_ok 0, Sh_start ''run-1'' 1, Sh_abort 1,
    Sh_drive_end (Call_raised ''teardown'') 1, Sh_abort 2, Sh_abort_joined 1, Sh_abort_end Call_ok 1,
    Sh_arm 3, Sh_arm_resume Call_ok 3, Sh_start ''run-2'' 2, Sh_abort_end Call_ok 2,
    Sh_arm 4, Sh_arm_resume Call_ok 4, Sh_start ''run-3'' 3]"
  have "show_run (\<lambda>_ _. True) (demo_show ?ps)"
    unfolding demo_show_def fold.simps comp_def id_def
    by (intro show_step show_new) (simp_all add: show_defs new_show_controller_def)
  moreover have "sc_tasks (demo_show ?ps) 2 \<noteq> None" "sc_tasks (demo_show ?ps) 3 \<noteq> None"
    by (simp_all add: demo_show_def show_defs new_show_controller_def)
  ultimately show ?thesis
    by (intro exI [of _ "demo_show ?ps"] exI [of _ 2] exI [of _ 3]) simp
qed

text \<open>
  What each request does, in every state: \<open>arm\<close> is accepted only in IDLE, \<open>start\<close> only in ARMED,
  \<open>hold\<close> only in RUNNING and \<open>abort\<close> only in RUNNING, HOLDING and FAULTED; an accepted one moves to
  PREPARING, RUNNING, HOLDING and STOPPING, a refused one raises and changes nothing. A Show that is
  held has \<open>hold_requested\<close> set until the next \<open>start\<close> clears it.
\<close>

theorem show_requests:
  "(case arm_begin a sc of Inr sc' \<Rightarrow> sc_state sc = IDLE \<and> sc_state sc' = PREPARING | Inl _ \<Rightarrow> sc_state sc \<noteq> IDLE) \<and>
   (case start run_id t sc of
      Inr sc' \<Rightarrow> sc_state sc = ARMED \<and> sc_state sc' = RUNNING \<and> sc_run_id sc' = Some run_id \<and>
        \<not> sc_hold_requested sc' \<and> sc_run_task sc' = Some t
    | Inl _ \<Rightarrow> sc_state sc \<noteq> ARMED) \<and>
   (case hold sc of
      Inr sc' \<Rightarrow> sc_state sc = RUNNING \<and> sc_state sc' = HOLDING \<and> sc_hold_requested sc'
    | Inl _ \<Rightarrow> sc_state sc \<noteq> RUNNING) \<and>
   (case abort_begin a sc of
      Inr sc' \<Rightarrow> sc_state sc \<in> {RUNNING, HOLDING, FAULTED} \<and> sc_state sc' = STOPPING
    | Inl _ \<Rightarrow> sc_state sc \<notin> {RUNNING, HOLDING, FAULTED})"
  by (auto simp: show_defs split: option.split)

text \<open>
  \<^bold>\<open>C19\<close> The way back to IDLE, in every run in which a cancelled \<open>run()\<close> does not raise anything else. Either some
  operations lead from the state reached to IDLE, or the controller is stuck for ever, in PREPARING because
  the \<open>arm\<close> call was itself cancelled or in STOPPING because \<open>stop_all()\<close> did not return. And the way is the
  expected one: a \<open>prepare()\<close> that raises leaves the Show IDLE with its error, and one that returns ARMED; a
  run that raises leaves it FAULTED with its error, and one that returns IDLE; and from RUNNING, HOLDING and
  FAULTED one \<open>abort\<close> is enough, whether the run it cancels ends as cancelled or returns.
\<close>

theorem show_recovers_or_stuck:
  assumes "show_run run_obeys_cancel sc"
  shows "((\<exists>ps. sc_state (fold show_perform ps sc) = IDLE) \<noteq> show_stuck sc) \<and>
    (show_stuck sc \<longrightarrow> (\<forall>ps. fold show_perform ps sc = sc)) \<and>
    (sc_frames sc a = Some In_prepare \<longrightarrow>
       (let failed = arm_resume (Call_raised m) a sc
        in sc_state failed = IDLE \<and> sc_last_error failed = Some m \<and> sc_state (arm_resume Call_ok a sc) = ARMED)) \<and>
    (sc_tasks sc t = Some False \<longrightarrow>
       (let failed = drive_end (Call_raised m) t sc
        in sc_state failed = FAULTED \<and> sc_last_error failed = Some m \<and> sc_state (drive_end Call_ok t sc) = IDLE)) \<and>
    (sc_state sc \<in> {RUNNING, HOLDING, FAULTED} \<and> res \<in> {Call_ok, Call_cancelled} \<longrightarrow>
       sc_state (fold show_perform (abort_ops a' res sc) sc) = IDLE)"
proof -
  have inv: "show_inv sc" using assms by (rule show_run_inv)
  have stuck: "show_stuck sc \<Longrightarrow> fold show_perform ps sc = sc" for ps
    by (induction ps) (simp_all add: show_stuck_perform)
  have "\<exists>ps. sc_state (fold show_perform ps sc) = IDLE" if "\<not> show_stuck sc"
    using that inv by (rule show_recovers)
  with stuck have "(\<exists>ps. sc_state (fold show_perform ps sc) = IDLE) \<noteq> show_stuck sc"
    by (auto simp: show_stuck_def)
  moreover note pending_calls_decide [OF inv] abort_goes_home [OF inv]
  ultimately show ?thesis
    using stuck by (auto simp: show_defs)
qed

text \<open>A running Show, and an \<open>arm\<close> that fails.\<close>

theorem show_recovers_or_stuck_witness:
  "\<not> show_stuck (demo_show [Sh_arm 0, Sh_arm_resume Call_ok 0, Sh_start ''run-1'' 7]) \<and>
   sc_state (arm_resume (Call_raised ''motor unreachable'') 0 (demo_show [Sh_arm 0])) = IDLE"
proof -
  let ?sc = "demo_show [Sh_arm 0, Sh_arm_resume Call_ok 0, Sh_start ''run-1'' 7]"
  have "sc_state (fold show_perform
      [Sh_abort 1, Sh_drive_end Call_cancelled 7, Sh_abort_joined 1, Sh_abort_end Call_ok 1] ?sc) = IDLE"
    by (simp add: demo_show_def show_defs new_show_controller_def)
  with show_recovers_or_stuck [OF demo_running] have "\<not> show_stuck ?sc" by blast
  moreover have "show_run run_obeys_cancel (demo_show [Sh_arm 0])"
    unfolding demo_show_def fold.simps comp_def id_def
    by (intro show_step show_new) (simp_all add: new_show_controller_def)
  from show_recovers_or_stuck [OF this, of 0 "''motor unreachable''"]
  have "sc_state (arm_resume (Call_raised ''motor unreachable'') 0 (demo_show [Sh_arm 0])) = IDLE"
    by (simp add: demo_show_def show_defs new_show_controller_def)
  ultimately show ?thesis by blast
qed

end
