(* ===== verification/Trigger_Engine.thy ===== *)
theory Trigger_Engine
  imports Show_Controller
begin

text \<open>
  Trigger conditions (\<open>contracts/trigger.py\<close>) and the trigger engine (\<open>core/trigger_engine.py\<close>). One turn
  of the loop in \<open>handle\<close> is \<open>decide\<close> (up to the call of an action) and \<open>fired\<close> (after the action has
  returned); what the Show state is at that moment and what the action does are inputs, since \<open>abort\<close>
  is awaited. Python's \<open>float(str)\<close> is an argument (\<open>None\<close> for \<open>ValueError\<close>).
\<close>

section \<open>Conditions\<close>

datatype comparator = Cmp_eq | Cmp_ne | Cmp_gt | Cmp_gte | Cmp_lt | Cmp_lte

datatype trigger_action = Act_start | Act_hold | Act_abort

record input_event =
  ie_source :: string
  ie_type :: string
  ie_value :: pyval
  ie_occurred_at :: time

record trigger_condition =
  tc_source :: "string option"
  tc_type :: string
  tc_comparator :: comparator
  tc_value :: pyval

record trigger =
  tg_trigger_id :: string
  tg_condition :: trigger_condition
  tg_action :: trigger_action
  tg_show_states :: "string list option"
  tg_debounce_ms :: rat
  tg_cooldown_ms :: rat

definition condition_matches :: "(string \<Rightarrow> rat option) \<Rightarrow> trigger_condition \<Rightarrow> input_event \<Rightarrow> bool" where
  "condition_matches parse cond ev =
     (if tc_source cond \<noteq> None \<and> tc_source cond \<noteq> Some (ie_source ev) then False
      else if tc_type cond \<noteq> ie_type ev then False
      else case tc_comparator cond of
          Cmp_eq \<Rightarrow> py_eq (ie_value ev) (tc_value cond)
        | Cmp_ne \<Rightarrow> \<not> py_eq (ie_value ev) (tc_value cond)
        | c \<Rightarrow>
           (case (to_float parse (ie_value ev), to_float parse (tc_value cond)) of
              (Some a, Some b) \<Rightarrow>
                (case c of Cmp_gt \<Rightarrow> a > b | Cmp_gte \<Rightarrow> a \<ge> b | Cmp_lt \<Rightarrow> a < b | Cmp_lte \<Rightarrow> a \<le> b | _ \<Rightarrow> False)
            | _ \<Rightarrow> False))"

section \<open>The engine\<close>

record trigger_engine =
  te_triggers :: "trigger list"
  te_last_matched_at :: "string \<rightharpoonup> time"
  te_last_fired_at :: "string \<rightharpoonup> time"

definition new_trigger_engine :: trigger_engine where
  "new_trigger_engine = \<lparr>te_triggers = [], te_last_matched_at = Map.empty, te_last_fired_at = Map.empty\<rparr>"

definition register_trigger :: "trigger \<Rightarrow> trigger_engine \<Rightarrow> trigger_engine" where
  "register_trigger t te = te\<lparr>te_triggers := te_triggers te @ [t]\<rparr>"

text \<open>\<open>(now - last) * 1000 < ms\<close> for the last time, if any.\<close>

definition in_window :: "time \<Rightarrow> time option \<Rightarrow> rat \<Rightarrow> bool" where
  "in_window now last_at ms = (case last_at of None \<Rightarrow> False | Some l \<Rightarrow> (now - l) * 1000 < ms)"

text \<open>
  For one trigger and an event that arrived at \<open>now\<close>: whether the condition matched, whether its action
  is called, and the engine with the match noted.
\<close>

definition decide ::
    "(string \<Rightarrow> rat option) \<Rightarrow> time \<Rightarrow> input_event \<Rightarrow> show_state \<Rightarrow> trigger \<Rightarrow> trigger_engine \<Rightarrow>
     bool \<times> bool \<times> trigger_engine" where
  "decide parse now ev st t te =
     (if \<not> condition_matches parse (tg_condition t) ev then (False, False, te)
      else
        let last_matched = te_last_matched_at te (tg_trigger_id t);
            te1 = te\<lparr>te_last_matched_at := (te_last_matched_at te)(tg_trigger_id t \<mapsto> now)\<rparr>
        in if in_window now last_matched (tg_debounce_ms t) then (True, False, te1)
           else if \<not> (case tg_show_states t of None \<Rightarrow> True | Some sts \<Rightarrow> show_state_value st \<in> set sts)
           then (True, False, te1)
           else if in_window now (te_last_fired_at te1 (tg_trigger_id t)) (tg_cooldown_ms t)
           then (True, False, te1)
           else (True, True, te1))"

definition fired :: "time \<Rightarrow> trigger \<Rightarrow> trigger_engine \<Rightarrow> trigger_engine" where
  "fired now t te = te\<lparr>te_last_fired_at := (te_last_fired_at te)(tg_trigger_id t \<mapsto> now)\<rparr>"

text \<open>
  The loop of \<open>handle\<close> over the triggers. \<open>env\<close> gives, turn by turn, the Show state and whether the
  action returned without raising. Each matched turn leaves an entry in the log: the trigger, the
  time, whether its action was called, and whether that succeeded.
\<close>

record firing =
  fi_trigger_id :: string
  fi_at :: time
  fi_acted :: bool
  fi_fired :: bool

fun handle_loop ::
    "(string \<Rightarrow> rat option) \<Rightarrow> time \<Rightarrow> input_event \<Rightarrow> (nat \<Rightarrow> show_state \<times> bool) \<Rightarrow> trigger list \<Rightarrow>
     trigger_engine \<Rightarrow> firing list \<times> trigger_engine" where
  "handle_loop parse now ev env [] te = ([], te)"
| "handle_loop parse now ev env (t # ts) te =
     (let (matched, act, te1) = decide parse now ev (fst (env 0)) t te;
          ok = act \<and> snd (env 0);
          te2 = (if ok then fired now t te1 else te1);
          entry = (if matched then [\<lparr>fi_trigger_id = tg_trigger_id t, fi_at = now, fi_acted = act, fi_fired = ok\<rparr>]
                   else []);
          (log1, te3) = handle_loop parse now ev (env \<circ> Suc) ts te2
      in (entry @ log1, te3))"

definition handle ::
    "(string \<Rightarrow> rat option) \<Rightarrow> time \<Rightarrow> input_event \<Rightarrow> (nat \<Rightarrow> show_state \<times> bool) \<Rightarrow> trigger_engine \<Rightarrow>
     firing list \<times> trigger_engine" where
  "handle parse now ev env te = handle_loop parse now ev env (te_triggers te) te"

text \<open>A sequence of events, each with the time it is handled at.\<close>

fun handle_all ::
    "(string \<Rightarrow> rat option) \<Rightarrow> (time \<times> input_event \<times> (nat \<Rightarrow> show_state \<times> bool)) list \<Rightarrow> trigger_engine \<Rightarrow>
     firing list \<times> trigger_engine" where
  "handle_all parse [] te = ([], te)"
| "handle_all parse ((now, ev, env) # evs) te =
     (let (log1, te1) = handle parse now ev env te; (log2, te2) = handle_all parse evs te1
      in (log1 @ log2, te2))"

section \<open>Timing\<close>

text \<open>
  The engine remembers, for each trigger, the latest match and the latest success of the log so far.
\<close>

definition remembers :: "firing list \<Rightarrow> trigger_engine \<Rightarrow> bool" where
  "remembers log1 te \<longleftrightarrow>
     (\<forall>e \<in> set log1.
        (\<exists>m. te_last_matched_at te (fi_trigger_id e) = Some m \<and> fi_at e \<le> m) \<and>
        (fi_fired e \<longrightarrow> (\<exists>m. te_last_fired_at te (fi_trigger_id e) = Some m \<and> fi_at e \<le> m)))"

definition no_later_than :: "trigger_engine \<Rightarrow> time \<Rightarrow> bool" where
  "no_later_than te now \<longleftrightarrow>
     (\<forall>i m. te_last_matched_at te i = Some m \<or> te_last_fired_at te i = Some m \<longrightarrow> m \<le> now)"

text \<open>An entry \<open>e\<close> after the entries \<open>es\<close> keeps the windows of trigger \<open>t\<close>.\<close>

definition keeps_windows :: "trigger list \<Rightarrow> firing list \<Rightarrow> firing \<Rightarrow> bool" where
  "keeps_windows ts es e \<longleftrightarrow>
     (\<forall>t \<in> set ts. \<forall>d \<in> set es. tg_trigger_id t = fi_trigger_id e \<longrightarrow> fi_trigger_id d = fi_trigger_id e \<longrightarrow>
        fi_acted e \<longrightarrow>
        tg_debounce_ms t \<le> (fi_at e - fi_at d) * 1000 \<and>
        (fi_fired d \<longrightarrow> tg_cooldown_ms t \<le> (fi_at e - fi_at d) * 1000))"

fun spaced :: "trigger list \<Rightarrow> firing list \<Rightarrow> firing list \<Rightarrow> bool" where
  "spaced ts es [] \<longleftrightarrow> True"
| "spaced ts es (e # rest) \<longleftrightarrow> keeps_windows ts es e \<and> spaced ts (es @ [e]) rest"

lemma spaced_append: "spaced ts es (xs @ ys) \<longleftrightarrow> spaced ts es xs \<and> spaced ts (es @ xs) ys"
  by (induction xs arbitrary: es) auto

lemma spaced_nth:
  "spaced ts es xs \<Longrightarrow> j < length xs \<Longrightarrow> keeps_windows ts (es @ take j xs) (xs ! j)"
proof (induction xs arbitrary: es j)
  case (Cons x xs)
  then show ?case
    using Cons.IH [of "es @ [x]" "j - 1"] by (cases j) auto
qed simp

lemma in_window_late:
  assumes "\<not> in_window now (Some m) ms" and "x \<le> m"
  shows "ms \<le> (now - x) * 1000"
proof -
  have "ms \<le> (now - m) * 1000" using assms(1) by (simp add: in_window_def)
  also have "\<dots> \<le> (now - x) * 1000" using assms(2) by simp
  finally show ?thesis .
qed

text \<open>One turn of the loop.\<close>

definition turn_entry :: "trigger \<Rightarrow> time \<Rightarrow> bool \<times> bool \<times> trigger_engine \<Rightarrow> bool \<Rightarrow> firing list" where
  "turn_entry t now d ok =
     (if fst d then [\<lparr>fi_trigger_id = tg_trigger_id t, fi_at = now, fi_acted = fst (snd d),
        fi_fired = fst (snd d) \<and> ok\<rparr>] else [])"

definition turn_engine :: "trigger \<Rightarrow> time \<Rightarrow> bool \<times> bool \<times> trigger_engine \<Rightarrow> bool \<Rightarrow> trigger_engine" where
  "turn_engine t now d ok = (if fst (snd d) \<and> ok then fired now t (snd (snd d)) else snd (snd d))"

lemma handle_loop_Cons:
  "handle_loop parse now ev env (t # ts) te =
     (let d = decide parse now ev (fst (env 0)) t te;
          r = handle_loop parse now ev (env \<circ> Suc) ts (turn_engine t now d (snd (env 0)))
      in (turn_entry t now d (snd (env 0)) @ fst r, snd r))"
  by (simp add: turn_entry_def turn_engine_def split_beta Let_def)

lemma turn_keeps:
  fixes parse now ev st t te
  assumes uniq: "\<forall>t' \<in> set ts. tg_trigger_id t' = tg_trigger_id t \<longrightarrow> t' = t"
    and rem: "remembers es te" and late: "no_later_than te now"
  defines "d \<equiv> decide parse now ev st t te"
  shows "spaced ts es (turn_entry t now d ok) \<and> remembers (es @ turn_entry t now d ok) (turn_engine t now d ok) \<and>
    no_later_than (turn_engine t now d ok) now"
proof (cases "condition_matches parse (tg_condition t) ev")
  case False
  then show ?thesis
    using rem late by (simp add: d_def decide_def turn_entry_def turn_engine_def)
next
  case True
  let ?i = "tg_trigger_id t" and ?act = "fst (snd d)"
  have d: "fst d" "te_last_matched_at (snd (snd d)) = (te_last_matched_at te)(?i \<mapsto> now)"
    "te_last_fired_at (snd (snd d)) = te_last_fired_at te"
    using True by (simp_all add: d_def decide_def Let_def)
  have act: "\<not> in_window now (te_last_matched_at te ?i) (tg_debounce_ms t) \<and>
      \<not> in_window now (te_last_fired_at te ?i) (tg_cooldown_ms t)" if ?act
    using that True by (auto simp: d_def decide_def Let_def split: if_splits)
  have "tg_debounce_ms t \<le> (now - fi_at e) * 1000 \<and>
      (fi_fired e \<longrightarrow> tg_cooldown_ms t \<le> (now - fi_at e) * 1000)"
    if a: "?act" and e: "e \<in> set es" "fi_trigger_id e = ?i" for e
  proof -
    obtain m where "te_last_matched_at te ?i = Some m" "fi_at e \<le> m"
      using rem e by (force simp: remembers_def)
    with act [OF a] have "tg_debounce_ms t \<le> (now - fi_at e) * 1000"
      using in_window_late [of now m "tg_debounce_ms t" "fi_at e"] by simp
    moreover have "tg_cooldown_ms t \<le> (now - fi_at e) * 1000" if ff: "fi_fired e"
    proof -
      obtain m where "te_last_fired_at te ?i = Some m" "fi_at e \<le> m"
        using rem e ff by (force simp: remembers_def)
      with act [OF a] show ?thesis
        using in_window_late [of now m "tg_cooldown_ms t" "fi_at e"] by simp
    qed
    ultimately show ?thesis by blast
  qed
  then have "spaced ts es (turn_entry t now d ok)"
    using uniq by (auto simp: turn_entry_def keeps_windows_def)
  moreover have "remembers (es @ turn_entry t now d ok) (turn_engine t now d ok)"
    unfolding remembers_def
  proof
    fix e
    assume e: "e \<in> set (es @ turn_entry t now d ok)"
    show "(\<exists>m. te_last_matched_at (turn_engine t now d ok) (fi_trigger_id e) = Some m \<and> fi_at e \<le> m) \<and>
      (fi_fired e \<longrightarrow> (\<exists>m. te_last_fired_at (turn_engine t now d ok) (fi_trigger_id e) = Some m \<and> fi_at e \<le> m))"
    proof (cases "e \<in> set es")
      case True
      with rem obtain m where m: "te_last_matched_at te (fi_trigger_id e) = Some m" "fi_at e \<le> m"
        and f: "fi_fired e \<Longrightarrow> \<exists>m. te_last_fired_at te (fi_trigger_id e) = Some m \<and> fi_at e \<le> m"
        by (auto simp: remembers_def)
      have le: "te_last_matched_at te i = Some m' \<or> te_last_fired_at te i = Some m' \<Longrightarrow> m' \<le> now" for i m'
        using late by (auto simp: no_later_than_def)
      from le [of "fi_trigger_id e" m] m have "fi_at e \<le> now" by auto
      with m f d show ?thesis
        by (auto simp: turn_engine_def fired_def)
    next
      case False
      with e d show ?thesis
        by (auto simp: turn_entry_def turn_engine_def fired_def)
    qed
  qed
  moreover have "no_later_than (turn_engine t now d ok) now"
    using late d by (auto simp: no_later_than_def turn_engine_def fired_def split: if_splits)
  ultimately show ?thesis by blast
qed

lemma loop_keeps:
  assumes "distinct (map tg_trigger_id all)" and "set ts \<subseteq> set all"
    and "remembers es te" and "no_later_than te now"
  shows "let (log1, te') = handle_loop parse now ev env ts te
    in spaced all es log1 \<and> remembers (es @ log1) te' \<and> no_later_than te' now \<and> te_triggers te' = te_triggers te"
  using assms(2-4)
proof (induction ts arbitrary: es te env)
  case Nil
  then show ?case by simp
next
  case (Cons t ts)
  let ?d = "decide parse now ev (fst (env 0)) t te" and ?ok = "snd (env 0)"
  have uniq: "\<forall>t' \<in> set all. tg_trigger_id t' = tg_trigger_id t \<longrightarrow> t' = t"
    using assms(1) Cons.prems(1) by (auto simp: distinct_map inj_on_def)
  note turn = turn_keeps [OF uniq Cons.prems(2,3), of parse ev "fst (env 0)" ?ok]
  have "te_triggers (turn_engine t now ?d ?ok) = te_triggers te"
    by (simp add: turn_engine_def fired_def decide_def Let_def)
  moreover have "set ts \<subseteq> set all"
    using Cons.prems(1) by simp
  ultimately show ?case
    using Cons.IH [of "es @ turn_entry t now ?d ?ok" "turn_engine t now ?d ?ok" "env \<circ> Suc"] turn
    by (simp only: handle_loop_Cons Let_def split_beta fst_conv snd_conv spaced_append append_assoc simp_thms)
qed

lemma all_keeps:
  assumes "distinct (map tg_trigger_id (te_triggers te))" and "remembers es te"
    and "\<forall>x \<in> set evs. no_later_than te (fst x)" and "sorted (map fst evs)"
  shows "spaced (te_triggers te) es (fst (handle_all parse evs te))"
  using assms
proof (induction evs arbitrary: es te)
  case Nil
  then show ?case by simp
next
  case (Cons x evs)
  obtain now ev env where x: "x = (now, ev, env)" by (rule prod_cases3)
  let ?r = "handle parse now ev env te"
  have loop: "spaced (te_triggers te) es (fst ?r)" "remembers (es @ fst ?r) (snd ?r)" "no_later_than (snd ?r) now"
    "te_triggers (snd ?r) = te_triggers te"
    using loop_keeps [OF Cons.prems(1) subset_refl Cons.prems(2), of now parse ev env] Cons.prems(3)
    by (simp_all add: handle_def split_beta x)
  have "\<forall>y \<in> set evs. no_later_than (snd ?r) (fst y)"
    using loop(3) Cons.prems(4) by (fastforce simp: x no_later_than_def)
  with Cons.IH [of "snd ?r" "es @ fst ?r"] loop Cons.prems(1,4)
  show ?case by (simp add: x split_beta Let_def spaced_append)
qed

section \<open>Properties\<close>

text \<open>
  Debounce and cooldown: for any sequence of input events handled at non-decreasing clock times, by
  an engine whose triggers have different identifiers, look at two entries \<open>i < j\<close> of the log of matched
  events of one trigger. If its action is called for the later one, at least the debounce window lies
  between them, and if the earlier one's action succeeded, at least the cooldown as well; whatever the
  Show's state and the outcomes of the actions are.
\<close>

theorem triggers_are_spaced:
  assumes "te_triggers te = ts" and "te_last_matched_at te = Map.empty" and "te_last_fired_at te = Map.empty"
    and "distinct (map tg_trigger_id ts)" and "sorted (map fst evs)"
    and "fst (handle_all parse evs te) = firings" and "i < j" and "j < length firings"
    and "t \<in> set ts" and "fi_trigger_id (firings ! i) = tg_trigger_id t"
    and "fi_trigger_id (firings ! j) = tg_trigger_id t" and "fi_acted (firings ! j)"
  shows "tg_debounce_ms t \<le> (fi_at (firings ! j) - fi_at (firings ! i)) * 1000 \<and>
    (fi_fired (firings ! i) \<longrightarrow> tg_cooldown_ms t \<le> (fi_at (firings ! j) - fi_at (firings ! i)) * 1000)"
proof -
  have "spaced ts [] firings"
    using all_keeps [of te "[]" evs parse] assms(1-6) by (simp add: remembers_def no_later_than_def)
  from spaced_nth [OF this assms(8)] have "keeps_windows ts (take j firings) (firings ! j)" by simp
  moreover have "firings ! i \<in> set (take j firings)"
    using assms(7,8) by (auto simp: in_set_conv_nth intro!: exI [of _ i])
  ultimately show ?thesis
    using assms(9-12) unfolding keeps_windows_def by auto
qed

definition demo_trigger :: trigger where
  "demo_trigger = \<lparr>tg_trigger_id = ''go'', tg_condition = \<lparr>tc_source = None, tc_type = ''button'',
     tc_comparator = Cmp_eq, tc_value = PBool True\<rparr>, tg_action = Act_start,
     tg_show_states = Some [''ARMED''], tg_debounce_ms = 50, tg_cooldown_ms = 1000\<rparr>"

definition demo_engine :: trigger_engine where
  "demo_engine = register_trigger demo_trigger new_trigger_engine"

definition demo_press :: "time \<Rightarrow> time \<times> input_event \<times> (nat \<Rightarrow> show_state \<times> bool)" where
  "demo_press t = (t, \<lparr>ie_source = ''serial'', ie_type = ''button'', ie_value = PBool True, ie_occurred_at = t\<rparr>,
     \<lambda>_. (ARMED, True))"

theorem triggers_are_spaced_witness:
  "let firings = fst (handle_all (\<lambda>_. None) (map demo_press [1, 2, 3]) demo_engine)
   in tg_debounce_ms demo_trigger \<le> (fi_at (firings ! 2) - fi_at (firings ! 0)) * 1000"
proof -
  have firings: "fst (handle_all (\<lambda>_. None) (map demo_press [1, 2, 3]) demo_engine) =
      [\<lparr>fi_trigger_id = ''go'', fi_at = 1, fi_acted = True, fi_fired = True\<rparr>,
       \<lparr>fi_trigger_id = ''go'', fi_at = 2, fi_acted = True, fi_fired = True\<rparr>,
       \<lparr>fi_trigger_id = ''go'', fi_at = 3, fi_acted = True, fi_fired = True\<rparr>]"
    by (simp add: demo_press_def demo_engine_def demo_trigger_def register_trigger_def new_trigger_engine_def
        handle_def decide_def condition_matches_def in_window_def fired_def)
  have "tg_debounce_ms demo_trigger \<le>
      (fi_at (fst (handle_all (\<lambda>_. None) (map demo_press [1, 2, 3]) demo_engine) ! 2) -
       fi_at (fst (handle_all (\<lambda>_. None) (map demo_press [1, 2, 3]) demo_engine) ! 0)) * 1000"
    by (rule triggers_are_spaced [where te = demo_engine and ts = "[demo_trigger]" and
          parse = "\<lambda>_. None" and evs = "map demo_press [1, 2, 3]", OF _ _ _ _ _ refl, THEN conjunct1])
      (simp_all only: firings, simp_all add: demo_engine_def register_trigger_def new_trigger_engine_def
        demo_press_def demo_trigger_def)
  then show ?thesis by (simp only: Let_def)
qed

end
