(* ===== verification/Scheduler.thy ===== *)
theory Scheduler
  imports Show_Controller Executor_Runs Trigger_Engine Config_Service
begin

text \<open>
  The Scheduler (\<open>apps/scheduler/runtime.py\<close>), which ties the Show controller, the timeline executor, the
  triggers and the configuration together. Its calls to the Runtimes are answered by inputs, one per
  client or target. \<open>_prepare\<close> and \<open>_stop_all\<close> suspend at every call, but while they run the controller is
  PREPARING or STOPPING and only they touch the session ids, so each is one function over the answers.
  The run itself is the executor of \<open>Timeline_Executor\<close>; here is what becomes of its outcomes.
\<close>

section \<open>State\<close>

record scheduler =
  sch_clients :: "string list"
  sch_timeline :: "timeline option"
  sch_session_ids :: "(string, string) dict"
  sch_last_outcomes :: "(string, string) dict"
  sch_config :: config_service
  sch_controller :: show_controller
  sch_triggers :: trigger_engine

definition new_scheduler :: "string list \<Rightarrow> scheduler" where
  "new_scheduler clients =
     \<lparr>sch_clients = clients, sch_timeline = None, sch_session_ids = [], sch_last_outcomes = [],
      sch_config = new_config_service DEFAULT_JOURNAL_LIMIT, sch_controller = new_show_controller,
      sch_triggers = new_trigger_engine\<rparr>"

definition register_scheduler_trigger :: "trigger \<Rightarrow> scheduler \<Rightarrow> scheduler" where
  "register_scheduler_trigger t sch = sch\<lparr>sch_triggers := register_trigger t (sch_triggers sch)\<rparr>"

definition load_timeline :: "timeline \<Rightarrow> scheduler \<Rightarrow> string + scheduler" where
  "load_timeline cues sch =
     (let errors = validate_timeline cues
      in if errors \<noteq> [] then Inl (''invalid timeline: '' @ str_join ''; '' errors)
         else Inr (sch\<lparr>sch_timeline := Some cues\<rparr>))"

definition scheduler_status :: "scheduler \<Rightarrow> (string \<times> string option \<times> string option) \<times> (string, string) dict" where
  "scheduler_status sch = (show_status (sch_controller sch), sch_last_outcomes sch)"

section \<open>Arming\<close>

text \<open>
  What a client answers to \<open>get_info\<close> and \<open>acquire_session\<close>: a session, an exception, or the arming task is
  cancelled meanwhile.
\<close>

datatype prepare_answer = Prepared string | Prepare_raised string | Prepare_cancelled

fun prepare_clients :: "(string \<times> prepare_answer) list \<Rightarrow> (string, string) dict \<Rightarrow> call_result \<times> (string, string) dict" where
  "prepare_clients [] ids = (Call_ok, ids)"
| "prepare_clients ((name, Prepared sid) # answers) ids = prepare_clients answers (dset name sid ids)"
| "prepare_clients ((name, Prepare_raised m) # answers) ids = (Call_raised m, ids)"
| "prepare_clients ((name, Prepare_cancelled) # answers) ids = (Call_cancelled, ids)"

definition prepare :: "(string \<Rightarrow> prepare_answer) \<Rightarrow> scheduler \<Rightarrow> call_result \<times> scheduler" where
  "prepare answer sch =
     (if sch_timeline sch = None then (Call_raised ''no timeline loaded'', sch)
      else let (res, ids) = prepare_clients (map (\<lambda>n. (n, answer n)) (sch_clients sch)) (sch_session_ids sch)
           in (res, sch\<lparr>sch_session_ids := ids\<rparr>))"

text \<open>\<open>arm\<close> from its call to its end; a refused one changes nothing.\<close>

definition scheduler_arm :: "nat \<Rightarrow> (string \<Rightarrow> prepare_answer) \<Rightarrow> scheduler \<Rightarrow> string + scheduler" where
  "scheduler_arm a answer sch =
     (case arm_begin a (sch_controller sch) of
        Inl m \<Rightarrow> Inl m
      | Inr sc \<Rightarrow>
          let (res, sch1) = prepare answer (sch\<lparr>sch_controller := sc\<rparr>)
          in Inr (sch1\<lparr>sch_controller := arm_resume res a (sch_controller sch1)\<rparr>))"

section \<open>Running\<close>

definition scheduler_start :: "string \<Rightarrow> nat \<Rightarrow> scheduler \<Rightarrow> string + scheduler" where
  "scheduler_start run_id t sch =
     (case start run_id t (sch_controller sch) of
        Inl m \<Rightarrow> Inl m
      | Inr sc \<Rightarrow> Inr (sch\<lparr>sch_controller := sc\<rparr>))"

definition scheduler_hold :: "scheduler \<Rightarrow> string + scheduler" where
  "scheduler_hold sch =
     (case hold (sch_controller sch) of Inl m \<Rightarrow> Inl m | Inr sc \<Rightarrow> Inr (sch\<lparr>sch_controller := sc\<rparr>))"

text \<open>\<open>hold_check\<close>, which the executor asks before a cue is submitted.\<close>

definition hold_check :: "scheduler \<Rightarrow> bool" where
  "hold_check sch = sc_hold_requested (sch_controller sch)"

text \<open>
  The executor that \<open>_run\<close> makes, and the end of \<open>_run\<close>: a run that returned its outcomes, or raised. The
  error's text lists the failed cues after the part given here.
\<close>

definition run_executor :: "time \<Rightarrow> scheduler \<Rightarrow> executor option" where
  "run_executor now sch = map_option (\<lambda>cues. new_executor cues (set (sch_clients sch)) now) (sch_timeline sch)"

definition failed_cues :: "(string, string) dict \<Rightarrow> (string, string) dict" where
  "failed_cues outcomes = filter (\<lambda>(cid, out). out \<noteq> SUCCESS \<and> out \<noteq> ''SKIPPED'') outcomes"

definition run_end :: "call_result + (string, string) dict \<Rightarrow> nat \<Rightarrow> scheduler \<Rightarrow> scheduler" where
  "run_end ended t sch =
     (let (res, sch1) =
        (case ended of
           Inl res \<Rightarrow> (res, sch)
         | Inr outcomes \<Rightarrow>
             (if failed_cues outcomes \<noteq> []
              then Call_raised (nat_str (length (failed_cues outcomes)) @ '' cue(s) did not succeed'') else Call_ok,
              sch\<lparr>sch_last_outcomes := outcomes\<rparr>))
      in sch1\<lparr>sch_controller := drive_end res t (sch_controller sch1)\<rparr>)"

section \<open>Stopping\<close>

text \<open>What \<open>_stop_all\<close> sends, in order.\<close>

datatype stop_call =
    Stop_command string string string string
  | Release_call string string

text \<open>\<open>next((a for a in target["actions"] if a["priority"] == "control"), None)\<close>\<close>

definition control_action :: "target_manifest \<Rightarrow> action_spec option" where
  "control_action m = find (\<lambda>a. as_priority a = Priority_control) (tm_actions m)"

text \<open>
  The stop requests to one client: none without a session, none when \<open>get_targets\<close> raises (\<open>None\<close>), else
  one for each target that has a control action. Whether the request fails makes no difference.
\<close>

definition stop_client :: "(string \<Rightarrow> target_manifest list option) \<Rightarrow> (string, string) dict \<Rightarrow> string \<Rightarrow> stop_call list" where
  "stop_client get_targets ids name =
     (case dget ids name of
        None \<Rightarrow> []
      | Some session_id \<Rightarrow>
          (case get_targets name of
             None \<Rightarrow> []
           | Some targets \<Rightarrow>
               List.map_filter
                 (\<lambda>m. map_option (\<lambda>a. Stop_command name session_id (tm_target_id m) (as_name a)) (control_action m))
                 targets))"

text \<open>The second loop: over a copy of the keys, each popped and released.\<close>

fun release_all :: "string list \<Rightarrow> (string, string) dict \<Rightarrow> stop_call list \<times> (string, string) dict" where
  "release_all [] ids = ([], ids)"
| "release_all (name # names) ids =
     (case dget ids name of
        None \<Rightarrow> release_all names ids
      | Some session_id \<Rightarrow>
          (let (calls, ids') = release_all names (dpop name ids) in (Release_call name session_id # calls, ids')))"

definition stop_all :: "(string \<Rightarrow> target_manifest list option) \<Rightarrow> scheduler \<Rightarrow> stop_call list \<times> scheduler" where
  "stop_all get_targets sch =
     (let stops = concat (map (stop_client get_targets (sch_session_ids sch)) (sch_clients sch));
          (releases, ids) = release_all (dkeys (sch_session_ids sch)) (sch_session_ids sch)
      in (stops @ releases, sch\<lparr>sch_session_ids := ids\<rparr>))"

definition abort_scheduler_begin :: "nat \<Rightarrow> scheduler \<Rightarrow> string + scheduler" where
  "abort_scheduler_begin a sch =
     (case abort_begin a (sch_controller sch) of Inl m \<Rightarrow> Inl m | Inr sc \<Rightarrow> Inr (sch\<lparr>sch_controller := sc\<rparr>))"

text \<open>The awaited run has ended: \<open>_stop_all\<close> runs and \<open>abort\<close> ends.\<close>

definition abort_scheduler_end ::
    "(string \<Rightarrow> target_manifest list option) \<Rightarrow> nat \<Rightarrow> scheduler \<Rightarrow> stop_call list \<times> scheduler" where
  "abort_scheduler_end get_targets a sch =
     (let sc = abort_joined a (sch_controller sch); (calls, sch1) = stop_all get_targets sch
      in (calls, sch1\<lparr>sch_controller := abort_end Call_ok a sc\<rparr>))"

section \<open>Configuration\<close>

definition scheduler_guard :: "scheduler \<Rightarrow> guard_result" where
  "scheduler_guard sch =
     (if sc_state (sch_controller sch) \<noteq> IDLE
      then Guard_refused (''show is not idle (state='' @ show_state_value (sc_state (sch_controller sch)) @
             ''), cannot apply now'')
      else Guard_ok)"

definition scheduler_stage ::
    "string \<Rightarrow> params \<Rightarrow> string \<Rightarrow> string \<Rightarrow> time \<Rightarrow> scheduler \<Rightarrow> config_revision \<times> scheduler" where
  "scheduler_stage kind content new_id content_hash now sch =
     (let (rv, cfg) = stage kind content new_id content_hash now (sch_config sch)
      in (rv, sch\<lparr>sch_config := cfg\<rparr>))"

definition scheduler_apply_resume :: "nat \<Rightarrow> time \<Rightarrow> scheduler \<Rightarrow> apply_record option \<times> scheduler" where
  "scheduler_apply_resume a now sch =
     (let (ro, cfg, _) = apply_resume (\<lambda>u. u) (scheduler_guard sch) a now (sch_config sch, ())
      in (ro, sch\<lparr>sch_config := cfg\<rparr>))"

section \<open>Properties\<close>

lemma stop_client_set:
  "set (stop_client get_targets ids name) =
     {Stop_command name sid (tm_target_id m) (as_name a) | sid ms m a.
        dget ids name = Some sid \<and> get_targets name = Some ms \<and> m \<in> set ms \<and> control_action m = Some a}"
  by (auto simp: stop_client_def List.map_filter_def split: option.splits) force+

lemma release_all_keys:
  "dict_wf ids \<Longrightarrow> release_all (dkeys ids) ids = (map (\<lambda>(n, sid). Release_call n sid) ids, [])"
proof (induction ids)
  case (Cons e ids)
  obtain n sid where e: "e = (n, sid)" by fastforce
  have "dpop n ids = ids"
    using Cons.prems e by (intro AList.delete_id) simp
  with Cons e show ?case by simp
qed simp

text \<open>
  \<^bold>\<open>C25\<close> Aborting a Show stops everything it can reach and gives all control back: \<open>_stop_all\<close> sends, for each
  client with a session whose targets can be read, one stop request under that session for each target
  that has a control action, and nothing else before it releases every session exactly once; no
  session is left, and nothing that fails on the way keeps it from doing so.
\<close>

theorem stop_all_complete:
  assumes "dict_wf (sch_session_ids sch)"
  shows "\<exists>stops. fst (stop_all get_targets sch) = stops @ map (\<lambda>(n, sid). Release_call n sid) (sch_session_ids sch) \<and>
    set stops = {Stop_command n sid (tm_target_id m) (as_name a) | n sid ms m a.
      n \<in> set (sch_clients sch) \<and> dget (sch_session_ids sch) n = Some sid \<and> get_targets n = Some ms \<and>
      m \<in> set ms \<and> control_action m = Some a} \<and>
    sch_session_ids (snd (stop_all get_targets sch)) = []"
proof -
  let ?stops = "concat (map (stop_client get_targets (sch_session_ids sch)) (sch_clients sch))"
  have "stop_all get_targets sch = (?stops @ map (\<lambda>(n, sid). Release_call n sid) (sch_session_ids sch),
      sch\<lparr>sch_session_ids := []\<rparr>)"
    by (simp add: stop_all_def release_all_keys [OF assms] Let_def)
  moreover have "set ?stops = {Stop_command n sid (tm_target_id m) (as_name a) | n sid ms m a.
      n \<in> set (sch_clients sch) \<and> dget (sch_session_ids sch) n = Some sid \<and> get_targets n = Some ms \<and>
      m \<in> set ms \<and> control_action m = Some a}"
    by (simp add: stop_client_set) blast
  ultimately show ?thesis by auto
qed

definition demo_sch :: scheduler where
  "demo_sch = (new_scheduler [''motor''])\<lparr>sch_session_ids := [(''motor'', ''s1'')], sch_timeline := Some [demo_cue]\<rparr>"

theorem stop_all_complete_witness:
  "sch_session_ids (snd (stop_all (\<lambda>_. None) demo_sch)) = []"
proof -
  have "dict_wf (sch_session_ids demo_sch)" by (simp add: demo_sch_def)
  from stop_all_complete [OF this, of "\<lambda>_. None"] show ?thesis by blast
qed

lemma prepare_clients_raised:
  assumes "answer c = Prepare_raised m" and "\<forall>n \<in> set pre. answer n = Prepared (sid n)"
  shows "fst (prepare_clients (map (\<lambda>n. (n, answer n)) (pre @ c # post)) ids) = Call_raised m \<and>
    (\<forall>n. dget (snd (prepare_clients (map (\<lambda>n. (n, answer n)) (pre @ c # post)) ids)) n =
       (if n \<in> set pre then Some (sid n) else dget ids n))"
  using assms
  by (induction pre arbitrary: ids) (simp_all add: dict_simps del: dget_None_iff)

text \<open>
  When arming fails half-way, the control already acquired is kept: the Show is IDLE again with the
  error recorded, but the sessions of the clients before the failing one stay acquired, and \<open>abort\<close>,
  the only operation that releases them, is refused in that state.
\<close>

theorem failed_arm_keeps_sessions:
  assumes "sc_state (sch_controller sch) = IDLE" and "sch_timeline sch = Some cues"
    and "sch_clients sch = pre @ c # post" and "answer c = Prepare_raised m"
    and "\<forall>n \<in> set pre. answer n = Prepared (sid n)" and "n \<in> set pre"
  shows "\<exists>sch'. scheduler_arm a answer sch = Inr sch' \<and> sc_state (sch_controller sch') = IDLE \<and>
    sc_last_error (sch_controller sch') = Some m \<and> dget (sch_session_ids sch') n = Some (sid n) \<and>
    \<not> is_ok (abort_scheduler_begin a' sch')"
proof -
  note p = prepare_clients_raised [OF assms(4,5), of post "sch_session_ids sch"]
  define res where "res = prepare_clients (map (\<lambda>n. (n, answer n)) (pre @ c # post)) (sch_session_ids sch)"
  have "fst res = Call_raised m" "dget (snd res) n = Some (sid n)"
    using p assms(6) unfolding res_def [symmetric] by simp_all
  then obtain ids where "res = (Call_raised m, ids)" "dget ids n = Some (sid n)"
    by (cases res) simp
  then show ?thesis
    using assms(1-3)
    by (simp add: scheduler_arm_def prepare_def abort_scheduler_begin_def show_defs flip: res_def
        del: dget_None_iff map_append list.map)
qed

theorem failed_arm_keeps_sessions_witness:
  "\<exists>sch'. scheduler_arm 0 (\<lambda>n. if n = ''motor'' then Prepared ''s1'' else Prepare_raised ''refused'')
       ((new_scheduler [''motor'', ''video''])\<lparr>sch_timeline := Some [demo_cue]\<rparr>) = Inr sch' \<and>
     dget (sch_session_ids sch') ''motor'' = Some ''s1''"
proof -
  let ?sch = "(new_scheduler [''motor'', ''video''])\<lparr>sch_timeline := Some [demo_cue]\<rparr>"
  have "sc_state (sch_controller ?sch) = IDLE" "sch_timeline ?sch = Some [demo_cue]"
    "sch_clients ?sch = [''motor''] @ ''video'' # []"
    by (simp_all add: new_scheduler_def new_show_controller_def)
  from failed_arm_keeps_sessions [OF this, where
      answer = "\<lambda>n. if n = ''motor'' then Prepared ''s1'' else Prepare_raised ''refused''"
      and sid = "\<lambda>_. ''s1''" and n = "''motor''" and m = "''refused''" and a = 0 and a' = 1]
  show ?thesis by auto
qed

end
