(* ===== verification/Scheduler_System.thy ===== *)
theory Scheduler_System
  imports Scheduler
begin

text \<open>
  The Scheduler as the process that runs it sees it: inputs that reach the trigger engine, the operator's
  direct calls, and the ends of the coroutines in between, in any order the event loop may take them. The
  engine's actions are the Scheduler's own \<open>start\<close>, \<open>hold\<close> and \<open>abort\<close>; a call of \<open>handle\<close> whose trigger
  aborts the Show is suspended until \<open>_stop_all\<close> has returned, and then goes on with the triggers that are
  left, with the time it read at its start.
\<close>

section \<open>State\<close>

text \<open>A call of \<open>handle\<close> suspended in the action of \<open>fr_trigger\<close>.\<close>

record handle_frame =
  fr_now :: time
  fr_event :: input_event
  fr_trigger :: trigger
  fr_rest :: "trigger list"

text \<open>
  \<open>ss_errors\<close> are the calls of \<open>on_action_error\<close>, \<open>ss_firings\<close> the log of the matched turns, in the order
  their actions returned, \<open>ss_calls\<close> what \<open>_stop_all\<close> has sent.
\<close>

record scheduler_system =
  ss_scheduler :: scheduler
  ss_handles :: "nat \<rightharpoonup> handle_frame"
  ss_errors :: "(string \<times> string) list"
  ss_firings :: "firing list"
  ss_calls :: "stop_call list"
  ss_clock :: time

definition new_system :: "scheduler \<Rightarrow> scheduler_system" where
  "new_system sch = \<lparr>ss_scheduler = sch, ss_handles = Map.empty, ss_errors = [], ss_firings = [], ss_calls = [], ss_clock = 0\<rparr>"

definition on_triggers :: "(trigger_engine \<Rightarrow> trigger_engine) \<Rightarrow> scheduler \<Rightarrow> scheduler" where
  "on_triggers f sch = sch\<lparr>sch_triggers := f (sch_triggers sch)\<rparr>"

definition on_scheduler :: "(scheduler \<Rightarrow> scheduler) \<Rightarrow> scheduler_system \<Rightarrow> scheduler_system" where
  "on_scheduler f s = s\<lparr>ss_scheduler := f (ss_scheduler s)\<rparr>"

definition system_show :: "scheduler_system \<Rightarrow> show_controller" where
  "system_show s = sch_controller (ss_scheduler s)"

section \<open>Inputs\<close>

definition log_turn :: "trigger \<Rightarrow> time \<Rightarrow> bool \<Rightarrow> bool \<Rightarrow> scheduler_system \<Rightarrow> scheduler_system" where
  "log_turn t now acted ok s =
     s\<lparr>ss_firings := ss_firings s @ [\<lparr>fi_trigger_id = tg_trigger_id t, fi_at = now, fi_acted = acted, fi_fired = ok\<rparr>]\<rparr>"

text \<open>The action returned: the trigger has fired. Or it raised: the error is reported and the loop continues.\<close>

definition action_returned :: "time \<Rightarrow> trigger \<Rightarrow> scheduler_system \<Rightarrow> scheduler_system" where
  "action_returned now t s = on_scheduler (on_triggers (fired now t)) (log_turn t now True True s)"

definition action_raised :: "time \<Rightarrow> trigger \<Rightarrow> string \<Rightarrow> scheduler_system \<Rightarrow> scheduler_system" where
  "action_raised now t m s =
     (log_turn t now True False s)\<lparr>ss_errors := ss_errors s @ [(tg_trigger_id t, m)]\<rparr>"

text \<open>
  What the bound action does: it is over at once, raising or not, or, for an accepted \<open>abort\<close>, it suspends.
  \<open>h\<close> names the call of \<open>handle\<close> and the \<open>abort\<close> it makes; \<open>run_id\<close> and \<open>task\<close> are for a started run.
\<close>

definition call_action :: "nat \<Rightarrow> string \<Rightarrow> nat \<Rightarrow> trigger_action \<Rightarrow> scheduler \<Rightarrow> string + scheduler" where
  "call_action h run_id task act sch =
     (case act of
        Act_start \<Rightarrow> scheduler_start run_id task sch
      | Act_hold \<Rightarrow> scheduler_hold sch
      | Act_abort \<Rightarrow> abort_scheduler_begin h sch)"

fun run_handle ::
    "(string \<Rightarrow> rat option) \<Rightarrow> nat \<Rightarrow> string \<Rightarrow> nat \<Rightarrow> time \<Rightarrow> input_event \<Rightarrow> trigger list \<Rightarrow>
     scheduler_system \<Rightarrow> scheduler_system" where
  "run_handle parse h run_id task now ev [] s = s"
| "run_handle parse h run_id task now ev (t # ts) s =
     (let (matched, act, te) = decide parse now ev (sc_state (system_show s)) t (sch_triggers (ss_scheduler s));
          s1 = on_scheduler (on_triggers (\<lambda>_. te)) s
      in if \<not> act
         then run_handle parse h run_id task now ev ts (if matched then log_turn t now False False s1 else s1)
         else case call_action h run_id task (tg_action t) (ss_scheduler s1) of
             Inl m \<Rightarrow> run_handle parse h run_id task now ev ts (action_raised now t m s1)
           | Inr sch \<Rightarrow>
               let s2 = s1\<lparr>ss_scheduler := sch\<rparr>
               in if tg_action t = Act_abort
                  then s2\<lparr>ss_handles := (ss_handles s2)
                    (h \<mapsto> \<lparr>fr_now = now, fr_event = ev, fr_trigger = t, fr_rest = ts\<rparr>)\<rparr>
                  else run_handle parse h run_id task now ev ts (action_returned now t s2))"

text \<open>\<open>fire_input\<close> (\<open>handle\<close>): its first segment.\<close>

definition fire_input ::
    "(string \<Rightarrow> rat option) \<Rightarrow> nat \<Rightarrow> string \<Rightarrow> nat \<Rightarrow> time \<Rightarrow> input_event \<Rightarrow> scheduler_system \<Rightarrow> scheduler_system" where
  "fire_input parse h run_id task now ev s =
     run_handle parse h run_id task now ev (te_triggers (sch_triggers (ss_scheduler s))) (s\<lparr>ss_clock := now\<rparr>)"

text \<open>\<open>FakeInputSource.press\<close>.\<close>

definition press_event :: "string \<Rightarrow> string \<Rightarrow> pyval \<Rightarrow> time \<Rightarrow> input_event" where
  "press_event source button_type value now =
     \<lparr>ie_source = source, ie_type = button_type, ie_value = value, ie_occurred_at = now\<rparr>"

section \<open>Calls of the operator and ends of coroutines\<close>

text \<open>\<open>_prepare\<close> has ended, and with it \<open>arm\<close>.\<close>

definition arm_prepared :: "(string \<Rightarrow> prepare_answer) \<Rightarrow> nat \<Rightarrow> scheduler \<Rightarrow> scheduler" where
  "arm_prepared answer a sch =
     (if sc_frames (sch_controller sch) a \<noteq> Some In_prepare then sch
      else let (res, sch1) = prepare answer sch
           in sch1\<lparr>sch_controller := arm_resume res a (sch_controller sch1)\<rparr>)"

text \<open>
  The run task was awaited: \<open>_stop_all\<close> runs and the \<open>abort\<close> \<open>a\<close> returns; a \<open>handle\<close> suspended in it goes on.
\<close>

definition abort_stopped :: "(string \<Rightarrow> target_manifest list option) \<Rightarrow> nat \<Rightarrow> scheduler_system \<Rightarrow> scheduler_system" where
  "abort_stopped get_targets a s =
     (let (calls, sch) = stop_all get_targets (ss_scheduler s)
      in s\<lparr>ss_scheduler := sch\<lparr>sch_controller := abort_end Call_ok a (sch_controller sch)\<rparr>,
           ss_calls := ss_calls s @ calls\<rparr>)"

definition handle_resume :: "(string \<Rightarrow> rat option) \<Rightarrow> string \<Rightarrow> nat \<Rightarrow> nat \<Rightarrow> scheduler_system \<Rightarrow> scheduler_system" where
  "handle_resume parse run_id task h s =
     (case ss_handles s h of
        None \<Rightarrow> s
      | Some fr \<Rightarrow>
          run_handle parse h run_id task (fr_now fr) (fr_event fr) (fr_rest fr)
            (action_returned (fr_now fr) (fr_trigger fr) (s\<lparr>ss_handles := (ss_handles s)(h := None)\<rparr>)))"

section \<open>Runs\<close>

text \<open>
  \<open>Ss_input h run_id task parse now event\<close>; \<open>Ss_stopped\<close> carries what a resumed \<open>handle\<close> may start.
\<close>

datatype system_op =
    Ss_input nat string nat "string \<Rightarrow> rat option" time input_event
  | Ss_arm nat
  | Ss_prepared "string \<Rightarrow> prepare_answer" nat
  | Ss_start string nat
  | Ss_hold
  | Ss_abort nat
  | Ss_joined nat
  | Ss_stopped "string \<Rightarrow> target_manifest list option" nat string nat "string \<Rightarrow> rat option"
  | Ss_run_end "call_result + (string, string) dict" nat

definition or_same :: "(scheduler \<Rightarrow> string + scheduler) \<Rightarrow> scheduler_system \<Rightarrow> scheduler_system" where
  "or_same f s = (case f (ss_scheduler s) of Inl _ \<Rightarrow> s | Inr sch \<Rightarrow> s\<lparr>ss_scheduler := sch\<rparr>)"

definition on_controller :: "(show_controller \<Rightarrow> string + show_controller) \<Rightarrow> scheduler \<Rightarrow> string + scheduler" where
  "on_controller f sch = (case f (sch_controller sch) of Inl m \<Rightarrow> Inl m | Inr sc \<Rightarrow> Inr (sch\<lparr>sch_controller := sc\<rparr>))"

fun system_perform :: "system_op \<Rightarrow> scheduler_system \<Rightarrow> scheduler_system" where
  "system_perform (Ss_input h run_id task parse now ev) s = fire_input parse h run_id task now ev s"
| "system_perform (Ss_arm a) s = or_same (on_controller (arm_begin a)) s"
| "system_perform (Ss_prepared answer a) s = on_scheduler (arm_prepared answer a) s"
| "system_perform (Ss_start run_id t) s = or_same (scheduler_start run_id t) s"
| "system_perform Ss_hold s = or_same scheduler_hold s"
| "system_perform (Ss_abort a) s = or_same (abort_scheduler_begin a) s"
| "system_perform (Ss_joined a) s = on_scheduler (\<lambda>sch. sch\<lparr>sch_controller := abort_joined a (sch_controller sch)\<rparr>) s"
| "system_perform (Ss_stopped get_targets a run_id t parse) s =
     (if sc_frames (system_show s) a \<noteq> Some In_stop_all then s
      else handle_resume parse run_id t a (abort_stopped get_targets a s))"
| "system_perform (Ss_run_end ended t) s =
     (if sc_tasks (system_show s) t = None then s else on_scheduler (run_end ended t) s)"

text \<open>
  Identifiers of calls and tasks are fresh, the clock does not go back, and a cancelled run does not raise
  something else.
\<close>

definition free_task :: "nat \<Rightarrow> scheduler_system \<Rightarrow> bool" where
  "free_task t s \<longleftrightarrow> sc_tasks (system_show s) t = None"

definition free_call :: "nat \<Rightarrow> scheduler_system \<Rightarrow> bool" where
  "free_call a s \<longleftrightarrow> sc_frames (system_show s) a = None \<and> ss_handles s a = None"

fun system_ok :: "system_op \<Rightarrow> scheduler_system \<Rightarrow> bool" where
  "system_ok (Ss_input h run_id task parse now ev) s \<longleftrightarrow> free_call h s \<and> free_task task s \<and> ss_clock s \<le> now"
| "system_ok (Ss_arm a) s \<longleftrightarrow> free_call a s"
| "system_ok (Ss_start run_id t) s \<longleftrightarrow> free_task t s"
| "system_ok (Ss_abort a) s \<longleftrightarrow> free_call a s"
| "system_ok (Ss_stopped get_targets a run_id t parse) s \<longleftrightarrow> free_task t s"
| "system_ok (Ss_run_end (Inl (Call_raised m)) t) s \<longleftrightarrow> sc_tasks (system_show s) t \<noteq> Some True"
| "system_ok (Ss_run_end (Inr outcomes) t) s \<longleftrightarrow> sc_tasks (system_show s) t \<noteq> Some True"
| "system_ok _ s \<longleftrightarrow> True"

inductive system_run :: "scheduler \<Rightarrow> scheduler_system \<Rightarrow> bool" for sch where
  system_new: "system_run sch (new_system sch)"
| system_step: "system_run sch s \<Longrightarrow> system_ok p s \<Longrightarrow> system_run sch (system_perform p s)"

section \<open>The operations of the Scheduler are its coroutines in one piece\<close>

lemma scheduler_arm_segments:
  "scheduler_arm a answer sch =
     (case on_controller (arm_begin a) sch of Inl m \<Rightarrow> Inl m | Inr sch1 \<Rightarrow> Inr (arm_prepared answer a sch1))"
  by (auto simp: scheduler_arm_def on_controller_def arm_prepared_def arm_begin_def set_state_def split: sum.split prod.split)

lemma abort_scheduler_segments:
  assumes "sc_frames (abort_joined a (sch_controller sch)) a = Some In_stop_all"
  shows "abort_scheduler_end get_targets a sch =
    (let s = abort_stopped get_targets a (new_system (sch\<lparr>sch_controller := abort_joined a (sch_controller sch)\<rparr>))
     in (ss_calls s, ss_scheduler s))"
  by (simp add: abort_scheduler_end_def abort_stopped_def stop_all_def new_system_def Let_def split: prod.split)

section \<open>The controller of a run is a run of the controller\<close>

inductive show_steps :: "show_controller \<Rightarrow> show_controller \<Rightarrow> bool" where
  steps_refl: "show_steps sc sc"
| steps_step: "show_steps sc sc' \<Longrightarrow> show_fresh p sc' \<Longrightarrow> run_obeys_cancel p sc' \<Longrightarrow> show_steps sc (show_perform p sc')"

lemma steps_one: "show_fresh p sc \<Longrightarrow> run_obeys_cancel p sc \<Longrightarrow> show_steps sc (show_perform p sc)"
  by (rule steps_step [OF steps_refl])

lemma steps_trans: "show_steps sc' sc'' \<Longrightarrow> show_steps sc sc' \<Longrightarrow> show_steps sc sc''"
  by (induction rule: show_steps.induct) (auto intro: show_steps.intros)

lemma steps_run: "show_steps sc sc' \<Longrightarrow> show_run run_obeys_cancel sc \<Longrightarrow> show_run run_obeys_cancel sc'"
  by (induction rule: show_steps.induct) (auto intro: show_run.intros)

lemma system_show_simps [simp]:
  "system_show (on_scheduler (on_triggers g) s) = system_show s"
  "system_show (log_turn t now acted ok s) = system_show s"
  "system_show (action_returned now t s) = system_show s"
  "system_show (action_raised now t m s) = system_show s"
  "system_show (s\<lparr>ss_handles := H\<rparr>) = system_show s"
  "system_show (s\<lparr>ss_clock := c\<rparr>) = system_show s"
  "system_show (s\<lparr>ss_scheduler := sch\<rparr>) = sch_controller sch"
  "system_show (on_scheduler f s) = sch_controller (f (ss_scheduler s))"
  by (simp_all add: system_show_def on_scheduler_def on_triggers_def log_turn_def action_returned_def action_raised_def)

text \<open>Ready to go on in a \<open>handle\<close>: its identifiers can be used by an action that is accepted.\<close>

definition handle_ready :: "nat \<Rightarrow> nat \<Rightarrow> show_controller \<Rightarrow> bool" where
  "handle_ready h task sc \<longleftrightarrow> sc_frames sc h = None \<and> (sc_state sc = ARMED \<longrightarrow> sc_tasks sc task = None)"

lemma call_action_steps:
  assumes "call_action h run_id task act sch = Inr sch'" and "handle_ready h task (sch_controller sch)"
  shows "show_steps (sch_controller sch) (sch_controller sch')"
    and "act \<noteq> Act_abort \<Longrightarrow> handle_ready h task (sch_controller sch')"
proof -
  let ?sc = "sch_controller sch"
  consider (start) sc where "act = Act_start" "start run_id task ?sc = Inr sc" "sch' = sch\<lparr>sch_controller := sc\<rparr>"
    | (hold) sc where "act = Act_hold" "hold ?sc = Inr sc" "sch' = sch\<lparr>sch_controller := sc\<rparr>"
    | (abort) sc where "act = Act_abort" "abort_begin h ?sc = Inr sc" "sch' = sch\<lparr>sch_controller := sc\<rparr>"
    using assms(1)
    by (auto simp: call_action_def scheduler_start_def scheduler_hold_def abort_scheduler_begin_def
        split: trigger_action.splits sum.splits)
  then have "show_steps ?sc (sch_controller sch') \<and> (act \<noteq> Act_abort \<longrightarrow> handle_ready h task (sch_controller sch'))"
  proof cases
    case start
    have "sc_state ?sc = ARMED" using start(2) by (simp add: start_def split: if_splits)
    with assms(2) start show ?thesis
      using steps_one [of "Sh_start run_id task" ?sc] by (auto simp: handle_ready_def start_def set_state_def)
  next
    case hold
    with assms(2) show ?thesis
      using steps_one [of Sh_hold ?sc] by (auto simp: handle_ready_def hold_def set_state_def split: if_splits)
  next
    case abort
    with assms(2) show ?thesis
      using steps_one [of "Sh_abort h" ?sc] by (simp add: handle_ready_def)
  qed
  then show "show_steps ?sc (sch_controller sch')" "act \<noteq> Act_abort \<Longrightarrow> handle_ready h task (sch_controller sch')"
    by blast+
qed

lemma run_handle_steps:
  "handle_ready h task (system_show s) \<Longrightarrow>
     show_steps (system_show s) (system_show (run_handle parse h run_id task now ev ts s))"
proof (induction ts arbitrary: s)
  case Nil
  then show ?case by (simp add: steps_refl)
next
  case (Cons t ts)
  obtain matched act te where d: "decide parse now ev (sc_state (system_show s)) t (sch_triggers (ss_scheduler s)) = (matched, act, te)"
    by (rule prod_cases3)
  let ?s1 = "on_scheduler (on_triggers (\<lambda>_. te)) s"
  show ?case
  proof (cases act)
    case False
    with d Cons.IH [of "if matched then log_turn t now False False ?s1 else ?s1"] Cons.prems show ?thesis
      by (cases matched) (simp_all add: on_triggers_def system_show_def [symmetric])
  next
    case True
    show ?thesis
    proof (cases "call_action h run_id task (tg_action t) (ss_scheduler ?s1)")
      case (Inl m)
      with True d Cons.IH [of "action_raised now t m ?s1"] Cons.prems show ?thesis
        by (simp add: on_triggers_def system_show_def [symmetric])
    next
      case (Inr sch)
      have "handle_ready h task (sch_controller (ss_scheduler ?s1))" and "sch_controller (ss_scheduler ?s1) = system_show s"
        using Cons.prems by (simp_all add: on_scheduler_def on_triggers_def system_show_def)
      note c = call_action_steps [OF Inr this(1), unfolded this(2)]
      show ?thesis
      proof (cases "tg_action t = Act_abort")
        case True
        with c \<open>act\<close> d Inr show ?thesis by (simp add: Let_def)
      next
        case False
        from Cons.IH [of "action_returned now t (?s1\<lparr>ss_scheduler := sch\<rparr>)"] c(2) [OF False]
        have "show_steps (sch_controller sch)
            (system_show (run_handle parse h run_id task now ev ts (action_returned now t (?s1\<lparr>ss_scheduler := sch\<rparr>))))"
          by simp
        from steps_trans [OF this c(1)] False \<open>act\<close> d Inr show ?thesis by (simp add: Let_def)
      qed
    qed
  qed
qed

lemma prepare_controller [simp]: "sch_controller (snd (prepare answer sch)) = sch_controller sch"
  by (simp add: prepare_def split_beta Let_def)

lemma stop_all_controller [simp]: "sch_controller (snd (stop_all get_targets sch)) = sch_controller sch"
  by (simp add: stop_all_def split_beta Let_def)

lemma abort_stopped_show: "system_show (abort_stopped get_targets a s) = abort_end Call_ok a (system_show s)"
  by (simp add: abort_stopped_def system_show_def split_beta Let_def)

lemma arm_prepared_show:
  "\<exists>res. sch_controller (arm_prepared answer a sch) = arm_resume res a (sch_controller sch)"
proof (cases "sc_frames (sch_controller sch) a = Some In_prepare")
  case True
  then show ?thesis
    by (auto simp: arm_prepared_def split_beta Let_def intro!: exI [of _ "fst (prepare answer sch)"])
qed (auto simp: arm_prepared_def arm_resume_def)

lemma run_end_show:
  "\<exists>res. sch_controller (run_end ended t sch) = drive_end res t (sch_controller sch) \<and>
     (\<forall>m. res = Call_raised m \<longrightarrow> ended = Inl (Call_raised m) \<or> (\<exists>outcomes. ended = Inr outcomes))"
  by (cases ended) (auto simp: run_end_def Let_def)

lemma or_same_show:
  assumes "\<And>sch sch'. f sch = Inr sch' \<Longrightarrow> sch_controller sch' = show_perform p (sch_controller sch)"
    and "show_fresh p (system_show s)" and "run_obeys_cancel p (system_show s)"
  shows "show_steps (system_show s) (system_show (or_same f s))"
  using assms(1) [of "ss_scheduler s"] steps_one [OF assms(2,3)]
  by (cases "f (ss_scheduler s)") (simp_all add: or_same_def steps_refl system_show_def)

lemma system_perform_steps:
  assumes "system_ok p s"
  shows "show_steps (system_show s) (system_show (system_perform p s))"
proof (cases p)
  case (Ss_input h run_id task parse now ev)
  with assms have "handle_ready h task (system_show (s\<lparr>ss_clock := now\<rparr>))"
    by (simp add: free_call_def free_task_def handle_ready_def)
  from run_handle_steps [OF this] show ?thesis by (simp add: Ss_input fire_input_def)
next
  case (Ss_arm a)
  with assms show ?thesis
    by (simp add: free_call_def) (rule or_same_show [where p = "Sh_arm a"], auto simp: on_controller_def split: sum.splits)
next
  case (Ss_prepared answer a)
  obtain res where "sch_controller (arm_prepared answer a (ss_scheduler s)) = arm_resume res a (system_show s)"
    using arm_prepared_show [of answer a "ss_scheduler s"] by (auto simp: system_show_def)
  with steps_one [of "Sh_arm_resume res a" "system_show s"] show ?thesis by (simp add: Ss_prepared)
next
  case (Ss_start run_id t)
  with assms show ?thesis
    by (simp add: free_task_def)
      (rule or_same_show [where p = "Sh_start run_id t"], auto simp: scheduler_start_def split: sum.splits)
next
  case Ss_hold
  then show ?thesis
    by simp (rule or_same_show [where p = Sh_hold], auto simp: scheduler_hold_def split: sum.splits)
next
  case (Ss_abort a)
  with assms show ?thesis
    by (simp add: free_call_def)
      (rule or_same_show [where p = "Sh_abort a"], auto simp: abort_scheduler_begin_def split: sum.splits)
next
  case (Ss_joined a)
  with steps_one [of "Sh_abort_joined a" "system_show s"] show ?thesis by (simp add: system_show_def on_scheduler_def)
next
  case (Ss_stopped get_targets a run_id t parse)
  show ?thesis
  proof (cases "sc_frames (system_show s) a = Some In_stop_all")
    case True
    let ?s = "abort_stopped get_targets a s"
    have one: "show_steps (system_show s) (system_show ?s)"
      using steps_one [of "Sh_abort_end Call_ok a" "system_show s"] by (simp add: abort_stopped_show)
    have ready: "handle_ready a t (system_show ?s)"
      using True assms Ss_stopped by (simp add: abort_stopped_show abort_end_def set_state_def handle_ready_def Let_def)
    have "show_steps (system_show ?s) (system_show (handle_resume parse run_id t a ?s))"
    proof (cases "ss_handles ?s a")
      case (Some fr)
      let ?s' = "action_returned (fr_now fr) (fr_trigger fr) (?s\<lparr>ss_handles := (ss_handles ?s)(a := None)\<rparr>)"
      have "system_show ?s' = system_show ?s" by simp
      with run_handle_steps [of a t ?s'] ready Some show ?thesis by (simp add: handle_resume_def)
    qed (simp add: handle_resume_def steps_refl)
    from steps_trans [OF this one] show ?thesis by (simp add: Ss_stopped True)
  qed (simp add: Ss_stopped steps_refl)
next
  case (Ss_run_end ended t)
  show ?thesis
  proof (cases "sc_tasks (system_show s) t = None")
    case False
    obtain res where res: "sch_controller (run_end ended t (ss_scheduler s)) = drive_end res t (system_show s)"
      "\<And>m. res = Call_raised m \<Longrightarrow> ended = Inl (Call_raised m) \<or> (\<exists>outcomes. ended = Inr outcomes)"
      using run_end_show [of ended t "ss_scheduler s"] by (auto simp: system_show_def)
    have "run_obeys_cancel (Sh_drive_end res t) (system_show s)"
      using assms res(2) by (auto simp: Ss_run_end)
    with steps_one [of "Sh_drive_end res t" "system_show s"] res(1) False show ?thesis
      by (auto simp: Ss_run_end)
  qed (simp add: Ss_run_end steps_refl)
qed

lemma system_show_run:
  assumes "system_run sch s" and "sch_controller sch = new_show_controller"
  shows "show_run run_obeys_cancel (system_show s)"
  using assms(1)
proof (induction rule: system_run.induct)
  case system_new
  then show ?case using assms(2) by (simp add: new_system_def system_show_def show_new)
next
  case (system_step s p)
  then show ?case using steps_run [OF system_perform_steps] by blast
qed

section \<open>Shows started\<close>

definition entered :: "show_state \<Rightarrow> show_controller \<Rightarrow> nat" where
  "entered st sc = length (filter (\<lambda>x. x = st) (sc_changes sc))"

text \<open>An armed Show can only be started: nothing else leaves ARMED.\<close>

definition armed_once :: "show_controller \<Rightarrow> bool" where
  "armed_once sc \<longleftrightarrow> entered ARMED sc = entered RUNNING sc + (if sc_state sc = ARMED then 1 else 0)"

lemma armed_once_perform:
  assumes "show_inv sc" and "armed_once sc"
  shows "armed_once (show_perform p sc)"
proof (cases p)
  case (Sh_arm_resume res a)
  with assms show ?thesis
    by (cases "sc_state sc")
      (auto simp: show_inv_def armed_once_def entered_def show_defs split: call_result.splits option.splits show_frame.splits)
next
  case (Sh_drive_end res t)
  with assms show ?thesis
    by (cases "sc_state sc"; cases res) (auto simp: show_inv_def armed_once_def entered_def show_defs)
next
  case (Sh_abort_end res a)
  with assms show ?thesis
    by (cases "sc_state sc"; cases res)
      (auto simp: show_inv_def armed_once_def entered_def show_defs split: option.splits show_frame.splits)
next
  case (Sh_start run_id t)
  with assms show ?thesis by (auto simp: armed_once_def entered_def show_defs)
qed (insert assms, (cases "sc_state sc"; auto simp: show_inv_def armed_once_def entered_def show_defs
       split: option.splits show_frame.splits)+)

lemma show_run_armed_once: "show_run run_obeys_cancel sc \<Longrightarrow> armed_once sc"
proof (induction rule: show_run.induct)
  case show_new
  then show ?case by (simp add: armed_once_def entered_def new_show_controller_def)
next
  case (show_step sc p)
  then show ?case by (blast intro: armed_once_perform show_run_inv)
qed

section \<open>One turn of the loop\<close>

lemma run_handle_turn:
  fixes parse now ev t s
  defines "d \<equiv> decide parse now ev (sc_state (system_show s)) t (sch_triggers (ss_scheduler s))"
  assumes "tg_action t \<noteq> Act_abort"
  shows "\<exists>s' ok. run_handle parse h run_id task now ev (t # ts) s = run_handle parse h run_id task now ev ts s' \<and>
    ss_firings s' = ss_firings s @ turn_entry t now d ok \<and> sch_triggers (ss_scheduler s') = turn_engine t now d ok \<and>
    ss_handles s' = ss_handles s \<and> ss_clock s' = ss_clock s \<and>
    (ss_errors s' = ss_errors s \<or>
       fst (snd d) \<and> (\<exists>m. call_action h run_id task (tg_action t) (on_triggers (\<lambda>_. snd (snd d)) (ss_scheduler s)) = Inl m))"
proof -
  obtain matched act te where d: "d = (matched, act, te)" by (rule prod_cases3)
  have act_matched: "act \<Longrightarrow> matched"
    using d by (auto simp: d_def decide_def Let_def split: if_splits)
  let ?s1 = "on_scheduler (on_triggers (\<lambda>_. te)) s"
  note sel = on_scheduler_def on_triggers_def log_turn_def action_returned_def action_raised_def turn_entry_def turn_engine_def
  show ?thesis
  proof (cases act)
    case False
    with d show ?thesis unfolding d_def
      by (intro exI [of _ "if matched then log_turn t now False False ?s1 else ?s1"] exI [of _ False]) (simp add: sel)
  next
    case True
    show ?thesis
    proof (cases "call_action h run_id task (tg_action t) (ss_scheduler ?s1)")
      case (Inl m)
      with True act_matched d show ?thesis unfolding d_def
        by (intro exI [of _ "action_raised now t m ?s1"] exI [of _ False]) (simp add: sel)
    next
      case (Inr sch)
      then have "sch_triggers sch = te"
        using assms(2)
        by (auto simp: call_action_def scheduler_start_def scheduler_hold_def on_scheduler_def on_triggers_def
            split: trigger_action.splits sum.splits)
      with Inr True act_matched d assms(2) show ?thesis unfolding d_def
        by (intro exI [of _ "action_returned now t (?s1\<lparr>ss_scheduler := sch\<rparr>)"] exI [of _ True]) (simp add: sel Let_def)
    qed
  qed
qed

text \<open>Engines whose triggers abort nothing: no \<open>handle\<close> is ever suspended.\<close>

definition prompt :: "trigger list \<Rightarrow> bool" where
  "prompt ts \<longleftrightarrow> (\<forall>t \<in> set ts. tg_action t \<noteq> Act_abort)"

definition spaced_system :: "trigger list \<Rightarrow> scheduler_system \<Rightarrow> bool" where
  "spaced_system ts s \<longleftrightarrow> te_triggers (sch_triggers (ss_scheduler s)) = ts \<and> ss_handles s = Map.empty \<and>
     spaced ts [] (ss_firings s) \<and> remembers (ss_firings s) (sch_triggers (ss_scheduler s)) \<and>
     no_later_than (sch_triggers (ss_scheduler s)) (ss_clock s)"

lemma turn_engine_triggers: "te_triggers (turn_engine t now (decide parse now ev st t te) ok) = te_triggers te"
  by (simp add: turn_engine_def fired_def decide_def Let_def)

lemma run_handle_spaced:
  assumes "distinct (map tg_trigger_id all)"
  shows "set ts \<subseteq> set all \<Longrightarrow> prompt ts \<Longrightarrow> spaced_system all s \<Longrightarrow> ss_clock s = now \<Longrightarrow>
    spaced_system all (run_handle parse h run_id task now ev ts s)"
proof (induction ts arbitrary: s)
  case Nil
  then show ?case by simp
next
  case (Cons t ts)
  let ?d = "decide parse now ev (sc_state (system_show s)) t (sch_triggers (ss_scheduler s))"
  have "tg_action t \<noteq> Act_abort" using Cons.prems(2) by (simp add: prompt_def)
  from run_handle_turn [OF this, of parse h run_id task now ev ts s]
  obtain s' ok where s': "run_handle parse h run_id task now ev (t # ts) s = run_handle parse h run_id task now ev ts s'"
      "ss_firings s' = ss_firings s @ turn_entry t now ?d ok" "sch_triggers (ss_scheduler s') = turn_engine t now ?d ok"
      "ss_handles s' = ss_handles s" "ss_clock s' = ss_clock s" by blast
  have uniq: "\<forall>t' \<in> set all. tg_trigger_id t' = tg_trigger_id t \<longrightarrow> t' = t"
    using assms Cons.prems(1) by (auto simp: distinct_map inj_on_def)
  have "remembers (ss_firings s) (sch_triggers (ss_scheduler s))" "no_later_than (sch_triggers (ss_scheduler s)) now"
    using Cons.prems(3,4) by (simp_all add: spaced_system_def)
  from turn_keeps [OF uniq this, of parse ev "sc_state (system_show s)" ok] Cons.prems(3,4) s'(2-)
  have "spaced_system all s'" by (simp add: spaced_system_def spaced_append turn_engine_triggers)
  with Cons.IH [of s'] Cons.prems(1,2,4) s'(1,5) show ?case by (simp add: prompt_def)
qed

text \<open>What leaves the engine, the log and the suspended calls alone.\<close>

definition quiet :: "scheduler_system \<Rightarrow> scheduler_system \<Rightarrow> bool" where
  "quiet s s' \<longleftrightarrow> sch_triggers (ss_scheduler s') = sch_triggers (ss_scheduler s) \<and> ss_handles s' = ss_handles s \<and>
     ss_firings s' = ss_firings s \<and> ss_clock s' = ss_clock s \<and> ss_errors s' = ss_errors s"

lemma quiet_perform:
  assumes "ss_handles s = Map.empty" and "\<And>h run_id task parse now ev. p \<noteq> Ss_input h run_id task parse now ev"
  shows "quiet s (system_perform p s)"
proof -
  have or_same: "quiet s (or_same f s)"
    if "\<And>sch'. f (ss_scheduler s) = Inr sch' \<Longrightarrow> sch_triggers sch' = sch_triggers (ss_scheduler s)" for f
    using that by (auto simp: or_same_def quiet_def split: sum.split)
  show ?thesis
  proof (cases p)
    case (Ss_input h run_id task parse now ev)
    with assms(2) show ?thesis by blast
  next
    case (Ss_arm a)
    then show ?thesis by simp (rule or_same, auto simp: on_controller_def split: sum.splits)
  next
    case (Ss_prepared answer a)
    then show ?thesis
      by (auto simp: quiet_def on_scheduler_def arm_prepared_def prepare_def split_beta Let_def)
  next
    case (Ss_start run_id t)
    then show ?thesis by simp (rule or_same, auto simp: scheduler_start_def split: sum.splits)
  next
    case Ss_hold
    then show ?thesis by simp (rule or_same, auto simp: scheduler_hold_def split: sum.splits)
  next
    case (Ss_abort a)
    then show ?thesis by simp (rule or_same, auto simp: abort_scheduler_begin_def split: sum.splits)
  next
    case (Ss_joined a)
    then show ?thesis by (simp add: quiet_def on_scheduler_def)
  next
    case (Ss_stopped get_targets a run_id t parse)
    with assms(1) show ?thesis
      by (simp add: quiet_def handle_resume_def abort_stopped_def stop_all_def split_beta Let_def)
  next
    case (Ss_run_end ended t)
    then show ?thesis by (auto simp: quiet_def on_scheduler_def run_end_def Let_def split: sum.split)
  qed
qed

lemma spaced_run:
  assumes "system_run sch s" and "te_triggers (sch_triggers sch) = ts" and "prompt ts" and "distinct (map tg_trigger_id ts)"
    and "te_last_matched_at (sch_triggers sch) = Map.empty" and "te_last_fired_at (sch_triggers sch) = Map.empty"
  shows "spaced_system ts s"
  using assms(1)
proof (induction rule: system_run.induct)
  case system_new
  then show ?case using assms(2,5,6) by (simp add: spaced_system_def new_system_def remembers_def no_later_than_def)
next
  case (system_step s p)
  show ?case
  proof (cases "\<exists>h run_id task parse now ev. p = Ss_input h run_id task parse now ev")
    case True
    then obtain h run_id task parse now ev where p: "p = Ss_input h run_id task parse now ev" by blast
    have "no_later_than (sch_triggers (ss_scheduler s)) now"
      using system_step by (auto simp: p spaced_system_def no_later_than_def intro: order_trans)
    with system_step.IH have "spaced_system ts (s\<lparr>ss_clock := now\<rparr>)" by (simp add: spaced_system_def)
    with run_handle_spaced [OF assms(4) subset_refl assms(3), of "s\<lparr>ss_clock := now\<rparr>" now] system_step.IH
    show ?thesis by (simp add: p fire_input_def spaced_system_def)
  next
    case False
    with quiet_perform [of s p] system_step.IH show ?thesis by (auto simp: quiet_def spaced_system_def)
  qed
qed

text \<open>Triggers that start the Show, and only while it is armed.\<close>

definition armed_starts :: "trigger list \<Rightarrow> bool" where
  "armed_starts ts \<longleftrightarrow> (\<forall>t \<in> set ts. tg_action t = Act_start \<and> tg_show_states t = Some [''ARMED''])"

lemma armed_starts_prompt: "armed_starts ts \<Longrightarrow> prompt ts"
  by (auto simp: armed_starts_def prompt_def)

lemma show_state_value_ARMED [simp]: "show_state_value st = ''ARMED'' \<longleftrightarrow> st = ARMED"
  by (cases st) simp_all

lemma run_handle_no_error:
  "armed_starts ts \<Longrightarrow> ss_errors (run_handle parse h run_id task now ev ts s) = ss_errors s \<and>
     ss_handles (run_handle parse h run_id task now ev ts s) = ss_handles s \<and>
     te_triggers (sch_triggers (ss_scheduler (run_handle parse h run_id task now ev ts s))) =
       te_triggers (sch_triggers (ss_scheduler s))"
proof (induction ts arbitrary: s)
  case Nil
  then show ?case by simp
next
  case (Cons t ts)
  have t: "tg_action t = Act_start" "tg_show_states t = Some [''ARMED'']" and ts: "armed_starts ts"
    using Cons.prems by (simp_all add: armed_starts_def)
  let ?d = "decide parse now ev (sc_state (system_show s)) t (sch_triggers (ss_scheduler s))"
  have "tg_action t \<noteq> Act_abort" using t by simp
  from run_handle_turn [OF this, of parse h run_id task now ev ts s]
  obtain s' ok where s': "run_handle parse h run_id task now ev (t # ts) s = run_handle parse h run_id task now ev ts s'"
      "sch_triggers (ss_scheduler s') = turn_engine t now ?d ok" "ss_handles s' = ss_handles s"
      "ss_errors s' = ss_errors s \<or> fst (snd ?d) \<and>
        (\<exists>m. call_action h run_id task (tg_action t) (on_triggers (\<lambda>_. snd (snd ?d)) (ss_scheduler s)) = Inl m)" by blast
  have "fst (snd ?d) \<Longrightarrow> sc_state (system_show s) = ARMED"
    using t by (auto simp: decide_def Let_def split: if_splits)
  then have "ss_errors s' = ss_errors s"
    using s'(4) t(1)
    by (auto simp: call_action_def scheduler_start_def start_def on_triggers_def system_show_def split: sum.splits if_splits)
  with Cons.IH [OF ts, of s'] s' show ?case by (simp add: turn_engine_triggers)
qed

text \<open>A call of \<open>handle\<close> leaves the controller alone or starts the armed Show once.\<close>

lemma run_handle_once:
  "armed_starts ts \<Longrightarrow> system_show (run_handle parse h run_id task now ev ts s) = system_show s \<or>
     start run_id task (system_show s) = Inr (system_show (run_handle parse h run_id task now ev ts s))"
proof (induction ts arbitrary: s)
  case Nil
  then show ?case by simp
next
  case (Cons t ts)
  have ts: "armed_starts ts" and t: "tg_action t = Act_start"
    using Cons.prems(1) by (simp_all add: armed_starts_def)
  obtain matched act te where d: "decide parse now ev (sc_state (system_show s)) t (sch_triggers (ss_scheduler s)) = (matched, act, te)"
    by (rule prod_cases3)
  let ?s1 = "on_scheduler (on_triggers (\<lambda>_. te)) s"
  show ?case
  proof (cases act)
    case False
    with Cons.IH [OF ts, of "if matched then log_turn t now False False ?s1 else ?s1"] d show ?thesis
      by (cases matched) (simp_all add: Let_def on_triggers_def system_show_def [symmetric])
  next
    case True
    show ?thesis
    proof (cases "start run_id task (system_show s)")
      case (Inl m)
      then have "call_action h run_id task (tg_action t) (ss_scheduler ?s1) = Inl m"
        by (simp add: call_action_def t scheduler_start_def system_show_def on_scheduler_def on_triggers_def)
      with Cons.IH [OF ts, of "action_raised now t m ?s1"] d True show ?thesis
        by (simp add: Let_def on_triggers_def system_show_def [symmetric])
    next
      case (Inr sc)
      let ?s2 = "action_returned now t (?s1\<lparr>ss_scheduler := (ss_scheduler ?s1)\<lparr>sch_controller := sc\<rparr>\<rparr>)"
      have "call_action h run_id task (tg_action t) (ss_scheduler ?s1) = Inr ((ss_scheduler ?s1)\<lparr>sch_controller := sc\<rparr>)"
        using Inr by (simp add: call_action_def t scheduler_start_def system_show_def on_scheduler_def on_triggers_def)
      then have "run_handle parse h run_id task now ev (t # ts) s = run_handle parse h run_id task now ev ts ?s2"
        using d True t by (simp add: Let_def)
      moreover have "system_show ?s2 = sc" by simp
      moreover have "start run_id task sc \<noteq> Inr sc'" for sc'
        using Inr by (auto simp: start_def set_state_def split: if_splits)
      ultimately show ?thesis
        using Cons.IH [OF ts, of ?s2] Inr by auto
    qed
  qed
qed

lemma no_error_run:
  assumes "system_run sch s" and "te_triggers (sch_triggers sch) = ts" and "armed_starts ts"
  shows "ss_errors s = [] \<and> ss_handles s = Map.empty \<and> te_triggers (sch_triggers (ss_scheduler s)) = ts"
  using assms(1)
proof (induction rule: system_run.induct)
  case system_new
  then show ?case using assms(2) by (simp add: new_system_def)
next
  case (system_step s p)
  show ?case
  proof (cases "\<exists>h run_id task parse now ev. p = Ss_input h run_id task parse now ev")
    case True
    with system_step.IH run_handle_no_error [OF assms(3), of _ _ _ _ _ _ "s\<lparr>ss_clock := c\<rparr>" for c] show ?thesis
      by (auto simp: fire_input_def)
  next
    case False
    with quiet_perform [of s p] system_step.IH show ?thesis by (auto simp: quiet_def)
  qed
qed

text \<open>Every start of the Show by the engine is a firing of the log.\<close>

definition fired_entries :: "scheduler_system \<Rightarrow> firing list" where
  "fired_entries s = filter fi_fired (ss_firings s)"

definition starts_logged :: "scheduler_system \<Rightarrow> bool" where
  "starts_logged s \<longleftrightarrow> entered RUNNING (system_show s) = length (fired_entries s)"

lemma run_handle_starts:
  "armed_starts ts \<Longrightarrow> starts_logged s \<Longrightarrow> starts_logged (run_handle parse h run_id task now ev ts s)"
proof (induction ts arbitrary: s)
  case Nil
  then show ?case by simp
next
  case (Cons t ts)
  have ts: "armed_starts ts" and t: "tg_action t = Act_start"
    using Cons.prems(1) by (simp_all add: armed_starts_def)
  obtain matched act te where d: "decide parse now ev (sc_state (system_show s)) t (sch_triggers (ss_scheduler s)) = (matched, act, te)"
    by (rule prod_cases3)
  let ?s1 = "on_scheduler (on_triggers (\<lambda>_. te)) s"
  note sel = starts_logged_def fired_entries_def log_turn_def action_returned_def action_raised_def on_scheduler_def
    on_triggers_def system_show_def
  have s1: "starts_logged ?s1" using Cons.prems(2) by (simp add: sel)
  show ?case
  proof (cases act)
    case False
    have "starts_logged (if matched then log_turn t now False False ?s1 else ?s1)"
      using s1 by (simp add: sel)
    with Cons.IH [OF ts this] d False show ?thesis by (simp add: Let_def)
  next
    case True
    show ?thesis
    proof (cases "call_action h run_id task (tg_action t) (ss_scheduler ?s1)")
      case (Inl m)
      have "starts_logged (action_raised now t m ?s1)" using s1 by (simp add: sel)
      with Cons.IH [OF ts this] d True Inl show ?thesis by (simp add: Let_def)
    next
      case (Inr sch)
      then have "entered RUNNING (sch_controller sch) = Suc (entered RUNNING (system_show ?s1))"
        by (auto simp: call_action_def t scheduler_start_def start_def set_state_def entered_def system_show_def
            split: sum.splits if_splits)
      then have "starts_logged (action_returned now t (?s1\<lparr>ss_scheduler := sch\<rparr>))" using s1 by (simp add: sel)
      with Cons.IH [OF ts this] d True Inr t show ?thesis by (simp add: Let_def)
    qed
  qed
qed

lemma filter_split:
  "filter P xs = ys @ zs \<Longrightarrow> \<exists>us vs. xs = us @ vs \<and> filter P us = ys \<and> filter P vs = zs"
proof (induction xs arbitrary: ys)
  case (Cons x xs)
  show ?case
  proof (cases "P x \<and> ys \<noteq> []")
    case True
    with Cons.prems obtain ys' where "ys = x # ys'" "filter P xs = ys' @ zs" by (cases ys) auto
    with Cons.IH True obtain us vs where "xs = us @ vs" "filter P us = ys'" "filter P vs = zs" by blast
    with True \<open>ys = x # ys'\<close> show ?thesis by (intro exI [of _ "x # us"] exI [of _ vs]) simp
  next
    case False
    show ?thesis
    proof (cases "P x")
      case True
      with False Cons.prems show ?thesis by (intro exI [of _ "[]"] exI [of _ "x # xs"]) simp
    next
      case False
      with Cons.prems have "filter P xs = ys @ zs" by simp
      with Cons.IH obtain us vs where "xs = us @ vs" "filter P us = ys" "filter P vs = zs" by blast
      with False show ?thesis by (intro exI [of _ "x # us"] exI [of _ vs]) simp
    qed
  qed
qed simp

lemma spaced_filter:
  assumes "spaced ts es xs" and "filter P xs = pre @ a # mid @ b # post"
  shows "\<exists>xs1 xs2 xs3. xs = xs1 @ a # xs2 @ b # xs3 \<and> P a \<and> P b \<and> keeps_windows ts (es @ xs1 @ a # xs2) b"
proof -
  from filter_split [OF assms(2)] obtain u v where u: "xs = u @ v" "filter P v = a # mid @ b # post" by blast
  then obtain us vs where xs: "v = us @ a # vs" "P a" "filter P vs = mid @ b # post"
    by (auto simp: filter_eq_Cons_iff)
  from filter_split [OF this(3)] obtain u' v' where u': "vs = u' @ v'" "filter P v' = b # post" by blast
  then obtain us' vs' where vs: "v' = us' @ b # vs'" "P b"
    by (auto simp: filter_eq_Cons_iff)
  have "spaced ts (es @ (u @ us) @ a # u' @ us') (b # vs')"
    using assms(1) spaced_append [of ts es "(u @ us) @ a # u' @ us'" "b # vs'"] by (simp add: u xs u' vs)
  then show ?thesis
    using u xs u' vs by (intro exI [of _ "u @ us"] exI [of _ "u' @ us'"] exI [of _ vs']) simp
qed

text \<open>The entries of the log: a trigger of the engine, and no firing without an action.\<close>

definition log_ok :: "trigger list \<Rightarrow> scheduler_system \<Rightarrow> bool" where
  "log_ok ts s \<longleftrightarrow> te_triggers (sch_triggers (ss_scheduler s)) = ts \<and> ss_handles s = Map.empty \<and>
     (\<forall>e \<in> set (ss_firings s). fi_trigger_id e \<in> tg_trigger_id ` set ts \<and> (fi_fired e \<longrightarrow> fi_acted e))"

lemma run_handle_log_ok:
  "set ts \<subseteq> set all \<Longrightarrow> prompt ts \<Longrightarrow> log_ok all s \<Longrightarrow> log_ok all (run_handle parse h run_id task now ev ts s)"
proof (induction ts arbitrary: s)
  case Nil
  then show ?case by simp
next
  case (Cons t ts)
  let ?d = "decide parse now ev (sc_state (system_show s)) t (sch_triggers (ss_scheduler s))"
  have "tg_action t \<noteq> Act_abort" using Cons.prems(2) by (simp add: prompt_def)
  from run_handle_turn [OF this, of parse h run_id task now ev ts s]
  obtain s' ok where s': "run_handle parse h run_id task now ev (t # ts) s = run_handle parse h run_id task now ev ts s'"
      "ss_firings s' = ss_firings s @ turn_entry t now ?d ok" "sch_triggers (ss_scheduler s') = turn_engine t now ?d ok"
      "ss_handles s' = ss_handles s" by blast
  have "log_ok all s'"
    using Cons.prems(1,3) s'(2-4) by (auto simp: log_ok_def turn_engine_triggers turn_entry_def split: if_splits)
  with Cons.IH [of s'] Cons.prems(1,2) s'(1) show ?case by (simp add: prompt_def)
qed

lemma log_ok_run:
  assumes "system_run sch s" and "te_triggers (sch_triggers sch) = ts" and "prompt ts"
  shows "log_ok ts s"
  using assms(1)
proof (induction rule: system_run.induct)
  case system_new
  then show ?case using assms(2) by (simp add: log_ok_def new_system_def)
next
  case (system_step s p)
  show ?case
  proof (cases "\<exists>h run_id task parse now ev. p = Ss_input h run_id task parse now ev")
    case True
    then obtain h run_id task parse now ev where p: "p = Ss_input h run_id task parse now ev" by blast
    have "log_ok ts (s\<lparr>ss_clock := now\<rparr>)" using system_step.IH by (simp add: log_ok_def)
    from run_handle_log_ok [OF subset_refl assms(3) this]
    have "log_ok ts (run_handle parse h run_id task now ev ts (s\<lparr>ss_clock := now\<rparr>))" .
    moreover have "te_triggers (sch_triggers (ss_scheduler s)) = ts" using system_step.IH by (simp add: log_ok_def)
    ultimately show ?thesis by (simp add: p fire_input_def)
  next
    case False
    with quiet_perform [of s p] system_step.IH show ?thesis by (auto simp: quiet_def log_ok_def)
  qed
qed

text \<open>Of an engine with one trigger, two firings keep its cooldown.\<close>

lemma fired_cooldown:
  assumes "system_run sch s" and "te_triggers (sch_triggers sch) = [t]" and "prompt [t]"
    and "te_last_matched_at (sch_triggers sch) = Map.empty" and "te_last_fired_at (sch_triggers sch) = Map.empty"
    and "fired_entries s = pre @ a # mid @ b # post"
  shows "tg_cooldown_ms t \<le> (fi_at b - fi_at a) * 1000"
proof -
  have "spaced_system [t] s" using spaced_run [OF assms(1,2,3) _ assms(4,5)] by simp
  then have "spaced [t] [] (ss_firings s)" by (simp add: spaced_system_def)
  from spaced_filter [OF this, of fi_fired pre a mid b post] assms(6)
  obtain xs1 xs2 xs3 where "ss_firings s = xs1 @ a # xs2 @ b # xs3" "fi_fired a" "fi_fired b"
    "keeps_windows [t] (xs1 @ a # xs2) b" by (auto simp: fired_entries_def)
  then have firings: "{a, b} \<subseteq> set (ss_firings s)" "fi_fired a" "fi_fired b"
    and windows: "keeps_windows [t] (xs1 @ a # xs2) b" by auto
  have "fi_trigger_id a = tg_trigger_id t" "fi_trigger_id b = tg_trigger_id t" "fi_acted b"
    using log_ok_run [OF assms(1-3)] firings by (simp_all add: log_ok_def)
  with windows firings(2) show ?thesis by (simp add: keeps_windows_def)
qed

text \<open>Runs in which only the engine starts the Show.\<close>

inductive triggered_run :: "scheduler \<Rightarrow> scheduler_system \<Rightarrow> bool" for sch where
  triggered_new: "triggered_run sch (new_system sch)"
| triggered_step: "triggered_run sch s \<Longrightarrow> system_ok p s \<Longrightarrow> (\<And>run_id t. p \<noteq> Ss_start run_id t) \<Longrightarrow>
    triggered_run sch (system_perform p s)"

lemma triggered_system_run: "triggered_run sch s \<Longrightarrow> system_run sch s"
  by (induction rule: triggered_run.induct) (auto intro: system_run.intros)

lemma entered_perform_other:
  assumes "ss_handles s = Map.empty" and "\<And>h run_id task parse now ev. p \<noteq> Ss_input h run_id task parse now ev"
    and "\<And>run_id t. p \<noteq> Ss_start run_id t"
  shows "entered RUNNING (system_show (system_perform p s)) = entered RUNNING (system_show s)"
proof (cases p)
  case (Ss_prepared answer a)
  obtain res where "sch_controller (arm_prepared answer a (ss_scheduler s)) = arm_resume res a (system_show s)"
    using arm_prepared_show [of answer a "ss_scheduler s"] by (auto simp: system_show_def)
  then show ?thesis
    by (simp add: Ss_prepared arm_resume_def entered_def set_state_def Let_def split: call_result.split)
next
  case (Ss_stopped get_targets a run_id t parse)
  have "ss_handles (abort_stopped get_targets a s) a = None"
    using assms(1) by (simp add: abort_stopped_def split_beta Let_def)
  then have "handle_resume parse run_id t a (abort_stopped get_targets a s) = abort_stopped get_targets a s"
    by (simp add: handle_resume_def)
  then show ?thesis
    by (simp add: Ss_stopped abort_stopped_show) (simp add: abort_end_def set_state_def entered_def Let_def)
next
  case (Ss_run_end ended t)
  obtain res where "sch_controller (run_end ended t (ss_scheduler s)) = drive_end res t (system_show s)"
    using run_end_show [of ended t "ss_scheduler s"] by (auto simp: system_show_def)
  then show ?thesis
    by (simp add: Ss_run_end drive_end_def entered_def set_state_def Let_def split: call_result.split)
qed (use assms in \<open>auto simp: or_same_def on_controller_def system_show_def on_scheduler_def entered_def show_defs
    scheduler_hold_def abort_scheduler_begin_def split: sum.splits if_splits option.splits show_frame.splits\<close>)

lemma triggered_starts:
  assumes "triggered_run sch s" and "te_triggers (sch_triggers sch) = ts" and "armed_starts ts"
    and "sch_controller sch = new_show_controller"
  shows "starts_logged s"
  using assms(1)
proof (induction rule: triggered_run.induct)
  case triggered_new
  then show ?case
    using assms(4)
    by (simp add: starts_logged_def fired_entries_def entered_def new_system_def system_show_def new_show_controller_def)
next
  case (triggered_step s p)
  note quiet = no_error_run [OF triggered_system_run [OF triggered_step.hyps(1)] assms(2,3)]
  show ?case
  proof (cases "\<exists>h run_id task parse now ev. p = Ss_input h run_id task parse now ev")
    case True
    then obtain h run_id task parse now ev where p: "p = Ss_input h run_id task parse now ev" by blast
    have "starts_logged (s\<lparr>ss_clock := now\<rparr>)"
      using triggered_step.IH by (simp add: starts_logged_def fired_entries_def system_show_def)
    with run_handle_starts [OF assms(3)] quiet show ?thesis by (simp add: p fire_input_def)
  next
    case False
    with quiet quiet_perform [of s p] entered_perform_other [of s p] triggered_step.IH triggered_step.hyps(3) show ?thesis
      by (simp add: starts_logged_def fired_entries_def quiet_def)
  qed
qed

section \<open>Properties\<close>

text \<open>Running a list of operations from a state, when each is possible.\<close>

fun system_ops_ok :: "system_op list \<Rightarrow> scheduler_system \<Rightarrow> bool" where
  "system_ops_ok [] s \<longleftrightarrow> True"
| "system_ops_ok (p # ps) s \<longleftrightarrow> system_ok p s \<and> system_ops_ok ps (system_perform p s)"

lemma system_ops_run: "system_run sch s \<Longrightarrow> system_ops_ok ps s \<Longrightarrow> system_run sch (fold system_perform ps s)"
  by (induction ps arbitrary: s) (auto intro: system_run.intros)

definition loaded :: "trigger list \<Rightarrow> scheduler" where
  "loaded ts = fold register_scheduler_trigger ts ((new_scheduler [''motor''])\<lparr>sch_timeline := Some [demo_cue]\<rparr>)"

lemma loaded_simps [simp]:
  "sch_controller (loaded ts) = new_show_controller" "te_triggers (sch_triggers (loaded ts)) = ts"
  "te_last_matched_at (sch_triggers (loaded ts)) = Map.empty" "te_last_fired_at (sch_triggers (loaded ts)) = Map.empty"
  "sch_timeline (loaded ts) = Some [demo_cue]" "sch_clients (loaded ts) = [''motor'']" "sch_session_ids (loaded ts) = []"
proof -
  have "sch_controller (fold register_scheduler_trigger ts sch) = sch_controller sch \<and>
      te_triggers (sch_triggers (fold register_scheduler_trigger ts sch)) = te_triggers (sch_triggers sch) @ ts \<and>
      te_last_matched_at (sch_triggers (fold register_scheduler_trigger ts sch)) = te_last_matched_at (sch_triggers sch) \<and>
      te_last_fired_at (sch_triggers (fold register_scheduler_trigger ts sch)) = te_last_fired_at (sch_triggers sch) \<and>
      sch_timeline (fold register_scheduler_trigger ts sch) = sch_timeline sch \<and>
      sch_clients (fold register_scheduler_trigger ts sch) = sch_clients sch \<and>
      sch_session_ids (fold register_scheduler_trigger ts sch) = sch_session_ids sch" for sch
    by (induction ts arbitrary: sch) (simp_all add: register_scheduler_trigger_def register_trigger_def)
  then show "sch_controller (loaded ts) = new_show_controller" "te_triggers (sch_triggers (loaded ts)) = ts"
    "te_last_matched_at (sch_triggers (loaded ts)) = Map.empty" "te_last_fired_at (sch_triggers (loaded ts)) = Map.empty"
    "sch_timeline (loaded ts) = Some [demo_cue]" "sch_clients (loaded ts) = [''motor'']" "sch_session_ids (loaded ts) = []"
    by (simp_all add: loaded_def new_scheduler_def new_trigger_engine_def)
qed

text \<open>
  However inputs and operator calls interleave, Shows are started only as often as they are armed: the number
  of times the Show became RUNNING is the number of times it became ARMED, less one while it is ARMED; and
  at most one run is live at any time.
\<close>

theorem each_start_needs_an_arm:
  assumes "system_run sch s" and "sch_controller sch = new_show_controller"
  shows "entered ARMED (system_show s) = entered RUNNING (system_show s) + (if sc_state (system_show s) = ARMED then 1 else 0) \<and>
    (sc_tasks (system_show s) = Map.empty \<or> (\<exists>t c. sc_tasks (system_show s) = [t \<mapsto> c]))"
proof -
  have r: "show_run run_obeys_cancel (system_show s)" by (rule system_show_run [OF assms])
  have "sc_tasks (system_show s) = Map.empty \<or> (\<exists>t c. sc_tasks (system_show s) = [t \<mapsto> c])"
    using show_run_inv [OF r] by (cases "sc_state (system_show s)") (auto simp: show_inv_def)
  with show_run_armed_once [OF r] show ?thesis by (simp add: armed_once_def)
qed

definition armed_ops :: "system_op list" where
  "armed_ops = [Ss_arm 0, Ss_prepared (\<lambda>_. Prepared ''s1'') 0,
     Ss_input 1 ''run1'' 0 (\<lambda>_. None) 1 (press_event ''ui'' ''button'' (PBool True) 1)]"

lemmas system_eval = new_system_def loaded_simps free_call_def free_task_def system_show_def or_same_def on_controller_def
  show_defs arm_prepared_def prepare_def new_show_controller_def fire_input_def decide_def condition_matches_def press_event_def
  in_window_def call_action_def scheduler_start_def scheduler_hold_def abort_scheduler_begin_def on_scheduler_def
  on_triggers_def log_turn_def action_returned_def action_raised_def fired_def

theorem each_start_needs_an_arm_witness:
  "entered RUNNING (system_show (fold system_perform armed_ops (new_system (loaded [demo_trigger])))) = 1"
proof -
  let ?s = "fold system_perform armed_ops (new_system (loaded [demo_trigger]))"
  have "system_ops_ok armed_ops (new_system (loaded [demo_trigger]))"
    by (simp add: armed_ops_def system_eval demo_trigger_def)
  from each_start_needs_an_arm [OF system_ops_run [OF system_new this]]
  have "entered ARMED (system_show ?s) = entered RUNNING (system_show ?s) + (if sc_state (system_show ?s) = ARMED then 1 else 0)"
    by simp
  moreover have "sc_state (system_show ?s) = RUNNING" and "entered ARMED (system_show ?s) = 1"
    by (simp_all add: armed_ops_def system_eval demo_trigger_def entered_def)
  ultimately show ?thesis by simp
qed

text \<open>
  Triggers that start the Show only while it is ARMED, as both entry points register them, are never
  rejected: whatever the operator does in between, \<open>on_action_error\<close> is never called.
\<close>

theorem armed_starts_never_rejected:
  assumes "system_run sch s" and "te_triggers (sch_triggers sch) = ts" and "armed_starts ts"
  shows "ss_errors s = []"
  using no_error_run [OF assms] by simp

theorem armed_starts_never_rejected_witness:
  "ss_errors (fold system_perform armed_ops (new_system (loaded [demo_trigger]))) = []"
proof -
  have "system_ops_ok armed_ops (new_system (loaded [demo_trigger]))"
    by (simp add: armed_ops_def system_eval demo_trigger_def)
  from armed_starts_never_rejected [OF system_ops_run [OF system_new this], of "[demo_trigger]"] show ?thesis
    by (simp add: armed_starts_def demo_trigger_def)
qed

lemma decide_any_source:
  "tc_source (tg_condition t) = None \<Longrightarrow> decide parse now (ev\<lparr>ie_source := src\<rparr>) st t te = decide parse now ev st t te"
  by (simp add: decide_def condition_matches_def split: comparator.split)

text \<open>
  \<^bold>\<open>C21\<close> Debounce and cooldown in the running system, for an engine with no abort trigger: of two entries of the log
  for one trigger, the later one's action is called only when the debounce window has passed since the
  earlier, and the cooldown if the earlier one fired. The window belongs to the trigger, not to a source, which
  is not what the docstring of \<open>debounce_ms\<close> in \<open>contracts/trigger.py\<close> says (events \<open>from the same source\<close>): for
  a trigger that takes any source, an event is decided as if it had come from any other, so that inside the
  window it is ignored even when it is the first one from its source.
\<close>

theorem inputs_are_spaced:
  assumes "system_run sch s" and "te_triggers (sch_triggers sch) = ts" and "distinct (map tg_trigger_id ts)"
    and "te_last_matched_at (sch_triggers sch) = Map.empty" and "te_last_fired_at (sch_triggers sch) = Map.empty"
    and "\<forall>t \<in> set ts. tg_action t \<noteq> Act_abort"
    and "i < j" and "j < length (ss_firings s)" and "t \<in> set ts"
    and "fi_trigger_id (ss_firings s ! i) = tg_trigger_id t" and "fi_trigger_id (ss_firings s ! j) = tg_trigger_id t"
    and "fi_acted (ss_firings s ! j)"
  shows "tg_debounce_ms t \<le> (fi_at (ss_firings s ! j) - fi_at (ss_firings s ! i)) * 1000 \<and>
    (fi_fired (ss_firings s ! i) \<longrightarrow> tg_cooldown_ms t \<le> (fi_at (ss_firings s ! j) - fi_at (ss_firings s ! i)) * 1000) \<and>
    (tc_source (tg_condition t) = None \<longrightarrow>
       decide parse now (ev\<lparr>ie_source := src\<rparr>) st t te = decide parse now ev st t te)"
proof -
  have "spaced_system ts s"
    using spaced_run [OF assms(1,2) _ assms(3-5)] assms(6) by (simp add: prompt_def)
  then have "keeps_windows ts (take j (ss_firings s)) (ss_firings s ! j)"
    using spaced_nth [of ts "[]" "ss_firings s" j] assms(8) by (simp add: spaced_system_def)
  moreover have "ss_firings s ! i \<in> set (take j (ss_firings s))"
    using assms(7,8) by (auto simp: in_set_conv_nth intro!: exI [of _ i])
  ultimately show ?thesis
    using assms(9-12) decide_any_source unfolding keeps_windows_def by auto
qed

definition hold_trigger :: trigger where
  "hold_trigger = \<lparr>tg_trigger_id = ''again'', tg_condition = \<lparr>tc_source = None, tc_type = ''x'',
     tc_comparator = Cmp_eq, tc_value = PBool True\<rparr>, tg_action = Act_hold,
     tg_show_states = None, tg_debounce_ms = 1000, tg_cooldown_ms = 0\<rparr>"

definition abort_trigger :: trigger where
  "abort_trigger = \<lparr>tg_trigger_id = ''stop'', tg_condition = \<lparr>tc_source = None, tc_type = ''x'',
     tc_comparator = Cmp_eq, tc_value = PBool True\<rparr>, tg_action = Act_abort,
     tg_show_states = None, tg_debounce_ms = 0, tg_cooldown_ms = 0\<rparr>"

definition press_x :: "nat \<Rightarrow> time \<Rightarrow> system_op" where
  "press_x h now = Ss_input h ''run2'' 7 (\<lambda>_. None) now (press_event ''ui'' ''x'' (PBool True) now)"

theorem inputs_are_spaced_witness:
  "let s = fold system_perform [press_x 0 1, press_x 1 3] (new_system (loaded [hold_trigger]))
   in tg_debounce_ms hold_trigger \<le> (fi_at (ss_firings s ! 1) - fi_at (ss_firings s ! 0)) * 1000"
proof -
  let ?s = "fold system_perform [press_x 0 1, press_x 1 3] (new_system (loaded [hold_trigger]))"
  have ok: "system_ops_ok [press_x 0 1, press_x 1 3] (new_system (loaded [hold_trigger]))"
    by (simp add: press_x_def system_eval hold_trigger_def)
  have firings: "ss_firings ?s = [\<lparr>fi_trigger_id = ''again'', fi_at = 1, fi_acted = True, fi_fired = False\<rparr>,
      \<lparr>fi_trigger_id = ''again'', fi_at = 3, fi_acted = True, fi_fired = False\<rparr>]"
    by (simp add: press_x_def system_eval hold_trigger_def)
  show ?thesis
    unfolding Let_def
    by (rule inputs_are_spaced [OF system_ops_run [OF system_new ok], where ts = "[hold_trigger]", THEN conjunct1])
      (simp_all only: firings, simp_all add: hold_trigger_def)
qed

definition stale_ops :: "system_op list" where
  "stale_ops = [Ss_arm 0, Ss_prepared (\<lambda>_. Prepared ''s1'') 0, Ss_start ''run1'' 0, press_x 1 0, press_x 2 (11/2),
     Ss_run_end (Inl Call_cancelled) 0, Ss_joined 1, Ss_stopped (\<lambda>_. None) 1 ''run3'' 9 (\<lambda>_. None), press_x 3 6]"

text \<open>
  \<^bold>\<open>C22\<close> With an abort trigger the windows do not hold: a call of \<open>handle\<close> that waited for \<open>_stop_all\<close> goes on with
  the time of its start, and overwrites the later match of another call. In this run the trigger \<open>again\<close>,
  with a debounce of 1000 ms, acts on two inputs that are 500 ms apart.
\<close>

theorem debounce_lost_during_abort:
  "\<exists>s i j. system_run (loaded [abort_trigger, hold_trigger]) s \<and> i < j \<and> j < length (ss_firings s) \<and>
     fi_trigger_id (ss_firings s ! i) = tg_trigger_id hold_trigger \<and> fi_acted (ss_firings s ! i) \<and>
     fi_trigger_id (ss_firings s ! j) = tg_trigger_id hold_trigger \<and> fi_acted (ss_firings s ! j) \<and>
     (fi_at (ss_firings s ! j) - fi_at (ss_firings s ! i)) * 1000 < tg_debounce_ms hold_trigger"
proof -
  let ?new = "new_system (loaded [abort_trigger, hold_trigger])"
  note eval = stale_ops_def press_x_def system_eval abort_trigger_def hold_trigger_def abort_stopped_def stop_all_def
    stop_client_def handle_resume_def run_end_def
  have "system_ops_ok stale_ops ?new" by (simp add: eval)
  from system_ops_run [OF system_new this] have run: "system_run (loaded [abort_trigger, hold_trigger]) (fold system_perform stale_ops ?new)" .
  have "ss_firings (fold system_perform stale_ops ?new) =
      [\<lparr>fi_trigger_id = ''stop'', fi_at = 11/2, fi_acted = True, fi_fired = False\<rparr>,
       \<lparr>fi_trigger_id = ''again'', fi_at = 11/2, fi_acted = True, fi_fired = False\<rparr>,
       \<lparr>fi_trigger_id = ''stop'', fi_at = 0, fi_acted = True, fi_fired = True\<rparr>,
       \<lparr>fi_trigger_id = ''again'', fi_at = 0, fi_acted = False, fi_fired = False\<rparr>,
       \<lparr>fi_trigger_id = ''stop'', fi_at = 6, fi_acted = True, fi_fired = False\<rparr>,
       \<lparr>fi_trigger_id = ''again'', fi_at = 6, fi_acted = True, fi_fired = False\<rparr>]"
    by (simp add: eval)
  then show ?thesis
    using run by (intro exI [of _ "fold system_perform stale_ops ?new"] exI [of _ 1] exI [of _ 5])
      (simp add: hold_trigger_def)
qed

end
