(* ===== verification/Modbus_Framing.thy ===== *)
theory Modbus_Framing
  imports Octets
begin

text \<open>
  The Modbus RTU frames of \<open>io/modbus_framing.py\<close>: the CRC, the two request builders and the two response
  parsers. The CRC never leaves 16 bits (it is xored with bytes and shifted right), so it is a 16-bit
  word. Slave ids, addresses, counts and values are Python integers of any size; \<open>bytes([slave_id, ...])\<close>
  raises \<open>ValueError\<close> unless the slave id is a byte, the other fields are masked. The parsers index the
  response with checked indices, so that an \<open>IndexError\<close> would be a result of the model.
\<close>

section \<open>CRC\<close>

definition crc_bit :: "16 word \<Rightarrow> 16 word" where
  "crc_bit c = (if c AND 1 \<noteq> 0 then drop_bit 1 c XOR 0xA001 else drop_bit 1 c)"

definition crc_byte :: "8 word \<Rightarrow> 16 word \<Rightarrow> 16 word" where
  "crc_byte b c = (crc_bit ^^ 8) (c XOR ucast b)"

definition crc16 :: "bytes \<Rightarrow> 16 word" where
  "crc16 data = fold crc_byte data 0xFFFF"

section \<open>Frames\<close>

definition READ_HOLDING_REGISTERS :: "8 word" where "READ_HOLDING_REGISTERS = 0x03"
definition WRITE_SINGLE_REGISTER :: "8 word" where "WRITE_SINGLE_REGISTER = 0x06"
definition EXCEPTION_BIT :: "8 word" where "EXCEPTION_BIT = 0x80"

lemmas function_codes = READ_HOLDING_REGISTERS_def WRITE_SINGLE_REGISTER_def EXCEPTION_BIT_def

text \<open>The messages of \<open>FrameError\<close>, with the values they show.\<close>

datatype frame_fault =
    Response_too_short nat
  | Unexpected_slave_id "8 word" int
  | CRC_mismatch
  | Unexpected_function_code "8 word"
  | Byte_count_mismatch
  | Unexpected_write_length nat
  | Echo_mismatch

datatype modbus_error =
    Frame_error frame_fault
  | Device_error "8 word" "8 word"
  | Value_error
  | Index_error

definition with_crc :: "bytes \<Rightarrow> bytes" where
  "with_crc frame = (let crc = crc16 frame in frame @ [ucast (crc AND 0xFF), ucast (drop_bit 8 crc AND 0xFF)])"

definition request_frame :: "8 word \<Rightarrow> int \<Rightarrow> int \<Rightarrow> int \<Rightarrow> modbus_error + bytes" where
  "request_frame function_code slave_id a b =
     (if slave_id < 0 \<or> 256 \<le> slave_id then Inl Value_error
      else Inr (with_crc [word_of_int slave_id, function_code, octet 1 a, octet 0 a, octet 1 b, octet 0 b]))"

definition build_read_holding_registers :: "int \<Rightarrow> int \<Rightarrow> int \<Rightarrow> modbus_error + bytes" where
  "build_read_holding_registers slave_id address count =
     request_frame READ_HOLDING_REGISTERS slave_id address count"

definition build_write_single_register :: "int \<Rightarrow> int \<Rightarrow> int \<Rightarrow> modbus_error + bytes" where
  "build_write_single_register slave_id address val =
     request_frame WRITE_SINGLE_REGISTER slave_id address val"

definition byte_at :: "bytes \<Rightarrow> nat \<Rightarrow> modbus_error + 8 word" where
  "byte_at data i = (if i < length data then Inr (data ! i) else Inl Index_error)"

definition check_frame :: "int \<Rightarrow> bytes \<Rightarrow> modbus_error + unit" where
  "check_frame slave_id response =
     (let n = length response
      in if n < 5 then Inl (Frame_error (Response_too_short n))
         else if uint (response ! 0) \<noteq> slave_id then Inl (Frame_error (Unexpected_slave_id (response ! 0) slave_id))
         else if ucast (response ! (n - 2)) OR push_bit 8 (ucast (response ! (n - 1))) \<noteq>
                 crc16 (take (n - 2) response)
         then Inl (Frame_error CRC_mismatch)
         else Inr ())"

fun read_words :: "bytes \<Rightarrow> nat list \<Rightarrow> modbus_error + int list" where
  "read_words response [] = Inr []"
| "read_words response (i # is) =
     (case (byte_at response (3 + i), byte_at response (3 + i + 1)) of
        (Inr hi, Inr lo) \<Rightarrow>
          (case read_words response is of Inl e \<Rightarrow> Inl e | Inr vs \<Rightarrow> Inr (be16 hi lo # vs))
      | (Inl e, _) \<Rightarrow> Inl e
      | (_, Inl e) \<Rightarrow> Inl e)"

text \<open>\<open>range(0, byte_count, 2)\<close>\<close>

definition even_range :: "nat \<Rightarrow> nat list" where
  "even_range n = map (\<lambda>k. 2 * k) [0..<(n + 1) div 2]"

definition parse_read_holding_registers_response :: "int \<Rightarrow> bytes \<Rightarrow> modbus_error + int list" where
  "parse_read_holding_registers_response slave_id response =
     (case check_frame slave_id response of
        Inl e \<Rightarrow> Inl e
      | Inr _ \<Rightarrow>
         (case (byte_at response 1, byte_at response 2) of
            (Inr function_code, Inr third) \<Rightarrow>
              if function_code = READ_HOLDING_REGISTERS OR EXCEPTION_BIT
              then Inl (Device_error READ_HOLDING_REGISTERS third)
              else if function_code \<noteq> READ_HOLDING_REGISTERS
              then Inl (Frame_error (Unexpected_function_code function_code))
              else let byte_count = unat third
                   in if length response \<noteq> 3 + byte_count + 2
                      then Inl (Frame_error Byte_count_mismatch)
                      else read_words response (even_range byte_count)
          | (Inl e, _) \<Rightarrow> Inl e
          | (_, Inl e) \<Rightarrow> Inl e))"

definition parse_write_single_register_response :: "int \<Rightarrow> int \<Rightarrow> int \<Rightarrow> bytes \<Rightarrow> modbus_error + unit" where
  "parse_write_single_register_response slave_id address val response =
     (case check_frame slave_id response of
        Inl e \<Rightarrow> Inl e
      | Inr _ \<Rightarrow>
         (case (byte_at response 1, byte_at response 2) of
            (Inr function_code, Inr third) \<Rightarrow>
              if function_code = WRITE_SINGLE_REGISTER OR EXCEPTION_BIT
              then Inl (Device_error WRITE_SINGLE_REGISTER third)
              else if function_code \<noteq> WRITE_SINGLE_REGISTER
              then Inl (Frame_error (Unexpected_function_code function_code))
              else if length response \<noteq> 8
              then Inl (Frame_error (Unexpected_write_length (length response)))
              else if be16 (response ! 2) (response ! 3) \<noteq> address \<or> be16 (response ! 4) (response ! 5) \<noteq> val
              then Inl (Frame_error Echo_mismatch)
              else Inr ()
          | (Inl e, _) \<Rightarrow> Inl e
          | (_, Inl e) \<Rightarrow> Inl e))"

section \<open>The CRC is a linear feedback shift register\<close>

lemma crc_bit_alt: "crc_bit c = drop_bit 1 c XOR (if bit c 0 then 0xA001 else 0)"
  by (simp add: crc_bit_def and_one_eq bit_0 mod_2_eq_odd)

lemma crc_bit_xor: "crc_bit (a XOR b) = crc_bit a XOR crc_bit b"
  by (simp add: crc_bit_alt bit_xor_iff drop_bit_xor ac_simps del: bit_0)

lemma crc_bits_xor: "(crc_bit ^^ n) (a XOR b) = (crc_bit ^^ n) a XOR (crc_bit ^^ n) b"
  by (induction n) (simp_all add: crc_bit_xor)

lemma crc_bit_0 [simp]: "crc_bit 0 = 0"
  by (simp add: crc_bit_def)

lemma crc_bits_0 [simp]: "(crc_bit ^^ n) 0 = 0"
  by (induction n) simp_all

text \<open>No nonzero state is shifted out: bit 15 of the polynomial shows whether a bit fell off.\<close>

lemma crc_bit_eq_0: "crc_bit c = 0 \<longleftrightarrow> c = 0"
proof
  assume z: "crc_bit c = 0"
  have "bit (crc_bit c) 15 = bit c 0"
    using bit_imp_le_length [of c 16]
    by (auto simp: crc_bit_alt bit_xor_iff bit_drop_bit_eq simp del: bit_0)
  with z have c0: "\<not> bit c 0" by simp
  with z have "drop_bit 1 c = 0" by (simp add: crc_bit_alt del: bit_0)
  moreover have "bit (drop_bit 1 c) n = bit c (Suc n)" for n
    by (simp add: bit_drop_bit_eq)
  ultimately have "\<not> bit c (Suc n)" for n by simp
  with c0 have "\<not> bit c n" for n by (cases n) simp_all
  then show "c = 0" by (simp add: bit_eq_iff)
qed simp

text \<open>The example of the Modbus serial line specification.\<close>

lemma crc16_example: "crc16 [0x02, 0x07] = 0x1241"
  by code_simp

lemma crc_bits_eq_0: "(crc_bit ^^ n) c = 0 \<longleftrightarrow> c = 0"
  by (induction n) (simp_all add: crc_bit_eq_0)

lemma xor_0_iff: "a XOR b = 0 \<longleftrightarrow> a = b" for a b :: "'a :: len word"
  by (auto simp: bit_eq_iff bit_xor_iff)

lemma xor_left_eq: "a XOR c = b XOR c \<longleftrightarrow> a = b" for a b c :: "'a :: len word"
  by (auto simp: bit_eq_iff bit_xor_iff)

lemma crc_bits_inj: "(crc_bit ^^ n) a = (crc_bit ^^ n) b \<longleftrightarrow> a = b"
proof -
  have "(crc_bit ^^ n) a = (crc_bit ^^ n) b \<longleftrightarrow> (crc_bit ^^ n) (a XOR b) = 0"
    by (simp add: crc_bits_xor xor_0_iff)
  then show ?thesis by (simp add: crc_bits_eq_0 xor_0_iff)
qed

text \<open>
  The register fed bit by bit: the bits of a frame in the order they are sent, least significant first.
\<close>

definition shift_in :: "bool \<Rightarrow> 16 word \<Rightarrow> 16 word" where
  "shift_in b c = crc_bit (c XOR of_bool b)"

definition byte_bits :: "8 word \<Rightarrow> bool list" where
  "byte_bits b = map (bit b) [0..<8]"

definition frame_bits :: "bytes \<Rightarrow> bool list" where
  "frame_bits data = concat (map byte_bits data)"

abbreviation word_of_bits :: "bool list \<Rightarrow> 16 word" where
  "word_of_bits bs \<equiv> horner_sum of_bool 2 bs"

lemma length_byte_bits [simp]: "length (byte_bits b) = 8"
  by (simp add: byte_bits_def)

lemma byte_bits_nth: "i < 8 \<Longrightarrow> byte_bits b ! i = bit b i"
  by (simp add: byte_bits_def del: upt_rec_numeral)

lemma length_frame_bits [simp]: "length (frame_bits data) = 8 * length data"
  by (induction data) (simp_all add: frame_bits_def)

lemma frame_bits_append [simp]: "frame_bits (xs @ ys) = frame_bits xs @ frame_bits ys"
  by (simp add: frame_bits_def)

lemma word_of_bits_inj:
  assumes "length bs \<le> 16" and "length bs' = length bs" and "word_of_bits bs = word_of_bits bs'"
  shows "bs = bs'"
proof (rule nth_equalityI)
  fix i assume i: "i < length bs"
  have "bit (word_of_bits bs) i = bit (word_of_bits bs') i"
    by (simp only: assms(3))
  with i assms(1,2) show "bs ! i = bs' ! i"
    by (simp add: bit_horner_sum_bit_word_iff)
qed (simp add: assms(2))

lemma crc_bit_push: "\<not> bit w 15 \<Longrightarrow> crc_bit (push_bit 1 w) = w"
proof -
  assume "\<not> bit w 15"
  then have "bit (crc_bit (push_bit 1 w)) n = bit w n" for n
    using bit_imp_le_length [of w n]
    by (cases "n = 15") (auto simp: crc_bit_alt bit_simps simp del: push_bit_Suc)
  then show ?thesis by (simp add: bit_eq_iff)
qed

lemma word_of_bits_Cons:
  assumes "length bs \<le> 15"
  shows "crc_bit (c XOR word_of_bits (b # bs)) = crc_bit (c XOR of_bool b) XOR word_of_bits bs"
proof -
  have "word_of_bits (b # bs) = of_bool b XOR push_bit 1 (word_of_bits bs)"
  proof (rule bit_eqI)
    fix n
    show "bit (word_of_bits (b # bs)) n \<longleftrightarrow> bit (of_bool b XOR push_bit 1 (word_of_bits bs)) n"
      unfolding bit_horner_sum_bit_word_iff bit_xor_iff bit_push_bit_iff bit_of_bool_iff
      by (cases n) auto
  qed
  moreover have "crc_bit (push_bit 1 (word_of_bits bs)) = word_of_bits bs"
    using assms by (intro crc_bit_push) (simp add: bit_horner_sum_bit_word_iff)
  ultimately show ?thesis
    by (simp only: crc_bit_xor ac_simps)
qed

text \<open>Up to 16 bits at once: xor them into the register and shift.\<close>

lemma shift_in_bits:
  "length bs \<le> 16 \<Longrightarrow> fold shift_in bs c = (crc_bit ^^ length bs) (c XOR word_of_bits bs)"
proof (induction bs arbitrary: c)
  case (Cons b bs)
  have "fold shift_in (b # bs) c = (crc_bit ^^ length bs) (shift_in b c XOR word_of_bits bs)"
    using Cons by simp
  also have "shift_in b c XOR word_of_bits bs = crc_bit (c XOR word_of_bits (b # bs))"
    unfolding shift_in_def using Cons.prems by (subst word_of_bits_Cons) simp_all
  finally show ?case by (simp only: length_Cons funpow_Suc_right comp_apply)
qed simp

lemma shift_in_inj: "fold shift_in bs c = fold shift_in bs c' \<longleftrightarrow> c = c'"
proof (induction bs arbitrary: c c')
  case (Cons b bs)
  have "shift_in b c = shift_in b c' \<longleftrightarrow> c = c'"
    using crc_bits_inj [of 1 c c'] by (simp add: shift_in_def crc_bit_xor xor_left_eq)
  with Cons show ?case by simp
qed simp

lemma ucast_byte_bits: "ucast b = word_of_bits (byte_bits b)"
proof (rule bit_eqI)
  fix n
  show "bit (ucast b :: 16 word) n \<longleftrightarrow> bit (word_of_bits (byte_bits b)) n"
    using bit_imp_le_length [of b n] by (auto simp: bit_horner_sum_bit_word_iff bit_ucast_iff byte_bits_nth)
qed

lemma crc_byte_bits: "crc_byte b c = fold shift_in (byte_bits b) c"
  by (simp add: crc_byte_def shift_in_bits ucast_byte_bits)

lemma crc16_bits: "fold crc_byte data c = fold shift_in (frame_bits data) c"
  by (induction data arbitrary: c) (simp_all add: frame_bits_def crc_byte_bits)

section \<open>Valid frames\<close>

text \<open>The register is zero after a frame exactly when its last two bytes are the CRC of the others.\<close>

lemma crc16_tail: "crc16 (body @ [lo, hi]) = 0 \<longleftrightarrow> ucast lo OR push_bit 8 (ucast hi) = crc16 body"
proof -
  have "word_of_bits (frame_bits [lo, hi]) = ucast lo OR push_bit 8 (ucast hi)"
  proof (rule bit_eqI)
    fix n
    show "bit (word_of_bits (frame_bits [lo, hi])) n \<longleftrightarrow>
        bit (ucast lo OR push_bit 8 (ucast hi) :: 16 word) n"
    proof (cases "n < 8")
      case False
      then obtain m where n: "n = m + 8" by (metis add.commute le_Suc_ex not_less)
      have "byte_bits hi ! m = bit hi m" if "m < 8" using that by (rule byte_bits_nth)
      with n show ?thesis
        using bit_imp_le_length [of lo n] bit_imp_le_length [of hi m]
        by (auto simp: bit_horner_sum_bit_word_iff bit_ucast_iff bit_or_iff bit_push_bit_iff
            frame_bits_def nth_append)
    qed (auto simp: bit_horner_sum_bit_word_iff bit_ucast_iff bit_or_iff bit_push_bit_iff
          frame_bits_def nth_append byte_bits_nth)
  qed
  moreover have "crc16 (body @ [lo, hi]) = (crc_bit ^^ 16) (crc16 body XOR word_of_bits (frame_bits [lo, hi]))"
    using shift_in_bits [of "frame_bits [lo, hi]" "crc16 body"] crc16_bits [of "[lo, hi]" "crc16 body"]
    by (simp add: crc16_def)
  ultimately show ?thesis
    by (auto simp: crc_bits_eq_0 xor_0_iff)
qed

lemma low_byte: "ucast (x AND 0xFF) = (ucast x :: 8 word)" for x :: "16 word"
proof -
  have "x AND 0xFF = take_bit 8 x"
    by (simp add: take_bit_eq_mask mask_eq_exp_minus_1)
  then show ?thesis
    by (intro bit_eqI) (auto simp: bit_ucast_iff bit_take_bit_iff)
qed

lemma with_crc_alt: "with_crc body = body @ [ucast (crc16 body), ucast (drop_bit 8 (crc16 body))]"
  by (simp only: with_crc_def Let_def low_byte)

lemma length_with_crc [simp]: "length (with_crc body) = length body + 2"
  by (simp add: with_crc_alt)

lemma crc16_with_crc [simp]: "crc16 (with_crc body) = 0"
proof -
  let ?c = "crc16 body"
  have "ucast (ucast ?c :: 8 word) OR push_bit 8 (ucast (ucast (drop_bit 8 ?c) :: 8 word)) = ?c"
    (is "?w = _")
  proof (rule bit_eqI)
    fix n
    show "bit ?w n \<longleftrightarrow> bit ?c n"
      using bit_imp_le_length [of ?c n]
      by (auto simp: bit_or_iff bit_push_bit_iff bit_ucast_iff bit_drop_bit_eq)
  qed
  then show ?thesis by (simp only: with_crc_alt crc16_tail)
qed

lemma with_crc_inj: "with_crc a = with_crc b \<longleftrightarrow> a = b"
  by (auto simp: with_crc_alt)

lemma last_two: "2 \<le> length r \<Longrightarrow> \<exists>body lo hi. r = body @ [lo, hi]"
  by (cases r rule: rev_cases; cases "butlast r" rule: rev_cases) auto

text \<open>A frame with a zero register is its own first part with its CRC.\<close>

lemma with_crc_body:
  assumes "crc16 (body @ [lo, hi]) = 0"
  shows "body @ [lo, hi] = with_crc body"
proof -
  from assms have c: "ucast lo OR push_bit 8 (ucast hi) = crc16 body"
    by (simp only: crc16_tail)
  have "ucast (ucast lo OR push_bit 8 (ucast hi) :: 16 word) = lo"
    by (rule bit_eqI) (auto simp: bit_or_iff bit_push_bit_iff bit_ucast_iff)
  moreover have "ucast (drop_bit 8 (ucast lo OR push_bit 8 (ucast hi) :: 16 word)) = hi"
    using bit_imp_le_length [of lo]
    by (intro bit_eqI) (auto simp: bit_or_iff bit_push_bit_iff bit_ucast_iff bit_drop_bit_eq)
  ultimately show ?thesis
    by (simp only: with_crc_alt c)
qed

lemma check_frame_crc:
  "check_frame slave_id r = Inr u \<longleftrightarrow> 5 \<le> length r \<and> uint (r ! 0) = slave_id \<and> crc16 r = 0"
proof (cases "5 \<le> length r")
  case True
  then obtain body lo hi where r: "r = body @ [lo, hi]"
    using last_two [of r] by auto
  with True show ?thesis
    using crc16_tail [of body lo hi] by (auto simp: check_frame_def Let_def nth_append)
qed (simp add: check_frame_def Let_def)

lemma check_frame_iff:
  "check_frame slave_id r = Inr u \<longleftrightarrow>
     (\<exists>body. r = with_crc body \<and> 3 \<le> length body \<and> uint (body ! 0) = slave_id)"
proof
  assume "check_frame slave_id r = Inr u"
  then have a: "5 \<le> length r" "uint (r ! 0) = slave_id" "crc16 r = 0"
    by (simp_all add: check_frame_crc)
  then obtain body lo hi where r: "r = body @ [lo, hi]"
    using last_two [of r] by auto
  moreover have "r = with_crc body"
    using a(3) unfolding r by (rule with_crc_body)
  ultimately show "\<exists>body. r = with_crc body \<and> 3 \<le> length body \<and> uint (body ! 0) = slave_id"
    using a by (intro exI [of _ body]) (auto simp: nth_append)
next
  assume "\<exists>body. r = with_crc body \<and> 3 \<le> length body \<and> uint (body ! 0) = slave_id"
  then obtain body where b: "r = with_crc body" "3 \<le> length body" "uint (body ! 0) = slave_id" by blast
  then have "r ! 0 = body ! 0" by (auto simp: with_crc_alt nth_append)
  with b show "check_frame slave_id r = Inr u" by (simp add: check_frame_crc)
qed

lemma check_frame_with_crc:
  "uint a = slave_id \<Longrightarrow> check_frame slave_id (with_crc (a # f # n # data)) = Inr ()"
  unfolding check_frame_iff by (intro exI [of _ "a # f # n # data"]) simp

section \<open>What a valid response is\<close>

lemma be16_eq_iff: "be16 hi lo = v \<longleftrightarrow> 0 \<le> v \<and> v < 65536 \<and> hi = octet 1 v \<and> lo = octet 0 v"
proof
  assume v: "be16 hi lo = v"
  have b: "0 \<le> uint hi" "uint hi < 256" "0 \<le> uint lo" "uint lo < 256"
    using uint_lt2p [of hi] uint_lt2p [of lo] by simp_all
  have "v div 256 = uint hi" "v mod 256 = uint lo"
    using b unfolding v [symmetric] be16_value by simp_all
  then have "octet 1 v = hi" "octet 0 v = lo"
    using b by (simp_all add: word_uint_eq_iff uint_octet)
  with b show "0 \<le> v \<and> v < 65536 \<and> hi = octet 1 v \<and> lo = octet 0 v"
    unfolding v [symmetric] be16_value by simp
next
  assume "0 \<le> v \<and> v < 65536 \<and> hi = octet 1 v \<and> lo = octet 0 v"
  then show "be16 hi lo = v" using be16_octets [of v] by simp
qed

text \<open>The data of a read response: each register as two bytes, high byte first.\<close>

definition register_bytes :: "int list \<Rightarrow> bytes" where
  "register_bytes vs = concat (map (\<lambda>v. [octet 1 v, octet 0 v]) vs)"

text \<open>A slave's answer to a read request, by the protocol.\<close>

definition read_reply :: "int \<Rightarrow> int list \<Rightarrow> bytes" where
  "read_reply slave_id vs =
     with_crc (word_of_int slave_id # READ_HOLDING_REGISTERS # word_of_int (2 * int (length vs)) # register_bytes vs)"

lemma length_register_bytes [simp]: "length (register_bytes vs) = 2 * length vs"
  by (induction vs) (simp_all add: register_bytes_def)

lemma even_range_Suc: "even_range (Suc (Suc n)) = 0 # map (\<lambda>i. Suc (Suc i)) (even_range n)"
proof -
  have "[0..<Suc ((n + 1) div 2)] = 0 # map Suc [0..<(n + 1) div 2]"
    by (simp add: upt_conv_Cons map_Suc_upt del: upt_Suc)
  then show ?thesis by (simp add: even_range_def comp_def del: upt_Suc)
qed

lemma read_words_shift:
  "read_words (a # b # c # x # y # r) (map (\<lambda>i. Suc (Suc i)) is) = read_words (a # b # c # r) is"
  by (induction "is") (simp_all add: byte_at_def numeral_eq_Suc split: sum.split)

text \<open>
  The loop over \<open>range(0, byte_count, 2)\<close> stays within the response; the last step of an odd count reads
  the first byte of the CRC as a low byte.
\<close>

fun be_words :: "bytes \<Rightarrow> 8 word \<Rightarrow> int list" where
  "be_words [] z = []"
| "be_words [hi] z = [be16 hi z]"
| "be_words (hi # lo # data) z = be16 hi lo # be_words data z"

lemma read_words_data:
  "read_words (a # b # c # data @ [z, z']) (even_range (length data)) = Inr (be_words data z)"
proof (induction data z rule: be_words.induct)
  case (3 hi lo data z)
  then show ?case
    by (simp add: even_range_Suc read_words_shift byte_at_def)
qed (simp_all add: even_range_def byte_at_def numeral_eq_Suc)

lemma be_words_registers:
  "even (length data) \<Longrightarrow>
   be_words data z = vs \<longleftrightarrow> data = register_bytes vs \<and> (\<forall>v \<in> set vs. 0 \<le> v \<and> v < 65536)"
proof (induction data z arbitrary: vs rule: be_words.induct)
  case (1 z)
  then show ?case by (cases vs) (simp_all add: register_bytes_def)
next
  case (3 hi lo data z)
  then show ?case by (cases vs) (auto simp: register_bytes_def be16_eq_iff)
qed simp

lemma with_crc_three:
  assumes "3 \<le> length body"
  obtains a b c data z z' where "body = a # b # c # data"
    and "with_crc body = a # b # c # data @ [z, z']"
proof -
  from assms obtain a b c data where "body = a # b # c # data"
    by (metis Suc_le_length_iff numeral_3_eq_3)
  then show thesis by (intro that) (simp_all add: with_crc_alt)
qed

text \<open>The result of the read parser, by what the frame holds.\<close>

lemma parse_read_body:
  assumes "uint a = slave_id" and "with_crc (a # f # n # data) = a # f # n # data @ [z, z']"
  shows "parse_read_holding_registers_response slave_id (with_crc (a # f # n # data)) =
    (if f = 0x83 then Inl (Device_error READ_HOLDING_REGISTERS n)
     else if f \<noteq> 0x03 then Inl (Frame_error (Unexpected_function_code f))
     else if length data \<noteq> unat n then Inl (Frame_error Byte_count_mismatch)
     else Inr (be_words data z))"
proof -
  have "check_frame slave_id (with_crc (a # f # n # data)) = Inr ()"
    using assms(1) by (rule check_frame_with_crc)
  then show ?thesis
    unfolding parse_read_holding_registers_response_def assms(2)
    using read_words_data [of a f n data z z']
    by (auto simp: byte_at_def function_codes)
qed

lemma parse_read_not_frame:
  "check_frame slave_id r = Inl e \<Longrightarrow> parse_read_holding_registers_response slave_id r = Inl e"
  by (simp add: parse_read_holding_registers_response_def)

lemma parse_write_not_frame:
  "check_frame slave_id r = Inl e \<Longrightarrow> parse_write_single_register_response slave_id address val r = Inl e"
  by (simp add: parse_write_single_register_response_def)

lemma frame_cases:
  obtains (bad) e where "check_frame slave_id r = Inl e" "e \<noteq> Index_error" "e \<noteq> Value_error"
    | (good) a f n data z z' where "uint a = slave_id" "r = with_crc (a # f # n # data)"
        "with_crc (a # f # n # data) = a # f # n # data @ [z, z']"
proof (cases "check_frame slave_id r")
  case (Inl e)
  then show thesis
    by (intro bad) (auto simp: check_frame_def Let_def split: if_splits)
next
  case (Inr u)
  then obtain body where b: "r = with_crc body" "3 \<le> length body" "uint (body ! 0) = slave_id"
    unfolding check_frame_iff by blast
  from b(2) obtain a c d data z z' where "body = a # c # d # data"
      "with_crc body = a # c # d # data @ [z, z']"
    by (rule with_crc_three)
  with b show thesis by (intro good) auto
qed

lemma parse_write_body:
  assumes "uint a = slave_id"
  shows "parse_write_single_register_response slave_id address val (with_crc (a # f # n # data)) = Inr u \<longleftrightarrow>
    f = 0x06 \<and> (\<exists>n1 n2 n3. data = [n1, n2, n3] \<and> be16 n n1 = address \<and> be16 n2 n3 = val)"
proof -
  have c: "check_frame slave_id (with_crc (a # f # n # data)) = Inr ()"
    using assms by (rule check_frame_with_crc)
  show ?thesis
  proof (cases "length data = 3")
    case True
    then obtain n1 n2 n3 where "data = [n1, n2, n3]"
      by (auto simp: numeral_3_eq_3 length_Suc_conv)
    with c show ?thesis
      by (auto simp: parse_write_single_register_response_def byte_at_def function_codes with_crc_alt nth_Cons')
  next
    case False
    with c show ?thesis
      by (auto simp: parse_write_single_register_response_def byte_at_def function_codes nth_Cons')
  qed
qed

lemma unat_byte_count: "n < 128 \<Longrightarrow> unat (word_of_int (2 * int n) :: 8 word) = 2 * n"
  by (simp only: unsigned_of_int) (simp add: take_bit_int_eq_self nat_mult_distrib)

lemma parse_read_iff:
  "parse_read_holding_registers_response slave_id r = Inr vs \<and> even (unat (r ! 2)) \<longleftrightarrow>
   0 \<le> slave_id \<and> slave_id < 256 \<and> length vs < 128 \<and> set vs \<subseteq> {0..<65536} \<and> r = read_reply slave_id vs"
proof (cases rule: frame_cases [of slave_id r])
  case (bad e)
  have "check_frame slave_id (read_reply slave_id vs) = Inr ()" if "0 \<le> slave_id" "slave_id < 256"
    unfolding read_reply_def using that by (intro check_frame_with_crc) (simp add: uint_word_of_int)
  with bad(1) show ?thesis by (auto simp: parse_read_not_frame)
next
  case (good a f n data z z')
  have r2: "r ! 2 = n" using good(2,3) by simp
  have sid: "0 \<le> slave_id" "slave_id < 256" "a = word_of_int slave_id"
    using good(1) uint_lt2p [of a] by auto
  have "parse_read_holding_registers_response slave_id r = Inr vs \<and> even (unat n) \<longleftrightarrow>
      f = 0x03 \<and> length data = unat n \<and> even (length data) \<and> be_words data z = vs"
    unfolding good(2) parse_read_body [OF good(1,3)] by auto
  also have "\<dots> \<longleftrightarrow> f = 0x03 \<and> length vs < 128 \<and> n = word_of_int (2 * int (length vs)) \<and>
      data = register_bytes vs \<and> set vs \<subseteq> {0..<65536}"
  proof -
    have n: "unat n = 2 * length vs \<longleftrightarrow> n = word_of_int (2 * int (length vs))" if "length vs < 128"
      using unat_byte_count [OF that] by (metis unsigned_word_eqI)
    show ?thesis
    proof (cases "data = register_bytes vs \<and> set vs \<subseteq> {0..<65536}")
      case True
      then have "length data = 2 * length vs" by simp
      then show ?thesis
        using True n unat_byte_less [of n] be_words_registers [of data z vs] by fastforce
    next
      case False
      then show ?thesis
        using be_words_registers [of data z vs] by auto
    qed
  qed
  also have "\<dots> \<longleftrightarrow> length vs < 128 \<and> set vs \<subseteq> {0..<65536} \<and> r = read_reply slave_id vs"
    unfolding good(2) read_reply_def with_crc_inj by (auto simp: function_codes sid(3))
  finally show ?thesis using r2 sid by simp
qed

lemma parse_read_reply:
  assumes "0 \<le> slave_id" and "slave_id < 256" and "length vs < 128" and "set vs \<subseteq> {0..<65536}"
  shows "parse_read_holding_registers_response slave_id (read_reply slave_id vs) = Inr vs"
  using parse_read_iff [of slave_id "read_reply slave_id vs" vs] assms by simp

lemma parse_write_iff:
  "parse_write_single_register_response slave_id address val r = Inr () \<longleftrightarrow>
   build_write_single_register slave_id address val = Inr r \<and>
   address \<in> {0..<65536} \<and> val \<in> {0..<65536}"
proof (cases rule: frame_cases [of slave_id r])
  case (bad e)
  have "check_frame slave_id r = Inr ()" if "build_write_single_register slave_id address val = Inr r"
  proof -
    from that have "0 \<le> slave_id" "slave_id < 256"
      "r = with_crc [word_of_int slave_id, 6, octet 1 address, octet 0 address, octet 1 val, octet 0 val]"
      by (auto simp: build_write_single_register_def request_frame_def function_codes split: if_splits)
    then show ?thesis
      using check_frame_with_crc [of "word_of_int slave_id"] by (simp add: uint_word_of_int)
  qed
  with bad(1) show ?thesis by (auto simp: parse_write_not_frame)
next
  case (good a f n data z z')
  have "0 \<le> slave_id" "slave_id < 256" "a = word_of_int slave_id"
    using good(1) uint_lt2p [of a] by auto
  then show ?thesis
    unfolding good(2) parse_write_body [OF good(1)]
    by (auto simp: build_write_single_register_def request_frame_def function_codes with_crc_inj be16_eq_iff)
qed

lemma parse_write_echo:
  "build_write_single_register slave_id address val = Inr frame \<Longrightarrow>
   parse_write_single_register_response slave_id address val frame = Inr () \<longleftrightarrow>
   address \<in> {0..<65536} \<and> val \<in> {0..<65536}"
  by (simp add: parse_write_iff)

section \<open>Properties\<close>

text \<open>
  \<^bold>\<open>C34\<close> The read parser is the exact inverse of a slave's answer: it returns the registers \<open>vs\<close> from a
  response that announces an even number of bytes exactly when the response is, byte for byte, the
  slave's answer with these registers (at most 127 of them, each of 16 bits) and its CRC.
\<close>

theorem read_response_exact:
  "parse_read_holding_registers_response slave_id r = Inr vs \<and> even (unat (r ! 2)) \<longleftrightarrow>
   0 \<le> slave_id \<and> slave_id < 256 \<and> length vs < 128 \<and> set vs \<subseteq> {0..<65536} \<and> r = read_reply slave_id vs"
  by (rule parse_read_iff)

text \<open>
  A write is confirmed exactly by its own echo: the write parser accepts a response exactly when it
  is, byte for byte, the request frame, and the address and the value fit 16 bits. (A value that does
  not fit is sent masked, and then even the echo is refused.)
\<close>

theorem write_response_exact:
  "parse_write_single_register_response slave_id address val r = Inr () \<longleftrightarrow>
   build_write_single_register slave_id address val = Inr r \<and>
   address \<in> {0..<65536} \<and> val \<in> {0..<65536}"
  by (rule parse_write_iff)

text \<open>
  Whatever bytes arrive, truncated, corrupted or from another slave, the parsers return a result or raise
  a \<open>FrameError\<close> or \<open>DeviceError\<close>: they never index outside the response, and they end with a
  \<open>DeviceError\<close> exactly on a valid frame that has the exception bit of its function code set.
\<close>

theorem parsers_never_index_error:
  "parse_read_holding_registers_response slave_id r \<notin> {Inl Index_error, Inl Value_error} \<and>
   parse_write_single_register_response slave_id address val r \<notin> {Inl Index_error, Inl Value_error} \<and>
   (parse_read_holding_registers_response slave_id r = Inl (Device_error fc code) \<longleftrightarrow>
      check_frame slave_id r = Inr () \<and> fc = 0x03 \<and> r ! 1 = 0x83 \<and> r ! 2 = code) \<and>
   (parse_write_single_register_response slave_id address val r = Inl (Device_error fc code) \<longleftrightarrow>
      check_frame slave_id r = Inr () \<and> fc = 0x06 \<and> r ! 1 = 0x86 \<and> r ! 2 = code)"
proof (cases rule: frame_cases [of slave_id r])
  case (bad e)
  moreover have "e \<noteq> Device_error fc code"
    using bad(1) by (auto simp: check_frame_def Let_def split: if_splits)
  ultimately show ?thesis by (simp add: parse_read_not_frame parse_write_not_frame)
next
  case (good a f n data z z')
  have c: "check_frame slave_id r = Inr ()"
    unfolding good(2) using good(1) by (rule check_frame_with_crc)
  have "r = a # f # n # data @ [z, z']" using good(2,3) by simp
  with c parse_read_body [OF good(1,3)] show ?thesis
    by (auto simp: good(3) parse_write_single_register_response_def byte_at_def function_codes)
qed

text \<open>
  \<^bold>\<open>C35\<close> The CRC detects every burst error: if a response is a valid frame, then no response whose bits, in the
  order they are sent, differ from it only within a window of at most 16 bits is one.
\<close>

theorem crc_detects_bursts:
  assumes "check_frame slave_id r = Inr ()"
    and "frame_bits r = pre @ window @ post" and "frame_bits r' = pre @ window' @ post"
    and "length window = length window'" and "length window \<le> 16" and "window \<noteq> window'"
  shows "check_frame slave_id r' \<noteq> Inr ()"
proof
  let ?s = "fold shift_in pre 0xFFFF"
  have crc: "crc16 x = fold shift_in (frame_bits x) 0xFFFF" for x
    by (simp add: crc16_def crc16_bits)
  assume "check_frame slave_id r' = Inr ()"
  with assms(1) have "crc16 r = crc16 r'"
    by (simp add: check_frame_crc)
  then have "fold shift_in window ?s = fold shift_in window' ?s"
    by (simp add: crc assms(2,3) shift_in_inj)
  then have "?s XOR word_of_bits window = ?s XOR word_of_bits window'"
    using assms(4,5) by (simp add: shift_in_bits crc_bits_inj)
  then have "word_of_bits window = word_of_bits window'"
    by (simp add: xor_left_eq ac_simps)
  with assms(4,5) have "window = window'"
    by (intro word_of_bits_inj) simp_all
  with assms(6) show False by simp
qed

text \<open>The answer "register 210 holds 5000" of slave 1, with one bit flipped.\<close>

theorem crc_detects_bursts_witness:
  "let r = read_reply 1 [5000] in check_frame 1 (r[3 := r ! 3 XOR 4]) \<noteq> Inr ()"
proof -
  let ?r = "read_reply 1 [5000]" and ?pre = "frame_bits [1, 3, 2] @ [True, True]"
  have r: "?r = [1, 3, 2, 0x13, 0x88] @ drop 5 ?r" and len: "length ?r = 7"
    by (simp_all add: read_reply_def with_crc_alt register_bytes_def function_codes octet_mod)
  let ?post = "[False, True, False, False, False] @ frame_bits (0x88 # drop 5 ?r)"
  have bits: "byte_bits 0x13 = [True, True, False, False, True, False, False, False]"
      "byte_bits 0x17 = [True, True, True, False, True, False, False, False]"
    by code_simp+
  have "?r ! 3 = 0x13" by (subst r) simp
  then have r': "?r[3 := ?r ! 3 XOR 4] = [1, 3, 2, 0x17, 0x88] @ drop 5 ?r"
    by (subst r) (simp add: numeral_eq_Suc)
  have "frame_bits ?r = ?pre @ [False] @ ?post"
    by (subst r) (simp add: frame_bits_def bits)
  moreover have "frame_bits (?r[3 := ?r ! 3 XOR 4]) = ?pre @ [True] @ ?post"
    by (subst r') (simp add: frame_bits_def bits)
  moreover have "check_frame 1 ?r = Inr ()"
    unfolding read_reply_def by (rule check_frame_with_crc) simp
  ultimately have "check_frame 1 (?r[3 := ?r ! 3 XOR 4]) \<noteq> Inr ()"
    using crc_detects_bursts [of 1 ?r ?pre "[False]" ?post "?r[3 := ?r ! 3 XOR 4]" "[True]"] by simp
  then show ?thesis unfolding Let_def .
qed

end
