(* ===== verification/Serial_Session.thy ===== *)
theory Serial_Session
  imports Modbus_Framing "HOL-Library.Sublist"
begin

text \<open>
  The serial session of \<open>io/serial_session.py\<close>: one transaction on the port, the two register operations
  built on it, and the worker thread with its queue.

  The port is its input buffer and the frames written to it. What the line does is an input of each
  transaction: writing raises (\<open>Inl (False, e)\<close>), or a read after it does (\<open>Inl (True, e)\<close>), or these bytes arrive before
  the reads time out. \<open>read(n)\<close> returns the next \<open>n\<close> bytes, fewer if no more arrive. Opening the port is left out.
\<close>

section \<open>One transaction\<close>

record serial_port =
  sp_input :: bytes
  sp_written :: "bytes list"

type_synonym line = "(bool \<times> string) + bytes"

definition reset_input_buffer :: "serial_port \<Rightarrow> serial_port" where
  "reset_input_buffer p = p\<lparr>sp_input := []\<rparr>"

definition write_port :: "line \<Rightarrow> bytes \<Rightarrow> serial_port \<Rightarrow> (string + unit) \<times> serial_port" where
  "write_port line data p =
     (case line of
        Inl (False, e) \<Rightarrow> (Inl e, p)
      | Inl (True, _) \<Rightarrow> (Inr (), p\<lparr>sp_written := sp_written p @ [data]\<rparr>)
      | Inr arriving \<Rightarrow> (Inr (), p\<lparr>sp_written := sp_written p @ [data], sp_input := sp_input p @ arriving\<rparr>))"

definition read_port :: "line \<Rightarrow> nat \<Rightarrow> serial_port \<Rightarrow> (string + bytes) \<times> serial_port" where
  "read_port line n p =
     (case line of
        Inl (_, e) \<Rightarrow> (Inl e, p)
      | Inr _ \<Rightarrow> (Inr (take n (sp_input p)), p\<lparr>sp_input := drop n (sp_input p)\<rparr>))"

definition transact :: "line \<Rightarrow> bytes \<Rightarrow> bool \<Rightarrow> serial_port \<Rightarrow> (string + bytes) \<times> serial_port" where
  "transact line frame is_read p =
     (case write_port line frame (reset_input_buffer p) of
        (Inl e, p1) \<Rightarrow> (Inl e, p1)
      | (Inr _, p1) \<Rightarrow>
          (case read_port line 3 p1 of
             (Inl e, p2) \<Rightarrow> (Inl e, p2)
           | (Inr header, p2) \<Rightarrow>
               if length header < 3 then (Inr header, p2)
               else (case read_port line (if header ! 1 AND 0x80 \<noteq> 0 then 2
                                          else if is_read then unat (header ! 2) + 2 else 5) p2 of
                   (Inl e, p3) \<Rightarrow> (Inl e, p3)
                 | (Inr rest, p3) \<Rightarrow> (Inr (header @ rest), p3))))"

text \<open>What the transaction returns: the beginning of what arrived, as long as the header says.\<close>

definition response_length :: "bool \<Rightarrow> bytes \<Rightarrow> nat" where
  "response_length is_read arriving =
     (if length arriving < 3 then length arriving
      else if arriving ! 1 AND 0x80 \<noteq> 0 then 5
      else if is_read then unat (arriving ! 2) + 5 else 8)"

lemma take_drop_append: "take m xs @ take n (drop m xs) = take (m + n) xs"
  by (simp add: take_add)

lemma transact_arriving:
  "transact (Inr arriving) frame is_read p =
     (Inr (take (response_length is_read arriving) arriving),
      \<lparr>sp_input = drop (response_length is_read arriving) arriving,
       sp_written = sp_written p @ [frame], \<dots> = serial_port.more p\<rparr>)"
  by (cases "length arriving < 3")
    (simp_all add: transact_def write_port_def read_port_def reset_input_buffer_def response_length_def
      take_drop_append add.commute min_def)

lemma transact_broken:
  "transact (Inl (sent, e)) frame is_read p =
     (Inl e, if sent then p\<lparr>sp_input := [], sp_written := sp_written p @ [frame]\<rparr> else p\<lparr>sp_input := []\<rparr>)"
  by (simp add: transact_def write_port_def read_port_def reset_input_buffer_def)

section \<open>Reading and writing registers\<close>

datatype session_error =
    Modbus modbus_error
  | Serial_failed string

definition session_call ::
    "line \<Rightarrow> bool \<Rightarrow> modbus_error + bytes \<Rightarrow> (bytes \<Rightarrow> modbus_error + 'a) \<Rightarrow> serial_port \<Rightarrow>
     (session_error + 'a) \<times> serial_port" where
  "session_call line is_read built parse p =
     (case built of
        Inl e \<Rightarrow> (Inl (Modbus e), p)
      | Inr frame \<Rightarrow>
          (case transact line frame is_read p of
             (Inl e, p') \<Rightarrow> (Inl (Serial_failed e), p')
           | (Inr response, p') \<Rightarrow>
              (case parse response of Inl e \<Rightarrow> (Inl (Modbus e), p') | Inr x \<Rightarrow> (Inr x, p'))))"

definition read_holding_registers ::
    "line \<Rightarrow> int \<Rightarrow> int \<Rightarrow> int \<Rightarrow> serial_port \<Rightarrow> (session_error + int list) \<times> serial_port" where
  "read_holding_registers line slave_id address count p =
     session_call line True (build_read_holding_registers slave_id address count)
       (parse_read_holding_registers_response slave_id) p"

definition write_single_register ::
    "line \<Rightarrow> int \<Rightarrow> int \<Rightarrow> int \<Rightarrow> serial_port \<Rightarrow> (session_error + unit) \<times> serial_port" where
  "write_single_register line slave_id address val p =
     session_call line False (build_write_single_register slave_id address val)
       (parse_write_single_register_response slave_id address val) p"

lemma read_reply_bytes:
  assumes "0 \<le> slave_id" and "slave_id < 256" and "length vs < 128"
  shows "response_length True (read_reply slave_id vs @ junk) = length (read_reply slave_id vs)"
proof -
  have "unat (word_of_int (2 * int (length vs)) :: 8 word) = 2 * length vs"
    using assms(3) by (rule unat_byte_count)
  then show ?thesis
    by (simp add: response_length_def read_reply_def with_crc_alt function_codes)
qed

text \<open>
  A slave that answers by the protocol is read correctly, whatever was left in the buffer and whatever
  else arrives after its answer.
\<close>

lemma read_registers_answered:
  assumes "0 \<le> slave_id" and "slave_id < 256" and "length vs < 128" and "set vs \<subseteq> {0..<65536}"
  shows "fst (read_holding_registers (Inr (read_reply slave_id vs @ junk)) slave_id address count p) = Inr vs"
proof -
  have "parse_read_holding_registers_response slave_id (read_reply slave_id vs) = Inr vs"
    using parse_read_reply [OF assms] .
  then show ?thesis
    using assms
    by (simp add: read_holding_registers_def session_call_def build_read_holding_registers_def
        request_frame_def transact_arriving read_reply_bytes)
qed

lemma write_register_answered:
  assumes "build_write_single_register slave_id address val = Inr frame"
  shows "fst (write_single_register (Inr (frame @ junk)) slave_id address val p) = Inr () \<longleftrightarrow>
    address \<in> {0..<65536} \<and> val \<in> {0..<65536}"
proof -
  have "response_length False (frame @ junk) = length frame"
    using assms by (auto simp: response_length_def build_write_single_register_def request_frame_def
        with_crc_alt function_codes split: if_splits)
  then show ?thesis
    using assms parse_write_echo [OF assms]
    by (auto simp: write_single_register_def session_call_def transact_arriving split: sum.split)
qed

text \<open>Whatever arrives, a register is reported written only if exactly the echo of the request did.\<close>

lemma write_register_ok:
  assumes "fst (write_single_register line slave_id address val p) = Inr ()"
  shows "\<exists>frame junk. build_write_single_register slave_id address val = Inr frame \<and> line = Inr (frame @ junk) \<and>
    sp_written (snd (write_single_register line slave_id address val p)) = sp_written p @ [frame]"
proof -
  from assms obtain frame where b: "build_write_single_register slave_id address val = Inr frame"
    by (auto simp: write_single_register_def session_call_def split: sum.splits)
  from assms b obtain arriving where l: "line = Inr arriving"
    by (cases line) (auto simp: write_single_register_def session_call_def transact_broken)
  define r where "r = take (response_length False arriving) arriving"
  from assms b l have "parse_write_single_register_response slave_id address val r = Inr ()"
    by (auto simp: write_single_register_def session_call_def transact_arriving r_def split: sum.splits)
  then have "r = frame"
    using b parse_write_iff [of slave_id address val r] by simp
  then have "arriving = frame @ drop (response_length False arriving) arriving"
    unfolding r_def by (metis append_take_drop_id)
  moreover have "sp_written (snd (write_single_register line slave_id address val p)) = sp_written p @ [frame]"
    by (simp add: write_single_register_def session_call_def b l transact_arriving split: sum.split)
  ultimately show ?thesis using b l by blast
qed

section \<open>The worker\<close>

record transaction =
  tx_frame :: bytes
  tx_is_read :: bool
  tx_future :: nat

datatype future = Pending | Done "string + bytes" | Cancelled

text \<open>
  The session: the port, the queue (\<open>None\<close> is the stop marker of \<open>close\<close>), the futures of the event loop,
  the callbacks the worker handed to the loop, and whether the worker runs.
\<close>

record serial_session =
  ses_port :: serial_port
  ses_queue :: "transaction option list"
  ses_futures :: "nat \<rightharpoonup> future"
  ses_callbacks :: "(nat \<times> (string + bytes)) list"
  ses_running :: bool

definition new_serial_session :: "serial_port \<Rightarrow> serial_session" where
  "new_serial_session p =
     \<lparr>ses_port = p, ses_queue = [], ses_futures = Map.empty, ses_callbacks = [], ses_running = True\<rparr>"

definition submit_transaction :: "transaction \<Rightarrow> serial_session \<Rightarrow> serial_session" where
  "submit_transaction tx s =
     s\<lparr>ses_futures := (ses_futures s)(tx_future tx \<mapsto> Pending), ses_queue := ses_queue s @ [Some tx]\<rparr>"

definition cancel_future :: "nat \<Rightarrow> serial_session \<Rightarrow> serial_session" where
  "cancel_future f s =
     (if ses_futures s f = Some Pending then s\<lparr>ses_futures := (ses_futures s)(f \<mapsto> Cancelled)\<rparr> else s)"

text \<open>One turn of \<open>_worker\<close>: it blocks on an empty queue.\<close>

definition worker_turn :: "line \<Rightarrow> serial_session \<Rightarrow> serial_session" where
  "worker_turn line s =
     (if \<not> ses_running s then s
      else case ses_queue s of
        [] \<Rightarrow> s
      | None # q \<Rightarrow> s\<lparr>ses_queue := q, ses_running := False\<rparr>
      | Some tx # q \<Rightarrow>
          (case transact line (tx_frame tx) (tx_is_read tx) (ses_port s) of
             (response, p) \<Rightarrow>
               s\<lparr>ses_queue := q, ses_port := p, ses_callbacks := ses_callbacks s @ [(tx_future tx, response)]\<rparr>))"

text \<open>\<open>_resolve_result\<close> and \<open>_resolve_exception\<close>, run by the loop: a future that is done keeps its result.\<close>

definition resolve_future :: "nat \<Rightarrow> string + bytes \<Rightarrow> serial_session \<Rightarrow> serial_session" where
  "resolve_future f r s =
     (if ses_futures s f = Some Pending then s\<lparr>ses_futures := (ses_futures s)(f \<mapsto> Done r)\<rparr> else s)"

definition loop_turn :: "serial_session \<Rightarrow> serial_session" where
  "loop_turn s =
     (case ses_callbacks s of
        [] \<Rightarrow> s
      | (f, r) # cbs \<Rightarrow> resolve_future f r (s\<lparr>ses_callbacks := cbs\<rparr>))"

definition close_session :: "serial_session \<Rightarrow> serial_session" where
  "close_session s = s\<lparr>ses_queue := ses_queue s @ [None]\<rparr>"

datatype session_op =
    Ses_submit transaction
  | Ses_cancel nat
  | Ses_work line
  | Ses_loop
  | Ses_close

fun session_perform :: "session_op \<Rightarrow> serial_session \<Rightarrow> serial_session" where
  "session_perform (Ses_submit tx) s = submit_transaction tx s"
| "session_perform (Ses_cancel f) s = cancel_future f s"
| "session_perform (Ses_work line) s = worker_turn line s"
| "session_perform Ses_loop s = loop_turn s"
| "session_perform Ses_close s = close_session s"

definition session_after :: "session_op list \<Rightarrow> serial_port \<Rightarrow> serial_session" where
  "session_after ops p = fold session_perform ops (new_serial_session p)"

fun submitted :: "session_op list \<Rightarrow> transaction list" where
  "submitted [] = []"
| "submitted (Ses_submit tx # ops) = tx # submitted ops"
| "submitted (_ # ops) = submitted ops"

lemma submitted_append [simp]: "submitted (ops @ ops') = submitted ops @ submitted ops'"
  by (induction ops rule: submitted.induct) simp_all

lemma session_after_snoc [simp]:
  "session_after (ops @ [x]) p = session_perform x (session_after ops p)"
  by (simp add: session_after_def)

lemmas session_defs = submit_transaction_def cancel_future_def worker_turn_def resolve_future_def
  loop_turn_def close_session_def

section \<open>Every caller gets the answer to its own frame\<close>

definition own_response :: "transaction \<Rightarrow> string + bytes \<Rightarrow> bool" where
  "own_response tx r \<longleftrightarrow> (\<exists>line p. r = fst (transact line (tx_frame tx) (tx_is_read tx) p))"

lemma transact_written:
  "sp_written (snd (transact line frame is_read p)) \<in> {sp_written p, sp_written p @ [frame]}"
  by (cases line) (auto simp: transact_arriving transact_broken)

text \<open>
  What is queued was submitted, in this order after what was written; a result the worker has handed
  over or a future holds is the answer to the frame of its own transaction.
\<close>

definition session_inv :: "transaction list \<Rightarrow> serial_port \<Rightarrow> serial_session \<Rightarrow> bool" where
  "session_inv txs p0 s \<longleftrightarrow>
     subseq (sp_written (ses_port s) @ map tx_frame (List.map_filter id (ses_queue s)))
       (sp_written p0 @ map tx_frame txs) \<and>
     (\<forall>tx. Some tx \<in> set (ses_queue s) \<longrightarrow> tx \<in> set txs) \<and>
     (\<forall>f r. (f, r) \<in> set (ses_callbacks s) \<or> ses_futures s f = Some (Done r) \<longrightarrow>
        (\<exists>tx \<in> set txs. tx_future tx = f \<and> own_response tx r))"

lemma session_inv_new: "session_inv [] p (new_serial_session p)"
  by (simp add: session_inv_def new_serial_session_def List.map_filter_def)

lemma subseq_drop_middle: "subseq (xs @ x # ys) zs \<Longrightarrow> subseq (xs @ ys) zs"
  by (rule subseq_order.order_trans [rotated], assumption) (simp add: list_emb_append_mono list_emb_Cons)

lemma session_inv_perform:
  assumes "session_inv txs p s"
  shows "session_inv (txs @ submitted [op]) p (session_perform op s)"
proof (cases op)
  case (Ses_submit tx)
  have "subseq (a @ [tx_frame tx]) (b @ [tx_frame tx])" if "subseq a b" for a b
    using that by simp
  with assms show ?thesis
    by (fastforce simp: Ses_submit session_inv_def session_defs List.map_filter_def simp flip: append_assoc)
next
  case (Ses_work line)
  show ?thesis
  proof (cases "ses_running s")
    case True
    consider "ses_queue s = []" | q where "ses_queue s = None # q" | tx q where "ses_queue s = Some tx # q"
      by (cases "ses_queue s"; cases "hd (ses_queue s)") auto
    then show ?thesis
    proof cases
      case (3 tx q)
      obtain r p' where t: "transact line (tx_frame tx) (tx_is_read tx) (ses_port s) = (r, p')"
        by fastforce
      then have own: "own_response tx r"
        unfolding own_response_def by (metis fst_conv)
      have w: "sp_written p' = sp_written (ses_port s) \<or> sp_written p' = sp_written (ses_port s) @ [tx_frame tx]"
        using transact_written [of line "tx_frame tx" "tx_is_read tx" "ses_port s"] t by simp
      have "subseq (sp_written (ses_port s) @ tx_frame tx # map tx_frame (List.map_filter id q))
          (sp_written p @ map tx_frame txs)"
        using assms 3 by (simp add: session_inv_def List.map_filter_def)
      then have "subseq (sp_written p' @ map tx_frame (List.map_filter id q)) (sp_written p @ map tx_frame txs)"
        using w by (auto dest: subseq_drop_middle)
      with assms own 3 t True show ?thesis
        by (auto simp: Ses_work session_inv_def worker_turn_def)
    qed (use assms True in \<open>auto simp: Ses_work session_inv_def worker_turn_def List.map_filter_def\<close>)
  qed (use assms in \<open>simp add: Ses_work worker_turn_def\<close>)
next
  case Ses_loop
  with assms show ?thesis
    by (cases "ses_callbacks s") (auto simp: session_inv_def session_defs split: if_splits)
qed (use assms in \<open>auto simp: session_inv_def session_defs List.map_filter_def split: if_splits\<close>)

lemma session_after_inv: "session_inv (submitted ops) p (session_after ops p)"
proof (induction ops rule: rev_induct)
  case Nil
  then show ?case by (simp add: session_after_def session_inv_new)
next
  case (snoc x ops)
  from session_inv_perform [OF this, of x] show ?case by simp
qed

section \<open>After close\<close>

text \<open>
  The worker has ended or the stop marker is in the queue, with none of the late transactions before it;
  nothing has been handed over for these, and they have no result.
\<close>

abbreviation before_stop :: "'a option list \<Rightarrow> 'a option list" where
  "before_stop \<equiv> takeWhile (\<lambda>x. x \<noteq> None)"

definition sealed :: "transaction list \<Rightarrow> serial_session \<Rightarrow> bool" where
  "sealed late s \<longleftrightarrow>
     (ses_running s \<longrightarrow> None \<in> set (ses_queue s) \<and>
        (\<forall>tx tx'. Some tx \<in> set (before_stop (ses_queue s)) \<longrightarrow> tx' \<in> set late \<longrightarrow> tx_future tx \<noteq> tx_future tx')) \<and>
     (\<forall>tx \<in> set late. tx_future tx \<notin> fst ` set (ses_callbacks s) \<and>
        ses_futures s (tx_future tx) \<in> {Some Pending, Some Cancelled})"

lemma before_stop_append [simp]: "None \<in> set q \<Longrightarrow> before_stop (q @ q') = before_stop q"
  by (simp add: takeWhile_append1)

lemma sealed_start: "sealed [] (close_session s)"
  by (simp add: sealed_def close_session_def)

lemma sealed_perform:
  assumes sealed: "sealed late s" and dist: "distinct (map tx_future (late @ submitted [op]))"
    and fresh: "tx_future ` set (submitted [op]) \<inter> tx_future ` {tx. Some tx \<in> set (ses_queue s)} = {}"
    and unused: "tx_future ` set (submitted [op]) \<inter> fst ` set (ses_callbacks s) = {}"
  shows "sealed (late @ submitted [op]) (session_perform op s)"
proof (cases op)
  case (Ses_submit tx)
  have "tx_future tx1 \<noteq> tx_future tx" if "Some tx1 \<in> set (before_stop (ses_queue s))" for tx1
    using fresh set_takeWhileD [OF that] Ses_submit by (auto simp: image_iff)
  with assms show ?thesis
    by (auto simp: Ses_submit sealed_def submit_transaction_def)
next
  case (Ses_work line)
  show ?thesis
  proof (cases "ses_running s")
    case True
    then show ?thesis
    proof (cases "ses_queue s")
      case (Cons x q)
      show ?thesis
      proof (cases x)
        case None
        with Cons True sealed show ?thesis
          by (simp add: Ses_work sealed_def worker_turn_def)
      next
        case (Some tx)
        have "\<forall>tx' \<in> set late. tx_future tx' \<noteq> tx_future tx"
          using sealed True Cons Some unfolding sealed_def by fastforce
        with Cons Some True sealed show ?thesis
          by (auto simp: Ses_work sealed_def worker_turn_def split: prod.split)
      qed
    qed (use sealed Ses_work in \<open>simp add: worker_turn_def\<close>)
  qed (use sealed Ses_work in \<open>simp add: worker_turn_def\<close>)
next
  case Ses_loop
  with sealed show ?thesis
    by (cases "ses_callbacks s") (auto simp: sealed_def session_defs simp del: set_map image_iff split: if_splits, (force simp: image_iff)+)
next
  case (Ses_cancel f)
  with sealed show ?thesis by (auto simp: sealed_def session_defs)
next
  case Ses_close
  with sealed show ?thesis by (auto simp: sealed_def session_defs)
qed

lemma sealed_after:
  assumes "distinct (map tx_future (submitted (pre @ Ses_close # post)))"
  shows "sealed (submitted post) (session_after (pre @ Ses_close # post) p)"
  using assms
proof (induction post rule: rev_induct)
  case Nil
  show ?case by (simp add: sealed_start)
next
  case (snoc x post)
  let ?ops = "pre @ Ses_close # post"
  let ?s = "session_after ?ops p"
  have "tx_future ` {tx. Some tx \<in> set (ses_queue ?s)} \<subseteq> tx_future ` set (submitted ?ops)"
    "fst ` set (ses_callbacks ?s) \<subseteq> tx_future ` set (submitted ?ops)"
    using session_after_inv [of ?ops p] unfolding session_inv_def by fastforce+
  moreover have ops: "submitted (pre @ Ses_close # post @ [x]) = submitted ?ops @ submitted [x]"
    using submitted_append [of ?ops "[x]"] by simp
  then have "tx_future ` set (submitted [x]) \<inter> tx_future ` set (submitted ?ops) = {}"
    using snoc.prems by auto
  ultimately have "tx_future ` set (submitted [x]) \<inter> tx_future ` {tx. Some tx \<in> set (ses_queue ?s)} = {}"
    "tx_future ` set (submitted [x]) \<inter> fst ` set (ses_callbacks ?s) = {}"
    by blast+
  moreover have "distinct (map tx_future (submitted post @ submitted [x]))" "distinct (map tx_future (submitted ?ops))"
    using snoc.prems ops by auto
  ultimately have "sealed (submitted post @ submitted [x]) (session_perform x ?s)"
    using snoc.IH by (intro sealed_perform)
  then show ?case
    using session_after_snoc [of ?ops x p] by simp
qed

text \<open>
  On the shared bus every caller gets the answer to its own frame: whatever is submitted, cancelled,
  answered and closed in whatever order, the frames on the line are written one transaction at a time
  in the order they were submitted, and when a caller's future has a result, that result is what
  \<open>_transact\<close> returned for the frame of a transaction with that future.
\<close>

theorem callers_get_their_own_answer:
  assumes "ses_futures (session_after ops p) f = Some (Done r)"
  shows "subseq (sp_written (ses_port (session_after ops p))) (sp_written p @ map tx_frame (submitted ops)) \<and>
    (\<exists>tx line p'. tx \<in> set (submitted ops) \<and> tx_future tx = f \<and>
       r = fst (transact line (tx_frame tx) (tx_is_read tx) p'))"
proof -
  have inv: "session_inv (submitted ops) p (session_after ops p)" by (rule session_after_inv)
  then have "subseq (sp_written (ses_port (session_after ops p))) (sp_written p @ map tx_frame (submitted ops))"
    unfolding session_inv_def by (meson list_emb_append2 prefix_def prefixI prefix_imp_subseq subseq_order.order_trans)
  with inv assms show ?thesis
    unfolding session_inv_def own_response_def by fastforce
qed

text \<open>
  A request submitted after \<open>close()\<close> is never answered: its future stays pending, unless its caller
  is cancelled, whatever happens later. (The worker ends at the stop marker without failing what is
  queued behind it, so \<open>await future\<close> does not return.)
\<close>

theorem closed_session_never_answers:
  assumes "distinct (map tx_future (submitted (pre @ Ses_close # post)))"
    and "tx \<in> set (submitted post)"
  shows "ses_futures (session_after (pre @ Ses_close # post) p) (tx_future tx) \<in> {Some Pending, Some Cancelled}"
  using sealed_after [OF assms(1), of p] assms(2) unfolding sealed_def by blast

definition demo_tx :: transaction where
  "demo_tx = \<lparr>tx_frame = [1, 2], tx_is_read = True, tx_future = 7\<rparr>"

definition demo_port :: serial_port where
  "demo_port = \<lparr>sp_input = [], sp_written = []\<rparr>"

lemmas demo_session = session_after_def new_serial_session_def session_defs demo_tx_def demo_port_def

theorem callers_get_their_own_answer_witness:
  "\<exists>line p'. Inl ''unplugged'' = fst (transact line [1, 2] True p')"
proof -
  have "ses_futures (session_after [Ses_submit demo_tx, Ses_work (Inl (False, ''unplugged'')), Ses_loop] demo_port) 7 =
      Some (Done (Inl ''unplugged''))"
    by (simp add: demo_session transact_def write_port_def reset_input_buffer_def)
  from callers_get_their_own_answer [OF this] show ?thesis
    by (auto simp: demo_tx_def)
qed

theorem closed_session_never_answers_witness:
  "ses_futures (session_after ([] @ Ses_close # [Ses_submit demo_tx, Ses_work (Inr []), Ses_work (Inr []), Ses_loop]) demo_port) 7
     \<in> {Some Pending, Some Cancelled}"
  using closed_session_never_answers
    [of "[]" "[Ses_submit demo_tx, Ses_work (Inr []), Ses_work (Inr []), Ses_loop]" demo_tx demo_port]
  by (simp add: demo_tx_def)

end
