(* ===== verification/Target_Adapters.thy ===== *)
theory Target_Adapters
  imports Device_Runtime Serial_Session
begin

text \<open>
  What the adapters have in common (\<open>plugin_sdk/base.py\<close>): the errors their \<open>execute\<close> raises, the parameters it
  reads, and their contract as a locale. An adapter is a state with a manifest and an \<open>execute\<close>, which takes
  what the outside world answers as an input \<open>'i\<close>; the locale's laws are that the manifest passes the
  Runtime's check and that it and \<open>execute\<close> agree on which actions there are. The adapters interpret it.
\<close>

datatype adapter_error =
    Alarm_active
  | No_media_prepared
  | Out_of_range rat rat
  | Unknown_action string
  | Missing_param string
  | Not_a_number
  | Division_by_zero
  | Session_raised session_error
  | Player_raised string

text \<open>\<open>params[key]\<close> and \<open>float(params[key])\<close>\<close>

definition param :: "params \<Rightarrow> string \<Rightarrow> adapter_error + pyval" where
  "param params key = (case dget params key of None \<Rightarrow> Inl (Missing_param key) | Some v \<Rightarrow> Inr v)"

definition float_param :: "(string \<Rightarrow> rat option) \<Rightarrow> params \<Rightarrow> string \<Rightarrow> adapter_error + rat" where
  "float_param parse params key =
     (case param params key of
        Inl e \<Rightarrow> Inl e
      | Inr v \<Rightarrow> (case to_float parse v of None \<Rightarrow> Inl Not_a_number | Some q \<Rightarrow> Inr q))"

definition observed :: "pyval \<Rightarrow> time \<Rightarrow> quality \<Rightarrow> observed_value" where
  "observed v t q = \<lparr>ov_value = v, ov_observed_at = t, ov_quality = q\<rparr>"

definition action :: "string \<Rightarrow> params \<Rightarrow> completion_requirement \<Rightarrow> action_priority \<Rightarrow> action_spec" where
  "action name schema completion priority =
     \<lparr>as_name = name, as_params_schema = schema, as_max_completion = completion, as_priority = priority\<rparr>"

lemma as_name_action [simp]: "as_name (action name schema completion priority) = name"
  by (simp add: action_def)

lemma param_error:
  "param params key = Inl e \<Longrightarrow> e \<noteq> Unknown_action act"
  "float_param parse params key = Inl e \<Longrightarrow> e \<noteq> Unknown_action act"
  by (auto simp: float_param_def param_def split: sum.splits option.splits)

locale target_adapter =
  fixes manifest :: "'a \<Rightarrow> target_manifest"
    and execute :: "'i \<Rightarrow> string \<Rightarrow> params \<Rightarrow> 'a \<Rightarrow> (adapter_error + unit) \<times> 'a"
  assumes distinct_actions: "distinct (map as_name (tm_actions (manifest a)))"
    and manifest_fixed: "manifest (snd (execute i act params a)) = manifest a"
    and unknown_iff: "fst (execute i act params a) = Inl (Unknown_action act) \<longleftrightarrow> get_action (manifest a) act = None"
    and unknown_keeps: "get_action (manifest a) act = None \<Longrightarrow> snd (execute i act params a) = a"
begin

lemma manifest_valid: "validate_manifest (manifest a) = Inr ()"
  by (simp add: validate_manifest_ok distinct_actions)

text \<open>A Runtime can be assembled from such adapters.\<close>

lemma validate_adapters: "validate_all (map (\<lambda>a. (tm_target_id (manifest a), manifest a)) as) = Inr ()"
  by (induction as) (simp_all add: manifest_valid)

lemma runtime_starts:
  "is_ok (new_device_runtime rid boot (map (\<lambda>a. (tm_target_id (manifest a), manifest a)) as) blobs)"
  by (simp add: new_device_runtime_def validate_adapters)

text \<open>No sequence of executions changes which actions there are.\<close>

lemma manifest_after:
  "manifest (fold (\<lambda>(i, act, params) a. snd (execute i act params a)) calls a) = manifest a"
  by (induction calls arbitrary: a) (auto simp: manifest_fixed)

text \<open>An action the Runtime lets through (it is in the manifest) is never refused as unknown.\<close>

lemma listed_is_known:
  "get_action (manifest a) act = Some spec \<Longrightarrow> fst (execute i act params a) \<noteq> Inl (Unknown_action act)"
  by (simp add: unknown_iff)

end

end
