(* ===== verification/Fake_Devices.thy ===== *)
theory Fake_Devices
  imports Target_Adapters
begin

text \<open>
  The simulated devices: \<open>simulation/fake_motor.py\<close> and \<open>simulation/fake_video_player.py\<close>. A background task
  is a field of the device: at most one move, one preparation and one playback are live, because each
  new one cancels the one before, and a cancelled task does nothing any more. A turn of a task is what
  it does until its next sleep.
\<close>

section \<open>The motor\<close>

definition VELOCITY_UNITS_PER_SEC :: rat where "VELOCITY_UNITS_PER_SEC = 200"
definition STEP_S :: rat where "STEP_S = 1 / 20"

record fake_motor =
  fm_target_id :: string
  fm_never_complete :: bool
  fm_position :: rat
  fm_target_position :: rat
  fm_moving :: bool
  fm_homed :: bool
  fm_alarm :: bool
  fm_move_count :: nat
  fm_move_task :: bool

definition new_fake_motor :: "string \<Rightarrow> bool \<Rightarrow> fake_motor" where
  "new_fake_motor tid never_complete =
     \<lparr>fm_target_id = tid, fm_never_complete = never_complete, fm_position = 0, fm_target_position = 0,
      fm_moving = False, fm_homed = True, fm_alarm = False, fm_move_count = 0, fm_move_task = False\<rparr>"

definition motor_manifest :: "fake_motor \<Rightarrow> target_manifest" where
  "motor_manifest fm =
     \<lparr>tm_target_id = fm_target_id fm, tm_plugin_id = ''fusion.simulation.fake_motor'', tm_plugin_version = ''0.1.0'',
      tm_actions = [action ''move'' [(''position'', PStr ''number'')] Req_OBSERVED Priority_normal,
        action ''stop'' [] Req_ACKNOWLEDGED Priority_control],
      tm_capabilities = [''stop_motion'']\<rparr>"

definition execute_motor ::
    "(string \<Rightarrow> rat option) \<Rightarrow> string \<Rightarrow> params \<Rightarrow> fake_motor \<Rightarrow> (adapter_error + unit) \<times> fake_motor" where
  "execute_motor parse act params fm =
     (if act = ''move'' then
        (if fm_alarm fm then (Inl Alarm_active, fm)
         else case float_param parse params ''position'' of
           Inl e \<Rightarrow> (Inl e, fm)
         | Inr p \<Rightarrow> (Inr (), fm\<lparr>fm_target_position := p, fm_moving := True,
             fm_move_count := fm_move_count fm + 1, fm_move_task := True\<rparr>))
      else if act = ''stop'' then (Inr (), fm\<lparr>fm_move_task := False, fm_moving := False\<rparr>)
      else (Inl (Unknown_action act), fm))"

definition TOLERANCE :: rat where "TOLERANCE = 1 / 1000000"

definition motor_turn :: "fake_motor \<Rightarrow> fake_motor" where
  "motor_turn fm =
     (if \<not> fm_move_task fm then fm
      else if fm_never_complete fm then fm\<lparr>fm_move_task := False\<rparr>
      else if \<bar>fm_target_position fm - fm_position fm\<bar> > TOLERANCE
      then let step = VELOCITY_UNITS_PER_SEC * STEP_S; delta = fm_target_position fm - fm_position fm
           in fm\<lparr>fm_position := fm_position fm + max (- step) (min step delta)\<rparr>
      else fm\<lparr>fm_moving := False, fm_move_task := False\<rparr>)"

definition motor_complete :: "(string \<Rightarrow> rat option) \<Rightarrow> string \<Rightarrow> params \<Rightarrow> fake_motor \<Rightarrow> adapter_error + bool" where
  "motor_complete parse act params fm =
     (if act = ''move'' then
        (if fm_moving fm then Inr False
         else case float_param parse params ''position'' of
           Inl e \<Rightarrow> Inl e
         | Inr p \<Rightarrow> Inr (\<bar>fm_position fm - p\<bar> < TOLERANCE))
      else if act = ''stop'' then Inr (\<not> fm_moving fm)
      else Inr True)"

definition motor_snapshot :: "time \<Rightarrow> fake_motor \<Rightarrow> target_state" where
  "motor_snapshot now fm =
     \<lparr>ts_target_id = fm_target_id fm, ts_connected = True,
      ts_fields = [(''position'', observed (PFloat (fm_position fm)) now GOOD),
        (''moving'', observed (PBool (fm_moving fm)) now GOOD),
        (''homed'', observed (PBool (fm_homed fm)) now GOOD),
        (''alarm'', observed (PBool (fm_alarm fm)) now GOOD)]\<rparr>"

section \<open>The video player\<close>

datatype playback =
    Play_created nat
  | Play_sleeping nat rat rat

record fake_video =
  fv_target_id :: string
  fv_fake_duration_s :: rat
  fv_media_path :: "string option"
  fv_media_generation :: nat
  fv_prepared :: bool
  fv_playing :: bool
  fv_position_s :: rat
  fv_volume :: rat
  fv_loop :: bool
  fv_prepare_task :: "nat option"
  fv_play_task :: "playback option"
  fv_bound :: bool
  fv_published :: "nat list"

definition new_fake_video :: "string \<Rightarrow> rat \<Rightarrow> fake_video" where
  "new_fake_video tid duration_s =
     \<lparr>fv_target_id = tid, fv_fake_duration_s = duration_s, fv_media_path = None, fv_media_generation = 0,
      fv_prepared = False, fv_playing = False, fv_position_s = 0, fv_volume = 100, fv_loop = False,
      fv_prepare_task = None, fv_play_task = None, fv_bound = False, fv_published = []\<rparr>"

definition bind_event_publisher :: "fake_video \<Rightarrow> fake_video" where
  "bind_event_publisher fv = fv\<lparr>fv_bound := True\<rparr>"

text \<open>The seven actions of a video target, shared with the mpv adapter.\<close>

definition video_actions :: "action_spec list" where
  "video_actions =
     [action ''prepare'' [(''media_path'', PStr ''string'')] Req_OBSERVED Priority_normal,
      action ''play'' [] Req_ACKNOWLEDGED Priority_normal,
      action ''pause'' [] Req_ACKNOWLEDGED Priority_normal,
      action ''stop'' [] Req_ACKNOWLEDGED Priority_control,
      action ''seek'' [(''position_s'', PStr ''number'')] Req_ACKNOWLEDGED Priority_normal,
      action ''loop'' [(''enabled'', PStr ''boolean'')] Req_ACKNOWLEDGED Priority_normal,
      action ''volume'' [(''level'', PStr ''number (0-100)'')] Req_ACKNOWLEDGED Priority_normal]"

definition video_manifest :: "fake_video \<Rightarrow> target_manifest" where
  "video_manifest fv =
     \<lparr>tm_target_id = fv_target_id fv, tm_plugin_id = ''fusion.simulation.fake_video_player'',
      tm_plugin_version = ''0.1.0'', tm_actions = video_actions, tm_capabilities = []\<rparr>"

definition execute_video ::
    "(string \<Rightarrow> rat option) \<times> (pyval \<Rightarrow> string) \<Rightarrow> string \<Rightarrow> params \<Rightarrow> fake_video \<Rightarrow>
     (adapter_error + unit) \<times> fake_video" where
  "execute_video env act params fv =
     (if act = ''prepare'' then
        (let fv1 = fv\<lparr>fv_media_generation := fv_media_generation fv + 1, fv_prepared := False\<rparr>
         in case param params ''media_path'' of
              Inl e \<Rightarrow> (Inl e, fv1)
            | Inr v \<Rightarrow> (Inr (), fv1\<lparr>fv_media_path := Some (snd env v),
                fv_prepare_task := Some (fv_media_generation fv1)\<rparr>))
      else if act = ''play'' then
        (if \<not> fv_prepared fv then (Inl No_media_prepared, fv)
         else (Inr (), fv\<lparr>fv_playing := True, fv_play_task := Some (Play_created (fv_media_generation fv))\<rparr>))
      else if act = ''pause'' then (Inr (), fv\<lparr>fv_playing := False, fv_play_task := None\<rparr>)
      else if act = ''stop'' then
        (Inr (), fv\<lparr>fv_playing := False, fv_position_s := 0, fv_play_task := None\<rparr>)
      else if act = ''seek'' then
        (case float_param (fst env) params ''position_s'' of
           Inl e \<Rightarrow> (Inl e, fv)
         | Inr p \<Rightarrow> (Inr (), fv\<lparr>fv_position_s := max 0 p\<rparr>))
      else if act = ''loop'' then
        (case param params ''enabled'' of
           Inl e \<Rightarrow> (Inl e, fv)
         | Inr v \<Rightarrow> (Inr (), fv\<lparr>fv_loop := py_bool v\<rparr>))
      else if act = ''volume'' then
        (case float_param (fst env) params ''level'' of
           Inl e \<Rightarrow> (Inl e, fv)
         | Inr level \<Rightarrow>
             if \<not> (0 \<le> level \<and> level \<le> 100) then (Inl (Out_of_range level 100), fv)
             else (Inr (), fv\<lparr>fv_volume := level\<rparr>))
      else (Inl (Unknown_action act), fv))"

definition video_complete :: "string \<Rightarrow> fake_video \<Rightarrow> bool" where
  "video_complete act fv \<longleftrightarrow> (if act = ''prepare'' then fv_prepared fv else True)"

text \<open>The load time of \<open>_run_prepare\<close> is over.\<close>

definition prepare_turn :: "fake_video \<Rightarrow> fake_video" where
  "prepare_turn fv =
     (case fv_prepare_task fv of
        None \<Rightarrow> fv
      | Some generation \<Rightarrow>
          (let fv1 = fv\<lparr>fv_prepare_task := None\<rparr>
           in if generation = fv_media_generation fv then fv1\<lparr>fv_prepared := True\<rparr> else fv1))"

text \<open>
  A turn of \<open>_run_playback\<close>: from its start, or from the end of a sleep, to its next sleep or its end.
\<close>

definition playback_next :: "nat \<Rightarrow> rat \<Rightarrow> fake_video \<Rightarrow> fake_video" where
  "playback_next generation remaining fv =
     (if remaining > 0
      then fv\<lparr>fv_play_task := Some (Play_sleeping generation remaining (min (1 / 20) remaining))\<rparr>
      else fv\<lparr>fv_play_task := None, fv_playing := False,
              fv_published := fv_published fv @
                (if generation = fv_media_generation fv \<and> fv_bound fv then [generation] else [])\<rparr>)"

definition playback_turn :: "fake_video \<Rightarrow> fake_video" where
  "playback_turn fv =
     (case fv_play_task fv of
        None \<Rightarrow> fv
      | Some (Play_created generation) \<Rightarrow>
          playback_next generation (fv_fake_duration_s fv - fv_position_s fv) fv
      | Some (Play_sleeping generation remaining step) \<Rightarrow>
          playback_next generation (remaining - step) (fv\<lparr>fv_position_s := fv_position_s fv + step\<rparr>))"

definition video_snapshot :: "time \<Rightarrow> fake_video \<Rightarrow> target_state" where
  "video_snapshot now fv =
     \<lparr>ts_target_id = fv_target_id fv, ts_connected = True,
      ts_fields = [(''media_path'', observed (case fv_media_path fv of None \<Rightarrow> PNone | Some p \<Rightarrow> PStr p) now GOOD),
        (''prepared'', observed (PBool (fv_prepared fv)) now GOOD),
        (''playing'', observed (PBool (fv_playing fv)) now GOOD),
        (''position_s'', observed (PFloat (fv_position_s fv)) now GOOD),
        (''volume'', observed (PFloat (fv_volume fv)) now GOOD),
        (''loop'', observed (PBool (fv_loop fv)) now GOOD),
        (''media_generation'', observed (PInt (int (fv_media_generation fv))) now GOOD)]\<rparr>"

section \<open>Adapters\<close>

lemma motor_action: "get_action (motor_manifest fm) act = None \<longleftrightarrow> act \<notin> {''move'', ''stop''}"
  by (auto simp: get_action_def motor_manifest_def)

interpretation fake_motor: target_adapter motor_manifest execute_motor
proof
  fix fm parse act params
  show "distinct (map as_name (tm_actions (motor_manifest fm)))"
    by (simp add: motor_manifest_def action_def)
  show "motor_manifest (snd (execute_motor parse act params fm)) = motor_manifest fm"
    by (simp add: execute_motor_def motor_manifest_def split: sum.split)
  show "fst (execute_motor parse act params fm) = Inl (Unknown_action act) \<longleftrightarrow> get_action (motor_manifest fm) act = None"
    unfolding motor_action
    by (auto simp: execute_motor_def dest: param_error split: sum.split)
  show "snd (execute_motor parse act params fm) = fm" if "get_action (motor_manifest fm) act = None"
    using that unfolding motor_action by (simp add: execute_motor_def)
qed

definition video_names :: "string set" where
  "video_names = {''prepare'', ''play'', ''pause'', ''stop'', ''seek'', ''loop'', ''volume''}"

lemma video_action: "find (\<lambda>a. as_name a = act) video_actions = None \<longleftrightarrow> act \<notin> video_names"
  by (auto simp: video_actions_def video_names_def)

lemma video_distinct: "distinct (map as_name video_actions)"
  by (simp add: video_actions_def action_def)

lemma video_known: "act \<in> video_names \<Longrightarrow> fst (execute_video env act params fv) \<noteq> Inl (Unknown_action act)"
  unfolding video_names_def insert_iff empty_iff
  by (elim disjE; simp add: execute_video_def Let_def param_error split: sum.split)

lemma video_unknown: "act \<notin> video_names \<Longrightarrow> execute_video env act params fv = (Inl (Unknown_action act), fv)"
  by (simp add: execute_video_def video_names_def)

interpretation fake_video: target_adapter video_manifest execute_video
proof
  fix fv act params and env :: "(string \<Rightarrow> rat option) \<times> (pyval \<Rightarrow> string)"
  show "distinct (map as_name (tm_actions (video_manifest fv)))"
    by (simp add: video_manifest_def video_distinct)
  show "video_manifest (snd (execute_video env act params fv)) = video_manifest fv"
    by (simp add: execute_video_def video_manifest_def Let_def split: sum.split)
  show "fst (execute_video env act params fv) = Inl (Unknown_action act) \<longleftrightarrow> get_action (video_manifest fv) act = None"
    using video_known [of act env params fv] video_unknown [of act env params fv]
    by (cases "act \<in> video_names") (simp_all add: get_action_def video_manifest_def video_action)
  show "snd (execute_video env act params fv) = fv" if "get_action (video_manifest fv) act = None"
    using that video_unknown [of act env params fv]
    by (simp add: get_action_def video_manifest_def video_action)
qed

section \<open>A move ends\<close>

lemma motor_idle: "\<not> fm_move_task fm \<Longrightarrow> (motor_turn ^^ n) fm = fm"
  by (induction n) (simp_all add: motor_turn_def)

text \<open>The distance to go, and the stretch a move may be in: between where it started and its target.\<close>

definition distance :: "fake_motor \<Rightarrow> rat" where
  "distance fm = \<bar>fm_target_position fm - fm_position fm\<bar>"

definition between :: "rat \<Rightarrow> fake_motor \<Rightarrow> bool" where
  "between p0 fm \<longleftrightarrow> fm_position fm \<in> {min p0 (fm_target_position fm)..max p0 (fm_target_position fm)}"

lemma motor_turn_far:
  assumes "fm_move_task fm" and "\<not> fm_never_complete fm" and "distance fm > TOLERANCE"
  shows "distance (motor_turn fm) = max 0 (distance fm - 10) \<and> (between p0 fm \<longrightarrow> between p0 (motor_turn fm)) \<and>
    fm_move_task (motor_turn fm) \<and> \<not> fm_never_complete (motor_turn fm) \<and>
    fm_target_position (motor_turn fm) = fm_target_position fm"
proof -
  let ?d = "fm_target_position fm - fm_position fm"
  have turn: "motor_turn fm = fm\<lparr>fm_position := fm_position fm + max (- 10) (min 10 ?d)\<rparr>"
    using assms by (simp add: motor_turn_def distance_def VELOCITY_UNITS_PER_SEC_def STEP_S_def Let_def)
  have "\<bar>d - max (- 10) (min 10 d)\<bar> = max 0 (\<bar>d\<bar> - 10)" for d :: rat
    by (cases "0 \<le> d") (auto simp: max_def min_def abs_if)
  moreover have "\<bar>fm_target_position fm - (fm_position fm + m)\<bar> = \<bar>?d - m\<bar>" for m
    by (simp add: algebra_simps)
  moreover have "between p0 fm \<longrightarrow> between p0 (fm\<lparr>fm_position := fm_position fm + max (- 10) (min 10 ?d)\<rparr>)"
    unfolding between_def by (auto simp: max_def min_def)
  ultimately show ?thesis
    using assms(1,2) unfolding turn distance_def by simp
qed

lemma motor_turns:
  assumes "fm_move_task fm" and "\<not> fm_never_complete fm" and "distance fm \<le> 10 * of_nat n" and "between p0 fm"
  shows "let fm' = (motor_turn ^^ Suc n) fm
    in \<not> fm_move_task fm' \<and> \<not> fm_moving fm' \<and> distance fm' \<le> TOLERANCE \<and> between p0 fm' \<and>
       fm_target_position fm' = fm_target_position fm"
  using assms
proof (induction n arbitrary: fm)
  case 0
  then have "motor_turn fm = fm\<lparr>fm_moving := False, fm_move_task := False\<rparr>"
    by (simp add: motor_turn_def distance_def TOLERANCE_def)
  with 0 show ?case by (simp add: distance_def between_def TOLERANCE_def)
next
  case (Suc n)
  have rec: "(motor_turn ^^ Suc (Suc n)) fm = (motor_turn ^^ Suc n) (motor_turn fm)"
    by (simp only: funpow_Suc_right comp_apply)
  show ?case
  proof (cases "distance fm > TOLERANCE")
    case True
    note far = motor_turn_far [OF Suc.prems(1,2) True, of p0]
    have "distance (motor_turn fm) \<le> 10 * of_nat n"
      using far Suc.prems(3) by (auto simp: algebra_simps)
    with Suc.IH [of "motor_turn fm"] far Suc.prems(4) show ?thesis
      unfolding rec by (simp add: Let_def)
  next
    case False
    then have "motor_turn fm = fm\<lparr>fm_moving := False, fm_move_task := False\<rparr>"
      using Suc.prems by (simp add: motor_turn_def distance_def)
    with False Suc.prems show ?thesis
      unfolding rec by (simp add: motor_idle distance_def between_def del: funpow.simps)
  qed
qed

text \<open>
  A simulated move ends: a move by any distance, on a motor without the injected fault, stops after at
  most one turn for every 10 units of distance and one more, within a millionth of its target, never
  having left the stretch between where it started and its target; and then it is reported complete,
  unless it stopped exactly a millionth away.
\<close>

theorem simulated_move_ends:
  assumes "execute_motor parse ''move'' params fm = (Inr (), fm1)" and "\<not> fm_never_complete fm"
    and "distance fm1 \<le> 10 * of_nat n"
  shows "\<exists>p. float_param parse params ''position'' = Inr p \<and>
    (let fm' = (motor_turn ^^ Suc n) fm1
     in \<not> fm_moving fm' \<and> \<bar>p - fm_position fm'\<bar> \<le> TOLERANCE \<and>
        fm_position fm' \<in> {min (fm_position fm) p..max (fm_position fm) p} \<and>
        motor_complete parse ''move'' params fm' = Inr (\<bar>p - fm_position fm'\<bar> \<noteq> TOLERANCE))"
proof -
  from assms(1) obtain p where p: "float_param parse params ''position'' = Inr p"
    and fm1: "fm1 = fm\<lparr>fm_target_position := p, fm_moving := True, fm_move_count := fm_move_count fm + 1,
      fm_move_task := True\<rparr>"
    by (auto simp: execute_motor_def split: if_splits sum.splits)
  have "fm_move_task fm1" "\<not> fm_never_complete fm1" "between (fm_position fm) fm1"
    using assms(2) by (simp_all add: fm1 between_def)
  from motor_turns [OF this(1,2) assms(3) this(3)] p show ?thesis
    by (intro exI [of _ p])
      (auto simp: Let_def distance_def between_def motor_complete_def fm1 abs_minus_commute simp del: funpow.simps)
qed

theorem simulated_move_ends_witness:
  "\<not> fm_moving ((motor_turn ^^ Suc 2) (snd (execute_motor (\<lambda>_. None) ''move'' [(''position'', PInt 15)] (new_fake_motor ''m'' False))))"
proof -
  let ?fm = "new_fake_motor ''m'' False" and ?ps = "[(''position'', PInt 15)]"
  have e: "execute_motor (\<lambda>_. None) ''move'' ?ps ?fm = (Inr (), snd (execute_motor (\<lambda>_. None) ''move'' ?ps ?fm))"
    and "\<not> fm_never_complete ?fm"
    and "distance (snd (execute_motor (\<lambda>_. None) ''move'' ?ps ?fm)) \<le> 10 * of_nat 2"
    by (simp_all add: execute_motor_def new_fake_motor_def float_param_def param_def distance_def)
  from simulated_move_ends [OF this] show ?thesis by (auto simp: Let_def simp del: funpow.simps)
qed

section \<open>The player's state\<close>

text \<open>The operations of the player: an action, a turn of a task, or binding the publisher.\<close>

datatype video_op =
    Vid_execute "(string \<Rightarrow> rat option) \<times> (pyval \<Rightarrow> string)" string params
  | Vid_prepare_turn
  | Vid_playback_turn
  | Vid_bind

fun video_perform :: "video_op \<Rightarrow> fake_video \<Rightarrow> fake_video" where
  "video_perform (Vid_execute env act params) fv = snd (execute_video env act params fv)"
| "video_perform Vid_prepare_turn fv = prepare_turn fv"
| "video_perform Vid_playback_turn fv = playback_turn fv"
| "video_perform Vid_bind fv = bind_event_publisher fv"

definition video_inv :: "fake_video \<Rightarrow> bool" where
  "video_inv fv \<longleftrightarrow>
     0 \<le> fv_volume fv \<and> fv_volume fv \<le> 100 \<and> 0 \<le> fv_position_s fv \<and>
     (fv_prepared fv \<longrightarrow> fv_media_path fv \<noteq> None \<and> fv_prepare_task fv \<noteq> Some (fv_media_generation fv)) \<and>
     (\<forall>g. fv_prepare_task fv = Some g \<longrightarrow> g \<le> fv_media_generation fv \<and> fv_media_path fv \<noteq> None) \<and>
     (\<forall>g r s. fv_play_task fv = Some (Play_sleeping g r s) \<longrightarrow> 0 < s \<and> s \<le> r) \<and>
     (\<forall>g \<in> set (fv_published fv). g \<le> fv_media_generation fv)"

lemma video_inv_next:
  "video_inv fv \<Longrightarrow> video_inv (playback_next generation remaining fv)"
  by (auto simp: video_inv_def playback_next_def)

lemma video_inv_execute:
  assumes "video_inv fv"
  shows "video_inv (snd (execute_video env act params fv))"
proof (cases "act \<in> video_names")
  case True
  then show ?thesis
    using assms unfolding video_names_def insert_iff empty_iff
    by (elim disjE) (simp_all add: execute_video_def Let_def video_inv_def le_SucI split: sum.split)
qed (simp add: video_unknown assms)

lemma video_inv_turn:
  assumes "video_inv fv"
  shows "video_inv (playback_turn fv)"
proof (cases "fv_play_task fv")
  case (Some t)
  show ?thesis
  proof (cases t)
    case (Play_sleeping g r s)
    with assms Some have "video_inv (fv\<lparr>fv_position_s := fv_position_s fv + s\<rparr>)"
      by (simp add: video_inv_def add_nonneg_nonneg less_imp_le)
    with Some Play_sleeping show ?thesis by (simp add: playback_turn_def video_inv_next)
  qed (simp add: playback_turn_def Some assms video_inv_next)
qed (simp add: playback_turn_def assms)

lemma video_inv_prepare: "video_inv fv \<Longrightarrow> video_inv (prepare_turn fv)"
  by (auto simp: video_inv_def prepare_turn_def Let_def split: option.split)

lemma video_inv_perform: "video_inv fv \<Longrightarrow> video_inv (video_perform p fv)"
  by (cases p) (simp_all add: video_inv_execute video_inv_turn video_inv_prepare, simp add: video_inv_def bind_event_publisher_def)

lemma video_inv_fold: "video_inv fv \<Longrightarrow> video_inv (fold video_perform ps fv)"
  by (induction ps arbitrary: fv) (simp_all add: video_inv_perform)

text \<open>
  \<^bold>\<open>C40\<close> The player's state is always well-formed: the volume is between 0 and 100 and the position not
  negative; what is prepared has a path, and no preparation of it is still under way; a preparation or
  an event names a medium that was asked for; and a playback sleeps no longer than what remains.
\<close>

theorem video_state_well_formed:
  "video_inv (fold video_perform ps (new_fake_video tid duration_s))"
  by (rule video_inv_fold) (simp add: video_inv_def new_fake_video_def)

text \<open>
  Preparing another medium does not rewind: after a playback has ended, the next one ends in its first
  turn, and says so.
\<close>

lemma next_clip_is_skipped:
  "let env = ((\<lambda>_. None), (\<lambda>_. ''clip''));
       prepare = [Vid_execute env ''prepare'' [(''media_path'', PStr ''a'')], Vid_prepare_turn];
       fv = fold video_perform (Vid_bind # prepare @ [Vid_execute env ''play'' [], Vid_playback_turn, Vid_playback_turn, Vid_playback_turn])
              (new_fake_video ''output1'' (1 / 10));
       fv2 = fold video_perform (prepare @ [Vid_execute env ''play'' [], Vid_playback_turn]) fv
   in fv_published fv = [1] \<and> fv_position_s fv = 1 / 10 \<and>
      fv_published fv2 = [1, 2] \<and> \<not> fv_playing fv2 \<and> fv_position_s fv2 = 1 / 10"
  by code_simp

section \<open>A playback ends\<close>

text \<open>The turns a sleeping playback still needs: one for each sleep, the last of them possibly shorter.\<close>

lemma playback_turns:
  assumes "fv_play_task fv = Some (Play_sleeping g r (min (1 / 20) r))" and "0 < r" and "r \<le> of_nat (Suc n) / 20"
  shows "\<exists>k \<le> Suc n. (playback_turn ^^ k) fv =
    playback_next g 0 (fv\<lparr>fv_position_s := fv_position_s fv + r\<rparr>)"
  using assms
proof (induction n arbitrary: fv r)
  case 0
  then have "playback_turn fv = playback_next g 0 (fv\<lparr>fv_position_s := fv_position_s fv + r\<rparr>)"
    by (simp add: playback_turn_def)
  then show ?case by (intro exI [of _ 1]) simp
next
  case (Suc n)
  show ?case
  proof (cases "r \<le> 1 / 20")
    case True
    with Suc.prems(1) have "playback_turn fv = playback_next g 0 (fv\<lparr>fv_position_s := fv_position_s fv + r\<rparr>)"
      by (simp add: playback_turn_def)
    then show ?thesis by (intro exI [of _ 1]) simp
  next
    case False
    let ?fv = "fv\<lparr>fv_position_s := fv_position_s fv + 1 / 20,
      fv_play_task := Some (Play_sleeping g (r - 1 / 20) (min (1 / 20) (r - 1 / 20)))\<rparr>"
    from False Suc.prems(1) have turn: "playback_turn fv = ?fv"
      by (simp add: playback_turn_def playback_next_def)
    from False Suc.prems(3) have "r - 1 / 20 \<le> of_nat (Suc n) / 20"
      by (simp add: field_simps)
    with Suc.IH [of ?fv "r - 1 / 20"] False obtain k where "k \<le> Suc n"
      and "(playback_turn ^^ k) ?fv = playback_next g 0 (?fv\<lparr>fv_position_s := fv_position_s ?fv + (r - 1 / 20)\<rparr>)"
      by auto
    then have "(playback_turn ^^ Suc k) fv = playback_next g 0 (fv\<lparr>fv_position_s := fv_position_s fv + r\<rparr>)"
      unfolding funpow_Suc_right comp_apply turn by (simp add: playback_next_def)
    with \<open>k \<le> Suc n\<close> show ?thesis by (intro exI [of _ "Suc k"]) simp
  qed
qed

end
