(* ===== verification/Mightyzap.thy ===== *)
theory Mightyzap
  imports Target_Adapters
begin

text \<open>
  The MightyZap actuator plugin (\<open>plugins/mightyzap_modbus/adapter.py\<close>): a target on the shared serial session.
  Its state is a record; the port of the session is passed along. Each call to the session is one
  transaction, whose line is an input. \<open>fmt\<close> formats a float in the manifest's parameter schema.
  Numbers are exact; the rounding of float arithmetic is not modelled.
\<close>

definition FORCE_ON_OFF :: int where "FORCE_ON_OFF = 200"
definition ACTUATOR_STOP :: int where "ACTUATOR_STOP = 202"
definition HARDWARE_ERROR :: int where "HARDWARE_ERROR = 204"
definition GOAL_POSITION :: int where "GOAL_POSITION = 205"
definition RESTART :: int where "RESTART = 231"
definition POLL_BLOCK_START :: int where "POLL_BLOCK_START = HARDWARE_ERROR"
definition POLL_BLOCK_COUNT :: int where "POLL_BLOCK_COUNT = 12"
definition OFFSET_HW_ERROR :: nat where "OFFSET_HW_ERROR = nat (HARDWARE_ERROR - POLL_BLOCK_START)"
definition OFFSET_PRESENT_POSITION :: nat where "OFFSET_PRESENT_POSITION = nat (210 - POLL_BLOCK_START)"
definition OFFSET_MOVING :: nat where "OFFSET_MOVING = nat (215 - POLL_BLOCK_START)"
definition FULL_STROKE_COUNTS :: rat where "FULL_STROKE_COUNTS = 10000"
definition MZ_POLL_INTERVAL_S :: rat where "MZ_POLL_INTERVAL_S = 1 / 10"
definition STALE_AFTER_S :: rat where "STALE_AFTER_S = MZ_POLL_INTERVAL_S * 5"

lemmas mightyzap_consts = FORCE_ON_OFF_def ACTUATOR_STOP_def HARDWARE_ERROR_def GOAL_POSITION_def
  RESTART_def POLL_BLOCK_START_def POLL_BLOCK_COUNT_def OFFSET_HW_ERROR_def OFFSET_PRESENT_POSITION_def
  OFFSET_MOVING_def FULL_STROKE_COUNTS_def MZ_POLL_INTERVAL_S_def STALE_AFTER_S_def

record mightyzap =
  mz_target_id :: string
  mz_slave_id :: int
  mz_stroke_mm :: rat
  mz_position_mm :: rat
  mz_moving :: bool
  mz_alarm :: bool
  mz_connected :: bool
  mz_observed_at :: time
  mz_polling :: bool

definition new_mightyzap :: "string \<Rightarrow> int \<Rightarrow> rat \<Rightarrow> time \<Rightarrow> mightyzap" where
  "new_mightyzap tid slave_id stroke_mm now =
     \<lparr>mz_target_id = tid, mz_slave_id = slave_id, mz_stroke_mm = stroke_mm, mz_position_mm = 0,
      mz_moving = False, mz_alarm = False, mz_connected = False, mz_observed_at = now, mz_polling = False\<rparr>"

definition mightyzap_manifest :: "(rat \<Rightarrow> string) \<Rightarrow> mightyzap \<Rightarrow> target_manifest" where
  "mightyzap_manifest fmt mz =
     \<lparr>tm_target_id = mz_target_id mz, tm_plugin_id = ''fusion.plugins.mightyzap_modbus'',
      tm_plugin_version = ''0.1.0'',
      tm_actions =
        [action ''move'' [(''position'', PStr (''number (mm, 0-'' @ fmt (mz_stroke_mm mz) @ '')''))]
           Req_OBSERVED Priority_normal,
         action ''stop'' [] Req_ACKNOWLEDGED Priority_control,
         action ''restart'' [] Req_ACKNOWLEDGED Priority_control],
      tm_capabilities = [''stop_motion'']\<rparr>"

text \<open>
  What a poll makes of the session's answer. The fields are assigned one after the other, so a list that
  is too short (\<open>IndexError\<close>) may leave the position updated.
\<close>

definition poll_update :: "time \<Rightarrow> session_error + int list \<Rightarrow> mightyzap \<Rightarrow> mightyzap" where
  "poll_update now answer mz =
     (case answer of
        Inl _ \<Rightarrow> mz\<lparr>mz_connected := False\<rparr>
      | Inr registers \<Rightarrow>
          if length registers \<le> OFFSET_PRESENT_POSITION then mz\<lparr>mz_connected := False\<rparr>
          else
            let mz1 = mz\<lparr>mz_position_mm :=
                  of_int (registers ! OFFSET_PRESENT_POSITION) / FULL_STROKE_COUNTS * mz_stroke_mm mz\<rparr>
            in if length registers \<le> OFFSET_MOVING then mz1\<lparr>mz_connected := False\<rparr>
               else mz1\<lparr>mz_moving := registers ! OFFSET_MOVING \<noteq> 0,
                        mz_alarm := registers ! OFFSET_HW_ERROR \<noteq> 0, mz_connected := True\<rparr>)
     \<lparr>mz_observed_at := now\<rparr>"

definition poll_once :: "line \<Rightarrow> time \<Rightarrow> mightyzap \<times> serial_port \<Rightarrow> mightyzap \<times> serial_port" where
  "poll_once line now mp =
     (case read_holding_registers line (mz_slave_id (fst mp)) POLL_BLOCK_START POLL_BLOCK_COUNT (snd mp) of
        (answer, p) \<Rightarrow> (poll_update now answer (fst mp), p))"

definition write_register ::
    "line \<Rightarrow> int \<Rightarrow> int \<Rightarrow> mightyzap \<times> serial_port \<Rightarrow> (adapter_error + unit) \<times> mightyzap \<times> serial_port" where
  "write_register line address val mp =
     (case write_single_register line (mz_slave_id (fst mp)) address val (snd mp) of
        (Inl e, p) \<Rightarrow> (Inl (Session_raised e), fst mp, p)
      | (Inr _, p) \<Rightarrow> (Inr (), fst mp, p))"

definition connect_mightyzap ::
    "line \<Rightarrow> line \<Rightarrow> time \<Rightarrow> mightyzap \<times> serial_port \<Rightarrow> (adapter_error + unit) \<times> mightyzap \<times> serial_port" where
  "connect_mightyzap line line' now mp =
     (case write_register line FORCE_ON_OFF 1 mp of
        (Inl e, mp1) \<Rightarrow> (Inl e, mp1)
      | (Inr _, mp1) \<Rightarrow>
          (case poll_once line' now mp1 of (mz, p) \<Rightarrow> (Inr (), mz\<lparr>mz_polling := True\<rparr>, p)))"

definition disconnect_mightyzap :: "mightyzap \<Rightarrow> mightyzap" where
  "disconnect_mightyzap mz = mz\<lparr>mz_polling := False\<rparr>"

definition move_counts :: "(string \<Rightarrow> rat option) \<Rightarrow> params \<Rightarrow> mightyzap \<Rightarrow> adapter_error + int" where
  "move_counts parse params mz =
     (if mz_alarm mz then Inl Alarm_active
      else case float_param parse params ''position'' of
        Inl e \<Rightarrow> Inl e
      | Inr position_mm \<Rightarrow>
          if \<not> (0 \<le> position_mm \<and> position_mm \<le> mz_stroke_mm mz)
          then Inl (Out_of_range position_mm (mz_stroke_mm mz))
          else if mz_stroke_mm mz = 0 then Inl Division_by_zero
          else Inr (py_round (position_mm / mz_stroke_mm mz * FULL_STROKE_COUNTS)))"

definition execute_mightyzap ::
    "(string \<Rightarrow> rat option) \<times> line \<Rightarrow> string \<Rightarrow> params \<Rightarrow> mightyzap \<times> serial_port \<Rightarrow>
     (adapter_error + unit) \<times> mightyzap \<times> serial_port" where
  "execute_mightyzap env act params mp =
     (if act = ''move'' then
        (case move_counts (fst env) params (fst mp) of
           Inl e \<Rightarrow> (Inl e, mp)
         | Inr counts \<Rightarrow> write_register (snd env) GOAL_POSITION counts mp)
      else if act = ''stop'' then write_register (snd env) ACTUATOR_STOP 1 mp
      else if act = ''restart'' then write_register (snd env) RESTART 1 mp
      else (Inl (Unknown_action act), mp))"

definition mightyzap_complete :: "string \<Rightarrow> mightyzap \<Rightarrow> bool" where
  "mightyzap_complete act mz \<longleftrightarrow> (if act \<in> {''move'', ''stop''} then \<not> mz_moving mz else True)"

definition mightyzap_quality :: "time \<Rightarrow> mightyzap \<Rightarrow> quality" where
  "mightyzap_quality now mz =
     (let age_s = now - mz_observed_at mz
      in if \<not> mz_connected mz then UNKNOWN_quality
         else if age_s < STALE_AFTER_S then GOOD else STALE)"

definition mightyzap_snapshot :: "time \<Rightarrow> mightyzap \<Rightarrow> target_state" where
  "mightyzap_snapshot now mz =
     (let field = (\<lambda>v. observed v (mz_observed_at mz) (mightyzap_quality now mz))
      in \<lparr>ts_target_id = mz_target_id mz, ts_connected = mz_connected mz,
          ts_fields = [(''position'', field (PFloat (mz_position_mm mz))),
            (''moving'', field (PBool (mz_moving mz))), (''alarm'', field (PBool (mz_alarm mz)))]\<rparr>)"

section \<open>An adapter\<close>

lemma write_register_frame:
  "fst (snd (write_register line address val mp)) = fst mp"
  "fst (write_register line address val mp) \<noteq> Inl (Unknown_action act)"
  by (simp_all add: write_register_def split: prod.split sum.split)

lemma move_counts_known: "move_counts parse params mz \<noteq> Inl (Unknown_action act)"
  by (simp add: move_counts_def float_param_def param_def split: sum.split option.split)

lemma mightyzap_action:
  "get_action (mightyzap_manifest fmt mz) act = None \<longleftrightarrow> act \<notin> {''move'', ''stop'', ''restart''}"
  by (auto simp: get_action_def mightyzap_manifest_def action_def)

interpretation mz_adapter: target_adapter "\<lambda>mp. mightyzap_manifest fmt (fst mp)" execute_mightyzap for fmt
proof
  fix mp :: "mightyzap \<times> serial_port" and env act params
  show "distinct (map as_name (tm_actions (mightyzap_manifest fmt (fst mp))))"
    by (simp add: mightyzap_manifest_def action_def)
  have "fst (snd (execute_mightyzap env act params mp)) = fst mp"
    by (simp add: execute_mightyzap_def write_register_frame split: sum.split)
  then show "mightyzap_manifest fmt (fst (snd (execute_mightyzap env act params mp))) =
      mightyzap_manifest fmt (fst mp)" by simp
  show "fst (execute_mightyzap env act params mp) = Inl (Unknown_action act) \<longleftrightarrow>
      get_action (mightyzap_manifest fmt (fst mp)) act = None"
    unfolding mightyzap_action using move_counts_known [of "fst env" params "fst mp" act]
    by (auto simp: execute_mightyzap_def write_register_frame split: sum.split)
  show "snd (execute_mightyzap env act params mp) = mp"
    if "get_action (mightyzap_manifest fmt (fst mp)) act = None"
    using that unfolding mightyzap_action by (simp add: execute_mightyzap_def)
qed

section \<open>Moving\<close>

lemma move_counts_ok:
  assumes "move_counts parse params mz = Inr counts"
  obtains pos where "float_param parse params ''position'' = Inr pos" "\<not> mz_alarm mz"
    "0 \<le> pos" "pos \<le> mz_stroke_mm mz" "0 < mz_stroke_mm mz"
    "counts = py_round (pos / mz_stroke_mm mz * 10000)"
  using assms
  by (auto simp: move_counts_def FULL_STROKE_COUNTS_def split: sum.splits if_splits intro!: that)

lemma counts_bounds:
  assumes "0 \<le> pos" and "pos \<le> stroke" and "0 < (stroke :: rat)"
  defines "counts \<equiv> py_round (pos / stroke * 10000)"
  shows "0 \<le> counts" and "counts \<le> 10000"
    and "\<bar>of_int counts / 10000 * stroke - pos\<bar> \<le> stroke / 20000"
proof -
  let ?x = "pos / stroke * 10000"
  have "0 \<le> ?x" "?x \<le> 10000"
    using assms by (simp_all add: field_simps)
  then show "0 \<le> counts" "counts \<le> 10000"
    using py_round_bounds [of 0 ?x 10000] by (simp_all add: counts_def)
  have eq: "of_int counts / 10000 * stroke - pos = (of_int counts - ?x) * (stroke / 10000)"
    using assms(3) by (simp add: field_simps)
  have "\<bar>of_int counts / 10000 * stroke - pos\<bar> = \<bar>of_int counts - ?x\<bar> * (stroke / 10000)"
    unfolding eq abs_mult using assms(3) by simp
  also have "\<dots> \<le> 1 / 2 * (stroke / 10000)"
    using py_round_near [of ?x] assms(3) unfolding counts_def by (intro mult_right_mono) simp_all
  finally show "\<bar>of_int counts / 10000 * stroke - pos\<bar> \<le> stroke / 20000" by simp
qed

lemma write_register_ok_frame:
  assumes "write_register line address val (mz, p) = (Inr (), mz', p')"
  shows "mz' = mz \<and> (\<exists>frame. build_write_single_register (mz_slave_id mz) address val = Inr frame \<and>
    sp_written p' = sp_written p @ [frame])"
proof -
  let ?w = "write_single_register line (mz_slave_id mz) address val p"
  have w: "fst ?w = Inr ()" "mz' = mz" "p' = snd ?w"
    using assms by (auto simp: write_register_def split: prod.splits sum.splits)
  from write_register_ok [OF w(1)] w(2,3) show ?thesis by blast
qed

lemma slave_of_frame:
  "build_write_single_register slave_id address val = Inr frame \<Longrightarrow> 0 \<le> slave_id \<and> slave_id < 256"
  by (auto simp: build_write_single_register_def request_frame_def split: if_splits)

lemma poll_answered:
  assumes "0 \<le> mz_slave_id mz" and "mz_slave_id mz < 256" and "length regs = 12" and "set regs \<subseteq> {0..<65536}"
  shows "fst (poll_once (Inr (read_reply (mz_slave_id mz) regs @ junk)) now (mz, p)) = poll_update now (Inr regs) mz"
  using read_registers_answered [of "mz_slave_id mz" regs junk POLL_BLOCK_START POLL_BLOCK_COUNT p] assms
  by (simp add: poll_once_def split_beta)

text \<open>
  \<^bold>\<open>C37\<close> Millimetres to counts and back, over the wire: when \<open>move\<close> is accepted, no alarm was known, the
  position lies within the stroke, exactly one frame was written, the one that writes a count between 0
  and 10000 to the goal register of this slave, and a later poll of a slave that reports this count as
  its present position reads back the requested position up to half a count.
\<close>

theorem mightyzap_move_reads_back:
  assumes "execute_mightyzap (parse, line) ''move'' params (mz, p) = (Inr (), mz', p')"
    and "length regs = 12" and "set regs \<subseteq> {0..<65536}"
  shows "\<exists>pos counts frame. float_param parse params ''position'' = Inr pos \<and> \<not> mz_alarm mz \<and>
    0 \<le> pos \<and> pos \<le> mz_stroke_mm mz \<and> 0 \<le> counts \<and> counts \<le> 10000 \<and>
    build_write_single_register (mz_slave_id mz) GOAL_POSITION counts = Inr frame \<and>
    sp_written p' = sp_written p @ [frame] \<and>
    \<bar>mz_position_mm (fst (poll_once
        (Inr (read_reply (mz_slave_id mz) (regs[OFFSET_PRESENT_POSITION := counts]) @ junk)) now (mz', p''))) - pos\<bar>
      \<le> mz_stroke_mm mz / 20000"
proof -
  from assms(1) obtain counts where c: "move_counts parse params mz = Inr counts"
    and w: "write_register line GOAL_POSITION counts (mz, p) = (Inr (), mz', p')"
    by (auto simp: execute_mightyzap_def split: sum.splits)
  from c obtain pos where pos: "float_param parse params ''position'' = Inr pos" "\<not> mz_alarm mz"
    "0 \<le> pos" "pos \<le> mz_stroke_mm mz" "0 < mz_stroke_mm mz"
    and counts: "counts = py_round (pos / mz_stroke_mm mz * 10000)"
    by (rule move_counts_ok)
  note b = counts_bounds [OF pos(3,4,5), folded counts]
  from write_register_ok_frame [OF w] obtain frame where "mz' = mz"
    and f: "build_write_single_register (mz_slave_id mz) GOAL_POSITION counts = Inr frame"
      "sp_written p' = sp_written p @ [frame]" by blast
  moreover have "set (regs[OFFSET_PRESENT_POSITION := counts]) \<subseteq> {0..<65536}"
    using set_update_subset_insert [of regs OFFSET_PRESENT_POSITION counts] b(1,2) assms(3) by auto
  ultimately have "mz_position_mm (fst (poll_once
      (Inr (read_reply (mz_slave_id mz) (regs[OFFSET_PRESENT_POSITION := counts]) @ junk)) now (mz', p''))) =
      of_int counts / 10000 * mz_stroke_mm mz" (is "?read = _")
    using poll_answered [of mz "regs[OFFSET_PRESENT_POSITION := counts]"] slave_of_frame [OF f(1)] assms(2)
    by (simp add: poll_update_def mightyzap_consts Let_def)
  then have "\<bar>?read - pos\<bar> \<le> mz_stroke_mm mz / 20000"
    using b(3) by (simp only:)
  with pos b(1,2) f show ?thesis by blast
qed

definition demo_mightyzap :: mightyzap where
  "demo_mightyzap = new_mightyzap ''axis'' 1 87 0"

definition demo_params :: params where
  "demo_params = [(''position'', PInt 0)]"

definition demo_frame :: bytes where
  "demo_frame = with_crc [1, 6, 0, 205, 0, 0]"

lemma demo_built: "build_write_single_register 1 205 0 = Inr demo_frame"
  by (simp add: build_write_single_register_def request_frame_def demo_frame_def function_codes octet_mod)

text \<open>A move to 0 mm, echoed by the slave, is accepted.\<close>

lemma demo_move:
  "\<exists>p'. execute_mightyzap (\<lambda>_. None, Inr demo_frame) ''move'' demo_params (demo_mightyzap, demo_port) =
     (Inr (), demo_mightyzap, p')"
proof -
  have "fst (write_single_register (Inr demo_frame) 1 205 0 demo_port) = Inr ()"
    using write_register_answered [OF demo_built, of "[]" demo_port] by simp
  then obtain p' where "write_single_register (Inr demo_frame) 1 205 0 demo_port = (Inr (), p')"
    by (metis prod.collapse)
  then show ?thesis
    by (simp add: execute_mightyzap_def move_counts_def float_param_def param_def demo_params_def
        demo_mightyzap_def new_mightyzap_def write_register_def GOAL_POSITION_def
        py_round_of_int [of 0, unfolded of_int_0])
qed

theorem mightyzap_move_reads_back_witness:
  "\<exists>pos. float_param (\<lambda>_. None) demo_params ''position'' = Inr pos \<and> pos \<le> 87"
proof -
  from demo_move obtain p' where
    "execute_mightyzap (\<lambda>_. None, Inr demo_frame) ''move'' demo_params (demo_mightyzap, demo_port) =
       (Inr (), demo_mightyzap, p')" ..
  from mightyzap_move_reads_back [OF this, where regs = "replicate 12 0" and junk = "[]" and now = 0 and p'' = demo_port]
  show ?thesis by (auto simp: demo_mightyzap_def new_mightyzap_def)
qed

section \<open>Completion\<close>

text \<open>
  A move is reported complete before it begins: \<open>execute\<close> leaves the adapter's own state as it was,
  so when the last poll saw the actuator at rest, a command under observation ends SUCCEEDED (observed)
  at the first turn of its observation, with the position still the one of that poll.
\<close>

theorem move_succeeds_before_it_moves:
  assumes "execute_mightyzap env ''move'' params (mz, p) = (Inr (), mz', p')" and "\<not> mz_moving mz"
    and "tr_frames (rw_runner w) c = Some (Observe_start (tr_execution_generation (rw_runner w)))"
    and "rw_records w c = Some r" and "now < t0 + OBSERVE_TIMEOUT_S"
  shows "mz_position_mm mz' = mz_position_mm mz \<and>
    (\<exists>r'. rw_records (observe_step c t0 now
        (if mightyzap_complete ''move'' mz' then Complete else Incomplete) wall w) c = Some r' \<and>
      cr_status r' = TERMINAL \<and> cr_outcome r' = Some SUCCEEDED \<and>
      cr_achieved_completion r' = Some Req_OBSERVED)"
proof -
  from assms(1) obtain counts where "write_register (snd env) GOAL_POSITION counts (mz, p) = (Inr (), mz', p')"
    by (auto simp: execute_mightyzap_def split: sum.splits)
  then have "mz' = mz" using write_register_ok_frame by blast
  with assms(2-5) show ?thesis
    by (simp add: mightyzap_complete_def observe_step_def observe_turn_def world_defs)
qed

theorem move_succeeds_before_it_moves_witness:
  "\<exists>r'. rw_records (observe_step ''cmd-1'' 3 3 Complete 4 demo_observing) ''cmd-1'' = Some r' \<and>
     cr_outcome r' = Some SUCCEEDED"
proof -
  from demo_move obtain p' where m:
    "execute_mightyzap (\<lambda>_. None, Inr demo_frame) ''move'' demo_params (demo_mightyzap, demo_port) =
       (Inr (), demo_mightyzap, p')" ..
  have rest: "\<not> mz_moving demo_mightyzap" by (simp add: demo_mightyzap_def new_mightyzap_def)
  have f: "tr_frames (rw_runner demo_observing) ''cmd-1'' =
      Some (Observe_start (tr_execution_generation (rw_runner demo_observing)))"
    by code_simp
  have "map_option cr_status (rw_records demo_observing ''cmd-1'') = Some OBSERVING"
    by code_simp
  then obtain r where r: "rw_records demo_observing ''cmd-1'' = Some r" by auto
  have "mightyzap_complete ''move'' demo_mightyzap" using rest by (simp add: mightyzap_complete_def)
  then show ?thesis
    using move_succeeds_before_it_moves [OF m rest f r, of 3 3 4] by (auto simp: OBSERVE_TIMEOUT_S_def)
qed

end
