(* ===== verification/Mpv_Player.thy ===== *)
theory Mpv_Player
  imports Fake_Devices
begin

text \<open>
  The mpv video target: \<open>apps/video/mpv_adapter.py\<close>. The player itself (libmpv) is not the repository's: each
  operation takes what the player answers (its \<open>duration\<close>, and which calls raise) as an input, and the
  record keeps the calls made to the player in their order, as it keeps the events handed to the event
  loop. The idle notification comes on a thread of mpv; it is one step here, taken between two operations.
\<close>

datatype player_call =
    Observe_idle_active
  | Loadfile_replace string
  | Set_pause bool
  | Stop_playback
  | Seek_absolute rat
  | Set_loop_file string
  | Set_volume rat

record player_answer =
  pl_parse :: "string \<Rightarrow> rat option"
  pl_str :: "pyval \<Rightarrow> string"
  pl_duration :: "rat option"
  pl_raises :: "player_call \<Rightarrow> string option"

record mpv_adapter =
  mp_target_id :: string
  mp_media_path :: "string option"
  mp_media_generation :: nat
  mp_connected :: bool
  mp_was_playing :: bool
  mp_loop :: bool
  mp_bound :: bool
  mp_calls :: "player_call list"
  mp_published :: "nat list"

definition new_mpv_adapter :: "string \<Rightarrow> mpv_adapter" where
  "new_mpv_adapter tid =
     \<lparr>mp_target_id = tid, mp_media_path = None, mp_media_generation = 0, mp_connected = True,
      mp_was_playing = False, mp_loop = False, mp_bound = False, mp_calls = [], mp_published = []\<rparr>"

definition bind_mpv_publisher :: "mpv_adapter \<Rightarrow> mpv_adapter" where
  "bind_mpv_publisher mp = mp\<lparr>mp_bound := True\<rparr>"

text \<open>A call to the player, which may raise.\<close>

definition player_call :: "player_answer \<Rightarrow> player_call \<Rightarrow> mpv_adapter \<Rightarrow> (adapter_error + unit) \<times> mpv_adapter" where
  "player_call pl call mp =
     (case pl_raises pl call of
        Some e \<Rightarrow> (Inl (Player_raised e), mp\<lparr>mp_calls := mp_calls mp @ [call]\<rparr>)
      | None \<Rightarrow> (Inr (), mp\<lparr>mp_calls := mp_calls mp @ [call]\<rparr>))"

definition connect_mpv :: "player_answer \<Rightarrow> mpv_adapter \<Rightarrow> (adapter_error + unit) \<times> mpv_adapter" where
  "connect_mpv pl mp = player_call pl Observe_idle_active (mp\<lparr>mp_loop := True\<rparr>)"

definition mpv_manifest :: "mpv_adapter \<Rightarrow> target_manifest" where
  "mpv_manifest mp =
     \<lparr>tm_target_id = mp_target_id mp, tm_plugin_id = ''fusion.apps.video.mpv_adapter'',
      tm_plugin_version = ''0.1.0'', tm_actions = video_actions, tm_capabilities = []\<rparr>"

definition execute_mpv ::
    "player_answer \<Rightarrow> string \<Rightarrow> params \<Rightarrow> mpv_adapter \<Rightarrow> (adapter_error + unit) \<times> mpv_adapter" where
  "execute_mpv pl act params mp =
     (if act = ''prepare'' then
        (let mp1 = mp\<lparr>mp_media_generation := mp_media_generation mp + 1\<rparr>
         in case param params ''media_path'' of
              Inl e \<Rightarrow> (Inl e, mp1)
            | Inr v \<Rightarrow>
                (case player_call pl (Loadfile_replace (pl_str pl v)) (mp1\<lparr>mp_media_path := Some (pl_str pl v)\<rparr>) of
                   (Inl e, mp2) \<Rightarrow> (Inl e, mp2)
                 | (Inr _, mp2) \<Rightarrow> player_call pl (Set_pause True) mp2))
      else if act = ''play'' then
        (if pl_duration pl = None then (Inl No_media_prepared, mp)
         else player_call pl (Set_pause False) (mp\<lparr>mp_was_playing := True\<rparr>))
      else if act = ''pause'' then player_call pl (Set_pause True) mp
      else if act = ''stop'' then player_call pl Stop_playback (mp\<lparr>mp_was_playing := False\<rparr>)
      else if act = ''seek'' then
        (case float_param (pl_parse pl) params ''position_s'' of
           Inl e \<Rightarrow> (Inl e, mp)
         | Inr p \<Rightarrow> player_call pl (Seek_absolute p) mp)
      else if act = ''loop'' then
        (case param params ''enabled'' of
           Inl e \<Rightarrow> (Inl e, mp)
         | Inr v \<Rightarrow> player_call pl (Set_loop_file (if py_bool v then ''inf'' else ''no'')) mp)
      else if act = ''volume'' then
        (case float_param (pl_parse pl) params ''level'' of
           Inl e \<Rightarrow> (Inl e, mp)
         | Inr level \<Rightarrow>
             if \<not> (0 \<le> level \<and> level \<le> 100) then (Inl (Out_of_range level 100), mp)
             else player_call pl (Set_volume level) mp)
      else (Inl (Unknown_action act), mp))"

definition mpv_complete :: "rat option \<Rightarrow> string \<Rightarrow> bool" where
  "mpv_complete duration act \<longleftrightarrow> (if act = ''prepare'' then duration \<noteq> None else True)"

text \<open>
  \<open>snapshot\<close> reads the player's properties: \<open>duration\<close>, \<open>pause\<close>, \<open>time_pos\<close>, \<open>volume\<close> and \<open>loop-file\<close>, the
  last as the value it is compared with.
\<close>

definition mpv_snapshot ::
    "rat option \<Rightarrow> pyval \<Rightarrow> rat option \<Rightarrow> rat option \<Rightarrow> pyval \<Rightarrow> time \<Rightarrow> mpv_adapter \<Rightarrow> target_state" where
  "mpv_snapshot duration pause time_pos volume loop_file now mp =
     \<lparr>ts_target_id = mp_target_id mp, ts_connected = mp_connected mp,
      ts_fields = [(''media_path'', observed (case mp_media_path mp of None \<Rightarrow> PNone | Some p \<Rightarrow> PStr p) now GOOD),
        (''prepared'', observed (PBool (duration \<noteq> None)) now GOOD),
        (''playing'', observed (PBool (\<not> py_bool pause)) now GOOD),
        (''position_s'', observed (PFloat (case time_pos of None \<Rightarrow> 0 | Some t \<Rightarrow> t)) now GOOD),
        (''duration_s'', observed (case duration of None \<Rightarrow> PNone | Some d \<Rightarrow> PFloat d) now GOOD),
        (''volume'', observed (case volume of None \<Rightarrow> PNone | Some l \<Rightarrow> PFloat l) now GOOD),
        (''loop'', observed (PBool (loop_file \<notin> {PNone, PBool False, PStr ''no''})) now GOOD),
        (''media_generation'', observed (PInt (int (mp_media_generation mp))) now GOOD)]\<rparr>"

definition on_idle_active :: "bool \<Rightarrow> mpv_adapter \<Rightarrow> mpv_adapter" where
  "on_idle_active val mp =
     (if val \<and> mp_was_playing mp
      then mp\<lparr>mp_was_playing := False,
              mp_published := mp_published mp @
                (if mp_loop mp \<and> mp_bound mp then [mp_media_generation mp] else [])\<rparr>
      else mp)"

section \<open>The adapter's contract\<close>

lemma player_call_frame [simp]:
  "mp_target_id (snd (player_call pl call mp)) = mp_target_id mp"
  "mp_media_generation (snd (player_call pl call mp)) = mp_media_generation mp"
  "mp_was_playing (snd (player_call pl call mp)) = mp_was_playing mp"
  "mp_published (snd (player_call pl call mp)) = mp_published mp"
  "mp_calls (snd (player_call pl call mp)) = mp_calls mp @ [call]"
  "fst (player_call pl call mp) \<noteq> Inl (Unknown_action act)"
  by (simp_all add: player_call_def split: option.split)

lemma mpv_known: "act \<in> video_names \<Longrightarrow> fst (execute_mpv pl act params mp) \<noteq> Inl (Unknown_action act)"
  unfolding video_names_def insert_iff empty_iff
  by (elim disjE)
    (simp_all add: execute_mpv_def Let_def param_error player_call_def split: sum.split prod.split option.split)

lemma mpv_unknown: "act \<notin> video_names \<Longrightarrow> execute_mpv pl act params mp = (Inl (Unknown_action act), mp)"
  by (simp add: execute_mpv_def video_names_def)

lemma execute_mpv_frame:
  "mp_target_id (snd (execute_mpv pl act params mp)) = mp_target_id mp \<and>
   mp_published (snd (execute_mpv pl act params mp)) = mp_published mp \<and>
   mp_media_generation mp \<le> mp_media_generation (snd (execute_mpv pl act params mp))"
proof (cases "act = ''prepare''")
  case True
  then show ?thesis
    by (auto simp: execute_mpv_def Let_def player_call_def split: sum.split option.split)
qed (simp add: execute_mpv_def split: sum.split)

interpretation mpv: target_adapter mpv_manifest execute_mpv
proof
  fix mp pl act params
  show "distinct (map as_name (tm_actions (mpv_manifest mp)))"
    by (simp add: mpv_manifest_def video_distinct)
  show "mpv_manifest (snd (execute_mpv pl act params mp)) = mpv_manifest mp"
    by (simp add: mpv_manifest_def execute_mpv_frame)
  show "fst (execute_mpv pl act params mp) = Inl (Unknown_action act) \<longleftrightarrow> get_action (mpv_manifest mp) act = None"
    using mpv_known [of act pl params mp] mpv_unknown [of act pl params mp]
    by (cases "act \<in> video_names") (simp_all add: get_action_def mpv_manifest_def video_action)
  show "snd (execute_mpv pl act params mp) = mp" if "get_action (mpv_manifest mp) act = None"
    using that mpv_unknown [of act pl params mp]
    by (simp add: get_action_def mpv_manifest_def video_action)
qed

section \<open>The end of a playback is reported once\<close>

datatype mpv_op =
    Mpv_execute player_answer string params
  | Mpv_connect player_answer
  | Mpv_bind
  | Mpv_idle bool

fun mpv_perform :: "mpv_op \<Rightarrow> mpv_adapter \<Rightarrow> mpv_adapter" where
  "mpv_perform (Mpv_execute pl act params) mp = snd (execute_mpv pl act params mp)"
| "mpv_perform (Mpv_connect pl) mp = snd (connect_mpv pl mp)"
| "mpv_perform Mpv_bind mp = bind_mpv_publisher mp"
| "mpv_perform (Mpv_idle val) mp = on_idle_active val mp"

text \<open>The operation starts a playback: a \<open>play\<close> that got past the check of the duration.\<close>

fun starts_playback :: "mpv_op \<Rightarrow> bool" where
  "starts_playback (Mpv_execute pl act params) \<longleftrightarrow> act = ''play'' \<and> pl_duration pl \<noteq> None"
| "starts_playback _ \<longleftrightarrow> False"

definition plays :: "mpv_op list \<Rightarrow> nat" where
  "plays ops = size (filter starts_playback ops)"

definition ended_reports :: "mpv_adapter \<Rightarrow> nat" where
  "ended_reports mp = size (mp_published mp) + (if mp_was_playing mp then 1 else 0)"

definition generations_ok :: "mpv_adapter \<Rightarrow> bool" where
  "generations_ok mp \<longleftrightarrow> sorted (mp_published mp) \<and> (\<forall>g \<in> set (mp_published mp). g \<le> mp_media_generation mp)"

lemma was_playing_execute:
  "mp_was_playing (snd (execute_mpv pl act params mp)) \<longleftrightarrow>
   (if act = ''play'' \<and> pl_duration pl \<noteq> None then True else if act = ''stop'' then False else mp_was_playing mp)"
proof (cases "act \<in> video_names")
  case True
  then show ?thesis
    unfolding video_names_def insert_iff empty_iff
    by (elim disjE) (auto simp: execute_mpv_def Let_def player_call_def split: sum.split option.split)
qed (auto simp: mpv_unknown video_names_def)

lemma mpv_perform_ok:
  assumes "generations_ok mp"
  shows "ended_reports (mpv_perform p mp) \<le> ended_reports mp + (if starts_playback p then 1 else 0) \<and>
    generations_ok (mpv_perform p mp)"
proof (cases p)
  case (Mpv_execute pl act params)
  with assms execute_mpv_frame [of pl act params mp] show ?thesis
    by (auto simp: ended_reports_def generations_ok_def was_playing_execute intro: le_trans)
next
  case Mpv_idle
  with assms show ?thesis
    by (auto simp: ended_reports_def generations_ok_def on_idle_active_def sorted_append)
qed (use assms in \<open>simp_all add: ended_reports_def generations_ok_def connect_mpv_def bind_mpv_publisher_def\<close>)

lemma mpv_run_ok:
  assumes "generations_ok mp"
  shows "ended_reports (fold mpv_perform ops mp) \<le> ended_reports mp + plays ops \<and>
    generations_ok (fold mpv_perform ops mp)"
  using assms
proof (induction ops arbitrary: mp)
  case (Cons p ops)
  from mpv_perform_ok [OF Cons.prems, of p] Cons.IH [of "mpv_perform p mp"] show ?case
    by (auto simp: plays_def)
qed (simp add: plays_def)

text \<open>
  The mpv target says that a playback ended at most once for each \<open>play\<close> it accepted, however often the
  player reports that it is idle, and whatever else is executed in between; the media generations of
  these events never go back and never name a medium that was not asked for yet.
\<close>

theorem playback_ended_once:
  "let mp = fold mpv_perform ops (new_mpv_adapter tid)
   in size (mp_published mp) \<le> plays ops \<and> sorted (mp_published mp) \<and>
      set (mp_published mp) \<subseteq> {..mp_media_generation mp}"
  using mpv_run_ok [of "new_mpv_adapter tid" ops]
  by (auto simp: Let_def new_mpv_adapter_def generations_ok_def ended_reports_def split: if_splits)

end
