(* ===== verification/Entry_Points.thy ===== *)
theory Entry_Points
  imports Scheduler_System Fake_Devices Mightyzap Mpv_Player
begin

text \<open>
  The entry points (\<open>apps/*/main*.py\<close>): how a command line is read, how each process assembles the parts
  modelled in the other theories, and what its main coroutine does. \<open>argparse\<close>, uvicorn, Qt and the player
  library are not modelled; Python's \<open>int(text)\<close> is an argument (\<open>None\<close> for \<open>ValueError\<close>).
\<close>

section \<open>Command line values\<close>

fun partition_at :: "char \<Rightarrow> string \<Rightarrow> (string \<times> string) option" where
  "partition_at c [] = None"
| "partition_at c (x # xs) =
     (if x = c then Some ([], xs) else map_option (\<lambda>(a, b). (x # a, b)) (partition_at c xs))"

text \<open>\<open>str.partition\<close> and \<open>str.rpartition\<close>, without the separator they return.\<close>

definition py_partition :: "char \<Rightarrow> string \<Rightarrow> string \<times> string" where
  "py_partition c s = (case partition_at c s of None \<Rightarrow> (s, []) | Some (a, b) \<Rightarrow> (a, b))"

definition py_rpartition :: "char \<Rightarrow> string \<Rightarrow> string \<times> string" where
  "py_rpartition c s = (case partition_at c (List.rev s) of None \<Rightarrow> ([], s) | Some (a, b) \<Rightarrow> (List.rev b, List.rev a))"

text \<open>\<open>None\<close> is the \<open>ValueError\<close> of \<open>int\<close>.\<close>

definition split_host_port :: "(string \<Rightarrow> int option) \<Rightarrow> string \<Rightarrow> (string \<times> int) option" where
  "split_host_port parse_int value =
     (let (host, port) = py_rpartition (CHR '':'') value in map_option (\<lambda>n. (host, n)) (parse_int port))"

definition endpoint_host_port :: "(string \<Rightarrow> int option) \<Rightarrow> string \<Rightarrow> (string \<times> int) option" where
  "endpoint_host_port parse_int value =
     (let (host, port) = py_rpartition (CHR '':'') value
      in map_option (\<lambda>n. (if host = [] then ''0.0.0.0'' else host, n)) (parse_int port))"

definition split_port_baud :: "(string \<Rightarrow> int option) \<Rightarrow> string \<Rightarrow> (string \<times> int) option" where
  "split_port_baud parse_int value =
     (let (port, baud) = py_partition (CHR '':'') value
      in if baud = [] then Some (port, 9600) else map_option (\<lambda>n. (port, n)) (parse_int baud))"

text \<open>
  The positional arguments: the address a window connects to, and the serial port of the MightyZap process (\<open>None\<close> is
  its \<open>SystemExit(2)\<close>). \<open>argv\<close> has the program's name first.
\<close>

definition url_argument :: "string \<Rightarrow> string list \<Rightarrow> string" where
  "url_argument default_url argv = (if length argv > 1 then argv ! 1 else default_url)"

definition serial_port_argument :: "string list \<Rightarrow> string option" where
  "serial_port_argument argv = (if length argv < 2 then None else Some (argv ! 1))"

text \<open>\<open>ensure_plugins_on_path\<close>: the new \<open>sys.path\<close>; \<open>is_dir\<close> is what the file system answers.\<close>

definition ensure_plugins_on_path :: "(string \<Rightarrow> bool) \<Rightarrow> string \<Rightarrow> string list \<Rightarrow> string list" where
  "ensure_plugins_on_path is_dir plugins_dir path =
     (if is_dir plugins_dir \<and> plugins_dir \<notin> set path then plugins_dir # path else path)"

text \<open>The search path of \<open>main_mpv.py\<close>, a text: the fallback is put in front unless it occurs in it.\<close>

fun occurs_in :: "string \<Rightarrow> string \<Rightarrow> bool" where
  "occurs_in sub [] \<longleftrightarrow> sub = []"
| "occurs_in sub (c # s) \<longleftrightarrow> take (length sub) (c # s) = sub \<or> occurs_in sub s"

definition library_path :: "(string \<Rightarrow> bool) \<Rightarrow> string \<Rightarrow> string \<Rightarrow> string \<Rightarrow> string" where
  "library_path is_dir fallback sep path =
     (if is_dir fallback \<and> \<not> occurs_in fallback path then fallback @ sep @ path else path)"

lemma plugins_path_idem:
  "ensure_plugins_on_path is_dir d (ensure_plugins_on_path is_dir d path) = ensure_plugins_on_path is_dir d path"
  by (simp add: ensure_plugins_on_path_def)

lemma occurs_in_prefix: "occurs_in sub (sub @ s)"
proof (cases "sub @ s")
  case (Cons a list)
  then have "take (length sub) (a # list) = sub" by (metis append_eq_conv_conj)
  with Cons show ?thesis by simp
qed simp

lemma library_path_idem: "library_path is_dir f sep (library_path is_dir f sep path) = library_path is_dir f sep path"
  by (simp add: library_path_def occurs_in_prefix)

lemma partition_at_append:
  "c \<notin> set a \<Longrightarrow> partition_at c (a @ c # b) = Some (a, b)"
  by (induction a) auto

lemma partition_at_None: "c \<notin> set s \<Longrightarrow> partition_at c s = None"
  by (induction s) auto

lemma py_rpartition_last: "c \<notin> set b \<Longrightarrow> py_rpartition c (a @ c # b) = (a, b)"
  using partition_at_append [of c "List.rev b" "List.rev a"] by (simp add: py_rpartition_def)

lemma py_partition_first: "c \<notin> set a \<Longrightarrow> py_partition c (a @ c # b) = (a, b)"
  by (simp add: py_partition_def partition_at_append)

section \<open>Runtimes\<close>

text \<open>
  \<open>build()\<close> of each Runtime process: the Runtime, or the \<open>ValueError\<close> of its constructor, and its adapter.
  \<open>boot\<close> is the fresh boot id and \<open>blobs\<close> the store it opens.
\<close>

definition build_motor :: "string \<Rightarrow> blob_store \<Rightarrow> string + device_runtime \<times> fake_motor" where
  "build_motor boot blobs =
     (let adapter = new_fake_motor ''motor01'' False
      in case new_device_runtime ''motor-01'' boot [(''motor01'', motor_manifest adapter)] blobs of
           Inl e \<Rightarrow> Inl e
         | Inr rt \<Rightarrow> Inr (rt, adapter))"

definition STROKE_MM :: rat where "STROKE_MM = 87"

definition build_mightyzap :: "(rat \<Rightarrow> string) \<Rightarrow> time \<Rightarrow> string \<Rightarrow> blob_store \<Rightarrow> string + device_runtime \<times> mightyzap" where
  "build_mightyzap fmt now boot blobs =
     (let adapter = new_mightyzap ''motor01'' 1 STROKE_MM now
      in case new_device_runtime ''motor-mightyzap-01'' boot [(''motor01'', mightyzap_manifest fmt adapter)] blobs of
           Inl e \<Rightarrow> Inl e
         | Inr rt \<Rightarrow> Inr (rt, adapter))"

text \<open>\<open>_connect_all\<close>: in order, the first connection that raises ends it. \<open>connect\<close> is what each adapter does.\<close>

fun connect_all :: "('a \<Rightarrow> (session_error + unit) \<times> 'a) \<Rightarrow> (string, 'a) dict \<Rightarrow> (session_error + unit) \<times> (string, 'a) dict" where
  "connect_all connect [] = (Inr (), [])"
| "connect_all connect ((tid, a) # adapters) =
     (case connect a of
        (Inl e, a') \<Rightarrow> (Inl e, (tid, a') # adapters)
      | (Inr _, a') \<Rightarrow> (let (res, rest) = connect_all connect adapters in (res, (tid, a') # rest)))"

definition DEFAULT_FAKE_DURATION_S :: rat where "DEFAULT_FAKE_DURATION_S = 2"

definition build_video :: "string \<Rightarrow> blob_store \<Rightarrow> string + device_runtime \<times> fake_video" where
  "build_video boot blobs =
     (let adapter = new_fake_video ''output1'' DEFAULT_FAKE_DURATION_S
      in case new_device_runtime ''video-01'' boot [(''output1'', video_manifest adapter)] blobs of
           Inl e \<Rightarrow> Inl e
         | Inr rt \<Rightarrow> Inr (rt, bind_event_publisher adapter))"

text \<open>The part of \<open>run()\<close> of \<open>main_mpv.py\<close> that assembles the Runtime.\<close>

definition build_mpv :: "string \<Rightarrow> blob_store \<Rightarrow> string + device_runtime \<times> mpv_adapter" where
  "build_mpv boot blobs =
     (let adapter = new_mpv_adapter ''output1''
      in case new_device_runtime ''video-mpv-01'' boot [(''output1'', mpv_manifest adapter)] blobs of
           Inl e \<Rightarrow> Inl e
         | Inr rt \<Rightarrow> Inr (rt, bind_mpv_publisher adapter))"

text \<open>The \<open>_publish\<close> that both video processes bind: the adapter's events become events of the Runtime.\<close>

definition publish_output :: "string \<Rightarrow> params \<Rightarrow> string \<times> time \<Rightarrow> device_runtime \<Rightarrow> device_runtime" where
  "publish_output type payload ew rt = snd (publish_event type (Some ''output1'') payload ew rt)"

text \<open>The main part of the Motor process: with a broker the MQTT task runs around the server and is stopped however that ends.\<close>

datatype motor_action = Mqtt_start string int | Serve_http | Mqtt_stop

definition motor_main :: "(string \<Rightarrow> int option) \<Rightarrow> string option \<Rightarrow> motor_action list option" where
  "motor_main parse_int mqtt =
     (case mqtt of
        None \<Rightarrow> Some [Serve_http]
      | Some value \<Rightarrow>
          if value = [] then Some [Serve_http]
          else map_option (\<lambda>(host, port). [Mqtt_start host port, Serve_http, Mqtt_stop]) (split_host_port parse_int value))"

text \<open>A Runtime is consistent with its adapters: a runner for each target, under the id its manifest declares.\<close>

definition assembled :: "device_runtime \<Rightarrow> bool" where
  "assembled rt \<longleftrightarrow> dkeys (rt_runners rt) = dkeys (rt_adapters rt) \<and>
     (\<forall>(tid, m) \<in> set (rt_adapters rt). tm_target_id m = tid \<and> validate_manifest m = Inr ())"

lemma new_device_runtime_one:
  assumes "distinct (map as_name (tm_actions m))" and "tm_target_id m = tid"
  shows "\<exists>rt. new_device_runtime rid boot [(tid, m)] blobs = Inr rt \<and> assembled rt \<and> rt_runtime_id rt = rid"
proof -
  have "validate_manifest m = Inr ()" using assms(1) by (simp add: validate_manifest_ok)
  with assms(2) show ?thesis by (simp add: new_device_runtime_def assembled_def)
qed

lemma manifests_of_processes:
  "distinct (map as_name (tm_actions (motor_manifest fm)))" "tm_target_id (motor_manifest fm) = fm_target_id fm"
  "distinct (map as_name (tm_actions (mightyzap_manifest fmt mz)))" "tm_target_id (mightyzap_manifest fmt mz) = mz_target_id mz"
  "distinct (map as_name (tm_actions (video_manifest fv)))" "tm_target_id (video_manifest fv) = fv_target_id fv"
  "distinct (map as_name (tm_actions (mpv_manifest mp)))" "tm_target_id (mpv_manifest mp) = mp_target_id mp"
  by (simp_all add: motor_manifest_def mightyzap_manifest_def video_manifest_def mpv_manifest_def video_actions_def)

section \<open>The video output process\<close>

text \<open>\<open>prepare_geometry\<close>: the screen it moves to (\<open>None\<close> is the \<open>IndexError\<close> when there is none), and whether on top.\<close>

definition prepare_geometry :: "int \<Rightarrow> bool \<Rightarrow> 'screen list \<Rightarrow> ('screen \<times> bool) option" where
  "prepare_geometry screen_index fullscreen screens =
     (if 0 \<le> screen_index \<and> screen_index < int (length screens) then Some (screens ! nat screen_index, fullscreen)
      else case screens of [] \<Rightarrow> None | s # _ \<Rightarrow> Some (s, fullscreen))"

text \<open>The preview route: \<open>Inl\<close> is the 404, \<open>Inr\<close> the path that the adapter captures to and that is sent.\<close>

definition preview_route :: "string \<Rightarrow> string \<Rightarrow> mpv_adapter \<Rightarrow> string + string" where
  "preview_route tempdir target_id mp =
     (if target_id \<noteq> mp_target_id mp then Inl (''unknown target '' @ quoted target_id)
      else Inr (tempdir @ ''/'' @ ''fusion-video-preview-'' @ target_id @ ''.jpg''))"

lemma preview_route_own: "preview_route d t mp = Inr path \<Longrightarrow> path = d @ ''/fusion-video-preview-'' @ mp_target_id mp @ ''.jpg''"
  by (simp add: preview_route_def split: if_splits)

section \<open>Schedulers\<close>

definition move_cue :: "string \<Rightarrow> int \<Rightarrow> int \<Rightarrow> string list \<Rightarrow> cue" where
  "move_cue cid at_ms position depends_on =
     \<lparr>cue_id = cid, cue_at_ms = at_ms, cue_runtime = ''motor'', cue_target_id = ''motor01'', cue_action = ''move'',
      cue_params = [(''position'', PInt position)], cue_completion_requirement = Req_OBSERVED, cue_depends_on = depends_on,
      cue_late_policy = default_late_policy\<rparr>"

definition DEMO_TIMELINE :: timeline where
  "DEMO_TIMELINE = [move_cue ''cue-1'' 0 100 [], move_cue ''cue-2'' 200 300 [''cue-1'']]"

definition ENDPOINTS_TIMELINE :: timeline where
  "ENDPOINTS_TIMELINE = [move_cue ''cue-1'' 0 100 []]"

definition external_start :: "string \<Rightarrow> trigger" where
  "external_start button_type =
     \<lparr>tg_trigger_id = ''external-start'',
      tg_condition = \<lparr>tc_source = None, tc_type = button_type, tc_comparator = Cmp_eq, tc_value = PBool True\<rparr>,
      tg_action = Act_start, tg_show_states = Some [show_state_value ARMED], tg_debounce_ms = 200, tg_cooldown_ms = 1000\<rparr>"

text \<open>The Scheduler of \<open>main_endpoints.py\<close> and the one of \<open>main.py\<close>; \<open>Inl\<close> is the \<open>ValueError\<close> of \<open>load_timeline\<close>.\<close>

definition endpoints_scheduler :: "string \<Rightarrow> string + scheduler" where
  "endpoints_scheduler button_type =
     (case load_timeline ENDPOINTS_TIMELINE (new_scheduler [''motor'']) of
        Inl e \<Rightarrow> Inl e
      | Inr sch \<Rightarrow> Inr (register_scheduler_trigger (external_start button_type) sch))"

definition demo_scheduler :: "string + scheduler" where
  "demo_scheduler = load_timeline DEMO_TIMELINE (new_scheduler [''motor''])"

subsection \<open>main.py\<close>

text \<open>It polls every 0.05 s until the Show is no longer RUNNING; the states are those it sees.\<close>

fun demo_polls :: "show_state list \<Rightarrow> show_state option" where
  "demo_polls [] = None"
| "demo_polls (st # sts) = (if st = RUNNING then demo_polls sts else Some st)"

subsection \<open>main\_endpoints.py\<close>

record endpoint_args =
  ea_serial :: "string option"
  ea_udp :: "string option"
  ea_osc :: "string option"

datatype endpoint =
    Serial_endpoint string int
  | Udp_endpoint string int
  | Osc_endpoint string int

definition given :: "string option \<Rightarrow> bool" where
  "given x \<longleftrightarrow> x \<noteq> None \<and> x \<noteq> Some []"

text \<open>The endpoints made, or \<open>None\<close> for the \<open>SystemExit\<close> or a \<open>ValueError\<close>.\<close>

definition make_endpoint :: "(string \<Rightarrow> (string \<times> int) option) \<Rightarrow> (string \<Rightarrow> int \<Rightarrow> endpoint) \<Rightarrow> string option \<Rightarrow> endpoint list option" where
  "make_endpoint split build arg =
     (if given arg then map_option (\<lambda>(a, n). [build a n]) (split (the arg)) else Some [])"

definition make_endpoints :: "(string \<Rightarrow> int option) \<Rightarrow> endpoint_args \<Rightarrow> endpoint list option" where
  "make_endpoints parse_int args =
     (if \<not> (given (ea_serial args) \<or> given (ea_udp args) \<or> given (ea_osc args)) then None
      else case make_endpoint (split_port_baud parse_int) Serial_endpoint (ea_serial args) of
          None \<Rightarrow> None
        | Some es \<Rightarrow>
            (case make_endpoint (endpoint_host_port parse_int) Udp_endpoint (ea_udp args) of
               None \<Rightarrow> None
             | Some es' \<Rightarrow> map_option (\<lambda>es''. es @ es' @ es'') (make_endpoint (endpoint_host_port parse_int) Osc_endpoint (ea_osc args))))"

text \<open>
  What \<open>_main\<close> does to the endpoints and the client, in order: \<open>starts\<close> and \<open>stops\<close> say which calls return, and
  \<open>body\<close> is what the \<open>try\<close> block does, however it ends.
\<close>

datatype main_action = Start_endpoint endpoint | Stop_endpoint endpoint | Main_body | Close_client

fun start_endpoints :: "(endpoint \<Rightarrow> bool) \<Rightarrow> endpoint list \<Rightarrow> main_action list \<times> bool" where
  "start_endpoints starts [] = ([], True)"
| "start_endpoints starts (e # es) =
     (if starts e then let (acts, ok) = start_endpoints starts es in (Start_endpoint e # acts, ok) else ([Start_endpoint e], False))"

fun stop_endpoints :: "(endpoint \<Rightarrow> bool) \<Rightarrow> endpoint list \<Rightarrow> main_action list \<times> bool" where
  "stop_endpoints stops [] = ([], True)"
| "stop_endpoints stops (e # es) =
     (if stops e then let (acts, ok) = stop_endpoints stops es in (Stop_endpoint e # acts, ok) else ([Stop_endpoint e], False))"

definition endpoints_main :: "(endpoint \<Rightarrow> bool) \<Rightarrow> (endpoint \<Rightarrow> bool) \<Rightarrow> endpoint list \<Rightarrow> main_action list" where
  "endpoints_main starts stops es =
     (let (started, ok) = start_endpoints starts es
      in if \<not> ok then started
         else let (stopped, ok') = stop_endpoints stops es
              in started @ [Main_body] @ stopped @ (if ok' then [Close_client] else []))"

text \<open>The test of the loop at the end of the \<open>try\<close> block.\<close>

definition show_over :: "show_state \<Rightarrow> show_state \<Rightarrow> bool" where
  "show_over armed_at st \<longleftrightarrow> st \<noteq> armed_at \<and> st \<in> {IDLE, FAULTED}"

section \<open>Runs of the endpoint Scheduler\<close>

text \<open>
  Inputs arrive from the moment the endpoints are started; the main coroutine arms the Show once; the run ends
  by returning or raising, as nothing in this process cancels it.
\<close>

definition endpoints_step :: "system_op \<Rightarrow> scheduler_system \<Rightarrow> bool" where
  "endpoints_step p s \<longleftrightarrow> system_ok p s \<and>
     (case p of
        Ss_input _ _ _ _ _ _ \<Rightarrow> True
      | Ss_arm _ \<Rightarrow> sc_changes (system_show s) = []
      | Ss_prepared _ _ \<Rightarrow> True
      | Ss_run_end fin _ \<Rightarrow> fin \<noteq> Inl Call_cancelled
      | _ \<Rightarrow> False)"

inductive endpoints_run :: "scheduler \<Rightarrow> scheduler_system \<Rightarrow> bool" for sch where
  endpoints_new: "endpoints_run sch (new_system sch)"
| endpoints_next: "endpoints_run sch s \<Longrightarrow> endpoints_step p s \<Longrightarrow> endpoints_run sch (system_perform p s)"

lemma endpoints_triggered: "endpoints_run sch s \<Longrightarrow> triggered_run sch s"
  by (induction rule: endpoints_run.induct)
    (auto intro!: triggered_run.intros simp: endpoints_step_def)

text \<open>The path of the controller: armed once, started once, ended once.\<close>

definition on_path :: "show_controller \<Rightarrow> bool" where
  "on_path sc \<longleftrightarrow>
     sc_tasks sc = Map.empty \<and>
       (sc_changes sc, sc_state sc) \<in> {([], IDLE), ([PREPARING], PREPARING), ([PREPARING, IDLE], IDLE),
          ([PREPARING, ARMED], ARMED), ([PREPARING, ARMED, RUNNING, IDLE], IDLE), ([PREPARING, ARMED, RUNNING, FAULTED], FAULTED)} \<or>
     (\<exists>t. sc_tasks sc = [t \<mapsto> False] \<and> sc_changes sc = [PREPARING, ARMED, RUNNING] \<and> sc_state sc = RUNNING)"

lemma on_path_start:
  assumes "on_path sc" and "start run_id t sc = Inr sc'"
  shows "on_path sc'"
proof -
  from assms(2) have armed: "sc_state sc = ARMED"
    and sc': "sc' = (set_state RUNNING (sc\<lparr>sc_run_id := Some run_id, sc_last_error := None, sc_hold_requested := False\<rparr>))
      \<lparr>sc_run_task := Some t, sc_tasks := (sc_tasks sc)(t \<mapsto> False)\<rparr>"
    unfolding start_def by (simp_all split: if_splits)
  from armed assms(1) have "sc_tasks sc = Map.empty" "sc_changes sc = [PREPARING, ARMED]"
    by (auto simp: on_path_def)
  then show ?thesis by (simp add: on_path_def sc' set_state_def armed) (rule exI, rule refl)
qed

lemma on_path_perform:
  assumes "on_path (system_show s)" and "show_inv (system_show s)" and "endpoints_step p s"
    and "armed_starts (te_triggers (sch_triggers (ss_scheduler s)))"
  shows "on_path (system_show (system_perform p s))"
proof (cases p)
  case (Ss_input h run_id task parse now ev)
  let ?s = "s\<lparr>ss_clock := now\<rparr>"
  from run_handle_once [OF assms(4), of parse h run_id task now ev ?s] show ?thesis
    using assms(1) on_path_start [of "system_show s" run_id task] by (auto simp: Ss_input fire_input_def)
next
  case (Ss_arm a)
  with assms(1,3) show ?thesis
    by (auto simp: endpoints_step_def on_path_def or_same_def on_controller_def arm_begin_def set_state_def system_show_def
        split: sum.split)
next
  case (Ss_prepared answer a)
  obtain res where "sch_controller (arm_prepared answer a (ss_scheduler s)) = arm_resume res a (system_show s)"
    using arm_prepared_show [of answer a "ss_scheduler s"] by (auto simp: system_show_def)
  moreover have "sc_frames (system_show s) a = Some In_prepare \<Longrightarrow> sc_state (system_show s) = PREPARING"
    using assms(2) by (cases "sc_state (system_show s)") (auto simp: show_inv_def split: if_splits)
  ultimately show ?thesis
    using assms(1) by (auto simp: Ss_prepared on_path_def arm_resume_def set_state_def Let_def split: call_result.split)
next
  case (Ss_run_end fin t)
  obtain res where "sch_controller (run_end fin t (ss_scheduler s)) = drive_end res t (system_show s)"
    and "fin \<noteq> Inl Call_cancelled \<Longrightarrow> res \<noteq> Call_cancelled"
    by (cases fin) (auto simp: run_end_def Let_def system_show_def)
  with assms(1,3) show ?thesis
    by (cases res) (auto simp: Ss_run_end endpoints_step_def on_path_def drive_end_def set_state_def Let_def split: if_splits)
qed (use assms(3) in \<open>auto simp: endpoints_step_def\<close>)

lemma endpoints_on_path:
  assumes "endpoints_run sch s" and "sch_controller sch = new_show_controller"
    and "armed_starts (te_triggers (sch_triggers sch))"
  shows "on_path (system_show s) \<and> show_inv (system_show s) \<and> armed_starts (te_triggers (sch_triggers (ss_scheduler s)))"
proof -
  have r: "system_run sch s'" if "endpoints_run sch s'" for s'
    using triggered_system_run endpoints_triggered that by blast
  have inv: "show_inv (system_show s')" if "endpoints_run sch s'" for s'
    using system_show_run [OF r [OF that] assms(2)] show_run_inv by blast
  have ts: "te_triggers (sch_triggers (ss_scheduler s')) = te_triggers (sch_triggers sch)" if "endpoints_run sch s'" for s'
    using no_error_run [OF r [OF that] refl assms(3)] by blast
  have "on_path (system_show s)"
    using assms(1)
  proof (induction rule: endpoints_run.induct)
    case endpoints_new
    then show ?case using assms(2) by (simp add: new_system_def system_show_def on_path_def new_show_controller_def)
  next
    case (endpoints_next s p)
    then show ?case using on_path_perform inv ts assms(3) by simp
  qed
  with inv [OF assms(1)] ts [OF assms(1)] assms(3) show ?thesis by simp
qed

section \<open>Properties\<close>

text \<open>
  Every Runtime process comes up: each of the four assemblies passes the checks of the Runtime's constructor, and
  the Runtime has exactly its one target, whose runner and manifest carry the id of the adapter that was made.
\<close>

theorem processes_assemble:
  "(\<exists>rt. build_motor boot blobs = Inr (rt, new_fake_motor ''motor01'' False) \<and> assembled rt \<and>
      dkeys (rt_adapters rt) = [''motor01'']) \<and>
   (\<exists>rt. build_mightyzap fmt now boot blobs = Inr (rt, new_mightyzap ''motor01'' 1 STROKE_MM now) \<and> assembled rt \<and>
      dkeys (rt_adapters rt) = [''motor01'']) \<and>
   (\<exists>rt fv. build_video boot blobs = Inr (rt, fv) \<and> fv_bound fv \<and> fv_target_id fv = ''output1'' \<and> assembled rt \<and>
      dkeys (rt_adapters rt) = [''output1'']) \<and>
   (\<exists>rt mp. build_mpv boot blobs = Inr (rt, mp) \<and> mp_bound mp \<and> mp_target_id mp = ''output1'' \<and> assembled rt \<and>
      dkeys (rt_adapters rt) = [''output1''])"
proof -
  have one: "\<exists>rt. new_device_runtime rid boot [(tid, m)] blobs = Inr rt \<and> assembled rt \<and> dkeys (rt_adapters rt) = [tid]"
    if "distinct (map as_name (tm_actions m))" "tm_target_id m = tid" for rid tid m
  proof -
    have "validate_manifest m = Inr ()" using that(1) by (simp add: validate_manifest_ok)
    with that(2) show ?thesis by (simp add: new_device_runtime_def assembled_def)
  qed
  show ?thesis
    using one [OF manifests_of_processes(1,2) [where fm = "new_fake_motor ''motor01'' False"], of "''motor-01''"]
      one [OF manifests_of_processes(3,4) [where fmt = fmt and mz = "new_mightyzap ''motor01'' 1 STROKE_MM now"], of "''motor-mightyzap-01''"]
      one [OF manifests_of_processes(5,6) [where fv = "new_fake_video ''output1'' DEFAULT_FAKE_DURATION_S"], of "''video-01''"]
      one [OF manifests_of_processes(7,8) [where mp = "new_mpv_adapter ''output1''"], of "''video-mpv-01''"]
    by (auto simp: build_motor_def build_mightyzap_def build_video_def build_mpv_def Let_def new_fake_motor_def
        new_mightyzap_def new_fake_video_def new_mpv_adapter_def bind_event_publisher_def bind_mpv_publisher_def)
qed

lemma demo_timelines_valid: "validate_timeline DEMO_TIMELINE = []" "validate_timeline ENDPOINTS_TIMELINE = []"
  by code_simp+

lemma schedulers_load:
  "demo_scheduler = Inr ((new_scheduler [''motor''])\<lparr>sch_timeline := Some DEMO_TIMELINE\<rparr>)"
  "endpoints_scheduler bt = Inr (register_scheduler_trigger (external_start bt)
     ((new_scheduler [''motor''])\<lparr>sch_timeline := Some ENDPOINTS_TIMELINE\<rparr>))"
  by (simp_all add: demo_scheduler_def endpoints_scheduler_def load_timeline_def demo_timelines_valid)

lemma endpoints_start:
  assumes "endpoints_scheduler bt = Inr sch"
  shows "sch_controller sch = new_show_controller" "te_triggers (sch_triggers sch) = [external_start bt]"
    "armed_starts (te_triggers (sch_triggers sch))"
  using assms
  by (auto simp: schedulers_load register_scheduler_trigger_def register_trigger_def new_scheduler_def new_trigger_engine_def
      armed_starts_def external_start_def)

text \<open>
  The endpoint Scheduler runs one Show per process and its wait loop ends exactly when that Show has ended: in any
  interleaving of inputs with arming and the end of the run, once the Show was armed, the loop's test holds if
  and only if the Show was started and no run is live; and once it holds it holds at every later poll.
\<close>

theorem endpoints_exit_exact:
  assumes "endpoints_scheduler button_type = Inr sch" and "endpoints_run sch s" and "entered ARMED (system_show s) = 1"
  shows "(show_over ARMED (sc_state (system_show s)) \<longleftrightarrow>
      entered RUNNING (system_show s) = 1 \<and> sc_tasks (system_show s) = Map.empty) \<and>
    (endpoints_step p s \<and> show_over ARMED (sc_state (system_show s)) \<longrightarrow>
       show_over ARMED (sc_state (system_show (system_perform p s))))"
proof -
  note inv = endpoints_on_path [OF _ endpoints_start(1,3) [OF assms(1)]]
  have exact: "show_over ARMED (sc_state sc) \<longleftrightarrow> entered RUNNING sc = 1 \<and> sc_tasks sc = Map.empty"
    if "on_path sc" "entered ARMED sc = 1" for sc
  proof -
    have "(\<lambda>x. None) \<noteq> [t \<mapsto> False]" for t :: nat by (metis map_upd_nonempty)
    with that show ?thesis by (auto simp: on_path_def show_over_def entered_def)
  qed
  have stays: "show_over ARMED (sc_state (system_show (system_perform p s)))"
    if step: "endpoints_step p s" and over: "show_over ARMED (sc_state (system_show s))"
  proof -
    let ?sc' = "system_show (system_perform p s)"
    have path: "on_path ?sc'" "show_inv ?sc'"
      using inv [OF endpoints_next [OF assms(2) step]] by blast+
    have "sc_changes (system_show s) \<noteq> []" and "length (sc_changes (system_show s)) = 4"
      using inv [OF assms(2)] over assms(3) by (auto simp: on_path_def show_over_def entered_def)
    moreover have "length (sc_changes (system_show s)) \<le> length (sc_changes ?sc')"
      using system_perform_steps [of p s] step
    proof -
      have "show_steps sc sc' \<Longrightarrow> length (sc_changes sc) \<le> length (sc_changes sc')" for sc sc'
      proof (induction rule: show_steps.induct)
        case (steps_step sc sc' q)
        have "length (sc_changes sc') \<le> length (sc_changes (show_perform q sc'))"
          by (cases q) (auto simp: show_defs split: option.split call_result.split show_frame.split)
        with steps_step.IH show ?case by simp
      qed simp
      with system_perform_steps [of p s] step show ?thesis by (simp add: endpoints_step_def)
    qed
    ultimately show ?thesis
      using path(1) by (auto simp: on_path_def show_over_def)
  qed
  show ?thesis
    using exact [OF _ assms(3)] inv [OF assms(2)] stays by blast
qed

definition demo_endpoint_ops :: "system_op list" where
  "demo_endpoint_ops = [Ss_arm 0, Ss_prepared (\<lambda>_. Prepared ''s1'') 0,
     Ss_input 1 ''run1'' 0 (\<lambda>_. None) 1 (press_event ''udp:9000'' ''start'' (PBool True) 1),
     Ss_run_end (Inr [(''cue-1'', SUCCESS)]) 0]"

fun endpoints_ok :: "system_op list \<Rightarrow> scheduler_system \<Rightarrow> bool" where
  "endpoints_ok [] s \<longleftrightarrow> True"
| "endpoints_ok (p # ps) s \<longleftrightarrow> endpoints_step p s \<and> endpoints_ok ps (system_perform p s)"

lemma endpoints_ok_run: "endpoints_run sch s \<Longrightarrow> endpoints_ok ps s \<Longrightarrow> endpoints_run sch (fold system_perform ps s)"
  by (induction ps arbitrary: s) (auto intro: endpoints_run.intros)

theorem endpoints_exit_exact_witness:
  "\<exists>sch. endpoints_scheduler ''start'' = Inr sch \<and>
     show_over ARMED (sc_state (system_show (fold system_perform demo_endpoint_ops (new_system sch))))"
proof -
  define sch where "sch = register_scheduler_trigger (external_start ''start'')
     ((new_scheduler [''motor''])\<lparr>sch_timeline := Some ENDPOINTS_TIMELINE\<rparr>)"
  let ?s = "fold system_perform demo_endpoint_ops (new_system sch)"
  have sch: "endpoints_scheduler ''start'' = Inr sch" by (simp add: schedulers_load sch_def)
  note eval = demo_endpoint_ops_def system_eval sch_def register_scheduler_trigger_def register_trigger_def new_scheduler_def
    new_trigger_engine_def external_start_def endpoints_step_def run_end_def failed_cues_def
  have "endpoints_ok demo_endpoint_ops (new_system sch)" by (simp add: eval)
  from endpoints_exit_exact [OF sch endpoints_ok_run [OF endpoints_new this]]
  have "entered ARMED (system_show ?s) = 1 \<Longrightarrow> show_over ARMED (sc_state (system_show ?s)) \<longleftrightarrow>
      entered RUNNING (system_show ?s) = 1 \<and> sc_tasks (system_show ?s) = Map.empty" by blast
  moreover have "entered ARMED (system_show ?s) = 1" "entered RUNNING (system_show ?s) = 1" "sc_tasks (system_show ?s) = Map.empty"
    by (simp_all add: eval entered_def)
  ultimately show ?thesis using sch by blast
qed

text \<open>
  What the endpoint process cleans up: when every endpoint starts and stops without raising, each is stopped once, in
  order, and the client is closed last, however the main part ended; but when an endpoint fails to start, the
  ones started before it are not stopped and the client is not closed.
\<close>

theorem endpoints_cleanup:
  assumes "\<forall>e \<in> set es. stops e"
  shows "((\<forall>e \<in> set es. starts e) \<longrightarrow>
      endpoints_main starts stops es = map Start_endpoint es @ [Main_body] @ map Stop_endpoint es @ [Close_client]) \<and>
    (\<forall>pre e post. es = pre @ e # post \<and> (\<forall>x \<in> set pre. starts x) \<and> \<not> starts e \<longrightarrow>
      endpoints_main starts stops es = map Start_endpoint (pre @ [e]))"
proof -
  have started: "(\<forall>e \<in> set xs. starts e) \<Longrightarrow> start_endpoints starts xs = (map Start_endpoint xs, True)" for xs
    by (induction xs) simp_all
  have failed: "(\<forall>x \<in> set xs. starts x) \<Longrightarrow> \<not> starts e \<Longrightarrow>
      start_endpoints starts (xs @ e # post) = (map Start_endpoint (xs @ [e]), False)" for xs e post
    by (induction xs) simp_all
  have "(\<forall>e \<in> set xs. stops e) \<Longrightarrow> stop_endpoints stops xs = (map Stop_endpoint xs, True)" for xs
    by (induction xs) simp_all
  from this [OF assms] show ?thesis
    by (auto simp: endpoints_main_def started failed)
qed

theorem endpoints_cleanup_witness:
  "endpoints_main (\<lambda>e. e = Serial_endpoint ''COM5'' 9600) (\<lambda>_. True) [Serial_endpoint ''COM5'' 9600, Udp_endpoint ''0.0.0.0'' 9000] =
     [Start_endpoint (Serial_endpoint ''COM5'' 9600), Start_endpoint (Udp_endpoint ''0.0.0.0'' 9000)]"
proof -
  let ?starts = "\<lambda>e. e = Serial_endpoint ''COM5'' 9600"
  let ?es = "[Serial_endpoint ''COM5'' 9600, Udp_endpoint ''0.0.0.0'' 9000]"
  have "\<forall>e \<in> set ?es. (\<lambda>_. True) e" by simp
  from endpoints_cleanup [OF this, of ?starts, THEN conjunct2, rule_format, of "[Serial_endpoint ''COM5'' 9600]" "Udp_endpoint ''0.0.0.0'' 9000" "[]"]
  show ?thesis by simp
qed

end
