(* ===== verification/Scheduler_Window.thy ===== *)
theory Scheduler_Window
  imports Entry_Points
begin

text \<open>
  The Scheduler's own window (\<open>ui/scheduler_window.py\<close>), which embeds the Scheduler in the UI process. Its
  buttons give coroutines to the bridge, whose loop begins them in their order; \<open>hold\<close> and \<open>status\<close> are called
  on the Qt thread. \<open>sw_calls\<close> are the coroutines given to the bridge and not begun, \<open>sw_begun\<close> those begun.
  A handler and a segment of a coroutine are taken as one step each, although they run on two threads.
\<close>

section \<open>State\<close>

datatype window_call = Wc_info | Wc_arm | Wc_press | Wc_abort | Wc_close

type_synonym show_status_text = "(string \<times> string option \<times> string option) \<times> (string, string) dict"

record scheduler_window =
  sw_system :: scheduler_system
  sw_motor_status :: string
  sw_show_status :: "show_status_text option"
  sw_log :: "string list"
  sw_calls :: "window_call list"
  sw_begun :: "window_call list"
  sw_open :: bool

definition WINDOW_TIMELINE :: timeline where
  "WINDOW_TIMELINE = [move_cue ''cue-1'' 0 100 [], move_cue ''cue-2'' 200 300 [''cue-1'']]"

definition ui_start :: trigger where
  "ui_start =
     \<lparr>tg_trigger_id = ''ui-start'',
      tg_condition = \<lparr>tc_source = Some ''ui'', tc_type = ''start'', tc_comparator = Cmp_eq, tc_value = PBool True\<rparr>,
      tg_action = Act_start, tg_show_states = Some [show_state_value ARMED], tg_debounce_ms = 0, tg_cooldown_ms = 500\<rparr>"

definition window_scheduler :: "string + scheduler" where
  "window_scheduler =
     (case load_timeline WINDOW_TIMELINE (new_scheduler [''motor'']) of
        Inl e \<Rightarrow> Inl e
      | Inr sch \<Rightarrow> Inr (register_scheduler_trigger ui_start sch))"

text \<open>The constructor.\<close>

definition new_scheduler_window :: "string + scheduler_window" where
  "new_scheduler_window =
     (case window_scheduler of
        Inl e \<Rightarrow> Inl e
      | Inr sch \<Rightarrow> Inr \<lparr>sw_system = new_system sch, sw_motor_status = ''connecting to motor...'', sw_show_status = None,
          sw_log = [], sw_calls = [Wc_info], sw_begun = [], sw_open = True\<rparr>)"

section \<open>Handlers\<close>

definition append_window_log :: "string \<Rightarrow> scheduler_window \<Rightarrow> scheduler_window" where
  "append_window_log line w = w\<lparr>sw_log := sw_log w @ [line]\<rparr>"

definition window_bridge_run :: "window_call \<Rightarrow> scheduler_window \<Rightarrow> scheduler_window" where
  "window_bridge_run c w = w\<lparr>sw_calls := sw_calls w @ [c]\<rparr>"

definition on_info_done :: "string + string \<times> string \<Rightarrow> scheduler_window \<Rightarrow> scheduler_window" where
  "on_info_done answer w =
     (case answer of
        Inl exc \<Rightarrow> w\<lparr>sw_motor_status := ''motor unreachable: '' @ exc\<rparr>
      | Inr (runtime_id, boot) \<Rightarrow> w\<lparr>sw_motor_status := ''motor: '' @ runtime_id @ '' (boot '' @ boot @ '')''\<rparr>)"

definition on_arm :: "scheduler_window \<Rightarrow> scheduler_window" where
  "on_arm w = window_bridge_run Wc_arm w"

definition on_arm_done :: "string + unit \<Rightarrow> scheduler_window \<Rightarrow> scheduler_window" where
  "on_arm_done answer w =
     append_window_log (case answer of Inl exc \<Rightarrow> ''arm failed: '' @ exc | Inr _ \<Rightarrow> ''armed'') w"

definition on_start :: "scheduler_window \<Rightarrow> scheduler_window" where
  "on_start w = window_bridge_run Wc_press w"

definition on_start_done :: "string + unit \<Rightarrow> scheduler_window \<Rightarrow> scheduler_window" where
  "on_start_done answer w =
     (case answer of Inl exc \<Rightarrow> append_window_log (''start error: '' @ exc) w | Inr _ \<Rightarrow> w)"

definition on_hold :: "scheduler_window \<Rightarrow> scheduler_window" where
  "on_hold w =
     (case scheduler_hold (ss_scheduler (sw_system w)) of
        Inl m \<Rightarrow> append_window_log (''hold rejected: '' @ m) w
      | Inr sch \<Rightarrow> append_window_log ''held'' (w\<lparr>sw_system := (sw_system w)\<lparr>ss_scheduler := sch\<rparr>\<rparr>))"

definition on_abort :: "scheduler_window \<Rightarrow> scheduler_window" where
  "on_abort w = window_bridge_run Wc_abort w"

definition on_abort_done :: "string + unit \<Rightarrow> scheduler_window \<Rightarrow> scheduler_window" where
  "on_abort_done answer w =
     append_window_log (case answer of Inl exc \<Rightarrow> ''abort failed: '' @ exc | Inr _ \<Rightarrow> ''aborted'') w"

definition refresh_status :: "scheduler_window \<Rightarrow> scheduler_window" where
  "refresh_status w = w\<lparr>sw_show_status := Some (scheduler_status (ss_scheduler (sw_system w)))\<rparr>"

definition scheduler_close_event :: "scheduler_window \<Rightarrow> scheduler_window" where
  "scheduler_close_event w = (window_bridge_run Wc_close w)\<lparr>sw_open := False\<rparr>"

section \<open>The bridge's loop\<close>

text \<open>
  The next coroutine takes its first step: \<open>i\<close> names its call, \<open>run_id\<close> and \<open>task\<close> a run it may start. The calls
  of the client leave the Scheduler alone.
\<close>

fun begin_op :: "nat \<Rightarrow> string \<Rightarrow> nat \<Rightarrow> (string \<Rightarrow> rat option) \<Rightarrow> time \<Rightarrow> window_call \<Rightarrow> system_op option" where
  "begin_op i run_id task parse now Wc_arm = Some (Ss_arm i)"
| "begin_op i run_id task parse now Wc_press =
     Some (Ss_input i run_id task parse now (press_event ''ui'' ''start'' (PBool True) now))"
| "begin_op i run_id task parse now Wc_abort = Some (Ss_abort i)"
| "begin_op i run_id task parse now _ = None"

definition begin_call :: "nat \<Rightarrow> string \<Rightarrow> nat \<Rightarrow> (string \<Rightarrow> rat option) \<Rightarrow> time \<Rightarrow> scheduler_window \<Rightarrow> scheduler_window" where
  "begin_call i run_id task parse now w =
     (case sw_calls w of
        [] \<Rightarrow> w
      | c # cs \<Rightarrow>
          let w1 = w\<lparr>sw_calls := cs, sw_begun := sw_begun w @ [c]\<rparr>
          in case begin_op i run_id task parse now c of
               None \<Rightarrow> w1
             | Some p \<Rightarrow> w1\<lparr>sw_system := system_perform p (sw_system w)\<rparr>)"

text \<open>Another segment: a coroutine that was begun goes on, or the run ends.\<close>

definition continue_loop :: "system_op \<Rightarrow> scheduler_window \<Rightarrow> scheduler_window" where
  "continue_loop p w = w\<lparr>sw_system := system_perform p (sw_system w)\<rparr>"

fun is_segment :: "system_op \<Rightarrow> bool" where
  "is_segment (Ss_prepared _ _) \<longleftrightarrow> True"
| "is_segment (Ss_joined _) \<longleftrightarrow> True"
| "is_segment (Ss_stopped _ _ _ _ _) \<longleftrightarrow> True"
| "is_segment (Ss_run_end _ _) \<longleftrightarrow> True"
| "is_segment _ \<longleftrightarrow> False"

datatype window_op =
    Wi_info "string + string \<times> string"
  | Wi_arm
  | Wi_arm_done "string + unit"
  | Wi_start
  | Wi_start_done "string + unit"
  | Wi_hold
  | Wi_abort
  | Wi_abort_done "string + unit"
  | Wi_refresh
  | Wi_close
  | Wi_begin nat string nat "string \<Rightarrow> rat option" time
  | Wi_segment system_op

fun window_perform :: "window_op \<Rightarrow> scheduler_window \<Rightarrow> scheduler_window" where
  "window_perform (Wi_info answer) w = on_info_done answer w"
| "window_perform Wi_arm w = on_arm w"
| "window_perform (Wi_arm_done answer) w = on_arm_done answer w"
| "window_perform Wi_start w = on_start w"
| "window_perform (Wi_start_done answer) w = on_start_done answer w"
| "window_perform Wi_hold w = on_hold w"
| "window_perform Wi_abort w = on_abort w"
| "window_perform (Wi_abort_done answer) w = on_abort_done answer w"
| "window_perform Wi_refresh w = (if sw_open w then refresh_status w else w)"
| "window_perform Wi_close w = scheduler_close_event w"
| "window_perform (Wi_begin i run_id task parse now) w = begin_call i run_id task parse now w"
| "window_perform (Wi_segment p) w = continue_loop p w"

fun window_ok :: "window_op \<Rightarrow> scheduler_window \<Rightarrow> bool" where
  "window_ok (Wi_begin i run_id task parse now) w \<longleftrightarrow>
     (case sw_calls w of
        [] \<Rightarrow> True
      | c # cs \<Rightarrow> (case begin_op i run_id task parse now c of None \<Rightarrow> True | Some p \<Rightarrow> system_ok p (sw_system w)))"
| "window_ok (Wi_segment p) w \<longleftrightarrow> is_segment p \<and> system_ok p (sw_system w)"
| "window_ok _ w \<longleftrightarrow> True"

inductive window_run :: "scheduler_window \<Rightarrow> scheduler_window \<Rightarrow> bool" for w0 where
  window_new: "window_run w0 w0"
| window_step: "window_run w0 w \<Longrightarrow> window_ok p w \<Longrightarrow> window_run w0 (window_perform p w)"

section \<open>The embedded Scheduler\<close>

lemma window_timeline_is_demo: "WINDOW_TIMELINE = DEMO_TIMELINE"
  by (simp add: WINDOW_TIMELINE_def DEMO_TIMELINE_def)

lemma window_scheduler_loads:
  "window_scheduler = Inr (register_scheduler_trigger ui_start
     ((new_scheduler [''motor''])\<lparr>sch_timeline := Some DEMO_TIMELINE\<rparr>))"
  by (simp add: window_scheduler_def load_timeline_def window_timeline_is_demo demo_timelines_valid)

lemma window_scheduler_start:
  assumes "window_scheduler = Inr sch"
  shows "sch_controller sch = new_show_controller" "te_triggers (sch_triggers sch) = [ui_start]" "armed_starts [ui_start]"
    "te_last_matched_at (sch_triggers sch) = Map.empty" "te_last_fired_at (sch_triggers sch) = Map.empty"
  using assms
  by (auto simp: window_scheduler_loads register_scheduler_trigger_def register_trigger_def new_scheduler_def
      new_trigger_engine_def armed_starts_def ui_start_def)

lemmas panel_defs = on_info_done_def on_arm_def on_arm_done_def on_start_def on_start_done_def on_abort_def on_abort_done_def
  refresh_status_def scheduler_close_event_def append_window_log_def window_bridge_run_def continue_loop_def

text \<open>The operation of the Scheduler that a step of the window performs, if any.\<close>

definition inner_op :: "window_op \<Rightarrow> scheduler_window \<Rightarrow> system_op option" where
  "inner_op p w =
     (case p of
        Wi_hold \<Rightarrow> Some Ss_hold
      | Wi_begin i run_id task parse now \<Rightarrow>
          (case sw_calls w of [] \<Rightarrow> None | c # cs \<Rightarrow> begin_op i run_id task parse now c)
      | Wi_segment q \<Rightarrow> Some q
      | _ \<Rightarrow> None)"

lemma window_perform_inner:
  "sw_system (window_perform p w) =
     (case inner_op p w of None \<Rightarrow> sw_system w | Some q \<Rightarrow> system_perform q (sw_system w))"
  by (cases p)
    (auto simp: inner_op_def panel_defs on_hold_def or_same_def begin_call_def Let_def split: sum.split list.split option.split)

lemma inner_op_ok:
  assumes "window_ok p w" and "inner_op p w = Some q"
  shows "system_ok q (sw_system w) \<and> q \<noteq> Ss_start run_id t"
proof (cases p)
  case (Wi_begin i r task parse now)
  with assms obtain c cs where "sw_calls w = c # cs" "begin_op i r task parse now c = Some q"
    by (auto simp: inner_op_def split: list.splits)
  with assms Wi_begin show ?thesis by (cases c) auto
qed (use assms in \<open>auto simp: inner_op_def\<close>)

lemma window_triggered:
  assumes "window_run w0 w" and "sw_system w0 = new_system sch"
  shows "triggered_run sch (sw_system w)"
  using assms(1)
proof (induction rule: window_run.induct)
  case window_new
  then show ?case using assms(2) triggered_new by simp
next
  case (window_step w p)
  then show ?case
    using inner_op_ok [OF window_step.hyps(2)]
    by (cases "inner_op p w") (auto simp: window_perform_inner intro: triggered_step)
qed

text \<open>A start takes a press of the button.\<close>

definition presses :: "scheduler_window \<Rightarrow> nat" where
  "presses w = length (filter (\<lambda>c. c = Wc_press) (sw_begun w))"

lemma presses_step:
  assumes "window_ok p w" and "ss_handles (sw_system w) = Map.empty"
    and "te_triggers (sch_triggers (ss_scheduler (sw_system w))) = ts" and "armed_starts ts"
    and "entered RUNNING (system_show (sw_system w)) \<le> presses w"
  shows "entered RUNNING (system_show (sw_system (window_perform p w))) \<le> presses (window_perform p w)"
proof -
  have mono: "presses w \<le> presses (window_perform p w)"
    by (cases p) (auto simp: presses_def panel_defs on_hold_def begin_call_def Let_def split: sum.split list.split option.split)
  show ?thesis
  proof (cases "\<exists>i r task parse now cs. p = Wi_begin i r task parse now \<and> sw_calls w = Wc_press # cs")
    case True
    then obtain i r task parse now cs where p: "p = Wi_begin i r task parse now" and c: "sw_calls w = Wc_press # cs" by blast
    let ?s = "(sw_system w)\<lparr>ss_clock := now\<rparr>"
    have one: "entered RUNNING sc \<le> Suc (entered RUNNING (system_show (sw_system w)))"
      if "sc = system_show ?s \<or> start r task (system_show ?s) = Inr sc" for sc
      using that by (auto simp: start_def set_state_def entered_def split: if_splits)
    from one [OF run_handle_once [of "te_triggers (sch_triggers (ss_scheduler (sw_system w)))" parse i r task now
          "press_event ''ui'' ''start'' (PBool True) now" ?s]] assms(3-5)
    show ?thesis
      by (simp add: p begin_call_def c Let_def presses_def fire_input_def)
  next
    case False
    have "entered RUNNING (system_show (sw_system (window_perform p w))) = entered RUNNING (system_show (sw_system w))"
    proof (cases "inner_op p w")
      case (Some q)
      have "q \<noteq> Ss_input h r task parse now ev" for h r task parse now ev
      proof (cases p)
        case (Wi_begin i r' task' parse' now')
        with Some obtain c cs where "sw_calls w = c # cs" "begin_op i r' task' parse' now' c = Some q"
          by (auto simp: inner_op_def split: list.splits)
        with False Wi_begin show ?thesis by (cases c) auto
      qed (use Some assms(1) in \<open>auto simp: inner_op_def\<close>)
      with entered_perform_other [OF assms(2), of q] inner_op_ok [OF assms(1) Some] Some
      show ?thesis by (simp add: window_perform_inner)
    qed (simp add: window_perform_inner)
    with mono assms(5) show ?thesis by linarith
  qed
qed

section \<open>Properties\<close>

text \<open>
  \<^bold>\<open>C20\<close> In the Scheduler's window a Show is started by its Start button only, whatever the operator clicks and however
  the coroutines interleave: there are at most as many starts as presses that were begun; each start is a firing of
  the trigger, two of them at least 500 ms apart; no press is ever reported as rejected; and there were
  as many successful arms as starts, but for one while the Show is ARMED.
\<close>

theorem window_starts_by_press:
  assumes "new_scheduler_window = Inr w0" and "window_run w0 w"
  shows "entered RUNNING (system_show (sw_system w)) \<le> presses w \<and>
    entered RUNNING (system_show (sw_system w)) = length (fired_entries (sw_system w)) \<and>
    (\<forall>pre a mid b post. fired_entries (sw_system w) = pre @ a # mid @ b # post \<longrightarrow> 500 \<le> (fi_at b - fi_at a) * 1000) \<and>
    ss_errors (sw_system w) = [] \<and>
    entered ARMED (system_show (sw_system w)) =
      entered RUNNING (system_show (sw_system w)) + (if sc_state (system_show (sw_system w)) = ARMED then 1 else 0)"
proof -
  obtain sch where sch: "window_scheduler = Inr sch"
    using assms(1) by (auto simp: new_scheduler_window_def split: sum.splits)
  have w0: "sw_system w0 = new_system sch" "sw_begun w0 = []"
    using assms(1) unfolding new_scheduler_window_def sch by auto
  note start = window_scheduler_start [OF sch]
  have run: "triggered_run sch (sw_system w')" if "window_run w0 w'" for w'
    using window_triggered [OF that w0(1)] .
  note sys = triggered_system_run [OF run]
  have quiet: "ss_errors (sw_system w') = [] \<and> ss_handles (sw_system w') = Map.empty \<and>
      te_triggers (sch_triggers (ss_scheduler (sw_system w'))) = [ui_start]" if "window_run w0 w'" for w'
    using no_error_run [OF sys [OF that] start(2,3)] .
  have "entered RUNNING (system_show (sw_system w)) \<le> presses w"
    using assms(2)
  proof (induction rule: window_run.induct)
    case window_new
    then show ?case
      using w0 start(1) by (simp add: entered_def new_system_def system_show_def new_show_controller_def)
  next
    case (window_step w p)
    with presses_step [OF window_step.hyps(2) _ _ start(3)] quiet show ?case by blast
  qed
  moreover have "entered RUNNING (system_show (sw_system w)) = length (fired_entries (sw_system w))"
    using triggered_starts [OF run [OF assms(2)] start(2,3,1)] by (simp add: starts_logged_def)
  moreover have "500 \<le> (fi_at b - fi_at a) * 1000" if "fired_entries (sw_system w) = pre @ a # mid @ b # post" for pre a mid b post
    using fired_cooldown [OF sys [OF assms(2)] start(2) armed_starts_prompt [OF start(3)] start(4,5) that] by (simp add: ui_start_def)
  moreover have "armed_once (system_show (sw_system w))"
    using show_run_armed_once [OF system_show_run [OF sys [OF assms(2)] start(1)]] .
  ultimately show ?thesis using quiet [OF assms(2)] by (auto simp: armed_once_def)
qed

definition demo_clicks :: "window_op list" where
  "demo_clicks = [Wi_arm, Wi_start, Wi_begin 0 [] 0 (\<lambda>_. None) 0, Wi_begin 1 [] 0 (\<lambda>_. None) 0,
     Wi_segment (Ss_prepared (\<lambda>_. Prepared ''s1'') 1), Wi_begin 2 ''run1'' 0 (\<lambda>_. None) 1, Wi_hold]"

fun clicks_ok :: "window_op list \<Rightarrow> scheduler_window \<Rightarrow> bool" where
  "clicks_ok [] w \<longleftrightarrow> True"
| "clicks_ok (p # ps) w \<longleftrightarrow> window_ok p w \<and> clicks_ok ps (window_perform p w)"

lemma clicks_ok_run: "window_run w0 w \<Longrightarrow> clicks_ok ps w \<Longrightarrow> window_run w0 (fold window_perform ps w)"
  by (induction ps arbitrary: w) (auto intro: window_run.intros)

theorem window_starts_by_press_witness:
  "\<exists>w0. new_scheduler_window = Inr w0 \<and>
     length (fired_entries (sw_system (fold window_perform demo_clicks w0))) = 1 \<and>
     sw_log (fold window_perform demo_clicks w0) = [''held'']"
proof -
  define sch where "sch = register_scheduler_trigger ui_start ((new_scheduler [''motor''])\<lparr>sch_timeline := Some DEMO_TIMELINE\<rparr>)"
  define w0 where "w0 = \<lparr>sw_system = new_system sch, sw_motor_status = ''connecting to motor...'', sw_show_status = None,
      sw_log = [], sw_calls = [Wc_info], sw_begun = [], sw_open = True\<rparr>"
  let ?w = "fold window_perform demo_clicks w0"
  have w0: "new_scheduler_window = Inr w0"
    unfolding new_scheduler_window_def window_scheduler_loads w0_def sch_def by simp
  note eval = demo_clicks_def system_eval sch_def w0_def register_scheduler_trigger_def register_trigger_def new_scheduler_def
    new_trigger_engine_def ui_start_def panel_defs begin_call_def on_hold_def
  have "clicks_ok demo_clicks w0" by (simp add: eval)
  from window_starts_by_press [OF w0 clicks_ok_run [OF window_new this]]
  have "length (fired_entries (sw_system ?w)) = entered RUNNING (system_show (sw_system ?w))" by simp
  moreover have "entered RUNNING (system_show (sw_system ?w)) = 1" and "sw_log ?w = [''held'']"
    by (simp_all add: eval entered_def)
  ultimately show ?thesis using w0 by (intro exI [of _ w0]) simp
qed

end
