(* ===== verification/Operator_Windows.thy ===== *)
theory Operator_Windows
  imports Scheduler Octets
begin

text \<open>
  The operator windows of a Runtime, \<open>ui/motor_window.py\<close> and \<open>ui/video_window.py\<close>. A handler runs on the Qt
  thread from its call to its return; it may give one call of the client to the bridge, and the answer comes
  back as another handler. \<open>ow_calls\<close> are the calls given to the bridge, in order. The poll timers run until
  the window is closed. Of the widgets the model keeps what a handler reads or writes: the texts of the
  labels, the log, and the entries and the current text of the target list; layout and painting are left
  out. The texts that Python makes of values, \<open>str(exc)\<close>, \<open>str(value)\<close> and the result of \<open>float(text)\<close>
  (\<open>None\<close> for \<open>ValueError\<close>), are inputs.
\<close>

section \<open>Calls of the client\<close>

datatype client_call =
    Call_info
  | Call_targets
  | Call_snapshot
  | Call_acquire string runtime_mode
  | Call_submit command_submit_request
  | Call_bytes string
  | Call_close

text \<open>The fields of \<open>CommandSubmitRequest\<close> that a window leaves to their defaults.\<close>

definition ui_request :: "string \<Rightarrow> string option \<Rightarrow> string \<Rightarrow> string \<Rightarrow> params \<Rightarrow> completion_requirement \<Rightarrow> command_submit_request" where
  "ui_request request_id session target action params requirement =
     \<lparr>sr_protocol_version = 1, sr_request_id = request_id, sr_control_session_id = session, sr_run_id = None,
      sr_cue_id = None, sr_show_generation = None, sr_target_id = target, sr_action = action, sr_params = params,
      sr_completion_requirement = requirement, sr_source = ''manual'', sr_actor = None\<rparr>"

section \<open>What both windows have\<close>

record operator_window =
  ow_session_id :: "string option"
  ow_targets :: "target_manifest list"
  ow_combo :: "string list"
  ow_current :: string
  ow_status :: string
  ow_state :: string
  ow_session :: string
  ow_log :: "string list"
  ow_calls :: "client_call list"
  ow_open :: bool

definition append_log :: "string \<Rightarrow> 'w operator_window_scheme \<Rightarrow> 'w operator_window_scheme" where
  "append_log line w = w\<lparr>ow_log := ow_log w @ [line]\<rparr>"

definition bridge_call :: "client_call \<Rightarrow> 'w operator_window_scheme \<Rightarrow> 'w operator_window_scheme" where
  "bridge_call c w = w\<lparr>ow_calls := ow_calls w @ [c]\<rparr>"

text \<open>The state at the end of the constructor.\<close>

definition new_operator_window :: operator_window where
  "new_operator_window = \<lparr>ow_session_id = None, ow_targets = [], ow_combo = [], ow_current = [],
     ow_status = ''connecting...'', ow_state = ''-'', ow_session = ''no session'', ow_log = [],
     ow_calls = [Call_info, Call_targets], ow_open = True\<rparr>"

text \<open>An answer is \<open>Inl\<close> the text of the exception or \<open>Inr\<close> the result.\<close>

definition info_done :: "string + string \<times> string \<Rightarrow> 'w operator_window_scheme \<Rightarrow> 'w operator_window_scheme" where
  "info_done answer w =
     (case answer of
        Inl exc \<Rightarrow> w\<lparr>ow_status := ''disconnected: '' @ exc\<rparr>
      | Inr (runtime_id, boot) \<Rightarrow> w\<lparr>ow_status := ''connected: '' @ runtime_id @ '' (boot '' @ boot @ '')''\<rparr>)"

text \<open>After \<open>clear\<close> and \<open>addItems\<close> the first entry, if any, is the current one.\<close>

definition targets_done :: "string + target_manifest list \<Rightarrow> 'w operator_window_scheme \<Rightarrow> 'w operator_window_scheme" where
  "targets_done answer w =
     (case answer of
        Inl exc \<Rightarrow> append_log (''could not fetch targets: '' @ exc) w
      | Inr targets \<Rightarrow>
          let ids = map tm_target_id targets
          in w\<lparr>ow_targets := targets, ow_combo := ids, ow_current := (case ids of [] \<Rightarrow> [] | i # _ \<Rightarrow> i)\<rparr>)"

text \<open>The operator chooses an entry of the list.\<close>

definition choose_target :: "string \<Rightarrow> 'w operator_window_scheme \<Rightarrow> 'w operator_window_scheme" where
  "choose_target text w = (if text \<in> set (ow_combo w) then w\<lparr>ow_current := text\<rparr> else w)"

definition poll_snapshot :: "'w operator_window_scheme \<Rightarrow> 'w operator_window_scheme" where
  "poll_snapshot w = bridge_call Call_snapshot w"

definition on_acquire_session :: "string \<Rightarrow> 'w operator_window_scheme \<Rightarrow> 'w operator_window_scheme" where
  "on_acquire_session actor w = bridge_call (Call_acquire actor MANUAL) w"

definition on_session_done :: "string + string \<Rightarrow> 'w operator_window_scheme \<Rightarrow> 'w operator_window_scheme" where
  "on_session_done answer w =
     (case answer of
        Inl exc \<Rightarrow> append_log (''session error: '' @ exc) w
      | Inr sid \<Rightarrow> append_log (''control session acquired: '' @ sid)
          (w\<lparr>ow_session_id := Some sid, ow_session := ''session '' @ sid\<rparr>))"

text \<open>The answer to a command: its id, its status, and \<open>str\<close> of its outcome.\<close>

definition on_command_submitted :: "string + string \<times> string \<times> string \<Rightarrow> 'w operator_window_scheme \<Rightarrow> 'w operator_window_scheme" where
  "on_command_submitted answer w =
     (case answer of
        Inl exc \<Rightarrow> append_log (''command error: '' @ exc) w
      | Inr (cmd, status, outcome) \<Rightarrow> append_log (''command '' @ cmd @ '': '' @ status @ '' / '' @ outcome) w)"

definition close_window :: "'w operator_window_scheme \<Rightarrow> 'w operator_window_scheme" where
  "close_window w = (bridge_call Call_close w)\<lparr>ow_open := False\<rparr>"

section \<open>The motor window\<close>

type_synonym snapshot_answer = "string + (string \<times> (string \<times> string) list) list"

definition NEWLINE_str :: string where
  "NEWLINE_str = [CHR 0x0A]"

definition motor_info_done :: "string + string \<times> string \<times> string \<Rightarrow> operator_window \<Rightarrow> operator_window" where
  "motor_info_done answer w =
     (case answer of
        Inl exc \<Rightarrow> info_done (Inl exc) w
      | Inr (runtime_id, boot, text) \<Rightarrow> append_log (''info: '' @ text) (info_done (Inr (runtime_id, boot)) w))"

definition motor_snapshot_done :: "snapshot_answer \<Rightarrow> operator_window \<Rightarrow> operator_window" where
  "motor_snapshot_done answer w =
     (case answer of
        Inl exc \<Rightarrow> w\<lparr>ow_status := ''disconnected: '' @ exc\<rparr>
      | Inr targets \<Rightarrow>
          let lines = map (\<lambda>(target_id, fields).
                target_id @ '': '' @ str_join '', '' (map (\<lambda>(name, value). name @ ''='' @ value) fields)) targets;
              text = str_join NEWLINE_str lines
          in w\<lparr>ow_state := (if text = [] then ''no targets'' else text)\<rparr>)"

definition selected_target :: "operator_window \<Rightarrow> target_manifest option" where
  "selected_target w = find (\<lambda>t. tm_target_id t = ow_current w) (ow_targets w)"

definition on_move :: "string \<Rightarrow> rat option \<Rightarrow> operator_window \<Rightarrow> operator_window" where
  "on_move request_id position w =
     (if ow_session_id w = None then append_log ''acquire a session first'' w
      else case selected_target w of
          None \<Rightarrow> append_log ''no target selected'' w
        | Some target \<Rightarrow>
            (case position of
               None \<Rightarrow> append_log ''invalid position'' w
             | Some p \<Rightarrow>
                 bridge_call (Call_submit (ui_request request_id (ow_session_id w) (tm_target_id target) ''move''
                   [(''position'', PFloat p)] Req_OBSERVED)) w))"

definition motor_on_stop :: "string \<Rightarrow> operator_window \<Rightarrow> operator_window" where
  "motor_on_stop request_id w =
     (if ow_session_id w = None then append_log ''acquire a session first'' w
      else case selected_target w of
          None \<Rightarrow> append_log ''no target selected'' w
        | Some target \<Rightarrow>
            (case control_action target of
               None \<Rightarrow> append_log (''target '' @ quoted (tm_target_id target) @ '' has no stop-priority action'') w
             | Some a \<Rightarrow>
                 bridge_call (Call_submit (ui_request request_id (ow_session_id w) (tm_target_id target) (as_name a)
                   [] Req_ACKNOWLEDGED)) w))"

datatype motor_window_op =
    Mo_info "string + string \<times> string \<times> string"
  | Mo_targets "string + target_manifest list"
  | Mo_choose string
  | Mo_poll
  | Mo_snapshot snapshot_answer
  | Mo_acquire
  | Mo_session "string + string"
  | Mo_move string "rat option"
  | Mo_stop string
  | Mo_submitted "string + string \<times> string \<times> string"
  | Mo_close

fun motor_window_perform :: "motor_window_op \<Rightarrow> operator_window \<Rightarrow> operator_window" where
  "motor_window_perform (Mo_info answer) w = motor_info_done answer w"
| "motor_window_perform (Mo_targets answer) w = targets_done answer w"
| "motor_window_perform (Mo_choose text) w = choose_target text w"
| "motor_window_perform Mo_poll w = (if ow_open w then poll_snapshot w else w)"
| "motor_window_perform (Mo_snapshot answer) w = motor_snapshot_done answer w"
| "motor_window_perform Mo_acquire w = on_acquire_session ''motor-ui'' w"
| "motor_window_perform (Mo_session answer) w = on_session_done answer w"
| "motor_window_perform (Mo_move request_id position) w = on_move request_id position w"
| "motor_window_perform (Mo_stop request_id) w = motor_on_stop request_id w"
| "motor_window_perform (Mo_submitted answer) w = on_command_submitted answer w"
| "motor_window_perform Mo_close w = close_window w"

section \<open>The video window\<close>

record video_window = operator_window +
  vw_preview_busy :: bool
  vw_preview :: "bytes option"

definition new_video_window :: video_window where
  "new_video_window = operator_window.extend new_operator_window \<lparr>vw_preview_busy = False, vw_preview = None\<rparr>"

definition current_target_id :: "video_window \<Rightarrow> string option" where
  "current_target_id w = (if ow_current w = [] then None else Some (ow_current w))"

definition video_snapshot_done :: "snapshot_answer \<Rightarrow> video_window \<Rightarrow> video_window" where
  "video_snapshot_done answer w =
     (case answer of
        Inl exc \<Rightarrow> w\<lparr>ow_status := ''disconnected: '' @ exc\<rparr>
      | Inr targets \<Rightarrow>
          (case Option.bind (current_target_id w) (dget targets) of
             None \<Rightarrow> w\<lparr>ow_state := ''no target selected''\<rparr>
           | Some values \<Rightarrow>
               w\<lparr>ow_state := str_join NEWLINE_str (map (\<lambda>(name, value). name @ ''='' @ value) values)\<rparr>))"

definition poll_preview :: "video_window \<Rightarrow> video_window" where
  "poll_preview w =
     (case current_target_id w of
        None \<Rightarrow> w
      | Some target_id \<Rightarrow>
          if vw_preview_busy w then w
          else bridge_call (Call_bytes (''/api/v1/targets/'' @ target_id @ ''/preview'')) (w\<lparr>vw_preview_busy := True\<rparr>))"

text \<open>\<open>loads\<close> says whether \<open>loadFromData\<close> accepts the bytes.\<close>

definition on_preview_done :: "(bytes \<Rightarrow> bool) \<Rightarrow> string + bytes \<Rightarrow> video_window \<Rightarrow> video_window" where
  "on_preview_done loads answer w =
     (let w1 = w\<lparr>vw_preview_busy := False\<rparr>
      in case answer of
           Inl exc \<Rightarrow> w1
         | Inr data \<Rightarrow> if loads data then w1\<lparr>vw_preview := Some data\<rparr> else w1)"

definition submit_ui :: "string \<Rightarrow> string \<Rightarrow> params \<Rightarrow> completion_requirement \<Rightarrow> video_window \<Rightarrow> video_window" where
  "submit_ui request_id action params completion w =
     (if ow_session_id w = None then append_log ''acquire a session first'' w
      else case current_target_id w of
          None \<Rightarrow> append_log ''no target selected'' w
        | Some target_id \<Rightarrow>
            bridge_call (Call_submit (ui_request request_id (ow_session_id w) target_id action params completion)) w)"

text \<open>\<open>media_path\<close> is the input's text, stripped.\<close>

definition on_prepare :: "string \<Rightarrow> string \<Rightarrow> video_window \<Rightarrow> video_window" where
  "on_prepare request_id media_path w =
     (if media_path = [] then append_log ''enter a media path first'' w
      else submit_ui request_id ''prepare'' [(''media_path'', PStr media_path)] Req_OBSERVED w)"

definition on_play :: "string \<Rightarrow> video_window \<Rightarrow> video_window" where
  "on_play request_id w = submit_ui request_id ''play'' [] Req_ACKNOWLEDGED w"

definition on_pause :: "string \<Rightarrow> video_window \<Rightarrow> video_window" where
  "on_pause request_id w = submit_ui request_id ''pause'' [] Req_ACKNOWLEDGED w"

definition video_on_stop :: "string \<Rightarrow> video_window \<Rightarrow> video_window" where
  "video_on_stop request_id w = submit_ui request_id ''stop'' [] Req_ACKNOWLEDGED w"

definition on_loop_toggled :: "string \<Rightarrow> bool \<Rightarrow> video_window \<Rightarrow> video_window" where
  "on_loop_toggled request_id checked w = submit_ui request_id ''loop'' [(''enabled'', PBool checked)] Req_ACKNOWLEDGED w"

text \<open>The slider keeps its value in its range, 0 to 100.\<close>

definition on_volume_changed :: "string \<Rightarrow> nat \<Rightarrow> video_window \<Rightarrow> video_window" where
  "on_volume_changed request_id slider w =
     submit_ui request_id ''volume'' [(''level'', PFloat (of_nat (min 100 slider)))] Req_ACKNOWLEDGED w"

datatype video_window_op =
    Vi_info "string + string \<times> string"
  | Vi_targets "string + target_manifest list"
  | Vi_choose string
  | Vi_poll
  | Vi_snapshot snapshot_answer
  | Vi_poll_preview
  | Vi_preview "bytes \<Rightarrow> bool" "string + bytes"
  | Vi_acquire
  | Vi_session "string + string"
  | Vi_prepare string string
  | Vi_play string
  | Vi_pause string
  | Vi_stop string
  | Vi_loop string bool
  | Vi_volume string nat
  | Vi_submitted "string + string \<times> string \<times> string"
  | Vi_close

fun video_window_perform :: "video_window_op \<Rightarrow> video_window \<Rightarrow> video_window" where
  "video_window_perform (Vi_info answer) w = info_done answer w"
| "video_window_perform (Vi_targets answer) w = targets_done answer w"
| "video_window_perform (Vi_choose text) w = choose_target text w"
| "video_window_perform Vi_poll w = (if ow_open w then poll_snapshot w else w)"
| "video_window_perform (Vi_snapshot answer) w = video_snapshot_done answer w"
| "video_window_perform Vi_poll_preview w = (if ow_open w then poll_preview w else w)"
| "video_window_perform (Vi_preview loads answer) w = on_preview_done loads answer w"
| "video_window_perform Vi_acquire w = on_acquire_session ''video-ui'' w"
| "video_window_perform (Vi_session answer) w = on_session_done answer w"
| "video_window_perform (Vi_prepare request_id media_path) w = on_prepare request_id media_path w"
| "video_window_perform (Vi_play request_id) w = on_play request_id w"
| "video_window_perform (Vi_pause request_id) w = on_pause request_id w"
| "video_window_perform (Vi_stop request_id) w = video_on_stop request_id w"
| "video_window_perform (Vi_loop request_id checked) w = on_loop_toggled request_id checked w"
| "video_window_perform (Vi_volume request_id slider) w = on_volume_changed request_id slider w"
| "video_window_perform (Vi_submitted answer) w = on_command_submitted answer w"
| "video_window_perform Vi_close w = close_window w"

section \<open>What a console requests\<close>

text \<open>The value of the latest operation that gives one.\<close>

definition latest :: "('op \<Rightarrow> 'a option) \<Rightarrow> 'a \<Rightarrow> 'op list \<Rightarrow> 'a" where
  "latest f x ops = fold (\<lambda>p y. case f p of None \<Rightarrow> y | Some z \<Rightarrow> z) ops x"

lemma latest_simps [simp]:
  "latest f x [] = x" "latest f x (p # ops) = latest f (case f p of None \<Rightarrow> x | Some z \<Rightarrow> z) ops"
  by (simp_all add: latest_def)

lemma latest_append [simp]: "latest f x (ops @ ops') = latest f (latest f x ops) ops'"
  by (simp add: latest_def)

text \<open>
  The contract both windows keep: the session is the last one granted, the targets are the last ones listed,
  and a command is requested under the one for one of the others, of a kind the target allows.
\<close>

locale command_console =
  fixes perform :: "'op \<Rightarrow> 'w \<Rightarrow> 'w"
    and good :: "'w \<Rightarrow> bool"
    and session :: "'w \<Rightarrow> string option"
    and targets :: "'w \<Rightarrow> target_manifest list"
    and calls :: "'w \<Rightarrow> client_call list"
    and granted :: "'op \<Rightarrow> string option option"
    and listed :: "'op \<Rightarrow> target_manifest list option"
    and allows :: "target_manifest \<Rightarrow> command_submit_request \<Rightarrow> bool"
  assumes good_step: "good w \<Longrightarrow> good (perform p w)"
    and session_step: "session (perform p w) = (case granted p of None \<Rightarrow> session w | Some s \<Rightarrow> s)"
    and targets_step: "targets (perform p w) = (case listed p of None \<Rightarrow> targets w | Some ts \<Rightarrow> ts)"
    and calls_step: "good w \<Longrightarrow> \<exists>new. calls (perform p w) = calls w @ new \<and>
      (\<forall>req. Call_submit req \<in> set new \<longrightarrow> session w \<noteq> None \<and> sr_control_session_id req = session w \<and>
         (\<exists>t \<in> set (targets w). sr_target_id req = tm_target_id t \<and> allows t req))"
begin

lemma run_state:
  "session (fold perform ops w) = latest granted (session w) ops"
  "targets (fold perform ops w) = latest listed (targets w) ops"
  by (induction ops arbitrary: w) (simp_all add: session_step targets_step)

lemma run_good: "good w \<Longrightarrow> good (fold perform ops w)"
  by (induction ops arbitrary: w) (simp_all add: good_step)

lemma run_requests:
  assumes "good w" and "Call_submit req \<in> set (calls (fold perform ops w))" and "Call_submit req \<notin> set (calls w)"
  shows "\<exists>pre p post new. ops = pre @ p # post \<and>
    calls (fold perform (pre @ [p]) w) = calls (fold perform pre w) @ new \<and> Call_submit req \<in> set new \<and>
    latest granted (session w) pre \<noteq> None \<and> sr_control_session_id req = latest granted (session w) pre \<and>
    (\<exists>t \<in> set (latest listed (targets w) pre). sr_target_id req = tm_target_id t \<and> allows t req)"
  using assms(2)
proof (induction ops rule: rev_induct)
  case Nil
  with assms(3) show ?case by simp
next
  case (snoc p ops)
  show ?case
  proof (cases "Call_submit req \<in> set (calls (fold perform ops w))")
    case True
    from snoc.IH [OF this] show ?thesis by (metis append.assoc append_Cons)
  next
    case False
    obtain new where new: "calls (perform p (fold perform ops w)) = calls (fold perform ops w) @ new"
      "\<And>req. Call_submit req \<in> set new \<Longrightarrow> session (fold perform ops w) \<noteq> None \<and>
        sr_control_session_id req = session (fold perform ops w) \<and>
        (\<exists>t \<in> set (targets (fold perform ops w)). sr_target_id req = tm_target_id t \<and> allows t req)"
      using calls_step [OF run_good [OF assms(1)], of p ops] by blast
    moreover from this(1) False snoc.prems have "Call_submit req \<in> set new" by simp
    ultimately show ?thesis
      unfolding run_state by (intro exI [of _ ops] exI [of _ p] exI [of _ "[]"] exI [of _ new]) simp
  qed
qed

end

fun motor_granted :: "motor_window_op \<Rightarrow> string option option" where
  "motor_granted (Mo_session (Inr sid)) = Some (Some sid)"
| "motor_granted _ = None"

fun motor_listed :: "motor_window_op \<Rightarrow> target_manifest list option" where
  "motor_listed (Mo_targets (Inr ts)) = Some ts"
| "motor_listed _ = None"

definition motor_allows :: "target_manifest \<Rightarrow> command_submit_request \<Rightarrow> bool" where
  "motor_allows t req \<longleftrightarrow>
     (\<exists>p. sr_action req = ''move'' \<and> sr_params req = [(''position'', PFloat p)] \<and> sr_completion_requirement req = Req_OBSERVED) \<or>
     (\<exists>a. control_action t = Some a \<and> sr_action req = as_name a \<and> sr_params req = [] \<and>
        sr_completion_requirement req = Req_ACKNOWLEDGED)"

lemmas window_defs = append_log_def bridge_call_def info_done_def targets_done_def choose_target_def poll_snapshot_def
  on_acquire_session_def on_session_done_def on_command_submitted_def close_window_def Let_def

lemmas motor_window_defs = window_defs motor_info_done_def motor_snapshot_done_def on_move_def motor_on_stop_def

lemma ui_request_sel [simp]:
  "sr_request_id (ui_request r s t a ps q) = r" "sr_control_session_id (ui_request r s t a ps q) = s"
  "sr_target_id (ui_request r s t a ps q) = t" "sr_action (ui_request r s t a ps q) = a"
  "sr_params (ui_request r s t a ps q) = ps" "sr_completion_requirement (ui_request r s t a ps q) = q"
  by (simp_all add: ui_request_def)

lemma selected_targetD: "selected_target w = Some t \<Longrightarrow> t \<in> set (ow_targets w) \<and> tm_target_id t = ow_current w"
  by (auto simp: selected_target_def find_Some_iff)

interpretation motor_console: command_console motor_window_perform "\<lambda>_. True" ow_session_id ow_targets ow_calls
    motor_granted motor_listed motor_allows
proof
  fix w p
  show "ow_session_id (motor_window_perform p w) = (case motor_granted p of None \<Rightarrow> ow_session_id w | Some s \<Rightarrow> s)"
    by (cases p rule: motor_granted.cases) (auto simp: motor_window_defs split: sum.split option.split)
  show "ow_targets (motor_window_perform p w) = (case motor_listed p of None \<Rightarrow> ow_targets w | Some ts \<Rightarrow> ts)"
    by (cases p rule: motor_listed.cases) (auto simp: motor_window_defs split: sum.split option.split)
  show "\<exists>new. ow_calls (motor_window_perform p w) = ow_calls w @ new \<and>
      (\<forall>req. Call_submit req \<in> set new \<longrightarrow> ow_session_id w \<noteq> None \<and> sr_control_session_id req = ow_session_id w \<and>
         (\<exists>t \<in> set (ow_targets w). sr_target_id req = tm_target_id t \<and> motor_allows t req))"
    by (cases p) (auto simp: motor_window_defs motor_allows_def dest: selected_targetD split: sum.split option.split)
qed simp

fun video_granted :: "video_window_op \<Rightarrow> string option option" where
  "video_granted (Vi_session (Inr sid)) = Some (Some sid)"
| "video_granted _ = None"

fun video_listed :: "video_window_op \<Rightarrow> target_manifest list option" where
  "video_listed (Vi_targets (Inr ts)) = Some ts"
| "video_listed _ = None"

definition video_allows :: "target_manifest \<Rightarrow> command_submit_request \<Rightarrow> bool" where
  "video_allows t req \<longleftrightarrow>
     (\<exists>path. path \<noteq> [] \<and> sr_action req = ''prepare'' \<and> sr_params req = [(''media_path'', PStr path)] \<and>
        sr_completion_requirement req = Req_OBSERVED) \<or>
     (sr_completion_requirement req = Req_ACKNOWLEDGED \<and>
        (sr_action req \<in> {''play'', ''pause'', ''stop''} \<and> sr_params req = [] \<or>
         (\<exists>b. sr_action req = ''loop'' \<and> sr_params req = [(''enabled'', PBool b)]) \<or>
         (\<exists>q. sr_action req = ''volume'' \<and> sr_params req = [(''level'', PFloat q)] \<and> 0 \<le> q \<and> q \<le> 100)))"

definition video_window_ok :: "video_window \<Rightarrow> bool" where
  "video_window_ok w \<longleftrightarrow> ow_combo w = map tm_target_id (ow_targets w) \<and> ow_current w \<in> insert [] (set (ow_combo w))"

lemmas video_window_defs = window_defs video_snapshot_done_def poll_preview_def on_preview_done_def submit_ui_def
  on_prepare_def on_play_def on_pause_def video_on_stop_def on_loop_toggled_def on_volume_changed_def

lemma current_targetD:
  "video_window_ok w \<Longrightarrow> current_target_id w = Some i \<Longrightarrow> \<exists>t \<in> set (ow_targets w). i = tm_target_id t"
  by (auto simp: video_window_ok_def current_target_id_def split: if_splits)

lemma submit_ui_calls:
  assumes "video_window_ok w" and "\<And>t s i. video_allows t (ui_request request_id s i action params completion)"
  shows "\<exists>new. ow_calls (submit_ui request_id action params completion w) = ow_calls w @ new \<and>
    (\<forall>req. Call_submit req \<in> set new \<longrightarrow> ow_session_id w \<noteq> None \<and> sr_control_session_id req = ow_session_id w \<and>
       (\<exists>t \<in> set (ow_targets w). sr_target_id req = tm_target_id t \<and> video_allows t req))"
  using current_targetD [OF assms(1)] assms(2)
  by (auto simp: submit_ui_def window_defs split: option.split)

interpretation video_console: command_console video_window_perform video_window_ok ow_session_id ow_targets ow_calls
    video_granted video_listed video_allows
proof
  fix w p
  show "ow_session_id (video_window_perform p w) = (case video_granted p of None \<Rightarrow> ow_session_id w | Some s \<Rightarrow> s)"
    by (cases p rule: video_granted.cases) (auto simp: video_window_defs split: sum.split option.split)
  show "ow_targets (video_window_perform p w) = (case video_listed p of None \<Rightarrow> ow_targets w | Some ts \<Rightarrow> ts)"
    by (cases p rule: video_listed.cases) (auto simp: video_window_defs split: sum.split option.split)
  assume ok: "video_window_ok w"
  then show "video_window_ok (video_window_perform p w)"
    by (cases p) (auto simp: video_window_defs video_window_ok_def split: sum.split option.split list.split)
  have quiet: "\<exists>new. cs = ow_calls w @ new \<and> (\<forall>req. Call_submit req \<notin> set new)" if "cs \<in> {ow_calls w} \<union>
      (\<lambda>c. ow_calls w @ [c]) ` ({Call_snapshot, Call_close} \<union> range (case_prod Call_acquire) \<union> range Call_bytes)" for cs
    using that by auto
  show "\<exists>new. ow_calls (video_window_perform p w) = ow_calls w @ new \<and>
      (\<forall>req. Call_submit req \<in> set new \<longrightarrow> ow_session_id w \<noteq> None \<and> sr_control_session_id req = ow_session_id w \<and>
         (\<exists>t \<in> set (ow_targets w). sr_target_id req = tm_target_id t \<and> video_allows t req))"
  proof (cases p)
    case (Vi_prepare request_id media_path)
    show ?thesis
    proof (cases "media_path = []")
      case False
      with submit_ui_calls [OF ok, of request_id "''prepare''" "[(''media_path'', PStr media_path)]" Req_OBSERVED]
      show ?thesis by (simp add: Vi_prepare on_prepare_def video_allows_def)
    qed (simp add: Vi_prepare on_prepare_def window_defs)
  next
    case (Vi_play request_id)
    with submit_ui_calls [OF ok, of request_id "''play''" "[]" Req_ACKNOWLEDGED] show ?thesis
      by (simp add: on_play_def video_allows_def)
  next
    case (Vi_pause request_id)
    with submit_ui_calls [OF ok, of request_id "''pause''" "[]" Req_ACKNOWLEDGED] show ?thesis
      by (simp add: on_pause_def video_allows_def)
  next
    case (Vi_stop request_id)
    with submit_ui_calls [OF ok, of request_id "''stop''" "[]" Req_ACKNOWLEDGED] show ?thesis
      by (simp add: video_on_stop_def video_allows_def)
  next
    case (Vi_loop request_id checked)
    with submit_ui_calls [OF ok, of request_id "''loop''" "[(''enabled'', PBool checked)]" Req_ACKNOWLEDGED] show ?thesis
      by (simp add: on_loop_toggled_def video_allows_def)
  next
    case (Vi_volume request_id slider)
    with submit_ui_calls [OF ok, of request_id "''volume''" "[(''level'', PFloat (of_nat (min 100 slider)))]" Req_ACKNOWLEDGED]
    show ?thesis by (simp add: on_volume_changed_def video_allows_def)
  qed (auto simp: window_defs video_snapshot_done_def poll_preview_def on_preview_done_def split: sum.split option.split)
qed

section \<open>Properties\<close>

text \<open>The commands among the calls, in order.\<close>

definition submissions :: "client_call list \<Rightarrow> command_submit_request list" where
  "submissions cs = List.map_filter (\<lambda>c. case c of Call_submit req \<Rightarrow> Some req | _ \<Rightarrow> None) cs"

lemma submissions_simps [simp]:
  "submissions [] = []" "submissions (cs @ cs') = submissions cs @ submissions cs'"
  "submissions (Call_submit req # cs) = req # submissions cs"
  "submissions (Call_snapshot # cs) = submissions cs" "submissions (Call_acquire actor mode # cs) = submissions cs"
  "submissions (Call_close # cs) = submissions cs" "submissions (Call_info # cs) = submissions cs"
  "submissions (Call_targets # cs) = submissions cs"
  by (simp_all add: submissions_def List.map_filter_def)

text \<open>The text that is current in the list: the last entry chosen from the last list, else its first entry.\<close>

fun motor_choose :: "motor_window_op \<Rightarrow> string list \<times> string \<Rightarrow> string list \<times> string" where
  "motor_choose (Mo_targets (Inr ts)) (ids, cur) = (map tm_target_id ts, case ts of [] \<Rightarrow> [] | t # _ \<Rightarrow> tm_target_id t)"
| "motor_choose (Mo_choose text) (ids, cur) = (ids, if text \<in> set ids then text else cur)"
| "motor_choose _ (ids, cur) = (ids, cur)"

definition chosen_target :: "motor_window_op list \<Rightarrow> target_manifest option" where
  "chosen_target ops = find (\<lambda>t. tm_target_id t = snd (fold motor_choose ops ([], []))) (latest motor_listed [] ops)"

lemma motor_window_choice:
  "(ow_combo (fold motor_window_perform ops w), ow_current (fold motor_window_perform ops w)) =
     fold motor_choose ops (ow_combo w, ow_current w)"
proof (induction ops arbitrary: w)
  case (Cons p ops)
  have "(ow_combo (motor_window_perform p w), ow_current (motor_window_perform p w)) = motor_choose p (ow_combo w, ow_current w)"
    by (cases p rule: motor_listed.cases) (auto simp: motor_window_defs split: sum.split option.split list.split)
  with Cons.IH [of "motor_window_perform p w"] show ?case by simp
qed simp

text \<open>What a press asks for, under a session and for a target.\<close>

fun press_request :: "motor_window_op \<Rightarrow> string \<Rightarrow> target_manifest \<Rightarrow> command_submit_request list" where
  "press_request (Mo_move r (Some q)) sid t =
     [ui_request r (Some sid) (tm_target_id t) ''move'' [(''position'', PFloat q)] Req_OBSERVED]"
| "press_request (Mo_stop r) sid t =
     (case control_action t of
        None \<Rightarrow> []
      | Some a \<Rightarrow> [ui_request r (Some sid) (tm_target_id t) (as_name a) [] Req_ACKNOWLEDGED])"
| "press_request _ sid t = []"

definition press_of :: "motor_window_op list \<Rightarrow> motor_window_op \<Rightarrow> command_submit_request list" where
  "press_of before p =
     (case latest motor_granted None before of
        None \<Rightarrow> []
      | Some sid \<Rightarrow> (case chosen_target before of None \<Rightarrow> [] | Some t \<Rightarrow> press_request p sid t))"

lemma motor_submission_step:
  "submissions (ow_calls (motor_window_perform p w)) = submissions (ow_calls w) @
     (case ow_session_id w of
        None \<Rightarrow> []
      | Some sid \<Rightarrow> (case selected_target w of None \<Rightarrow> [] | Some t \<Rightarrow> press_request p sid t))"
  by (cases p) (auto simp: motor_window_defs split: sum.split option.split)

text \<open>
  \<^bold>\<open>C32\<close> The motor window commands exactly what the operator asks for: the commands it has requested are, in order, those
  of the presses; a press of Move or Stop asks for one command, under the session granted last before that
  press and for the target chosen last before it from the list received last, with the press's own request id:
  a move to the number entered, to be observed, or the first control action that the target declares, to be
  acknowledged. Without a session or a target, with a text that is no number or without such an action it
  asks for nothing, and nothing else ever does.
\<close>

theorem motor_window_requests:
  "submissions (ow_calls (fold motor_window_perform ops new_operator_window)) =
     concat (map (\<lambda>k. press_of (take k ops) (ops ! k)) [0..<length ops])"
proof (induction ops rule: rev_induct)
  case Nil
  then show ?case by (simp add: new_operator_window_def)
next
  case (snoc p ops)
  let ?w = "fold motor_window_perform ops new_operator_window"
  have earlier: "map (\<lambda>k. press_of (take k (ops @ [p])) ((ops @ [p]) ! k)) [0..<length ops] =
      map (\<lambda>k. press_of (take k ops) (ops ! k)) [0..<length ops]"
    by (rule map_cong) (simp_all add: nth_append)
  have start: "ow_session_id new_operator_window = None" "ow_targets new_operator_window = []"
    "ow_combo new_operator_window = []" "ow_current new_operator_window = []"
    by (simp_all add: new_operator_window_def)
  have state: "ow_session_id ?w = latest motor_granted None ops" "ow_targets ?w = latest motor_listed [] ops"
    using motor_console.run_state [of ops new_operator_window] start by simp_all
  have "ow_current ?w = snd (fold motor_choose ops ([], []))"
    using arg_cong [OF motor_window_choice [of ops new_operator_window], of snd] start by simp
  then have "selected_target ?w = chosen_target ops"
    by (simp add: selected_target_def chosen_target_def state)
  then have "submissions (ow_calls (motor_window_perform p ?w)) = submissions (ow_calls ?w) @ press_of ops p"
    by (auto simp: motor_submission_step press_of_def state split: option.split)
  moreover have "[0..<length (ops @ [p])] = [0..<length ops] @ [length ops]" by simp
  ultimately show ?case
    using snoc.IH unfolding \<open>[0..<length (ops @ [p])] = _\<close> map_append concat_append earlier by simp
qed

definition demo_listed :: target_manifest where
  "demo_listed = \<lparr>tm_target_id = ''m1'', tm_plugin_id = ''fake'', tm_plugin_version = ''1'', tm_actions = [], tm_capabilities = []\<rparr>"

text \<open>A new grant counts from the next press on; a Stop of a target without a control action asks for nothing.\<close>

lemma motor_window_requests_example:
  "map sr_control_session_id (submissions (ow_calls (fold motor_window_perform
     [Mo_move ''r0'' (Some 1), Mo_targets (Inr [demo_listed]), Mo_session (Inr ''s1''), Mo_move ''r1'' (Some 5),
      Mo_session (Inr ''s2''), Mo_move ''r2'' (Some 7), Mo_stop ''r3''] new_operator_window))) = [Some ''s1'', Some ''s2'']"
  by (simp add: motor_window_defs new_operator_window_def demo_listed_def selected_target_def control_action_def)

text \<open>
  The video window: every command is requested by a step of the operator, under the session granted last before that step,
  for a target of the list received last before it, and is one of its six actions with well-formed parameters: a path that is not empty, a
  volume from 0 to 100.
\<close>

theorem video_window_requests:
  assumes "Call_submit req \<in> set (ow_calls (fold video_window_perform ops new_video_window))"
  shows "\<exists>pre p post new. ops = pre @ p # post \<and>
    ow_calls (fold video_window_perform (pre @ [p]) new_video_window) = ow_calls (fold video_window_perform pre new_video_window) @ new \<and>
    Call_submit req \<in> set new \<and>
    latest video_granted None pre \<noteq> None \<and> sr_control_session_id req = latest video_granted None pre \<and>
    (\<exists>t \<in> set (latest video_listed [] pre). sr_target_id req = tm_target_id t \<and> video_allows t req)"
proof -
  have "video_window_ok new_video_window" and "ow_session_id new_video_window = None" and "ow_targets new_video_window = []"
    and "Call_submit req \<notin> set (ow_calls new_video_window)"
    by (simp_all add: video_window_ok_def new_video_window_def new_operator_window_def operator_window.defs)
  with video_console.run_requests [where w = new_video_window and req = req and ops = ops] assms show ?thesis by simp
qed

theorem video_window_requests_witness:
  "\<exists>pre p post. [Vi_targets (Inr [demo_listed]), Vi_session (Inr ''s1''), Vi_volume ''r1'' 120] = pre @ p # post \<and>
    Some ''s1'' = latest video_granted None pre \<and>
    (\<exists>t \<in> set (latest video_listed [] pre). ''m1'' = tm_target_id t)"
proof -
  let ?ops = "[Vi_targets (Inr [demo_listed]), Vi_session (Inr ''s1''), Vi_volume ''r1'' 120]"
  let ?req = "ui_request ''r1'' (Some ''s1'') ''m1'' ''volume'' [(''level'', PFloat 100)] Req_ACKNOWLEDGED"
  have "Call_submit ?req \<in> set (ow_calls (fold video_window_perform ?ops new_video_window))"
    by (simp add: video_window_defs new_video_window_def new_operator_window_def operator_window.defs demo_listed_def
        current_target_id_def)
  from video_window_requests [OF this] show ?thesis by auto
qed

text \<open>The preview requests made, and the answers to them.\<close>

definition preview_requests :: "video_window \<Rightarrow> nat" where
  "preview_requests w = length (filter (\<lambda>c. case c of Call_bytes _ \<Rightarrow> True | _ \<Rightarrow> False) (ow_calls w))"

definition preview_answers :: "video_window_op list \<Rightarrow> nat" where
  "preview_answers ops = length (filter (\<lambda>p. case p of Vi_preview _ _ \<Rightarrow> True | _ \<Rightarrow> False) ops)"

lemma preview_other:
  assumes "\<nexists>loads answer. p = Vi_preview loads answer"
  shows "preview_requests (video_window_perform p w) + (if vw_preview_busy w then 1 else 0) =
    preview_requests w + (if vw_preview_busy (video_window_perform p w) then 1 else 0)"
  using assms by (cases p) (simp_all add: video_window_defs preview_requests_def split: sum.split option.split)

text \<open>
  One preview at a time: when every answer belongs to a request, there is never more than one preview
  request without an answer, and the busy flag says whether there is one. A failed preview leaves the flag
  clear, so the next poll asks again.
\<close>

theorem one_preview_at_a_time:
  assumes "\<forall>pre post. ops = pre @ post \<longrightarrow>
    preview_answers pre \<le> preview_requests (fold video_window_perform pre new_video_window)"
  shows "preview_requests (fold video_window_perform ops new_video_window) = preview_answers ops +
    (if vw_preview_busy (fold video_window_perform ops new_video_window) then 1 else 0)"
  using assms
proof (induction ops rule: rev_induct)
  case Nil
  then show ?case
    by (simp add: preview_requests_def preview_answers_def new_video_window_def new_operator_window_def operator_window.defs)
next
  case (snoc p ops)
  let ?w = "fold video_window_perform ops new_video_window"
  have IH: "preview_requests ?w = preview_answers ops + (if vw_preview_busy ?w then 1 else 0)"
    using snoc.prems by (intro snoc.IH) (metis append.assoc)
  have last: "preview_answers (ops @ [p]) \<le> preview_requests (video_window_perform p ?w)"
    using snoc.prems [rule_format, of "ops @ [p]" "[]"] by simp
  have answers: "preview_answers (ops @ [p]) = preview_answers ops + (case p of Vi_preview _ _ \<Rightarrow> 1 | _ \<Rightarrow> 0)"
    by (simp add: preview_answers_def split: video_window_op.split)
  show ?case
  proof (cases "\<exists>loads answer. p = Vi_preview loads answer")
    case True
    then obtain loads answer where p: "p = Vi_preview loads answer" by blast
    have "preview_requests (video_window_perform p ?w) = preview_requests ?w \<and> \<not> vw_preview_busy (video_window_perform p ?w)"
      by (simp add: p preview_requests_def video_window_defs split: sum.split)
    then show ?thesis using IH last answers p by (simp split: if_splits)
  next
    case False
    then have "preview_requests (video_window_perform p ?w) + (if vw_preview_busy ?w then 1 else 0) =
        preview_requests ?w + (if vw_preview_busy (video_window_perform p ?w) then 1 else 0)"
      by (rule preview_other)
    moreover have "preview_answers (ops @ [p]) = preview_answers ops"
      using answers False by (cases p) simp_all
    ultimately show ?thesis using IH by simp
  qed
qed

theorem one_preview_at_a_time_witness:
  "preview_requests (fold video_window_perform [Vi_targets (Inr [demo_listed]), Vi_poll_preview, Vi_poll_preview] new_video_window) = 1"
proof -
  let ?ops = "[Vi_targets (Inr [demo_listed]), Vi_poll_preview, Vi_poll_preview]"
  have "\<forall>pre post. ?ops = pre @ post \<longrightarrow>
      preview_answers pre \<le> preview_requests (fold video_window_perform pre new_video_window)"
    by (auto simp: Cons_eq_append_conv preview_answers_def)
  from one_preview_at_a_time [OF this] show ?thesis
    by (simp add: preview_answers_def video_window_defs new_video_window_def new_operator_window_def operator_window.defs
        demo_listed_def current_target_id_def)
qed

end
