(* ===== verification/Runtime_Server.thy ===== *)
theory Runtime_Server
  imports Device_Runtime
begin

text \<open>
  How a Runtime answers over the network: \<open>transport/server.py\<close> and the part of \<open>transport/client.py\<close> that
  reads the answers. A handler is the Runtime's operation followed by the translation of its result to a
  response; requests that do not parse never reach it. \<open>events_ws\<close> is cut at its suspension points: a
  message that is being sent, and \<open>queue.get\<close>; anything may happen on the bus between two turns.
\<close>

section \<open>Requests and responses\<close>

text \<open>A response carries a value or the body of an error; no body is a text that is not JSON.\<close>

datatype 'a http_response =
    Http_ok nat 'a
  | Http_error nat "params option"

fun STATUS_BY_CODE :: "error_code \<Rightarrow> nat" where
  "STATUS_BY_CODE VALIDATION_ERROR = 400"
| "STATUS_BY_CODE UNKNOWN_TARGET = 404"
| "STATUS_BY_CODE UNKNOWN_ACTION = 404"
| "STATUS_BY_CODE COMMAND_NOT_FOUND = 404"
| "STATUS_BY_CODE BLOB_NOT_FOUND = 404"
| "STATUS_BY_CODE BUSY = 409"
| "STATUS_BY_CODE REQUEST_ID_CONFLICT = 409"
| "STATUS_BY_CODE CONTROL_SESSION_REQUIRED = 401"
| "STATUS_BY_CODE CONTROL_SESSION_INVALID = 401"
| "STATUS_BY_CODE CONTROL_SESSION_EXPIRED = 401"
| "STATUS_BY_CODE RUNTIME_BOOT_MISMATCH = 409"
| "STATUS_BY_CODE STALE_GENERATION = 409"
| "STATUS_BY_CODE RESYNC_REQUIRED = 409"
| "STATUS_BY_CODE INTERNAL_ERROR = 500"

definition fusion_error_handler :: "fusion_error \<Rightarrow> 'a http_response" where
  "fusion_error_handler exc = Http_error (STATUS_BY_CODE (fe_code exc)) (Some (error_to_dict exc))"

text \<open>What \<open>submit_command\<close> raises: a \<open>FusionError\<close>, or anything else, which the framework answers.\<close>

fun raised_response :: "fusion_error option \<Rightarrow> 'a http_response" where
  "raised_response (Some exc) = fusion_error_handler exc"
| "raised_response None = Http_error 500 None"

definition post_command :: "fusion_error option + command_record \<Rightarrow> command_record http_response" where
  "post_command result = (case result of Inl e \<Rightarrow> raised_response e | Inr record \<Rightarrow> Http_ok 202 record)"

definition get_command_handler :: "string \<Rightarrow> device_runtime \<Rightarrow> command_record http_response" where
  "get_command_handler c rt =
     (case get_command c rt of
        None \<Rightarrow> fusion_error_handler (FusionError COMMAND_NOT_FOUND (''unknown command_id '' @ quoted c))
      | Some record \<Rightarrow> Http_ok 200 record)"

definition post_control_session ::
    "string \<Rightarrow> string \<Rightarrow> runtime_mode \<Rightarrow> rat option \<Rightarrow> time \<Rightarrow> device_runtime \<Rightarrow>
     control_session http_response \<times> device_runtime" where
  "post_control_session new_id actor mode ttl_s now rt =
     (let (session, rt1) = acquire_control_session new_id actor mode ttl_s now rt in (Http_ok 201 session, rt1))"

definition renew_session_handler ::
    "string \<Rightarrow> time \<Rightarrow> time \<Rightarrow> device_runtime \<Rightarrow> control_session http_response \<times> device_runtime" where
  "renew_session_handler sid now now' rt =
     (case renew_control_session sid now now' rt of
        (Inl e, rt1) \<Rightarrow> (fusion_error_handler e, rt1)
      | (Inr session, rt1) \<Rightarrow> (Http_ok 200 session, rt1))"

definition release_session_handler :: "string \<Rightarrow> device_runtime \<Rightarrow> unit http_response \<times> device_runtime" where
  "release_session_handler sid rt = (Http_ok 204 (), release_control_session sid rt)"

definition stage_config_handler ::
    "string \<Rightarrow> params \<Rightarrow> string \<Rightarrow> string \<Rightarrow> time \<Rightarrow> device_runtime \<Rightarrow>
     config_revision http_response \<times> device_runtime" where
  "stage_config_handler kind content new_id h now rt =
     (let (revision, rt1) = stage_config kind content new_id h now rt in (Http_ok 201 revision, rt1))"

definition apply_config_answer :: "fusion_error + apply_record \<Rightarrow> apply_record http_response" where
  "apply_config_answer result = (case result of Inl e \<Rightarrow> fusion_error_handler e | Inr record \<Rightarrow> Http_ok 200 record)"

definition config_status_handler ::
    "device_runtime \<Rightarrow> (string list \<times> string option \<times> apply_record list) http_response" where
  "config_status_handler rt = Http_ok 200 (config_status (rt_config rt))"

definition upload_file_handler ::
    "(bytes \<Rightarrow> string) \<Rightarrow> string \<Rightarrow> string option \<Rightarrow> chunk list \<Rightarrow> device_runtime \<Rightarrow>
     blob_ref http_response \<times> device_runtime" where
  "upload_file_handler sha256 tmp expected chunks rt =
     (case save_blob sha256 tmp expected chunks rt of
        (Inl (Inl _), rt1) \<Rightarrow> (Http_error 500 None, rt1)
      | (Inl (Inr e), rt1) \<Rightarrow> (fusion_error_handler e, rt1)
      | (Inr ref, rt1) \<Rightarrow> (Http_ok 201 ref, rt1))"

definition download_file_handler :: "string \<Rightarrow> device_runtime \<Rightarrow> string http_response" where
  "download_file_handler sha rt =
     (case open_blob sha rt of Inl e \<Rightarrow> fusion_error_handler e | Inr path \<Rightarrow> Http_ok 200 path)"

text \<open>The three requests that only read; what the adapters' snapshots are is an input.\<close>

definition PROTOCOL_VERSION :: int where "PROTOCOL_VERSION = 1"

definition get_info :: "string \<Rightarrow> device_runtime \<Rightarrow> params" where
  "get_info app_name rt =
     [(''protocol_version'', PInt PROTOCOL_VERSION), (''runtime_id'', PStr (rt_runtime_id rt)),
      (''runtime_boot_id'', PStr (rt_runtime_boot_id rt)), (''app'', PStr app_name)]"

definition get_targets :: "device_runtime \<Rightarrow> target_manifest list" where
  "get_targets rt = map snd (rt_adapters rt)"

definition get_snapshot :: "(string \<Rightarrow> target_state) \<Rightarrow> device_runtime \<Rightarrow> nat \<times> (string, target_state) dict" where
  "get_snapshot snapshot rt =
     (eb_sequence (rt_events rt), map (\<lambda>(target_id, m). (target_id, snapshot target_id)) (rt_adapters rt))"

section \<open>The client's reading of a response\<close>

datatype client_error =
    Command_error nat "pyval option" params
  | Http_status_error nat
  | Body_not_json

definition RuntimeCommandError :: "nat \<Rightarrow> params \<Rightarrow> client_error" where
  "RuntimeCommandError status body = Command_error status (dget body ''code'') body"

fun status_of :: "'a http_response \<Rightarrow> nat" where
  "status_of (Http_ok st _) = st"
| "status_of (Http_error st _) = st"

definition client_submit :: "'a http_response \<Rightarrow> client_error + 'a" where
  "client_submit r =
     (if status_of r \<ge> 400
      then (case r of Http_error st (Some body) \<Rightarrow> Inl (RuntimeCommandError st body) | _ \<Rightarrow> Inl Body_not_json)
      else (case r of Http_ok _ x \<Rightarrow> Inr x | Http_error _ _ \<Rightarrow> Inl Body_not_json))"

text \<open>Every other call: \<open>raise_for_status\<close>, which raises outside 2xx, and then \<open>json\<close>.\<close>

definition client_json :: "'a http_response \<Rightarrow> client_error + 'a" where
  "client_json r =
     (if status_of r div 100 \<noteq> 2 then Inl (Http_status_error (status_of r))
      else (case r of Http_ok _ x \<Rightarrow> Inr x | Http_error _ _ \<Rightarrow> Inl Body_not_json))"

lemma error_code_value_inj: "error_code_value c = error_code_value c' \<longleftrightarrow> c = c'"
  by (cases c; cases c') simp_all

lemma error_status: "400 \<le> STATUS_BY_CODE c \<and> STATUS_BY_CODE c \<le> 500"
  by (cases c) simp_all

lemma dget_code: "dget (error_to_dict e) ''code'' = Some (PStr (error_code_value (fe_code e)))"
  by (simp add: error_to_dict_def)

lemma client_submit_error:
  "client_submit (fusion_error_handler e) =
     Inl (Command_error (STATUS_BY_CODE (fe_code e)) (Some (PStr (error_code_value (fe_code e)))) (error_to_dict e))"
  using error_status [of "fe_code e"]
  by (simp add: client_submit_def fusion_error_handler_def RuntimeCommandError_def dget_code)

text \<open>
  A refusal reaches the caller as itself: whatever \<open>submit_command\<close> did in the Runtime, the client
  returns a record exactly when the Runtime did, the same one, and raises an error with a code exactly
  when the Runtime raised the error with that code; anything else is an error without a code.
\<close>

theorem submit_outcome_reaches_client:
  "(client_submit (post_command result) = Inr record \<longleftrightarrow> result = Inr record) \<and>
   ((\<exists>st body. client_submit (post_command result) = Inl (Command_error st (Some (PStr (error_code_value c))) body)) \<longleftrightarrow>
    (\<exists>e. result = Inl (Some e) \<and> fe_code e = c)) \<and>
   (client_submit (post_command result) = Inl Body_not_json \<longleftrightarrow> result = Inl None)"
proof (cases result)
  case (Inl e)
  then show ?thesis
  proof (cases e)
    case None
    with Inl show ?thesis by (simp add: post_command_def client_submit_def)
  next
    case (Some exc)
    with Inl show ?thesis by (simp add: post_command_def client_submit_error error_code_value_inj)
  qed
qed (auto simp: post_command_def client_submit_def)

section \<open>The event stream\<close>

datatype ws_message = Ws_event event | Ws_resync_required

datatype ws_phase =
    Ws_replaying "event list"
  | Ws_live nat
  | Ws_closed

record ws_world =
  ws_bus :: event_bus
  ws_phase :: ws_phase
  ws_sent :: "event list"
  ws_resync :: bool

text \<open>Send the next replayed event, or subscribe when there is none left.\<close>

fun ws_next :: "event list \<Rightarrow> ws_world \<Rightarrow> ws_world" where
  "ws_next (e # es) w = w\<lparr>ws_sent := ws_sent w @ [e], ws_phase := Ws_replaying es\<rparr>"
| "ws_next [] w = (let (i, b) = subscribe (ws_bus w) in w\<lparr>ws_bus := b, ws_phase := Ws_live i\<rparr>)"

text \<open>The start of \<open>events_ws\<close>; without a position the client streams from now.\<close>

definition ws_open :: "nat option \<Rightarrow> event_bus \<Rightarrow> ws_world" where
  "ws_open init b =
     (let after_sequence = (case init of Some n \<Rightarrow> n | None \<Rightarrow> eb_sequence b);
          w = \<lparr>ws_bus = b, ws_phase = Ws_closed, ws_sent = [], ws_resync = False\<rparr>
      in case replay_since after_sequence b of
           None \<Rightarrow> w\<lparr>ws_resync := True\<rparr>
         | Some replay \<Rightarrow> ws_next replay w)"

definition ws_turn :: "ws_world \<Rightarrow> ws_world" where
  "ws_turn w =
     (case ws_phase w of
        Ws_replaying es \<Rightarrow> ws_next es w
      | Ws_live i \<Rightarrow>
          (case queue_get i (ws_bus w) of
             (None, _) \<Rightarrow> w
           | (Some None, b) \<Rightarrow> w\<lparr>ws_bus := unsubscribe i b, ws_phase := Ws_closed, ws_resync := True\<rparr>
           | (Some (Some e), b) \<Rightarrow> w\<lparr>ws_bus := b, ws_sent := ws_sent w @ [e]\<rparr>)
      | Ws_closed \<Rightarrow> w)"

text \<open>The client is gone: the message that is being sent raises.\<close>

definition ws_disconnect :: "ws_world \<Rightarrow> ws_world" where
  "ws_disconnect w =
     (case ws_phase w of
        Ws_live i \<Rightarrow> w\<lparr>ws_bus := unsubscribe i (ws_bus w), ws_phase := Ws_closed\<rparr>
      | _ \<Rightarrow> w\<lparr>ws_phase := Ws_closed\<rparr>)"

text \<open>
  What happens to a stream: a turn of its own, a disconnection, an event published, another stream
  subscribing, reading or ending.
\<close>

datatype ws_op =
    Ws_turn
  | Ws_disconnect
  | Ws_publish publication
  | Ws_other bus_op

fun ws_perform :: "ws_op \<Rightarrow> ws_world \<Rightarrow> ws_world" where
  "ws_perform Ws_turn w = ws_turn w"
| "ws_perform Ws_disconnect w = ws_disconnect w"
| "ws_perform (Ws_publish p) w = w\<lparr>ws_bus := snd (publish p (ws_bus w))\<rparr>"
| "ws_perform (Ws_other p) w = w\<lparr>ws_bus := bus_perform p (ws_bus w)\<rparr>"

text \<open>The others leave the queue of this stream alone: each stream names only its own subscription.\<close>

fun other_ok :: "ws_phase \<Rightarrow> bus_op \<Rightarrow> bool" where
  "other_ok ph (Bus_publish _) \<longleftrightarrow> False"
| "other_ok ph Bus_subscribe \<longleftrightarrow> True"
| "other_ok ph (Bus_unsubscribe j) \<longleftrightarrow> ph \<noteq> Ws_live j"
| "other_ok ph (Bus_get j) \<longleftrightarrow> ph \<noteq> Ws_live j"

fun ws_admissible :: "ws_op list \<Rightarrow> ws_world \<Rightarrow> bool" where
  "ws_admissible [] w \<longleftrightarrow> True"
| "ws_admissible (p # ps) w \<longleftrightarrow>
     (case p of Ws_other q \<Rightarrow> other_ok (ws_phase w) q | _ \<Rightarrow> True) \<and> ws_admissible ps (ws_perform p w)"

fun ws_published :: "ws_op list \<Rightarrow> ws_world \<Rightarrow> event list" where
  "ws_published [] w = []"
| "ws_published (p # ps) w =
     (case p of Ws_publish q \<Rightarrow> [fst (publish q (ws_bus w))] | _ \<Rightarrow> []) @ ws_published ps (ws_perform p w)"

text \<open>Nothing is published while the replay is being sent.\<close>

fun replay_undisturbed :: "ws_op list \<Rightarrow> ws_world \<Rightarrow> bool" where
  "replay_undisturbed [] w \<longleftrightarrow> True"
| "replay_undisturbed (p # ps) w \<longleftrightarrow>
     (case (p, ws_phase w) of (Ws_publish _, Ws_replaying _) \<Rightarrow> False | _ \<Rightarrow> True) \<and>
     replay_undisturbed ps (ws_perform p w)"

section \<open>A stream that is not disturbed sends everything\<close>

text \<open>What the stream has sent and what it still holds is the history after the client's position.\<close>

definition stream_exact :: "nat \<Rightarrow> event list \<Rightarrow> ws_world \<Rightarrow> bool" where
  "stream_exact n hist w \<longleftrightarrow>
     bus_represents hist (ws_bus w) \<and>
     (case ws_phase w of
        Ws_replaying es \<Rightarrow> ws_sent w @ es = drop n hist \<and> n \<le> size hist
      | Ws_live i \<Rightarrow> i < eb_next_sub_id (ws_bus w) \<and> n \<le> size hist \<and>
          (i \<in> set (eb_subscribers (ws_bus w)) \<longrightarrow>
            map Some (ws_sent w) @ eb_queues (ws_bus w) i = map Some (drop n hist))
      | Ws_closed \<Rightarrow> True)"

lemma stream_exact_next:
  assumes "bus_represents hist (ws_bus w)" and "ws_sent w @ es = drop n hist" and "n \<le> size hist"
  shows "stream_exact n hist (ws_next es w)"
proof (cases es)
  case Nil
  with assms bus_represents_subscribe [OF assms(1)] show ?thesis
    by (auto simp: stream_exact_def subscribe_def Let_def)
qed (use assms in \<open>simp add: stream_exact_def\<close>)

lemma stream_exact_open:
  assumes "bus_represents hist b" and "0 < eb_maxlen b" and "case init of Some n \<Rightarrow> n \<le> size hist | None \<Rightarrow> True"
  shows "stream_exact (case init of Some n \<Rightarrow> n | None \<Rightarrow> size hist) hist (ws_open init b)"
proof -
  let ?n = "case init of Some n \<Rightarrow> n | None \<Rightarrow> size hist"
  have n: "?n \<le> size hist" using assms(3) by (auto split: option.splits)
  have "(case init of Some n \<Rightarrow> n | None \<Rightarrow> eb_sequence b) = ?n"
    using assms(1) unfolding bus_represents_def by (cases init) auto
  moreover have "replay_since ?n b = replay_spec (eb_maxlen b) hist ?n"
    using assms(1,2) n by (rule replay_since_spec)
  ultimately have "ws_open init b =
      (let w = \<lparr>ws_bus = b, ws_phase = Ws_closed, ws_sent = [], ws_resync = False\<rparr>
       in if size hist \<le> ?n + eb_maxlen b then ws_next (drop ?n hist) w else w\<lparr>ws_resync := True\<rparr>)"
    by (simp add: ws_open_def replay_spec_def Let_def)
  moreover have "stream_exact ?n hist (ws_next (drop ?n hist) \<lparr>ws_bus = b, ws_phase = Ws_closed, ws_sent = [], ws_resync = False\<rparr>)"
    by (rule stream_exact_next) (use assms(1) n in simp_all)
  ultimately show ?thesis
    using assms(1) by (simp add: Let_def stream_exact_def)
qed

lemma stream_exact_turn:
  assumes "stream_exact n hist w"
  shows "stream_exact n hist (ws_turn w)"
proof (cases "ws_phase w")
  case (Ws_replaying es)
  from assms Ws_replaying have "stream_exact n hist (ws_next es w)"
    by (intro stream_exact_next) (simp_all add: stream_exact_def)
  with Ws_replaying show ?thesis by (simp add: ws_turn_def)
next
  case (Ws_live i)
  from assms have rep: "bus_represents hist (ws_bus w)" by (simp add: stream_exact_def)
  show ?thesis
  proof (cases "eb_queues (ws_bus w) i")
    case Nil
    with assms Ws_live show ?thesis by (simp add: ws_turn_def queue_get_def)
  next
    case (Cons x xs)
    with assms Ws_live bus_represents_get [OF rep, of i] bus_represents_unsubscribe show ?thesis
      by (cases x) (auto simp: ws_turn_def queue_get_def stream_exact_def)
  qed
qed (use assms in \<open>simp add: ws_turn_def\<close>)

lemma stream_exact_other:
  assumes "stream_exact n hist w" and "other_ok (ws_phase w) q"
  shows "stream_exact n hist (w\<lparr>ws_bus := bus_perform q (ws_bus w)\<rparr>)"
proof -
  from assms(1) have rep: "bus_represents hist (ws_bus w)" by (simp add: stream_exact_def)
  have "bus_represents hist (bus_perform q (ws_bus w))"
    using rep assms(2) by (cases q) (auto intro: inv_intros)
  then show ?thesis
    using assms
    by (cases q; cases "ws_phase w")
      (auto simp: stream_exact_def subscribe_def unsubscribe_def queue_get_def Let_def split: list.split)
qed

lemma stream_exact_publish:
  assumes "stream_exact n hist w" and "\<nexists>es. ws_phase w = Ws_replaying es"
  shows "stream_exact n (hist @ [fst (publish p (ws_bus w))]) (w\<lparr>ws_bus := snd (publish p (ws_bus w))\<rparr>)"
proof -
  from assms(1) have rep: "bus_represents hist (ws_bus w)" by (simp add: stream_exact_def)
  show ?thesis
  proof (cases "ws_phase w")
    case (Ws_live i)
    with assms(1) bus_represents_publish [OF rep, of p] bus_emit_queue [OF rep, of i p] show ?thesis
      by (auto simp: stream_exact_def)
  qed (use assms(2) bus_represents_publish [OF rep, of p] in \<open>auto simp: stream_exact_def\<close>)
qed

lemma stream_exact_run:
  assumes "stream_exact n hist w" and "ws_admissible ops w" and "replay_undisturbed ops w"
  shows "stream_exact n (hist @ ws_published ops w) (fold ws_perform ops w)"
  using assms
proof (induction ops arbitrary: hist w)
  case (Cons p ops)
  show ?case
  proof (cases p)
    case Ws_turn
    with Cons.prems Cons.IH [OF stream_exact_turn] show ?thesis by simp
  next
    case Ws_disconnect
    have "stream_exact n hist (ws_disconnect w)"
      using Cons.prems(1) bus_represents_unsubscribe
      by (auto simp: stream_exact_def ws_disconnect_def split: ws_phase.splits)
    with Ws_disconnect Cons.prems Cons.IH show ?thesis by simp
  next
    case (Ws_publish q)
    with Cons.prems have "\<nexists>es. ws_phase w = Ws_replaying es" by (auto split: ws_phase.splits)
    from Cons.IH [OF stream_exact_publish [OF Cons.prems(1) this, of q]] Cons.prems Ws_publish show ?thesis
      by simp
  next
    case (Ws_other q)
    with Cons.prems Cons.IH [OF stream_exact_other] show ?thesis by simp
  qed
qed simp

text \<open>
  The event stream is exact while nothing is published during its replay: as long as the stream is
  live and was not dropped, what it has sent followed by what waits in its queue is the whole history
  after the client's position, up to the last event published, each event once and in order.
\<close>

theorem event_stream_exact:
  assumes "bus_represents hist b" and "0 < eb_maxlen b" and "n \<le> size hist"
    and "ws_admissible ops (ws_open (Some n) b)" and "replay_undisturbed ops (ws_open (Some n) b)"
    and "ws_phase (fold ws_perform ops (ws_open (Some n) b)) = Ws_live i"
    and "i \<in> set (eb_subscribers (ws_bus (fold ws_perform ops (ws_open (Some n) b))))"
  shows "map Some (ws_sent (fold ws_perform ops (ws_open (Some n) b))) @
      eb_queues (ws_bus (fold ws_perform ops (ws_open (Some n) b))) i =
    map Some (drop n (hist @ ws_published ops (ws_open (Some n) b)))"
proof -
  have "stream_exact n hist (ws_open (Some n) b)"
    using stream_exact_open [OF assms(1,2), of "Some n"] assms(3) by simp
  from stream_exact_run [OF this assms(4,5)] assms(6,7) show ?thesis
    by (simp add: stream_exact_def)
qed

theorem event_stream_exact_witness:
  "let b = snd (publish (demo_publication ''e1'') (new_event_bus ''motor-01'' ''boot-1'' 5 5));
       w = fold ws_perform [Ws_turn, Ws_publish (demo_publication ''e2''), Ws_turn] (ws_open (Some 0) b)
   in map ev_event_id (ws_sent w) = [''e1'', ''e2'']"
proof -
  let ?bus = "new_event_bus ''motor-01'' ''boot-1'' 5 5"
  let ?b = "snd (publish (demo_publication ''e1'') ?bus)"
  let ?ops = "[Ws_turn, Ws_publish (demo_publication ''e2''), Ws_turn]"
  have rep: "bus_represents ([] @ [fst (publish (demo_publication ''e1'') ?bus)]) ?b"
    by (intro inv_intros bus_represents_new)
  have "ws_phase (fold ws_perform ?ops (ws_open (Some 0) ?b)) = Ws_live 0"
    and "0 \<in> set (eb_subscribers (ws_bus (fold ws_perform ?ops (ws_open (Some 0) ?b))))"
    and "ws_admissible ?ops (ws_open (Some 0) ?b)" and "replay_undisturbed ?ops (ws_open (Some 0) ?b)"
    and "eb_queues (ws_bus (fold ws_perform ?ops (ws_open (Some 0) ?b))) 0 = []"
    by code_simp+
  note run = this
  have "map Some (ws_sent (fold ws_perform ?ops (ws_open (Some 0) ?b))) =
      map Some (([] @ [fst (publish (demo_publication ''e1'') ?bus)]) @ ws_published ?ops (ws_open (Some 0) ?b))"
    using event_stream_exact [OF rep _ _ run(3,4,1,2)] run(5) by (simp add: new_event_bus_def)
  then have sent: "ws_sent (fold ws_perform ?ops (ws_open (Some 0) ?b)) =
      fst (publish (demo_publication ''e1'') ?bus) # ws_published ?ops (ws_open (Some 0) ?b)"
    by (simp only: inj_map_eq_map [OF inj_Some] append_Nil append_Cons)
  have "map ev_event_id (fst (publish (demo_publication ''e1'') ?bus) # ws_published ?ops (ws_open (Some 0) ?b)) = [''e1'', ''e2'']"
    by code_simp
  with sent show ?thesis by (simp only: Let_def)
qed

section \<open>An event published during the replay is lost\<close>

text \<open>Everything the stream has sent or still holds satisfies \<open>P\<close>.\<close>

definition stream_holds :: "(event \<Rightarrow> bool) \<Rightarrow> ws_world \<Rightarrow> bool" where
  "stream_holds P w \<longleftrightarrow>
     bus_ids (ws_bus w) \<and> (\<forall>e \<in> set (ws_sent w). P e) \<and>
     (case ws_phase w of
        Ws_replaying es \<Rightarrow> \<forall>e \<in> set es. P e
      | Ws_live i \<Rightarrow> \<forall>e. Some e \<in> set (eb_queues (ws_bus w) i) \<longrightarrow> P e
      | Ws_closed \<Rightarrow> True)"

lemma bus_ids_ops: "bus_ids b \<Longrightarrow> bus_ids (snd (subscribe b)) \<and> bus_ids (unsubscribe i b) \<and>
  bus_ids (snd (queue_get i b)) \<and> bus_ids (snd (publish p b))"
  using bus_ids_step [of b Bus_subscribe] bus_ids_step [of b "Bus_unsubscribe i"]
    bus_ids_step [of b "Bus_get i"] bus_ids_step [of b "Bus_publish p"] by simp

lemma stream_holds_next:
  assumes "stream_holds P w" and "ws_phase w = Ws_replaying es \<or> ws_phase w = Ws_closed" and "\<forall>e \<in> set es. P e"
  shows "stream_holds P (ws_next es w)"
proof (cases es)
  case Nil
  with assms bus_ids_ops [of "ws_bus w"] show ?thesis
    by (auto simp: stream_holds_def subscribe_def Let_def)
qed (use assms in \<open>auto simp: stream_holds_def\<close>)

lemma stream_holds_turn:
  assumes "stream_holds P w"
  shows "stream_holds P (ws_turn w)"
proof (cases "ws_phase w")
  case (Ws_replaying es)
  with assms stream_holds_next [OF assms, of es] show ?thesis
    by (simp add: ws_turn_def stream_holds_def)
next
  case (Ws_live i)
  show ?thesis
  proof (cases "eb_queues (ws_bus w) i")
    case (Cons x xs)
    with assms Ws_live bus_ids_ops [of "ws_bus w" i] show ?thesis
      by (cases x) (auto simp: ws_turn_def queue_get_def stream_holds_def bus_ids_ops)
  qed (use assms Ws_live in \<open>simp add: ws_turn_def queue_get_def\<close>)
qed (use assms in \<open>simp add: ws_turn_def\<close>)

lemma in_set_tlD: "x \<in> set (tl xs) \<Longrightarrow> x \<in> set xs"
  by (cases xs) simp_all

lemma stream_holds_publish:
  assumes "stream_holds P w" and "P (make_event q (ws_bus w))"
  shows "stream_holds P (w\<lparr>ws_bus := snd (publish q (ws_bus w))\<rparr>)"
proof -
  have ids: "bus_ids (ws_bus w)" using assms(1) by (simp add: stream_holds_def)
  have *: "eb_queues (snd (publish q (ws_bus w))) i \<in>
      {eb_queues (ws_bus w) i, tl (eb_queues (ws_bus w) i) @ [None], eb_queues (ws_bus w) i @ [Some (make_event q (ws_bus w))]}" for i
    using ids by (simp add: bus_ids_def publish_queues)
  have "P e" if "Some e \<in> set (eb_queues (snd (publish q (ws_bus w))) i)" and "ws_phase w = Ws_live i" for e i
  proof -
    have "Some e \<in> set (eb_queues (ws_bus w) i) \<or> e = make_event q (ws_bus w)"
      using that(1) * [of i] by (auto dest: in_set_tlD)
    with assms that(2) show ?thesis by (auto simp: stream_holds_def)
  qed
  then show ?thesis
    using assms(1) bus_ids_ops [OF ids] by (auto simp: stream_holds_def split: ws_phase.splits)
qed

lemma stream_holds_step:
  assumes "stream_holds P w" and "\<And>q. p = Ws_publish q \<Longrightarrow> P (make_event q (ws_bus w))"
    and "ws_admissible [p] w"
  shows "stream_holds P (ws_perform p w)"
proof (cases p)
  case Ws_disconnect
  with assms(1) bus_ids_ops [of "ws_bus w"] show ?thesis
    by (auto simp: stream_holds_def ws_disconnect_def split: ws_phase.splits)
next
  case (Ws_other q)
  with assms(1,3) bus_ids_step [of "ws_bus w" q] show ?thesis
    by (cases q; cases "ws_phase w")
      (auto simp: stream_holds_def subscribe_def unsubscribe_def queue_get_def Let_def split: list.splits)
qed (use assms stream_holds_turn stream_holds_publish in auto)

lemma sequence_mono: "eb_sequence (ws_bus w) \<le> eb_sequence (ws_bus (ws_perform p w))"
proof -
  have "eb_sequence (ws_bus (ws_next es w)) = eb_sequence (ws_bus w)" for es
    by (cases es) (simp_all add: subscribe_def Let_def)
  moreover have "eb_sequence b \<le> eb_sequence (bus_perform q b)" for q b
    by (cases q) (simp_all add: subscribe_def unsubscribe_def queue_get_def Let_def split: list.split)
  ultimately show ?thesis
    by (cases p) (auto simp: ws_turn_def ws_disconnect_def unsubscribe_def queue_get_def
        split: ws_phase.split list.split option.split)
qed

text \<open>Nothing the stream holds is newer than the bus.\<close>

abbreviation not_newer :: "ws_world \<Rightarrow> bool" where
  "not_newer w \<equiv> stream_holds (\<lambda>e. ev_sequence e \<le> eb_sequence (ws_bus w)) w"

lemma not_newer_run: "not_newer w \<Longrightarrow> ws_admissible ops w \<Longrightarrow> not_newer (fold ws_perform ops w)"
proof (induction ops arbitrary: w)
  case (Cons p ops)
  let ?P = "\<lambda>e. ev_sequence e \<le> eb_sequence (ws_bus (ws_perform p w))"
  have "stream_holds ?P w"
    using Cons.prems(1) sequence_mono [of w p] by (fastforce simp: stream_holds_def split: ws_phase.splits)
  then have "stream_holds ?P (ws_perform p w)"
    using Cons.prems(2) by (intro stream_holds_step) (auto simp: make_event_def)
  with Cons show ?case by simp
qed simp

lemma not_newer_open:
  assumes "bus_represents hist b"
  shows "not_newer (ws_open init b)"
proof -
  have ids: "bus_ids b" using assms by (rule bus_represents_ids)
  have old: "ev_sequence e \<le> eb_sequence b" if "e \<in> set hist" for e
  proof -
    from that obtain k where "k < size hist" "hist ! k = e" by (auto simp: in_set_conv_nth)
    with assms show ?thesis using log_seq_nth [of hist k] by (simp add: bus_represents_def)
  qed
  have buffer: "set (eb_buffer b) \<subseteq> set hist"
    using assms by (auto simp: bus_represents_def last_n_def dest: in_set_dropD)
  let ?w = "\<lparr>ws_bus = b, ws_phase = Ws_closed, ws_sent = [], ws_resync = False\<rparr>"
  have w: "stream_holds P ?w" for P using ids by (simp add: stream_holds_def)
  have bus: "eb_sequence (ws_bus (ws_next es ?w)) = eb_sequence b" for es
    by (cases es) (simp_all add: subscribe_def Let_def)
  have "set es \<subseteq> set (eb_buffer b)" if "replay_since n b = Some es" for n es
    using that by (auto simp: replay_since_def split: if_splits list.splits)
  then have "stream_holds (\<lambda>e. ev_sequence e \<le> eb_sequence b) (ws_next es ?w)" if "replay_since n b = Some es" for n es
    using that w old buffer by (intro stream_holds_next) (auto, blast)
  note opened = this
  obtain n where n: "ws_open init b =
      (case replay_since n b of None \<Rightarrow> ?w\<lparr>ws_resync := True\<rparr> | Some replay \<Rightarrow> ws_next replay ?w)"
    by (simp add: ws_open_def Let_def)
  show ?thesis
  proof (cases "replay_since n b")
    case None
    with w show ?thesis by (simp add: n stream_holds_def)
  next
    case (Some es)
    with opened [OF Some] show ?thesis by (simp add: n bus)
  qed
qed

lemma absent_run:
  "stream_holds (\<lambda>x. x \<noteq> e) w \<Longrightarrow> ev_sequence e \<le> eb_sequence (ws_bus w) \<Longrightarrow> ws_admissible ops w \<Longrightarrow>
   e \<notin> set (ws_sent (fold ws_perform ops w))"
proof (induction ops arbitrary: w)
  case (Cons p ops)
  have "stream_holds (\<lambda>x. x \<noteq> e) (ws_perform p w)"
    using Cons.prems by (intro stream_holds_step) (auto simp: make_event_def)
  moreover have "ev_sequence e \<le> eb_sequence (ws_bus (ws_perform p w))"
    using Cons.prems(2) sequence_mono [of w p] by simp
  ultimately show ?case using Cons by simp
qed (auto simp: stream_holds_def)

lemma replay_to_live:
  "ws_phase w = Ws_replaying es \<Longrightarrow>
   (\<exists>i. ws_phase ((ws_turn ^^ Suc (size es)) w) = Ws_live i \<and>
        i \<in> set (eb_subscribers (ws_bus ((ws_turn ^^ Suc (size es)) w)))) \<and>
   ws_resync ((ws_turn ^^ Suc (size es)) w) = ws_resync w"
proof (induction es arbitrary: w)
  case Nil
  then show ?case by (simp add: ws_turn_def subscribe_def Let_def)
next
  case (Cons e es)
  then have "ws_turn w = w\<lparr>ws_sent := ws_sent w @ [e], ws_phase := Ws_replaying es\<rparr>"
    by (simp add: ws_turn_def)
  with Cons.IH [of "ws_turn w"] show ?case
    unfolding list.size add_Suc_right add_0_right funpow_Suc_right [of "Suc (size es)"] comp_apply by simp
qed

text \<open>
  \<^bold>\<open>C29\<close> An event published while a stream still sends its replay is never sent on that stream, whatever
  happens afterwards; and nothing tells the client: once the replay is sent the stream is live and
  registered, without a resync message.
\<close>

theorem published_during_replay_is_lost:
  assumes "bus_represents hist b" and "ws_admissible ops (ws_open init b)"
    and "ws_phase (fold ws_perform ops (ws_open init b)) = Ws_replaying es"
    and "ws_admissible later (ws_perform (Ws_publish p) (fold ws_perform ops (ws_open init b)))"
  shows "let w = fold ws_perform ops (ws_open init b); w1 = ws_perform (Ws_publish p) w
    in fst (publish p (ws_bus w)) \<notin> set (ws_sent (fold ws_perform later w1)) \<and>
       (\<exists>i. ws_phase ((ws_turn ^^ Suc (size es)) w1) = Ws_live i \<and>
            i \<in> set (eb_subscribers (ws_bus ((ws_turn ^^ Suc (size es)) w1)))) \<and>
       ws_resync ((ws_turn ^^ Suc (size es)) w1) = ws_resync w"
proof -
  let ?w = "fold ws_perform ops (ws_open init b)"
  let ?e = "make_event p (ws_bus ?w)"
  have held: "not_newer ?w"
    using not_newer_open [OF assms(1)] assms(2) by (rule not_newer_run)
  have "ev_sequence ?e = Suc (eb_sequence (ws_bus ?w))" by (simp add: make_event_def)
  with held assms(3) have "stream_holds (\<lambda>x. x \<noteq> ?e) (ws_perform (Ws_publish p) ?w)"
    using bus_ids_ops [of "ws_bus ?w"] by (fastforce simp: stream_holds_def)
  from absent_run [OF this _ assms(4)] replay_to_live [of "ws_perform (Ws_publish p) ?w" es] assms(3)
  show ?thesis by (simp add: Let_def make_event_def)
qed

theorem published_during_replay_is_lost_witness:
  "let b = snd (publish (demo_publication ''e1'') (new_event_bus ''motor-01'' ''boot-1'' 5 5));
       w1 = ws_perform (Ws_publish (demo_publication ''e2'')) (ws_open (Some 0) b);
       w2 = fold ws_perform [Ws_turn, Ws_publish (demo_publication ''e3''), Ws_turn] w1
   in map ev_event_id (ws_sent w2) = [''e1'', ''e3''] \<and> \<not> ws_resync w2 \<and>
      fst (publish (demo_publication ''e2'') (ws_bus (ws_open (Some 0) b))) \<notin> set (ws_sent w2)"
proof -
  let ?bus = "new_event_bus ''motor-01'' ''boot-1'' 5 5"
  let ?b = "snd (publish (demo_publication ''e1'') ?bus)"
  let ?later = "[Ws_turn, Ws_publish (demo_publication ''e3''), Ws_turn]"
  have rep: "bus_represents ([] @ [fst (publish (demo_publication ''e1'') ?bus)]) ?b"
    by (intro inv_intros bus_represents_new)
  have run: "ws_admissible [] (ws_open (Some 0) ?b)"
    "ws_phase (fold ws_perform [] (ws_open (Some 0) ?b)) = Ws_replaying []"
    "ws_admissible ?later (ws_perform (Ws_publish (demo_publication ''e2'')) (fold ws_perform [] (ws_open (Some 0) ?b)))"
    by code_simp+
  have "map ev_event_id (ws_sent (fold ws_perform ?later (ws_perform (Ws_publish (demo_publication ''e2'')) (ws_open (Some 0) ?b)))) = [''e1'', ''e3'']"
    and "\<not> ws_resync (fold ws_perform ?later (ws_perform (Ws_publish (demo_publication ''e2'')) (ws_open (Some 0) ?b)))"
    by code_simp+
  with published_during_replay_is_lost [OF rep run] show ?thesis
    unfolding Let_def fold_simps(1) by blast
qed

end
