(* ===== verification/Group_Deployment.thy ===== *)
theory Group_Deployment
  imports Runtime_Server
begin

text \<open>
  Setting's deployment of one config to several Runtimes: \<open>apps/setting/coordinator.py\<close> and
  \<open>contracts/deployment.py\<close>, over the stage and apply handlers of \<open>Runtime_Server\<close>. The network is an input: a
  request may be lost before the Runtime saw it or its answer afterwards. An apply that is still waiting
  for the lock or its guard when the client's timeout is over is an error for the client and goes on in
  the Runtime.
\<close>

section \<open>Results\<close>

record deployment_result =
  dr_runtime_name :: string
  dr_staged :: bool
  dr_revision_id :: "string option"
  dr_stage_error :: "string option"
  dr_apply_outcome :: "string option"
  dr_apply_detail :: "string option"

datatype deployment_overall = Overall_STAGED | Overall_SUCCEEDED | Overall_PARTIAL | Overall_FAILED

fun apply_outcome_value :: "apply_outcome \<Rightarrow> string" where
  "apply_outcome_value Apply_SUCCEEDED = ''SUCCEEDED''"
| "apply_outcome_value Apply_REJECTED = ''REJECTED''"
| "apply_outcome_value Apply_FAILED = ''FAILED''"

record deployment =
  dep_deployment_id :: string
  dep_kind :: string
  dep_created_at :: time
  dep_results :: "(string, deployment_result) dict"

definition overall :: "deployment \<Rightarrow> deployment_overall" where
  "overall d =
     (let results = map snd (dep_results d);
          attempted = List.map_filter dr_apply_outcome results
      in if \<exists>r \<in> set results. \<not> dr_staged r then Overall_FAILED
         else if attempted = [] then Overall_STAGED
         else if \<forall>out \<in> set attempted. out = ''SUCCEEDED'' then Overall_SUCCEEDED
         else if \<exists>out \<in> set attempted. out = ''SUCCEEDED'' then Overall_PARTIAL
         else Overall_FAILED)"

section \<open>A client's calls\<close>

datatype link = Link_up | Request_lost string | Reply_lost string

text \<open>What the environment decides during the calls to one Runtime.\<close>

record client_env =
  ce_stage_link :: link
  ce_apply_link :: link
  ce_new_id :: string
  ce_content_hash :: string
  ce_staged_at :: time
  ce_call :: nat
  ce_guard :: "guard_result option"
  ce_entered_at :: time
  ce_applied_at :: time
  ce_str :: "client_error \<Rightarrow> string"
  ce_timeout :: string

text \<open>A call over the link: the handler's response, the error of the link, or a timeout (no response).\<close>

definition over_link ::
    "(client_error \<Rightarrow> string) \<Rightarrow> string \<Rightarrow> link \<Rightarrow> 'a http_response option \<times> 'w \<Rightarrow> 'w \<Rightarrow> (string + 'a) \<times> 'w" where
  "over_link str timeout l handled w =
     (case l of
        Request_lost m \<Rightarrow> (Inl m, w)
      | Reply_lost m \<Rightarrow> (Inl m, snd handled)
      | Link_up \<Rightarrow>
          (case fst handled of
             None \<Rightarrow> (Inl timeout, snd handled)
           | Some response \<Rightarrow>
               (case client_json response of
                  Inl e \<Rightarrow> (Inl (str e), snd handled)
                | Inr x \<Rightarrow> (Inr x, snd handled))))"

definition client_stage :: "client_env \<Rightarrow> string \<Rightarrow> params \<Rightarrow> device_runtime \<Rightarrow> (string + config_revision) \<times> device_runtime" where
  "client_stage env kind content rt =
     over_link (ce_str env) (ce_timeout env) (ce_stage_link env)
       (map_prod Some id (stage_config_handler kind content (ce_new_id env) (ce_content_hash env) (ce_staged_at env) rt)) rt"

text \<open>\<open>apply_config\<close> as far as it gets until the timeout.\<close>

definition apply_config_call ::
    "client_env \<Rightarrow> string \<Rightarrow> string option \<Rightarrow> device_runtime \<Rightarrow> apply_record http_response option \<times> device_runtime" where
  "apply_config_call env rid expected rt =
     (case apply_config_begin (ce_call env) rid expected rt of
        Inl e \<Rightarrow> (Some (apply_config_answer (Inl e)), rt)
      | Inr rt1 \<Rightarrow>
          (case apply_config_enter (ce_call env) (ce_entered_at env) rt1 of
             (Some record, rt2) \<Rightarrow> (Some (apply_config_answer (Inr record)), rt2)
           | (None, rt2) \<Rightarrow>
               (let (answer, rt3) = apply_config_resume (ce_guard env) (ce_call env) (ce_applied_at env) rt2
                in (map_option (\<lambda>record. apply_config_answer (Inr record)) answer, rt3))))"

definition client_apply :: "client_env \<Rightarrow> string \<Rightarrow> device_runtime \<Rightarrow> (string + apply_record) \<times> device_runtime" where
  "client_apply env rid rt =
     over_link (ce_str env) (ce_timeout env) (ce_apply_link env) (apply_config_call env rid None rt) rt"

section \<open>The coordinator\<close>

definition deploy_one ::
    "string \<Rightarrow> client_env \<Rightarrow> string \<Rightarrow> params \<Rightarrow> bool \<Rightarrow> device_runtime \<Rightarrow> deployment_result \<times> device_runtime" where
  "deploy_one name env kind content apply rt =
     (case client_stage env kind content rt of
        (Inl m, rt1) \<Rightarrow>
          (\<lparr>dr_runtime_name = name, dr_staged = False, dr_revision_id = None, dr_stage_error = Some m,
            dr_apply_outcome = None, dr_apply_detail = None\<rparr>, rt1)
      | (Inr staged, rt1) \<Rightarrow>
          (let result = \<lparr>dr_runtime_name = name, dr_staged = True, dr_revision_id = Some (rev_revision_id staged),
                 dr_stage_error = None, dr_apply_outcome = None, dr_apply_detail = None\<rparr>
           in if \<not> apply then (result, rt1)
              else case client_apply env (rev_revision_id staged) rt1 of
                     (Inr applied, rt2) \<Rightarrow>
                       (result\<lparr>dr_apply_outcome := Some (apply_outcome_value (ar_outcome applied)),
                               dr_apply_detail := ar_detail applied\<rparr>, rt2)
                   | (Inl m, rt2) \<Rightarrow>
                       (result\<lparr>dr_apply_outcome := Some ''FAILED'', dr_apply_detail := Some m\<rparr>, rt2)))"

fun deploy_loop ::
    "string \<Rightarrow> params \<Rightarrow> bool \<Rightarrow> (string \<times> client_env \<times> device_runtime) list \<Rightarrow> (string, deployment_result) dict \<Rightarrow>
     (string, deployment_result) dict \<times> (string \<times> device_runtime) list" where
  "deploy_loop kind content apply [] results = (results, [])"
| "deploy_loop kind content apply ((name, env, rt) # clients) results =
     (let (result, rt1) = deploy_one name env kind content apply rt;
          (results', rts) = deploy_loop kind content apply clients (dset name result results)
      in (results', (name, rt1) # rts))"

definition deploy ::
    "string \<Rightarrow> params \<Rightarrow> bool \<Rightarrow> string \<Rightarrow> time \<Rightarrow> (string \<times> client_env \<times> device_runtime) list \<Rightarrow>
     deployment \<times> (string \<times> device_runtime) list" where
  "deploy kind content apply new_id now clients =
     (let (results, rts) = deploy_loop kind content apply clients []
      in (\<lparr>dep_deployment_id = new_id, dep_kind = kind, dep_created_at = now, dep_results = results\<rparr>, rts))"

section \<open>The Runtimes are deployed one by one, each on its own\<close>

lemma deploy_loop_map:
  "distinct (dkeys results @ map fst clients) \<Longrightarrow>
   deploy_loop kind content apply clients results =
     (results @ map (\<lambda>(n, env, rt). (n, fst (deploy_one n env kind content apply rt))) clients,
      map (\<lambda>(n, env, rt). (n, snd (deploy_one n env kind content apply rt))) clients)"
proof (induction clients arbitrary: results)
  case (Cons c clients)
  obtain n env rt where c: "c = (n, env, rt)" by (cases c)
  from Cons.prems have new: "dset n r results = results @ [(n, r)]" for r
    by (induction results) (auto simp: c)
  with Cons.prems Cons.IH [of "results @ [(n, fst (deploy_one n env kind content apply rt))]"] show ?case
    by (simp add: c split_beta)
qed simp

section \<open>What SUCCEEDED means\<close>

text \<open>The Runtime has the config active: its active revision is staged with this kind and content.\<close>

definition config_active :: "string \<Rightarrow> params \<Rightarrow> device_runtime \<Rightarrow> bool" where
  "config_active kind content rt \<longleftrightarrow>
     (\<exists>rid rv. cfg_active_revision_id (rt_config rt) = Some rid \<and> dget (cfg_staged (rt_config rt)) rid = Some rv \<and>
        rev_revision_id rv = rid \<and> rev_kind rv = kind \<and> rev_content rv = content)"

lemma client_stage_ok:
  assumes "client_stage env kind content rt = (Inr staged, rt1)"
  shows "dget (cfg_staged (rt_config rt1)) (rev_revision_id staged) = Some staged \<and>
    rev_kind staged = kind \<and> rev_content staged = content"
  using assms
  by (auto simp: client_stage_def over_link_def stage_config_handler_def stage_config_def stage_def Let_def
      client_json_def dict_simps split: link.splits)

lemma apply_config_call_ok:
  assumes "apply_config_call env rid expected rt = (Some (Http_ok st applied), rt1)"
    and "ar_outcome applied = Apply_SUCCEEDED"
  shows "cfg_active_revision_id (rt_config rt1) = Some rid \<and> cfg_staged (rt_config rt1) = cfg_staged (rt_config rt)"
proof -
  let ?a = "ce_call env"
  obtain rt' where b: "apply_config_begin ?a rid expected rt = Inr rt'"
    using assms(1) by (cases "apply_config_begin ?a rid expected rt")
      (simp_all add: apply_config_call_def apply_config_answer_def fusion_error_handler_def)
  then have rt': "rt' = rt\<lparr>rt_config := (rt_config rt)\<lparr>cfg_calls := (cfg_calls (rt_config rt))(?a \<mapsto> Waiting rid expected)\<rparr>\<rparr>"
    by (auto simp: apply_config_begin_def apply_begin_def split: if_splits)
  obtain ro rt2 where e: "apply_config_enter ?a (ce_entered_at env) rt' = (ro, rt2)"
    by (cases "apply_config_enter ?a (ce_entered_at env) rt'")
  have ro: "ro = None"
  proof (rule ccontr)
    assume "ro \<noteq> None"
    then obtain r where r: "ro = Some r" by blast
    then have "applied = r"
      using assms(1) by (simp add: apply_config_call_def b e apply_config_answer_def)
    moreover have "ar_outcome r = Apply_REJECTED"
      using e r by (auto simp: apply_config_enter_def apply_enter_def record_apply_def Let_def rt'
          split: option.splits if_splits prod.splits)
    ultimately show False using assms(2) by simp
  qed
  have "cfg_staged (rt_config rt2) = cfg_staged (rt_config rt) \<and>
      cfg_calls (rt_config rt2) ?a \<in> {Some (Waiting rid expected), Some (Guarding rid expected)}"
    using e ro by (auto simp: apply_config_enter_def apply_enter_def Let_def rt'
        split: option.splits if_splits prod.splits)
  moreover obtain answer where answer: "apply_config_resume (ce_guard env) ?a (ce_applied_at env) rt2 = (answer, rt1)"
    and "answer = Some applied"
    using assms(1) by (cases "apply_config_resume (ce_guard env) ?a (ce_applied_at env) rt2")
      (auto simp: apply_config_call_def b e ro apply_config_answer_def)
  ultimately show ?thesis
    using assms(2)
    by (auto simp: apply_config_resume_def apply_resume_def split_beta Let_def split: guard_result.splits option.splits)
qed

lemma apply_config_call_ok_iff: "apply_config_answer r = Http_ok st x \<longleftrightarrow> st = 200 \<and> r = Inr x"
  by (auto simp: apply_config_answer_def fusion_error_handler_def split: sum.splits)

lemma over_link_ok:
  assumes "over_link str timeout l (answer, w2) w = (Inr x, w1)"
  shows "w2 = w1 \<and> (\<exists>st. answer = Some (Http_ok st x))"
proof -
  from assms have "l = Link_up" by (cases l) (simp_all add: over_link_def)
  with assms obtain r where r: "answer = Some r" by (cases answer) (simp_all add: over_link_def)
  with assms \<open>l = Link_up\<close> show ?thesis
    by (cases r) (simp_all add: over_link_def client_json_def split: if_splits)
qed

lemma client_apply_ok:
  assumes "client_apply env rid rt = (Inr applied, rt1)" and "ar_outcome applied = Apply_SUCCEEDED"
  shows "cfg_active_revision_id (rt_config rt1) = Some rid \<and> cfg_staged (rt_config rt1) = cfg_staged (rt_config rt)"
proof -
  obtain answer rt2 where call: "apply_config_call env rid None rt = (answer, rt2)"
    by (cases "apply_config_call env rid None rt")
  have "over_link (ce_str env) (ce_timeout env) (ce_apply_link env) (answer, rt2) rt = (Inr applied, rt1)"
    using assms(1) by (simp only: client_apply_def call)
  from over_link_ok [OF this] call obtain st where "apply_config_call env rid None rt = (Some (Http_ok st applied), rt1)"
    by auto
  then show ?thesis using assms(2) by (rule apply_config_call_ok)
qed

text \<open>The three ways \<open>_deploy_one\<close> can end.\<close>

lemma deploy_one_cases:
  obtains (unstaged) m rt1 where "client_stage env kind content rt = (Inl m, rt1)"
      and "dr_apply_outcome (fst (deploy_one name env kind content True rt)) = None"
      and "\<not> dr_staged (fst (deploy_one name env kind content True rt))"
  | (unapplied) staged rt1 m rt2 where "client_stage env kind content rt = (Inr staged, rt1)"
      and "client_apply env (rev_revision_id staged) rt1 = (Inl m, rt2)"
      and "dr_apply_outcome (fst (deploy_one name env kind content True rt)) = Some ''FAILED''"
      and "dr_staged (fst (deploy_one name env kind content True rt))"
  | (answered) staged rt1 applied rt2 where "client_stage env kind content rt = (Inr staged, rt1)"
      and "client_apply env (rev_revision_id staged) rt1 = (Inr applied, rt2)"
      and "dr_apply_outcome (fst (deploy_one name env kind content True rt)) = Some (apply_outcome_value (ar_outcome applied))"
      and "dr_staged (fst (deploy_one name env kind content True rt))"
      and "snd (deploy_one name env kind content True rt) = rt2"
proof -
  obtain res rt1 where s: "client_stage env kind content rt = (res, rt1)"
    by (cases "client_stage env kind content rt")
  show thesis
  proof (cases res)
    case (Inl m)
    with s show thesis by (intro unstaged) (simp_all add: deploy_one_def)
  next
    case (Inr staged)
    obtain res2 rt2 where a: "client_apply env (rev_revision_id staged) rt1 = (res2, rt2)"
      by (cases "client_apply env (rev_revision_id staged) rt1")
    show thesis
    proof (cases res2)
      case (Inl m)
      with s Inr a show thesis by (intro unapplied) (simp_all add: deploy_one_def)
    next
      case (Inr applied)
      with s \<open>res = Inr staged\<close> a show thesis by (intro answered) (simp_all add: deploy_one_def)
    qed
  qed
qed

lemma deploy_one_succeeded:
  assumes "dr_apply_outcome (fst (deploy_one name env kind content True rt)) = Some ''SUCCEEDED''"
  shows "config_active kind content (snd (deploy_one name env kind content True rt))"
proof (cases rule: deploy_one_cases [of env kind content rt name])
  case (answered staged rt1 applied rt2)
  then have "ar_outcome applied = Apply_SUCCEEDED"
    using assms by (cases "ar_outcome applied") simp_all
  from client_apply_ok [OF answered(2) this] client_stage_ok [OF answered(1)] show ?thesis
    by (auto simp: config_active_def answered(5))
qed (use assms in simp_all)

lemma deploy_one_attempted:
  "dr_staged (fst (deploy_one name env kind content True rt)) \<longleftrightarrow>
   dr_apply_outcome (fst (deploy_one name env kind content True rt)) \<noteq> None"
  by (cases rule: deploy_one_cases [of env kind content rt name]) simp_all

lemma set_map_filter: "set (List.map_filter f xs) = {y. \<exists>x \<in> set xs. f x = Some y}"
  by (induction xs) (auto simp: List.map_filter_simps split: option.splits)

lemma overall_succeeded:
  assumes "overall d = Overall_SUCCEEDED"
  shows "dep_results d \<noteq> []"
    and "r \<in> snd ` set (dep_results d) \<Longrightarrow> dr_staged r \<and> dr_apply_outcome r \<in> {None, Some ''SUCCEEDED''}"
proof -
  let ?rs = "map snd (dep_results d)"
  have staged: "\<not> (\<exists>r \<in> set ?rs. \<not> dr_staged r)" and some: "List.map_filter dr_apply_outcome ?rs \<noteq> []"
    and all: "\<forall>out \<in> set (List.map_filter dr_apply_outcome ?rs). out = ''SUCCEEDED''"
    using assms unfolding overall_def Let_def by (metis deployment_overall.distinct)+
  from some show "dep_results d \<noteq> []" by (auto simp: List.map_filter_simps)
  assume r: "r \<in> snd ` set (dep_results d)"
  then have "dr_apply_outcome r = Some out \<Longrightarrow> out = ''SUCCEEDED''" for out
    using all unfolding set_map_filter set_map by blast
  with staged r show "dr_staged r \<and> dr_apply_outcome r \<in> {None, Some ''SUCCEEDED''}"
    by (cases "dr_apply_outcome r") auto
qed

text \<open>
  \<^bold>\<open>C30\<close> A deployment reported as SUCCEEDED is active everywhere: every Runtime of the group has the deployed
  kind and content as its active revision, whatever the links and the guards did. (The converse fails:
  a Runtime whose answer was lost counts as FAILED and is active all the same.)
\<close>

theorem deployment_succeeded_is_active:
  assumes "distinct (map fst clients)"
    and "overall (fst (deploy kind content True new_id now clients)) = Overall_SUCCEEDED"
  shows "clients \<noteq> [] \<and> map fst (snd (deploy kind content True new_id now clients)) = map fst clients \<and>
    list_all (config_active kind content \<circ> snd) (snd (deploy kind content True new_id now clients))"
proof -
  let ?one = "\<lambda>n env rt. deploy_one n env kind content True rt"
  have loop: "deploy_loop kind content True clients [] =
      (map (\<lambda>(n, env, rt). (n, fst (?one n env rt))) clients, map (\<lambda>(n, env, rt). (n, snd (?one n env rt))) clients)"
    using assms(1) by (subst deploy_loop_map) simp_all
  have results: "dep_results (fst (deploy kind content True new_id now clients)) =
      map (\<lambda>(n, env, rt). (n, fst (?one n env rt))) clients"
    and runtimes: "snd (deploy kind content True new_id now clients) =
      map (\<lambda>(n, env, rt). (n, snd (?one n env rt))) clients"
    by (simp_all add: deploy_def loop)
  have "config_active kind content (snd (?one n env rt))" if "(n, env, rt) \<in> set clients" for n env rt
  proof -
    from that have "fst (?one n env rt) \<in> snd ` set (map (\<lambda>(n, env, rt). (n, fst (?one n env rt))) clients)"
      by force
    from overall_succeeded(2) [OF assms(2), unfolded results, OF this] show ?thesis
      using deploy_one_attempted [of n env kind content rt] by (intro deploy_one_succeeded) auto
  qed
  moreover have "clients \<noteq> []"
    using overall_succeeded(1) [OF assms(2)] by (simp add: results)
  ultimately show ?thesis
    unfolding runtimes by (auto simp: list_all_iff)
qed

text \<open>An environment in which everything goes well, for the apply call \<open>a\<close> and the revision \<open>rid\<close>.\<close>

definition calm_env :: "string \<Rightarrow> nat \<Rightarrow> client_env" where
  "calm_env rid a =
     \<lparr>ce_stage_link = Link_up, ce_apply_link = Link_up, ce_new_id = rid, ce_content_hash = ''00'', ce_staged_at = 1,
      ce_call = a, ce_guard = None, ce_entered_at = 2, ce_applied_at = 3, ce_str = (\<lambda>_. ''http error''),
      ce_timeout = ''timed out''\<rparr>"

definition bare_runtime :: "string \<Rightarrow> device_runtime" where
  "bare_runtime rid =
     \<lparr>rt_runtime_id = rid, rt_runtime_boot_id = ''boot-1'', rt_adapters = [], rt_ledger = new_ledger,
      rt_events = new_event_bus rid ''boot-1'' 5 5,
      rt_sessions = new_session_manager ''boot-1'', rt_config = new_config_service 5,
      rt_blobs = \<lparr>bs_max_bytes = 5, bs_files = Map.empty\<rparr>, rt_runners = []\<rparr>"

theorem deployment_succeeded_is_active_witness:
  "let clients = [(''motor'', calm_env ''r1'' 0, bare_runtime ''motor-01''), (''video'', calm_env ''r2'' 0, bare_runtime ''video-01'')]
   in list_all (config_active ''show'' [(''k'', PInt 1)] \<circ> snd) (snd (deploy ''show'' [(''k'', PInt 1)] True ''deploy_1'' 0 clients))"
proof -
  let ?clients = "[(''motor'', calm_env ''r1'' 0, bare_runtime ''motor-01''), (''video'', calm_env ''r2'' 0, bare_runtime ''video-01'')]"
  have "distinct (map fst ?clients)" by simp
  moreover have "overall (fst (deploy ''show'' [(''k'', PInt 1)] True ''deploy_1'' 0 ?clients)) = Overall_SUCCEEDED"
    by code_simp
  ultimately show ?thesis
    using deployment_succeeded_is_active [of ?clients "''show''" "[(''k'', PInt 1)]" "''deploy_1''" 0] by (simp only: Let_def)
qed

text \<open>The answer to the apply request is lost: the deployment counts as failed, the Runtime has the config.\<close>

lemma failed_deployment_may_be_active:
  "let clients = [(''motor'', (calm_env ''r1'' 0)\<lparr>ce_apply_link := Reply_lost ''connection reset''\<rparr>, bare_runtime ''motor-01'')];
       result = deploy ''show'' [] True ''deploy_1'' 0 clients
   in overall (fst result) = Overall_FAILED \<and>
      map (cfg_active_revision_id \<circ> rt_config \<circ> snd) (snd result) = [Some ''r1'']"
  by code_simp

end
