(* ===== verification/Runtime_Client.thy ===== *)
theory Runtime_Client
  imports Group_Deployment "HOL-Library.Monad_Syntax"
begin

text \<open>
  The client of a Runtime (\<open>transport/client.py\<close>) against the routes of its server: the request that each
  method sends, how \<open>build_app\<close> routes and reads it, the transfer of files in both directions, and the
  event stream as the client's \<open>events()\<close> yields it. JSON encoding and the framing of the WebSocket are the
  libraries': a body arrives as it was sent, or not at all. So is the way of a URL: the client gives \<open>httpx\<close> a
  text into which it has put identifiers as they are, and what path and query the server's router sees of it is
  the function \<open>deliver\<close>, of which only the unambiguous part is assumed (\<open>delivers_plain\<close>).
\<close>

section \<open>URLs\<close>

definition py_rstrip :: "char \<Rightarrow> string \<Rightarrow> string" where
  "py_rstrip c s = List.rev (dropWhile (\<lambda>x. x = c) (List.rev s))"

text \<open>\<open>str.replace\<close> of a text that is not empty.\<close>

function py_replace :: "string \<Rightarrow> string \<Rightarrow> string \<Rightarrow> string" where
  "py_replace old new s =
     (if s = [] then []
      else if old \<noteq> [] \<and> take (length old) s = old then new @ py_replace old new (drop (length old) s)
      else hd s # py_replace old new (tl s))"
  by pat_completeness auto
termination by (relation "measure (\<lambda>(old, new, s). length s)") auto

declare py_replace.simps [simp del]

record runtime_client =
  rc_base_url :: string
  rc_ws_url :: string

definition new_runtime_client :: "string \<Rightarrow> runtime_client" where
  "new_runtime_client base_url =
     (let base = py_rstrip (CHR ''/'') base_url
      in \<lparr>rc_base_url = base, rc_ws_url = py_replace ''https://'' ''wss://'' (py_replace ''http://'' ''ws://'' base)\<rparr>)"

section \<open>Requests\<close>

text \<open>A request as the client makes it: the text of its URL and what it gives as \<open>params\<close>.\<close>

record http_request =
  hr_method :: string
  hr_url :: string
  hr_params :: "(string \<times> string) list"
  hr_json :: "params option"

datatype client_method =
    Get_info
  | Get_targets
  | Get_snapshot
  | Acquire_session string string "rat option"
  | Renew_session string
  | Release_session string
  | Submit_command params
  | Get_command string
  | Stage_config string params
  | Apply_config string "string option"
  | Get_config_status
  | Get_bytes string
  | Upload_file "string option"
  | Download_file string

definition plain_request :: "string \<Rightarrow> string \<Rightarrow> params option \<Rightarrow> http_request" where
  "plain_request m path body = \<lparr>hr_method = m, hr_url = path, hr_params = [], hr_json = body\<rparr>"

definition opt_float :: "rat option \<Rightarrow> pyval" where
  "opt_float x = (case x of None \<Rightarrow> PNone | Some q \<Rightarrow> PFloat q)"

text \<open>The query of an upload: a digest that is empty is as none.\<close>

definition upload_params :: "string option \<Rightarrow> (string \<times> string) list" where
  "upload_params expected =
     (case expected of None \<Rightarrow> [] | Some h \<Rightarrow> if h = [] then [] else [(''sha256'', h)])"

fun client_request :: "client_method \<Rightarrow> http_request" where
  "client_request Get_info = plain_request ''GET'' ''/api/v1/info'' None"
| "client_request Get_targets = plain_request ''GET'' ''/api/v1/targets'' None"
| "client_request Get_snapshot = plain_request ''GET'' ''/api/v1/snapshot'' None"
| "client_request (Acquire_session actor mode ttl_s) = plain_request ''POST'' ''/api/v1/control-sessions''
     (Some [(''actor'', PStr actor), (''mode'', PStr mode), (''ttl_s'', opt_float ttl_s)])"
| "client_request (Renew_session sid) = plain_request ''POST'' (''/api/v1/control-sessions/'' @ sid @ ''/renew'') None"
| "client_request (Release_session sid) = plain_request ''DELETE'' (''/api/v1/control-sessions/'' @ sid) None"
| "client_request (Submit_command kwargs) = plain_request ''POST'' ''/api/v1/commands'' (Some kwargs)"
| "client_request (Get_command c) = plain_request ''GET'' (''/api/v1/commands/'' @ c) None"
| "client_request (Stage_config kind content) = plain_request ''POST'' ''/api/v1/config/stage''
     (Some [(''kind'', PStr kind), (''content'', PDict content)])"
| "client_request (Apply_config rid expected) = plain_request ''POST'' ''/api/v1/config/apply''
     (Some [(''revision_id'', PStr rid), (''expected_active_revision'', opt_str expected)])"
| "client_request Get_config_status = plain_request ''GET'' ''/api/v1/config/status'' None"
| "client_request (Get_bytes path) = plain_request ''GET'' path None"
| "client_request (Upload_file expected) =
     \<lparr>hr_method = ''POST'', hr_url = ''/api/v1/files'', hr_params = upload_params expected, hr_json = None\<rparr>"
| "client_request (Download_file h) = plain_request ''GET'' (''/api/v1/files/'' @ h) None"

section \<open>The way to the server\<close>

text \<open>A path cut at the slashes.\<close>

fun segments :: "string \<Rightarrow> string list" where
  "segments [] = [[]]"
| "segments (c # s) =
     (if c = CHR ''/'' then [] # segments s else case segments s of [] \<Rightarrow> [[c]] | x # xs \<Rightarrow> (c # x) # xs)"

text \<open>
  The unreserved characters of RFC 3986 and the slash. A text of these without dot segments is a path that has no
  other spelling: no part of it is cut off as query or fragment, removed, or decoded.
\<close>

definition url_char :: "char \<Rightarrow> bool" where
  "url_char c \<longleftrightarrow>
     (let n = of_char c :: nat in 48 \<le> n \<and> n \<le> 57 \<or> 65 \<le> n \<and> n \<le> 90 \<or> 97 \<le> n \<and> n \<le> 122) \<or> c \<in> set ''-._~/''"

definition plain_url :: "string \<Rightarrow> bool" where
  "plain_url u \<longleftrightarrow> list_all url_char u \<and> list_all (\<lambda>seg. seg \<noteq> ''.'' \<and> seg \<noteq> ''..'') (segments u)"

definition delivers_plain :: "(string \<Rightarrow> string \<times> (string \<times> string) list) \<Rightarrow> bool" where
  "delivers_plain deliver \<longleftrightarrow> (\<forall>u. plain_url u \<longrightarrow> deliver u = (u, []))"

text \<open>A request as the router sees it.\<close>

record received_request =
  rq_method :: string
  rq_path :: string
  rq_query :: "(string \<times> string) list"
  rq_json :: "params option"

definition over_http :: "(string \<Rightarrow> string \<times> (string \<times> string) list) \<Rightarrow> http_request \<Rightarrow> received_request" where
  "over_http deliver r =
     (let (path, query) = deliver (hr_url r)
      in \<lparr>rq_method = hr_method r, rq_path = path, rq_query = query @ hr_params r, rq_json = hr_json r\<rparr>)"

section \<open>Bodies\<close>

text \<open>
  How the request models read a field. Pydantic's conversions of a JSON value to an \<open>int\<close> or \<open>float\<close> field are
  arguments; a \<open>str\<close> field takes strings only, an enum its values.
\<close>

definition str_field :: "params \<Rightarrow> string \<Rightarrow> string option" where
  "str_field d k = (case dget d k of Some (PStr s) \<Rightarrow> Some s | _ \<Rightarrow> None)"

definition dict_field :: "params \<Rightarrow> string \<Rightarrow> params option" where
  "dict_field d k = (case dget d k of Some (PDict x) \<Rightarrow> Some x | _ \<Rightarrow> None)"

definition with_default :: "'a \<Rightarrow> (pyval \<Rightarrow> 'a option) \<Rightarrow> params \<Rightarrow> string \<Rightarrow> 'a option" where
  "with_default x read d k = (case dget d k of None \<Rightarrow> Some x | Some v \<Rightarrow> read v)"

fun read_str :: "pyval \<Rightarrow> string option" where
  "read_str (PStr s) = Some s"
| "read_str _ = None"

fun read_dict :: "pyval \<Rightarrow> params option" where
  "read_dict (PDict d) = Some d"
| "read_dict _ = None"

definition nullable :: "(pyval \<Rightarrow> 'a option) \<Rightarrow> pyval \<Rightarrow> 'a option option" where
  "nullable read v = (if v = PNone then Some None else map_option Some (read v))"

fun mode_value :: "runtime_mode \<Rightarrow> string" where
  "mode_value MANUAL = ''MANUAL''"
| "mode_value SHOW = ''SHOW''"
| "mode_value MAINTENANCE = ''MAINTENANCE''"

definition mode_of :: "string \<Rightarrow> runtime_mode option" where
  "mode_of s = find (\<lambda>m. mode_value m = s) [MANUAL, SHOW, MAINTENANCE]"

definition requirement_of :: "string \<Rightarrow> completion_requirement option" where
  "requirement_of s = find (\<lambda>r. requirement_value r = s) [Req_DISPATCHED, Req_ACKNOWLEDGED, Req_OBSERVED]"

text \<open>\<open>CommandSubmitRequest\<close> from a JSON object.\<close>

definition parse_submit :: "(pyval \<Rightarrow> int option) \<Rightarrow> params \<Rightarrow> command_submit_request option" where
  "parse_submit to_int d =
     do { version \<leftarrow> with_default 1 to_int d ''protocol_version'';
          request_id \<leftarrow> str_field d ''request_id'';
          session \<leftarrow> with_default None (nullable read_str) d ''control_session_id'';
          run_id \<leftarrow> with_default None (nullable read_str) d ''run_id'';
          cue \<leftarrow> with_default None (nullable read_str) d ''cue_id'';
          generation \<leftarrow> with_default None (nullable to_int) d ''show_generation'';
          target \<leftarrow> str_field d ''target_id'';
          act \<leftarrow> str_field d ''action'';
          ps \<leftarrow> with_default [] read_dict d ''params'';
          requirement \<leftarrow> with_default Req_OBSERVED (\<lambda>v. Option.bind (read_str v) requirement_of) d ''completion_requirement'';
          source \<leftarrow> with_default ''manual'' read_str d ''source'';
          actor \<leftarrow> with_default None (nullable read_str) d ''actor'';
          Some \<lparr>sr_protocol_version = version, sr_request_id = request_id, sr_control_session_id = session,
            sr_run_id = run_id, sr_cue_id = cue, sr_show_generation = generation, sr_target_id = target,
            sr_action = act, sr_params = ps, sr_completion_requirement = requirement, sr_source = source,
            sr_actor = actor\<rparr> }"

definition parse_acquire :: "(pyval \<Rightarrow> rat option) \<Rightarrow> params \<Rightarrow> (string \<times> runtime_mode \<times> rat option) option" where
  "parse_acquire to_flt d =
     do { actor \<leftarrow> str_field d ''actor'';
          mode \<leftarrow> with_default MANUAL (\<lambda>v. Option.bind (read_str v) mode_of) d ''mode'';
          ttl_s \<leftarrow> with_default None (nullable to_flt) d ''ttl_s'';
          Some (actor, mode, ttl_s) }"

definition parse_stage :: "params \<Rightarrow> (string \<times> params) option" where
  "parse_stage d = do { kind \<leftarrow> str_field d ''kind''; content \<leftarrow> dict_field d ''content''; Some (kind, content) }"

definition parse_apply :: "params \<Rightarrow> (string \<times> string option) option" where
  "parse_apply d =
     do { rid \<leftarrow> str_field d ''revision_id'';
          expected \<leftarrow> with_default None (nullable read_str) d ''expected_active_revision'';
          Some (rid, expected) }"

section \<open>Routes\<close>

datatype server_call =
    Serve_info
  | Serve_targets
  | Serve_snapshot
  | Serve_submit command_submit_request
  | Serve_get_command string
  | Serve_acquire string runtime_mode "rat option"
  | Serve_renew string
  | Serve_release string
  | Serve_stage string params
  | Serve_apply string "string option"
  | Serve_config_status
  | Serve_upload "string option"
  | Serve_download string

text \<open>A request no route takes is answered 404 or 405, one whose body does not fit its model 422.\<close>

datatype routed = Routed server_call | Body_invalid | Not_routed

definition read_body :: "(params \<Rightarrow> 'a option) \<Rightarrow> ('a \<Rightarrow> server_call) \<Rightarrow> received_request \<Rightarrow> routed" where
  "read_body parse call r =
     (case Option.bind (rq_json r) parse of None \<Rightarrow> Body_invalid | Some x \<Rightarrow> Routed (call x))"

text \<open>A path parameter is one segment that is not empty.\<close>

definition is_path :: "string \<Rightarrow> string \<Rightarrow> received_request \<Rightarrow> bool" where
  "is_path m path r \<longleftrightarrow> rq_method r = m \<and> rq_path r = path"

text \<open>The parameter of a path that consists of a stem, the parameter and the rest.\<close>

definition path_param :: "string \<Rightarrow> string \<Rightarrow> string list \<Rightarrow> received_request \<Rightarrow> string option" where
  "path_param m stem rest r =
     (let segs = segments (rq_path r); pre = segments stem; n = length pre
      in if rq_method r = m \<and> length segs = n + 1 + length rest \<and> take n segs = pre \<and> segs ! n \<noteq> [] \<and> drop (Suc n) segs = rest
         then Some (segs ! n) else None)"

definition route :: "(pyval \<Rightarrow> int option) \<Rightarrow> (pyval \<Rightarrow> rat option) \<Rightarrow> received_request \<Rightarrow> routed" where
  "route to_int to_flt r =
     (if is_path ''GET'' ''/api/v1/info'' r then Routed Serve_info
      else if is_path ''GET'' ''/api/v1/targets'' r then Routed Serve_targets
      else if is_path ''GET'' ''/api/v1/snapshot'' r then Routed Serve_snapshot
      else if is_path ''POST'' ''/api/v1/commands'' r then read_body (parse_submit to_int) Serve_submit r
      else case path_param ''GET'' ''/api/v1/commands'' [] r of Some c \<Rightarrow> Routed (Serve_get_command c) | None \<Rightarrow>
      if is_path ''POST'' ''/api/v1/control-sessions'' r
      then read_body (parse_acquire to_flt) (\<lambda>(actor, mode, ttl_s). Serve_acquire actor mode ttl_s) r
      else case path_param ''POST'' ''/api/v1/control-sessions'' [''renew''] r of Some s \<Rightarrow> Routed (Serve_renew s) | None \<Rightarrow>
      case path_param ''DELETE'' ''/api/v1/control-sessions'' [] r of Some s \<Rightarrow> Routed (Serve_release s) | None \<Rightarrow>
      if is_path ''POST'' ''/api/v1/config/stage'' r then read_body parse_stage (\<lambda>(kind, content). Serve_stage kind content) r
      else if is_path ''POST'' ''/api/v1/config/apply'' r then read_body parse_apply (\<lambda>(rid, expected). Serve_apply rid expected) r
      else if is_path ''GET'' ''/api/v1/config/status'' r then Routed Serve_config_status
      else if is_path ''POST'' ''/api/v1/files'' r then Routed (Serve_upload (map_of (rq_query r) ''sha256''))
      else case path_param ''GET'' ''/api/v1/files'' [] r of Some h \<Rightarrow> Routed (Serve_download h) | None \<Rightarrow> Not_routed)"

section \<open>Files\<close>

definition UPLOAD_CHUNK :: nat where "UPLOAD_CHUNK = 1024 * 1024"

text \<open>\<open>_reader\<close>: reads of at most \<open>n\<close> bytes until one is empty.\<close>

function read_chunks :: "nat \<Rightarrow> bytes \<Rightarrow> bytes list" where
  "read_chunks n fh = (let chunk = take n fh in if chunk = [] then [] else chunk # read_chunks n (drop n fh))"
  by pat_completeness auto
termination
proof (relation "measure (\<lambda>(n, fh). length fh)")
  fix n :: nat and fh chunk :: bytes
  assume "chunk = take n fh" and "chunk \<noteq> []"
  then show "((n, drop n fh), n, fh) \<in> measure (\<lambda>(n, fh). length fh)" by (cases fh; cases n) auto
qed simp

declare read_chunks.simps [simp del]

text \<open>
  \<open>upload_file\<close>: the server receives the body cut as the transport likes (\<open>recut\<close>), or the transfer fails
  (\<open>Source_raised\<close> among the chunks), and the answer may be lost.
\<close>

definition upload_file ::
    "(bytes \<Rightarrow> string) \<Rightarrow> string \<Rightarrow> (client_error \<Rightarrow> string) \<Rightarrow> string \<Rightarrow> link \<Rightarrow> (bytes list \<Rightarrow> chunk list) \<Rightarrow>
     bytes \<Rightarrow> string option \<Rightarrow> device_runtime \<Rightarrow> (string + blob_ref) \<times> device_runtime" where
  "upload_file sha256 tmp str timeout l recut file expected rt =
     over_link str timeout l
       (map_prod Some id (upload_file_handler sha256 tmp (map_of (upload_params expected) ''sha256'')
          (recut (read_chunks UPLOAD_CHUNK file)) rt)) rt"

text \<open>
  \<open>download_file\<close> to a destination (\<open>None\<close>: no such file). The file is opened for writing once the status is
  known; \<open>broken\<close> is the number of bytes after which the connection fails, if it does.
\<close>

datatype download_error = Download_status nat | Download_broken

definition download_file ::
    "nat option \<Rightarrow> string \<Rightarrow> device_runtime \<Rightarrow> bytes option \<Rightarrow> (download_error + unit) \<times> bytes option" where
  "download_file broken sha rt dest =
     (case download_file_handler sha rt of
        Http_error st _ \<Rightarrow> (Inl (Download_status st), dest)
      | Http_ok st path \<Rightarrow>
          (case bs_files (rt_blobs rt) path of
             None \<Rightarrow> (Inl (Download_status 500), dest)
           | Some content \<Rightarrow>
               (case broken of
                  None \<Rightarrow> (Inr (), Some content)
                | Some n \<Rightarrow> (Inl Download_broken, Some (take n content)))))"

section \<open>Events\<close>

text \<open>
  The loop of \<open>events()\<close> over the messages that arrive: what it yields, and whether it raises \<open>ResyncRequired\<close>.
  It looks at the \<open>type\<close> of the message, which every event has too.
\<close>

fun message_type :: "ws_message \<Rightarrow> string" where
  "message_type (Ws_event e) = ev_type e"
| "message_type Ws_resync_required = ''resync_required''"

fun client_events :: "ws_message list \<Rightarrow> ws_message list \<times> bool" where
  "client_events [] = ([], False)"
| "client_events (m # ms) =
     (if message_type m = ''resync_required'' then ([], True)
      else let (yielded, resync) = client_events ms in (m # yielded, resync))"

text \<open>The messages a stream has sent.\<close>

definition sent_messages :: "ws_world \<Rightarrow> ws_message list" where
  "sent_messages w = map Ws_event (ws_sent w) @ (if ws_resync w then [Ws_resync_required] else [])"

section \<open>Requests reach their routes\<close>

text \<open>What a method means to the server.\<close>

fun served_as :: "(pyval \<Rightarrow> int option) \<Rightarrow> client_method \<Rightarrow> routed" where
  "served_as to_int Get_info = Routed Serve_info"
| "served_as to_int Get_targets = Routed Serve_targets"
| "served_as to_int Get_snapshot = Routed Serve_snapshot"
| "served_as to_int (Acquire_session actor mode ttl_s) =
     (case mode_of mode of None \<Rightarrow> Body_invalid | Some m \<Rightarrow> Routed (Serve_acquire actor m ttl_s))"
| "served_as to_int (Renew_session sid) = Routed (Serve_renew sid)"
| "served_as to_int (Release_session sid) = Routed (Serve_release sid)"
| "served_as to_int (Submit_command kwargs) =
     (case parse_submit to_int kwargs of None \<Rightarrow> Body_invalid | Some req \<Rightarrow> Routed (Serve_submit req))"
| "served_as to_int (Get_command c) = Routed (Serve_get_command c)"
| "served_as to_int (Stage_config kind content) = Routed (Serve_stage kind content)"
| "served_as to_int (Apply_config rid expected) = Routed (Serve_apply rid expected)"
| "served_as to_int Get_config_status = Routed Serve_config_status"
| "served_as to_int (Get_bytes path) = Not_routed"
| "served_as to_int (Upload_file expected) = Routed (Serve_upload (if expected = Some [] then None else expected))"
| "served_as to_int (Download_file h) = Routed (Serve_download h)"

definition plain_id :: "string \<Rightarrow> bool" where
  "plain_id s \<longleftrightarrow> s \<noteq> [] \<and> CHR ''/'' \<notin> set s \<and> list_all url_char s \<and> s \<noteq> ''.'' \<and> s \<noteq> ''..''"

text \<open>
  The identifiers of a call are each one segment that a URL carries as it is; \<open>get_bytes\<close> is for routes of other parts.
\<close>

fun plain_method :: "client_method \<Rightarrow> bool" where
  "plain_method (Renew_session sid) \<longleftrightarrow> plain_id sid"
| "plain_method (Release_session sid) \<longleftrightarrow> plain_id sid"
| "plain_method (Get_command c) \<longleftrightarrow> plain_id c"
| "plain_method (Download_file h) \<longleftrightarrow> plain_id h"
| "plain_method (Get_bytes _) \<longleftrightarrow> False"
| "plain_method _ \<longleftrightarrow> True"

lemma segments_plain: "CHR ''/'' \<notin> set s \<Longrightarrow> segments s = [s]"
  by (induction s) auto

lemma segments_slash: "CHR ''/'' \<notin> set s \<Longrightarrow> segments (s @ CHR ''/'' # t) = s # segments t"
  by (induction s) auto

lemma segments_not_empty: "segments s \<noteq> []"
  by (cases s) (auto split: list.split)

lemma segments_append: "segments (s @ CHR ''/'' # t) = segments s @ segments t"
  by (induction s) (auto simp: segments_not_empty split: list.split)

lemma plain_url_append: "plain_url (s @ CHR ''/'' # t) \<longleftrightarrow> plain_url s \<and> plain_url t"
  by (auto simp: plain_url_def segments_append url_char_def)

lemma plain_id_url: "plain_id s \<Longrightarrow> plain_url s"
  by (simp add: plain_id_def plain_url_def segments_plain)

lemmas route_defs = route_def is_path_def path_param_def plain_request_def read_body_def Let_def

lemma plain_stems:
  "plain_url ''/api/v1/info''" "plain_url ''/api/v1/targets''" "plain_url ''/api/v1/snapshot''"
  "plain_url ''/api/v1/control-sessions''" "plain_url ''/api/v1/commands''" "plain_url ''/api/v1/config/stage''"
  "plain_url ''/api/v1/config/apply''" "plain_url ''/api/v1/config/status''" "plain_url ''/api/v1/files''" "plain_url ''renew''"
  by code_simp+

lemma plain_method_url:
  assumes "plain_method m"
  shows "plain_url (hr_url (client_request m))"
proof -
  note one = plain_url_append [THEN iffD2, OF conjI [OF _ plain_id_url]]
  have "plain_url (s @ CHR ''/'' # sid @ CHR ''/'' # ''renew'')" if "plain_url s" "plain_id sid" for s sid
    using that plain_id_url plain_stems(10) by (simp only: plain_url_append)
  note two = this [OF plain_stems(4)]
  show ?thesis
    using assms plain_stems one [OF plain_stems(4)] one [OF plain_stems(5)] one [OF plain_stems(9)] two
    by (cases m) (simp_all add: plain_request_def)
qed

lemma plain_delivered:
  assumes "delivers_plain deliver" and "plain_method m"
  shows "over_http deliver (client_request m) =
    \<lparr>rq_method = hr_method (client_request m), rq_path = hr_url (client_request m), rq_query = hr_params (client_request m),
     rq_json = hr_json (client_request m)\<rparr>"
  using assms plain_method_url by (simp add: over_http_def delivers_plain_def)

lemma map_of_upload_params: "map_of (upload_params expected) ''sha256'' = (if expected = Some [] then None else expected)"
  by (auto simp: upload_params_def split: option.split)

text \<open>
  \<^bold>\<open>C26\<close> The client's calls are understood as what they mean: if the transport leaves paths of unreserved characters
  without dot segments alone, then for every method except \<open>get_bytes\<close>, and identifiers that are each one
  segment of such a path, the request the client sends is routed to the handler of that call with the arguments
  it was called with. It is answered 422 instead exactly for a command whose fields do not fit the request model
  and for a control session of a mode that does not exist.
\<close>

theorem requests_reach_their_route:
  assumes "delivers_plain deliver" and "plain_method m" and "\<And>q. to_flt (PFloat q) = Some q"
  shows "route to_int to_flt (over_http deliver (client_request m)) = served_as to_int m"
  unfolding plain_delivered [OF assms(1,2)]
proof (cases m)
  case (Acquire_session actor mode ttl_s)
  then show "route to_int to_flt \<lparr>rq_method = hr_method (client_request m), rq_path = hr_url (client_request m),
      rq_query = hr_params (client_request m), rq_json = hr_json (client_request m)\<rparr> = served_as to_int m"
    using assms(3)
    by (simp add: route_defs parse_acquire_def str_field_def with_default_def nullable_def opt_float_def split: option.split)
qed (use assms(2) in \<open>simp_all add: route_defs plain_id_def segments_plain segments_slash parse_stage_def parse_apply_def
    str_field_def dict_field_def with_default_def nullable_def opt_str_def map_of_upload_params split: option.split\<close>)

section \<open>Identifiers that a URL does not carry\<close>

text \<open>
  One way in which a URL is understood, for a concrete transport: the fragment is dropped, the query cut off, dot
  segments are removed, and the percent encoding of the path is undone.
\<close>

fun drop_dots :: "string list \<Rightarrow> string list \<Rightarrow> string list" where
  "drop_dots out [] = List.rev out"
| "drop_dots out (seg # segs) =
     (if seg = ''.'' then drop_dots out segs
      else if seg = ''..'' then drop_dots (if out \<noteq> [] \<and> out \<noteq> [[]] then tl out else out) segs
      else drop_dots (seg # out) segs)"

definition hex_value :: "char \<Rightarrow> nat option" where
  "hex_value c =
     (let n = of_char c :: nat
      in if 48 \<le> n \<and> n \<le> 57 then Some (n - 48)
         else if 65 \<le> n \<and> n \<le> 70 then Some (n - 55)
         else if 97 \<le> n \<and> n \<le> 102 then Some (n - 87) else None)"

fun percent_decode :: "string \<Rightarrow> string" where
  "percent_decode (c # h # l # s) =
     (if c = CHR ''%''
      then case (hex_value h, hex_value l) of
          (Some x, Some y) \<Rightarrow> char_of (16 * x + y) # percent_decode s
        | _ \<Rightarrow> c # percent_decode (h # l # s)
      else c # percent_decode (h # l # s))"
| "percent_decode s = s"

definition url_deliver :: "string \<Rightarrow> string \<times> (string \<times> string) list" where
  "url_deliver u =
     (let v = takeWhile (\<lambda>c. c \<noteq> CHR ''#'') u; path = takeWhile (\<lambda>c. c \<noteq> CHR ''?'') v;
          query = drop (Suc (length path)) v
      in (percent_decode (str_join ''/'' (drop_dots [] (segments path))), if query = [] then [] else [(query, [])]))"

lemma drop_dots_plain:
  "list_all (\<lambda>seg. seg \<noteq> ''.'' \<and> seg \<noteq> ''..'') segs \<Longrightarrow> drop_dots out segs = List.rev out @ segs"
  by (induction segs arbitrary: out) auto

lemma percent_decode_plain: "CHR ''%'' \<notin> set s \<Longrightarrow> percent_decode s = s"
  by (induction s rule: percent_decode.induct) auto

lemma join_cons: "str_join sep ((c # x) # xs) = c # str_join sep (x # xs)"
  by (cases xs) simp_all

lemma join_empty: "xs \<noteq> [] \<Longrightarrow> str_join sep ([] # xs) = sep @ str_join sep xs"
  by (cases xs) simp_all

lemma join_segments: "str_join ''/'' (segments u) = u"
proof (induction u)
  case (Cons c u)
  then show ?case using segments_not_empty [of u] by (auto simp: join_cons join_empty split: list.split)
qed simp

lemma url_deliver_plain: "delivers_plain url_deliver"
proof -
  have "url_deliver u = (u, [])" if u: "plain_url u" for u
  proof -
    have "\<not> url_char (CHR ''#'')" "\<not> url_char (CHR ''?'')" "\<not> url_char (CHR ''%'')" by (simp_all add: url_char_def)
    with u have no: "CHR ''#'' \<notin> set u" "CHR ''?'' \<notin> set u" "CHR ''%'' \<notin> set u"
      by (auto simp: plain_url_def list_all_iff)
    from no(1) have "takeWhile (\<lambda>c. c \<noteq> CHR ''#'') u = u" by (induction u) auto
    moreover from no(2) have "takeWhile (\<lambda>c. c \<noteq> CHR ''?'') u = u" by (induction u) auto
    ultimately show ?thesis
      using u no(3)
      by (simp add: url_deliver_def Let_def plain_url_def drop_dots_plain join_segments percent_decode_plain
          del: takeWhile_eq_all_conv)
  qed
  then show ?thesis by (simp add: delivers_plain_def)
qed

theorem requests_reach_their_route_witness:
  "route (\<lambda>_. None) (\<lambda>v. case v of PFloat q \<Rightarrow> Some q | _ \<Rightarrow> None)
     (over_http url_deliver (client_request (Acquire_session ''scheduler'' ''SHOW'' None))) =
     Routed (Serve_acquire ''scheduler'' SHOW None) \<and>
   route (\<lambda>_. None) (\<lambda>v. case v of PFloat q \<Rightarrow> Some q | _ \<Rightarrow> None)
     (over_http url_deliver (client_request (Renew_session ''cs-01J.z''))) = Routed (Serve_renew ''cs-01J.z'')"
  using requests_reach_their_route [OF url_deliver_plain, of "Acquire_session ''scheduler'' ''SHOW'' None"
      "\<lambda>v. case v of PFloat q \<Rightarrow> Some q | _ \<Rightarrow> None" "\<lambda>_. None"]
    requests_reach_their_route [OF url_deliver_plain, of "Renew_session ''cs-01J.z''"
      "\<lambda>v. case v of PFloat q \<Rightarrow> Some q | _ \<Rightarrow> None" "\<lambda>_. None"]
  by (simp add: mode_of_def plain_id_def url_char_def)

text \<open>
  An identifier that is not such a segment is not quoted by the client: with that transport, commands whose
  identifier holds a question mark or a hash are looked up by another identifier, and one that begins with a dot
  segment, or holds an encoded slash, is another request or none.
\<close>

lemma unquoted_ids_go_astray:
  "route to_int to_flt (over_http url_deliver (client_request (Get_command ''a?x''))) = Routed (Serve_get_command ''a'')"
  "route to_int to_flt (over_http url_deliver (client_request (Get_command ''a#b''))) = Routed (Serve_get_command ''a'')"
  "route to_int to_flt (over_http url_deliver (client_request (Get_command ''a%62''))) = Routed (Serve_get_command ''ab'')"
  "route to_int to_flt (over_http url_deliver (client_request (Get_command ''../info''))) = Routed Serve_info"
  "route to_int to_flt (over_http url_deliver (client_request (Get_command ''a%2Fb''))) = Not_routed"
proof -
  have "char_of (98 :: nat) = CHR ''b''" "char_of (47 :: nat) = CHR ''/''" by code_simp+
  then show
    "route to_int to_flt (over_http url_deliver (client_request (Get_command ''a?x''))) = Routed (Serve_get_command ''a'')"
    "route to_int to_flt (over_http url_deliver (client_request (Get_command ''a#b''))) = Routed (Serve_get_command ''a'')"
    "route to_int to_flt (over_http url_deliver (client_request (Get_command ''a%62''))) = Routed (Serve_get_command ''ab'')"
    "route to_int to_flt (over_http url_deliver (client_request (Get_command ''../info''))) = Routed Serve_info"
    "route to_int to_flt (over_http url_deliver (client_request (Get_command ''a%2Fb''))) = Not_routed"
    by (simp_all add: over_http_def url_deliver_def plain_request_def hex_value_def route_defs)
qed

section \<open>Files keep their bytes\<close>

lemma read_chunks_concat: "0 < n \<Longrightarrow> concat (read_chunks n fh) = fh"
proof (induction n fh rule: read_chunks.induct)
  case (1 n fh)
  then show ?case by (subst read_chunks.simps) (auto simp: Let_def)
qed

lemma read_chunks_size: "\<forall>chunk \<in> set (read_chunks n fh). chunk \<noteq> [] \<and> length chunk \<le> n"
proof (induction n fh rule: read_chunks.induct)
  case (1 n fh)
  then show ?case by (subst read_chunks.simps) (auto simp: Let_def)
qed

text \<open>Uploads by anybody, one after the other.\<close>

definition save_all :: "(bytes \<Rightarrow> string) \<Rightarrow> (string \<times> string option \<times> chunk list) list \<Rightarrow> device_runtime \<Rightarrow> device_runtime" where
  "save_all sha256 ups rt = fold (\<lambda>(tmp, expected, chunks) r. snd (save_blob sha256 tmp expected chunks r)) ups rt"

lemma save_blob_store: "rt_blobs (snd (save_blob sha256 tmp expected chunks rt)) = snd (save_stream sha256 tmp expected chunks (rt_blobs rt))"
  by (auto simp: save_blob_def split: prod.split sum.split blob_error.split)

lemma save_stream_keeps:
  assumes "bs_files st h = Some data" and "tmp \<noteq> h" and "\<And>d. sha256 d = h \<Longrightarrow> d = data"
  shows "bs_files (snd (save_stream sha256 tmp expected chunks st)) h = Some data"
proof (cases "receive (bs_max_bytes st) chunks 0 []")
  case (Inl e)
  with assms show ?thesis by (simp add: save_stream_def Let_def)
next
  case (Inr r)
  obtain sz written where r: "r = (sz, written)" by (cases r)
  have "sha256 written = h \<Longrightarrow> written = data" using assms(3) by simp
  with Inr r assms(1,2) show ?thesis by (auto simp: save_stream_def Let_def split: option.split)
qed

lemma save_all_keeps:
  assumes "bs_files (rt_blobs rt) h = Some data" and "\<forall>(tmp, expected, chunks) \<in> set ups. tmp \<noteq> h"
    and "\<And>d. sha256 d = h \<Longrightarrow> d = data"
  shows "bs_files (rt_blobs (save_all sha256 ups rt)) h = Some data"
  using assms(1,2)
proof (induction ups arbitrary: rt)
  case Nil
  then show ?case by (simp add: save_all_def)
next
  case (Cons u ups)
  obtain tmp expected chunks where u: "u = (tmp, expected, chunks)" by (rule prod_cases3)
  have "bs_files (rt_blobs (snd (save_blob sha256 tmp expected chunks rt))) h = Some data"
    unfolding save_blob_store using Cons.prems assms(3) by (intro save_stream_keeps) (auto simp: u)
  from Cons.IH [OF this] Cons.prems(2) show ?case by (simp add: save_all_def u)
qed

text \<open>
  \<^bold>\<open>C27\<close> A file comes back as it went: when \<open>upload_file\<close> returned a reference, the reference is the digest and the size
  of the file, and a download of that digest, after any number of uploads by others, writes exactly the
  bytes of the file; a download that breaks off leaves a prefix of them in place of what was there.
\<close>

theorem upload_download_round_trip:
  assumes "upload_file sha256 tmp str timeout l recut file expected rt = (Inr ref, rt1)"
    and "\<forall>bs. chunk_bytes (recut bs) = concat bs"
    and "\<forall>d. sha256 d \<noteq> tmp" and "\<forall>(tmp', e, cs) \<in> set ups. \<forall>d. sha256 d \<noteq> tmp'"
    and "\<forall>d. sha256 d = sha256 file \<longrightarrow> d = file"
  shows "ref = \<lparr>br_sha256 = sha256 file, br_size = length file\<rparr> \<and>
    download_file None (br_sha256 ref) (save_all sha256 ups rt1) dest = (Inr (), Some file) \<and>
    download_file (Some n) (br_sha256 ref) (save_all sha256 ups rt1) dest = (Inl Download_broken, Some (take n file))"
proof -
  define expd where "expd = map_of (upload_params expected) ''sha256''"
  define chunks where "chunks = recut (read_chunks UPLOAD_CHUNK file)"
  have data: "chunk_bytes chunks = file"
    using assms(2) read_chunks_concat [where n = UPLOAD_CHUNK and fh = "file"] by (simp add: chunks_def UPLOAD_CHUNK_def)
  have "upload_file_handler sha256 tmp expd chunks rt = (Http_ok 201 ref, rt1)"
    using assms(1) unfolding upload_file_def expd_def [symmetric] chunks_def [symmetric]
    by (auto simp: over_link_def upload_file_handler_def fusion_error_handler_def client_json_def
        split: link.splits prod.splits sum.splits if_splits)
  then have save: "save_blob sha256 tmp expd chunks rt = (Inr ref, rt1)"
    by (auto simp: upload_file_handler_def fusion_error_handler_def split: prod.splits sum.splits)
  then have stream: "save_stream sha256 tmp expd chunks (rt_blobs rt) = (Inr ref, rt_blobs rt1)"
    by (auto simp: save_blob_def split: prod.splits sum.splits blob_error.splits)
  obtain r where "receive (bs_max_bytes (rt_blobs rt)) chunks 0 [] = Inr r"
    using stream by (cases "receive (bs_max_bytes (rt_blobs rt)) chunks 0 []") (auto simp: save_stream_def Let_def)
  then have received: "receive (bs_max_bytes (rt_blobs rt)) chunks 0 [] = Inr (length file, file)"
    using receive_ok_iff [of 0 "[]" "bs_max_bytes (rt_blobs rt)" chunks "fst r" "snd r"] data
    by (auto simp: prod_eq_iff)
  have ref: "ref = \<lparr>br_sha256 = sha256 file, br_size = length file\<rparr>"
    and placed: "rt_blobs rt1 = (rt_blobs rt)\<lparr>bs_files := (bs_files (rt_blobs rt))(sha256 file \<mapsto> file, tmp := None)\<rparr>"
    using stream received assms(3) by (auto simp: save_stream_def Let_def split: option.splits if_splits)
  have stored: "bs_files (rt_blobs rt1) (sha256 file) = Some file"
    using assms(3) by (simp add: placed)
  have "bs_files (rt_blobs (save_all sha256 ups rt1)) (sha256 file) = Some file"
    using assms(4,5) by (intro save_all_keeps [OF stored]) force+
  then show ?thesis
    using ref by (simp add: download_file_def download_file_handler_def open_blob_def blob_exists_def)
qed

definition plain_digest :: "bytes \<Rightarrow> string" where
  "plain_digest bs = CHR ''h'' # map (\<lambda>b. char_of (unat b)) bs"

lemma plain_digest_inj: "plain_digest d = plain_digest e \<Longrightarrow> d = e"
proof -
  assume "plain_digest d = plain_digest e"
  then have "map (\<lambda>b. char_of (unat b) :: char) d = map (\<lambda>b. char_of (unat b)) e" by (simp add: plain_digest_def)
  moreover have "inj (\<lambda>b :: 8 word. char_of (unat b) :: char)"
  proof (rule injI)
    fix a b :: "8 word"
    assume "(char_of (unat a) :: char) = char_of (unat b)"
    then have "unat a mod 256 = unat b mod 256" by (metis of_char_of)
    moreover have "unat a < 256" "unat b < 256" using unsigned_less [of a] unsigned_less [of b] by simp_all
    ultimately show "a = b" by (simp add: word_unat_eq_iff)
  qed
  ultimately show "d = e" by (simp add: inj_map_eq_map)
qed

theorem upload_download_round_trip_witness:
  "let up = upload_file plain_digest ''.tmp-0'' (\<lambda>_. []) [] Link_up (map Chunk) [1, 2, 3] (Some [])
       ((bare_runtime ''motor-01''))
   in fst up = Inr \<lparr>br_sha256 = plain_digest [1, 2, 3], br_size = 3\<rparr> \<and>
      download_file None (plain_digest [1, 2, 3]) (save_all plain_digest [(''.tmp-1'', None, [Chunk [7]])] (snd up)) None =
        (Inr (), Some [1, 2, 3])"
proof -
  let ?up = "upload_file plain_digest ''.tmp-0'' (\<lambda>_. []) [] Link_up (map Chunk) [1, 2, 3] (Some []) (bare_runtime ''motor-01'')"
  have chunks: "read_chunks UPLOAD_CHUNK [1, 2, 3] = [[1, 2, 3]]"
    by (subst read_chunks.simps) (simp add: UPLOAD_CHUNK_def Let_def read_chunks.simps)
  have no_tmp: "plain_digest d \<noteq> CHR ''.'' # s" for d s by (simp add: plain_digest_def)
  have ok: "?up = (Inr \<lparr>br_sha256 = plain_digest [1, 2, 3], br_size = 3\<rparr>, snd ?up)"
    by (simp add: upload_file_def over_link_def upload_file_handler_def save_blob_def save_stream_def chunks Let_def
        upload_params_def bare_runtime_def client_json_def)
  have "chunk_bytes (map Chunk bs) = concat bs" for bs by (induction bs) simp_all
  then have same: "download_file None (plain_digest [1, 2, 3]) (save_all plain_digest [(''.tmp-1'', None, [Chunk [7]])] (snd ?up)) None =
      (Inr (), Some [1, 2, 3])"
    using upload_download_round_trip [OF ok, of "[(''.tmp-1'', None, [Chunk [7]])]" None] no_tmp plain_digest_inj by simp
  have "fst ?up = Inr \<lparr>br_sha256 = plain_digest [1, 2, 3], br_size = 3\<rparr>" by (subst ok) (rule fst_conv)
  with same show ?thesis unfolding Let_def by blast
qed

section \<open>Events arrive\<close>

lemma client_events_sent:
  assumes "\<forall>e \<in> set es. ev_type e \<noteq> ''resync_required''"
  shows "client_events (map Ws_event es @ rest) = (let (ys, r) = client_events rest in (map Ws_event es @ ys, r))"
  using assms by (induction es) (auto split: prod.split)

text \<open>
  \<^bold>\<open>C28\<close> From the bus to the caller: while nothing is published during the replay, a client of a live stream that was not
  dropped has been given, or will be given from its queue, every event after its position, once and in
  order, and \<open>ResyncRequired\<close> is not raised; provided no event has the type that marks a resync. An event of
  that type is never yielded: it ends the stream with \<open>ResyncRequired\<close>.
\<close>

theorem events_reach_client:
  assumes "bus_represents hist b" and "0 < eb_maxlen b" and "n \<le> size hist"
    and "ws_admissible ops (ws_open (Some n) b)" and "replay_undisturbed ops (ws_open (Some n) b)"
    and "w = fold ws_perform ops (ws_open (Some n) b)" and "ws_phase w = Ws_live i" and "i \<in> set (eb_subscribers (ws_bus w))"
    and "\<not> ws_resync w"
  shows "(if \<exists>e \<in> set (ws_sent w). ev_type e = ''resync_required''
      then snd (client_events (sent_messages w))
      else \<exists>yielded. client_events (sent_messages w) = (map Ws_event yielded, False) \<and>
        map Some yielded @ eb_queues (ws_bus w) i = map Some (drop n (hist @ ws_published ops (ws_open (Some n) b))))"
proof (cases "\<exists>e \<in> set (ws_sent w). ev_type e = ''resync_required''")
  case True
  have "e \<in> set es \<Longrightarrow> ev_type e = ''resync_required'' \<Longrightarrow> snd (client_events (map Ws_event es))" for e es
    by (induction es) (auto simp: split_beta Let_def)
  with True have "snd (client_events (map Ws_event (ws_sent w)))" by blast
  with True assms(9) show ?thesis by (simp add: sent_messages_def)
next
  case False
  have "stream_exact n hist (ws_open (Some n) b)"
    using stream_exact_open [OF assms(1,2), of "Some n"] assms(3) by simp
  from stream_exact_run [OF this assms(4,5)] assms(7,8)
  have "map Some (ws_sent w) @ eb_queues (ws_bus w) i = map Some (drop n (hist @ ws_published ops (ws_open (Some n) b)))"
    unfolding assms(6) by (simp add: stream_exact_def)
  moreover have "client_events (sent_messages w) = (map Ws_event (ws_sent w), False)"
    using client_events_sent [of "ws_sent w" "[]"] False assms(9) by (simp add: sent_messages_def)
  ultimately show ?thesis using False by auto
qed

theorem events_reach_client_witness:
  "let b = snd (publish (demo_publication ''e1'') (new_event_bus ''motor-01'' ''boot-1'' 5 5));
       w = fold ws_perform [Ws_turn, Ws_publish (demo_publication ''e2''), Ws_turn] (ws_open (Some 0) b)
   in \<exists>yielded. client_events (sent_messages w) = (map Ws_event yielded, False) \<and> length yielded = 2"
proof -
  let ?bus = "new_event_bus ''motor-01'' ''boot-1'' 5 5"
  let ?b = "snd (publish (demo_publication ''e1'') ?bus)"
  let ?ops = "[Ws_turn, Ws_publish (demo_publication ''e2''), Ws_turn]"
  let ?w = "fold ws_perform ?ops (ws_open (Some 0) ?b)"
  have rep: "bus_represents ([] @ [fst (publish (demo_publication ''e1'') ?bus)]) ?b"
    by (intro inv_intros bus_represents_new)
  have "ws_phase ?w = Ws_live 0" and "0 \<in> set (eb_subscribers (ws_bus ?w))"
    and "ws_admissible ?ops (ws_open (Some 0) ?b)" and "replay_undisturbed ?ops (ws_open (Some 0) ?b)"
    and "eb_queues (ws_bus ?w) 0 = []" and "\<not> ws_resync ?w" and "list_all (\<lambda>e. ev_type e \<noteq> ''resync_required'') (ws_sent ?w)"
    and "length (ws_published ?ops (ws_open (Some 0) ?b)) = 1"
    by code_simp+
  note run = this
  have no_type: "\<not> (\<exists>e \<in> set (ws_sent ?w). ev_type e = ''resync_required'')"
    using run(7) by (auto simp: list_all_iff)
  have "0 < eb_maxlen ?b" by (simp add: new_event_bus_def)
  have "0 \<le> size ([] @ [fst (publish (demo_publication ''e1'') ?bus)])" by simp
  from events_reach_client [OF rep \<open>0 < eb_maxlen ?b\<close> this run(3,4) refl run(1,2,6), unfolded if_not_P [OF no_type] run(5)]
  obtain yielded where y: "client_events (sent_messages ?w) = (map Ws_event yielded, False)"
    "map Some yielded @ [] = map Some (drop 0 (([] @ [fst (publish (demo_publication ''e1'') ?bus)]) @ ws_published ?ops (ws_open (Some 0) ?b)))"
    by (elim exE conjE)
  from arg_cong [OF y(2), of length] run(8) have "length yielded = 2" by simp
  with y(1) show ?thesis unfolding Let_def by blast
qed

section \<open>The WebSocket address\<close>

lemma py_replace_none:
  assumes "\<And>a b. s \<noteq> a @ old @ b" and "old \<noteq> []"
  shows "py_replace old new s = s"
  using assms
proof (induction old new s rule: py_replace.induct)
  case (1 old new s)
  show ?case
  proof (cases s)
    case (Cons c t)
    have "take (length old) s \<noteq> old"
      using "1.prems"(1) [of "[]" "drop (length old) s"] by (metis append_Nil append_take_drop_id)
    moreover have "t \<noteq> a @ old @ b" for a b
      using "1.prems"(1) [of "c # a" b] Cons by simp
    ultimately show ?thesis
      using "1.IH"(2) "1.prems"(2) Cons by (subst py_replace.simps) simp
  qed (simp add: py_replace.simps)
qed

lemma py_replace_skip: "old \<noteq> [] \<Longrightarrow> c \<noteq> hd old \<Longrightarrow> py_replace old new (c # s) = c # py_replace old new s"
  by (subst py_replace.simps, cases old) auto

lemma py_replace_here: "old \<noteq> [] \<Longrightarrow> py_replace old new (old @ s) = new @ py_replace old new s"
  by (subst py_replace.simps) simp

lemma py_rstrip_id: "s \<noteq> [] \<Longrightarrow> last s \<noteq> c \<Longrightarrow> py_rstrip c s = s"
  by (cases s rule: rev_cases) (simp_all add: py_rstrip_def)

text \<open>The stream is on the same host as the requests, with the scheme that goes with theirs.\<close>

lemma client_addresses:
  assumes "host \<noteq> []" and "last host \<noteq> CHR ''/''"
    and "\<And>a b. host \<noteq> a @ ''http://'' @ b" and "\<And>a b. host \<noteq> a @ ''https://'' @ b"
  shows "new_runtime_client (''http://'' @ host) = \<lparr>rc_base_url = ''http://'' @ host, rc_ws_url = ''ws://'' @ host\<rparr>"
    and "new_runtime_client (''https://'' @ host) = \<lparr>rc_base_url = ''https://'' @ host, rc_ws_url = ''wss://'' @ host\<rparr>"
proof -
  have none: "py_replace ''http://'' new host = host" "py_replace ''https://'' new host = host" for new
    using assms(3,4) by (simp_all add: py_replace_none)
  note skip = py_replace_skip [of "''https://''"] py_replace_skip [of "''http://''"]
  have "py_replace ''https://'' ''wss://'' (py_replace ''http://'' ''ws://'' (''http://'' @ host)) = ''ws://'' @ host"
  proof -
    have "py_replace ''http://'' ''ws://'' (''http://'' @ host) = ''ws://'' @ host"
      using py_replace_here [of "''http://''" "''ws://''" host] none(1) by simp
    then show ?thesis by (simp only:) (simp add: skip none)
  qed
  moreover have "py_replace ''http://'' ''ws://'' (''https://'' @ host) = ''https://'' @ host"
  proof -
    have "py_replace ''http://'' ''ws://'' (CHR ''h'' # ''ttps://'' @ host) =
        CHR ''h'' # py_replace ''http://'' ''ws://'' (''ttps://'' @ host)"
      by (subst py_replace.simps) simp
    then show ?thesis by (simp add: skip none)
  qed
  moreover have "py_replace ''https://'' ''wss://'' (''https://'' @ host) = ''wss://'' @ host"
    using py_replace_here [of "''https://''" "''wss://''" host] none(2) by simp
  ultimately show "new_runtime_client (''http://'' @ host) = \<lparr>rc_base_url = ''http://'' @ host, rc_ws_url = ''ws://'' @ host\<rparr>"
    "new_runtime_client (''https://'' @ host) = \<lparr>rc_base_url = ''https://'' @ host, rc_ws_url = ''wss://'' @ host\<rparr>"
    using assms(1,2) by (simp_all add: new_runtime_client_def py_rstrip_id)
qed

end
