(* ===== verification/Wire_Requests.thy ===== *)
theory Wire_Requests
  imports Show_System Operator_Windows Runtime_Client
begin

text \<open>
  The command requests as their callers write them, as keyword arguments of \<open>submit_command\<close>, and what the Runtime
  reads from the JSON object they become: the requests that the other theories submit.
\<close>

section \<open>Keyword arguments\<close>

text \<open>\<open>_run_cue\<close> of the timeline executor.\<close>

definition cue_kwargs :: "string \<Rightarrow> string \<Rightarrow> cue \<Rightarrow> params" where
  "cue_kwargs run_id session c =
     [(''request_id'', PStr (run_id @ '':'' @ cue_id c)), (''control_session_id'', PStr session), (''run_id'', PStr run_id),
      (''cue_id'', PStr (cue_id c)), (''target_id'', PStr (cue_target_id c)), (''action'', PStr (cue_action c)),
      (''params'', PDict (cue_params c)),
      (''completion_requirement'', PStr (requirement_value (cue_completion_requirement c))),
      (''source'', PStr ''timeline'')]"

text \<open>\<open>_on_move\<close> and \<open>_on_stop\<close> of the motor window.\<close>

definition move_kwargs :: "string \<Rightarrow> string option \<Rightarrow> string \<Rightarrow> rat \<Rightarrow> params" where
  "move_kwargs request_id session target position =
     [(''request_id'', PStr request_id), (''control_session_id'', opt_str session), (''target_id'', PStr target),
      (''action'', PStr ''move''), (''params'', PDict [(''position'', PFloat position)])]"

definition stop_kwargs :: "string \<Rightarrow> string option \<Rightarrow> string \<Rightarrow> string \<Rightarrow> params" where
  "stop_kwargs request_id session target act =
     [(''request_id'', PStr request_id), (''control_session_id'', opt_str session), (''target_id'', PStr target),
      (''action'', PStr act), (''completion_requirement'', PStr ''acknowledged'')]"

text \<open>\<open>_submit\<close> of the video window.\<close>

definition video_kwargs :: "string \<Rightarrow> string option \<Rightarrow> string \<Rightarrow> string \<Rightarrow> params \<Rightarrow> completion_requirement \<Rightarrow> params" where
  "video_kwargs request_id session target act ps completion =
     [(''request_id'', PStr request_id), (''control_session_id'', opt_str session), (''target_id'', PStr target),
      (''action'', PStr act), (''params'', PDict ps), (''completion_requirement'', PStr (requirement_value completion))]"

text \<open>\<open>_stop_all\<close> of the Scheduler.\<close>

definition abort_kwargs :: "string \<Rightarrow> string \<Rightarrow> string \<Rightarrow> string \<Rightarrow> params" where
  "abort_kwargs request_id session target act =
     [(''request_id'', PStr request_id), (''control_session_id'', PStr session), (''target_id'', PStr target),
      (''action'', PStr act), (''completion_requirement'', PStr ''acknowledged''), (''source'', PStr ''show-abort'')]"

section \<open>What the Runtime reads\<close>

lemma requirement_of_value [simp]: "requirement_of (requirement_value r) = Some r"
  by (cases r) (simp_all add: requirement_of_def)

lemma mode_of_value [simp]: "mode_of (mode_value m) = Some m"
  by (cases m) (simp_all add: mode_of_def)

lemma nullable_opt_str: "nullable read_str (opt_str x) = Some x"
  by (cases x) (simp_all add: nullable_def opt_str_def)

lemmas parse_defs = parse_submit_def str_field_def with_default_def nullable_opt_str

text \<open>
  What every caller writes is the request that the models of the callers submit: the cue of a run, the move, the
  stop and the video actions of the windows, and the stop of an aborted Show, each with the defaults of the fields
  it leaves out.
\<close>

theorem callers_requests_parse:
  assumes deliver: "delivers_plain deliver"
  shows
  "route to_int to_flt (over_http deliver (client_request (Submit_command (cue_kwargs run_id session c)))) =
     Routed (Serve_submit (cue_request run_id session c))"
  "route to_int to_flt (over_http deliver (client_request (Submit_command (move_kwargs r s t q)))) =
     Routed (Serve_submit (ui_request r s t ''move'' [(''position'', PFloat q)] Req_OBSERVED))"
  "route to_int to_flt (over_http deliver (client_request (Submit_command (stop_kwargs r s t a)))) =
     Routed (Serve_submit (ui_request r s t a [] Req_ACKNOWLEDGED))"
  "route to_int to_flt (over_http deliver (client_request (Submit_command (video_kwargs r s t a ps completion)))) =
     Routed (Serve_submit (ui_request r s t a ps completion))"
  "route to_int to_flt (over_http deliver (client_request (Submit_command (abort_kwargs r sid t a)))) =
     Routed (Serve_submit ((ui_request r (Some sid) t a [] Req_ACKNOWLEDGED)\<lparr>sr_source := ''show-abort''\<rparr>))"
proof -
  have plain: "plain_method (Submit_command kwargs)" for kwargs by simp
  have routed: "route to_int to_flt (over_http deliver (client_request (Submit_command kwargs))) = Routed (Serve_submit req)"
    if "parse_submit to_int kwargs = Some req" for kwargs req
    unfolding plain_delivered [OF deliver plain] using that by (simp add: route_defs)
  have acknowledged: "requirement_of ''acknowledged'' = Some Req_ACKNOWLEDGED" by (simp add: requirement_of_def)
  have some: "nullable read_str (PStr x) = Some (Some x)" for x by (simp add: nullable_def)
  show "route to_int to_flt (over_http deliver (client_request (Submit_command (cue_kwargs run_id session c)))) =
      Routed (Serve_submit (cue_request run_id session c))"
    by (rule routed) (simp add: parse_defs some cue_kwargs_def cue_request_def cue_request_id_def)
  show "route to_int to_flt (over_http deliver (client_request (Submit_command (move_kwargs r s t q)))) =
      Routed (Serve_submit (ui_request r s t ''move'' [(''position'', PFloat q)] Req_OBSERVED))"
    by (rule routed) (simp add: parse_defs move_kwargs_def ui_request_def)
  show "route to_int to_flt (over_http deliver (client_request (Submit_command (stop_kwargs r s t a)))) =
      Routed (Serve_submit (ui_request r s t a [] Req_ACKNOWLEDGED))"
    by (rule routed) (simp add: parse_defs stop_kwargs_def ui_request_def acknowledged)
  show "route to_int to_flt (over_http deliver (client_request (Submit_command (video_kwargs r s t a ps completion)))) =
      Routed (Serve_submit (ui_request r s t a ps completion))"
    by (rule routed) (simp add: parse_defs video_kwargs_def ui_request_def)
  show "route to_int to_flt (over_http deliver (client_request (Submit_command (abort_kwargs r sid t a)))) =
      Routed (Serve_submit ((ui_request r (Some sid) t a [] Req_ACKNOWLEDGED)\<lparr>sr_source := ''show-abort''\<rparr>))"
    by (rule routed) (simp add: parse_defs some abort_kwargs_def ui_request_def acknowledged)
qed

end
