(* ===== verification/Mqtt_Management.thy ===== *)
theory Mqtt_Management
  imports Group_Deployment
begin

text \<open>
  The MQTT adapter of a Runtime: \<open>transport/mqtt_adapter.py\<close>. The broker and its client library are inputs:
  the messages that arrive, how a connection ends, and \<open>json.loads\<close> of a payload (\<open>None\<close> when it is not
  UTF-8 or not JSON). A payload published is kept as the value before \<open>json.dumps\<close>. The message loop is
  cut where it waits for an apply: \<open>mq_waiting\<close> is the request being applied, and no other message is
  taken up meanwhile. Here publishing succeeds; \<open>Mqtt_Connection\<close> lets every publication fail.
\<close>

section \<open>State\<close>

definition DEFAULT_STATUS_INTERVAL_S :: rat where "DEFAULT_STATUS_INTERVAL_S = 10"
definition DEFAULT_RECONNECT_INITIAL_DELAY_S :: rat where "DEFAULT_RECONNECT_INITIAL_DELAY_S = 1"
definition DEFAULT_RECONNECT_MAX_DELAY_S :: rat where "DEFAULT_RECONNECT_MAX_DELAY_S = 30"

record mqtt_publication =
  mp_topic :: string
  mp_payload :: pyval
  mp_retain :: bool

record mqtt_message =
  mm_topic :: string
  mm_retain :: bool
  mm_payload :: bytes

record mqtt_adapter =
  mq_runtime_id :: string
  mq_prefix :: string
  mq_reconnect_initial_delay_s :: rat
  mq_reconnect_max_delay_s :: rat
  mq_runtime :: device_runtime
  mq_published :: "mqtt_publication list"
  mq_subscribed :: "string list"
  mq_waiting :: "(pyval \<times> nat) option"

text \<open>What the environment supplies while a message is handled.\<close>

record mqtt_env =
  me_loads :: "bytes \<Rightarrow> pyval option"
  me_str :: "pyval \<Rightarrow> string"
  me_invalid :: string
  me_new_id :: string
  me_content_hash :: string
  me_now :: time
  me_call :: nat

definition topic :: "mqtt_adapter \<Rightarrow> string \<Rightarrow> string" where
  "topic mq suffix = mq_prefix mq @ ''/'' @ mq_runtime_id mq @ ''/'' @ suffix"

definition mqtt_publish :: "string \<Rightarrow> pyval \<Rightarrow> bool \<Rightarrow> mqtt_adapter \<Rightarrow> mqtt_adapter" where
  "mqtt_publish suffix payload retain mq =
     mq\<lparr>mq_published := mq_published mq @
       [\<lparr>mp_topic = topic mq suffix, mp_payload = payload, mp_retain = retain\<rparr>]\<rparr>"

section \<open>What is published\<close>

definition apply_record_dump :: "apply_record \<Rightarrow> params" where
  "apply_record_dump r =
     [(''revision_id'', PStr (ar_revision_id r)),
      (''outcome'', PStr (apply_outcome_value (ar_outcome r))),
      (''detail'', opt_str (ar_detail r)),
      (''applied_at'', PFloat (ar_applied_at r))]"

definition revision_dump :: "config_revision \<Rightarrow> params" where
  "revision_dump rv =
     [(''revision_id'', PStr (rev_revision_id rv)), (''kind'', PStr (rev_kind rv)),
      (''content_hash'', PStr (rev_content_hash rv)), (''content'', PDict (rev_content rv)),
      (''staged_at'', PFloat (rev_staged_at rv))]"

definition status_payload :: "device_runtime \<Rightarrow> pyval" where
  "status_payload rt =
     (let (staged, active, journal) = config_status (rt_config rt)
      in PDict [(''staged_revision_ids'', PList (map PStr staged)), (''active_revision_id'', opt_str active),
          (''journal'', PList (map (PDict \<circ> apply_record_dump) journal))])"

definition publish_info :: "mqtt_adapter \<Rightarrow> mqtt_adapter" where
  "publish_info mq = mqtt_publish ''info'' (PDict [(''runtime_id'', PStr (mq_runtime_id mq))]) True mq"

definition publish_status :: "mqtt_adapter \<Rightarrow> mqtt_adapter" where
  "publish_status mq = mqtt_publish ''config/status'' (status_payload (mq_runtime mq)) True mq"

section \<open>Requests\<close>

text \<open>\<open>payload.get(key)\<close>, and \<open>payload[key]\<close> with the text of its \<open>KeyError\<close>.\<close>

definition get_or_none :: "params \<Rightarrow> string \<Rightarrow> pyval" where
  "get_or_none payload key = (case dget payload key of None \<Rightarrow> PNone | Some v \<Rightarrow> v)"

definition item :: "params \<Rightarrow> string \<Rightarrow> string + pyval" where
  "item payload key = (case dget payload key of None \<Rightarrow> Inl (quoted key) | Some v \<Rightarrow> Inr v)"

text \<open>A kind that is no string or a content that is no object is refused by the model class (\<open>me_invalid\<close>).\<close>

definition handle_stage_request :: "mqtt_env \<Rightarrow> params \<Rightarrow> mqtt_adapter \<Rightarrow> mqtt_adapter" where
  "handle_stage_request env payload mq =
     (let answer = (\<lambda>extra. mqtt_publish ''config/stage/response''
            (PDict ((''request_id'', get_or_none payload ''request_id'') # extra)) False)
      in case (item payload ''kind'', item payload ''content'') of
           (Inl m, _) \<Rightarrow> answer [(''error'', PStr m)] mq
         | (_, Inl m) \<Rightarrow> answer [(''error'', PStr m)] mq
         | (Inr (PStr kind), Inr (PDict content)) \<Rightarrow>
             (let (revision, rt) = stage_config kind content (me_new_id env) (me_content_hash env) (me_now env) (mq_runtime mq)
              in answer (revision_dump revision) (mq\<lparr>mq_runtime := rt\<rparr>))
         | _ \<Rightarrow> answer [(''error'', PStr (me_invalid env))] mq)"

text \<open>
  \<open>handle_apply_request\<close> up to its wait, or to its end when the revision is unknown. A revision id that is
  no string is not staged. An expected revision of another type than a string differs from every
  revision, as its text does.
\<close>

definition apply_response :: "pyval \<Rightarrow> params \<Rightarrow> mqtt_adapter \<Rightarrow> mqtt_adapter" where
  "apply_response request_id extra mq =
     publish_status (mqtt_publish ''config/apply/response'' (PDict ((''request_id'', request_id) # extra)) False mq)"

definition expected_of :: "mqtt_env \<Rightarrow> pyval \<Rightarrow> string option" where
  "expected_of env v = (case v of PNone \<Rightarrow> None | PStr s \<Rightarrow> Some s | _ \<Rightarrow> Some (me_str env v))"

definition handle_apply_request :: "mqtt_env \<Rightarrow> params \<Rightarrow> mqtt_adapter \<Rightarrow> mqtt_adapter" where
  "handle_apply_request env payload mq =
     (let request_id = get_or_none payload ''request_id''
      in case item payload ''revision_id'' of
           Inl m \<Rightarrow> apply_response request_id [(''error'', PStr m)] mq
         | Inr (PStr rid) \<Rightarrow>
             (case apply_config_begin (me_call env) rid
                     (expected_of env (get_or_none payload ''expected_active_revision'')) (mq_runtime mq) of
                Inl e \<Rightarrow> apply_response request_id [(''error'', PStr (fe_message e))] mq
              | Inr rt \<Rightarrow> mq\<lparr>mq_runtime := rt, mq_waiting := Some (request_id, me_call env)\<rparr>)
         | Inr _ \<Rightarrow> apply_response request_id [(''error'', PStr (me_invalid env))] mq)"

text \<open>The wait of the current request ends with the record of its call.\<close>

definition apply_request_done :: "apply_record \<Rightarrow> mqtt_adapter \<Rightarrow> mqtt_adapter" where
  "apply_request_done record mq =
     (case mq_waiting mq of
        None \<Rightarrow> mq
      | Some (request_id, _) \<Rightarrow> apply_response request_id (apply_record_dump record) (mq\<lparr>mq_waiting := None\<rparr>))"

text \<open>\<open>None\<close>: the handler raises (\<open>payload.get\<close> of a value that is no object), which ends the connection.\<close>

definition handle_mqtt_message :: "mqtt_env \<Rightarrow> string \<Rightarrow> bytes \<Rightarrow> mqtt_adapter \<Rightarrow> mqtt_adapter option" where
  "handle_mqtt_message env name raw_payload mq =
     (case me_loads env raw_payload of
        None \<Rightarrow> Some mq
      | Some v \<Rightarrow>
          if name = topic mq ''config/stage/request''
          then (case v of PDict payload \<Rightarrow> Some (handle_stage_request env payload mq) | _ \<Rightarrow> None)
          else if name = topic mq ''config/apply/request''
          then (case v of PDict payload \<Rightarrow> Some (handle_apply_request env payload mq) | _ \<Rightarrow> None)
          else Some mq)"

definition serve_message :: "mqtt_env \<Rightarrow> mqtt_message \<Rightarrow> mqtt_adapter \<Rightarrow> mqtt_adapter option" where
  "serve_message env message mq =
     (if mm_retain message then Some mq
      else handle_mqtt_message env (mm_topic message) (mm_payload message) mq)"

text \<open>The start of \<open>_connect_and_serve\<close>.\<close>

definition mqtt_connected :: "mqtt_adapter \<Rightarrow> mqtt_adapter" where
  "mqtt_connected mq =
     publish_status (publish_info
       (mq\<lparr>mq_subscribed := [topic mq ''config/stage/request'', topic mq ''config/apply/request'']\<rparr>))"

section \<open>Reconnecting\<close>

text \<open>
  How \<open>_connect_and_serve\<close> ends: it returns, or it raises, before or after the connection was
  established. The delays of \<open>_run_forever\<close>, one for every time it raised.
\<close>

datatype serve_end = Serve_returned | Serve_raised bool

definition next_delay :: "rat \<Rightarrow> rat \<Rightarrow> rat" where
  "next_delay max_delay d = min (d * 2) max_delay"

fun run_forever :: "rat \<Rightarrow> rat \<Rightarrow> rat \<Rightarrow> serve_end list \<Rightarrow> rat list" where
  "run_forever initial max_delay d [] = []"
| "run_forever initial max_delay d (Serve_returned # ends) = run_forever initial max_delay initial ends"
| "run_forever initial max_delay d (Serve_raised established # ends) =
     d # run_forever initial max_delay (next_delay max_delay d) ends"

definition reconnect_delays :: "mqtt_adapter \<Rightarrow> serve_end list \<Rightarrow> rat list" where
  "reconnect_delays mq ends =
     run_forever (mq_reconnect_initial_delay_s mq) (mq_reconnect_max_delay_s mq) (mq_reconnect_initial_delay_s mq) ends"

lemma run_forever_raised:
  assumes "0 \<le> d" and "d \<le> max_delay"
  shows "run_forever initial max_delay d (map Serve_raised fs) = map (\<lambda>k. min (d * 2 ^ k) max_delay) [0..<size fs]"
  using assms
proof (induction fs arbitrary: d)
  case (Cons f fs)
  have "min (next_delay max_delay d * 2 ^ k) max_delay = min (d * 2 ^ Suc k) max_delay" for k
  proof (cases "d * 2 \<le> max_delay")
    case False
    then have "d * 2 * 2 ^ k \<ge> max_delay * 1" "max_delay * 2 ^ k \<ge> max_delay * 1"
      using Cons.prems by (intro mult_mono; simp)+
    with False show ?thesis by (simp add: next_delay_def min_def mult_ac)
  qed (simp add: next_delay_def min_def mult_ac)
  moreover have "0 \<le> next_delay max_delay d" "next_delay max_delay d \<le> max_delay"
    using Cons.prems by (auto simp: next_delay_def)
  ultimately have "run_forever initial max_delay (next_delay max_delay d) (map Serve_raised fs) =
      map (\<lambda>k. min (d * 2 ^ Suc k) max_delay) [0..<size fs]"
    using Cons.IH by simp
  moreover have "map (\<lambda>k. min (d * 2 ^ k) max_delay) [0..<size (f # fs)] =
      min d max_delay # map (\<lambda>k. min (d * 2 ^ Suc k) max_delay) [0..<size fs]"
    by (simp add: upt_conv_Cons map_Suc_upt [symmetric] del: upt_Suc)
  ultimately show ?case using Cons.prems by simp
qed simp

text \<open>
  The delay before the next attempt doubles from the initial one up to the cap and never exceeds it.
  A connection that was established in between does not reset it: as the message loop has no normal
  end, only the number of losses since the start counts.
\<close>

theorem backoff_is_capped_and_never_reset:
  assumes "0 \<le> mq_reconnect_initial_delay_s mq" and "mq_reconnect_initial_delay_s mq \<le> mq_reconnect_max_delay_s mq"
  shows "reconnect_delays mq (map Serve_raised established) =
    map (\<lambda>k. min (mq_reconnect_initial_delay_s mq * 2 ^ k) (mq_reconnect_max_delay_s mq)) [0..<size established]"
  unfolding reconnect_delays_def using assms by (rule run_forever_raised)

definition new_mqtt_adapter :: "string \<Rightarrow> string \<Rightarrow> device_runtime \<Rightarrow> mqtt_adapter" where
  "new_mqtt_adapter runtime_id prefix rt =
     \<lparr>mq_runtime_id = runtime_id, mq_prefix = prefix,
      mq_reconnect_initial_delay_s = DEFAULT_RECONNECT_INITIAL_DELAY_S,
      mq_reconnect_max_delay_s = DEFAULT_RECONNECT_MAX_DELAY_S, mq_runtime = rt, mq_published = [],
      mq_subscribed = [], mq_waiting = None\<rparr>"

theorem backoff_is_capped_and_never_reset_witness:
  "reconnect_delays (new_mqtt_adapter ''motor-01'' ''fusion'' (bare_runtime ''motor-01''))
     (map Serve_raised [False, False, True, True, False, False]) = [1, 2, 4, 8, 16, 30]"
  by (subst backoff_is_capped_and_never_reset)
    (simp_all add: new_mqtt_adapter_def DEFAULT_RECONNECT_INITIAL_DELAY_S_def DEFAULT_RECONNECT_MAX_DELAY_S_def upt_rec)

section \<open>Errors\<close>

text \<open>
  What makes the adapter drop its connection: exactly a live message on one of the two request topics
  whose payload is JSON but not an object. A payload that is not JSON is ignored, and every other failure
  of a request is answered.
\<close>

theorem non_object_payload_drops_connection:
  "serve_message env message mq = None \<longleftrightarrow>
     \<not> mm_retain message \<and> mm_topic message \<in> {topic mq ''config/stage/request'', topic mq ''config/apply/request''} \<and>
     (\<exists>v. me_loads env (mm_payload message) = Some v \<and> (\<nexists>payload. v = PDict payload))"
  by (auto simp: serve_message_def handle_mqtt_message_def split: option.splits pyval.splits)

section \<open>MQTT has no way of its own into the Runtime\<close>

text \<open>The request of a message to the Runtime, if it makes one.\<close>

definition stage_op :: "mqtt_env \<Rightarrow> params \<Rightarrow> runtime_op list" where
  "stage_op env payload =
     (case (item payload ''kind'', item payload ''content'') of
        (Inr (PStr kind), Inr (PDict content)) \<Rightarrow>
          [Rt_stage kind content (me_new_id env) (me_content_hash env) (me_now env)]
      | _ \<Rightarrow> [])"

definition apply_op :: "mqtt_env \<Rightarrow> params \<Rightarrow> runtime_op list" where
  "apply_op env payload =
     (case item payload ''revision_id'' of
        Inr (PStr rid) \<Rightarrow>
          [Rt_apply_begin (me_call env) rid (expected_of env (get_or_none payload ''expected_active_revision''))]
      | _ \<Rightarrow> [])"

definition message_ops :: "mqtt_env \<Rightarrow> mqtt_message \<Rightarrow> mqtt_adapter \<Rightarrow> runtime_op list" where
  "message_ops env message mq =
     (case me_loads env (mm_payload message) of
        Some (PDict payload) \<Rightarrow>
          if mm_retain message then []
          else if mm_topic message = topic mq ''config/stage/request'' then stage_op env payload
          else if mm_topic message = topic mq ''config/apply/request'' then apply_op env payload
          else []
      | _ \<Rightarrow> [])"

lemma topic_cong: "mq_prefix mq' = mq_prefix mq \<Longrightarrow> mq_runtime_id mq' = mq_runtime_id mq \<Longrightarrow> topic mq' = topic mq"
  by (rule ext) (simp add: topic_def)

lemma mqtt_publish_frame [simp]:
  "mq_runtime (mqtt_publish suffix payload retain mq) = mq_runtime mq"
  "mq_runtime (publish_status mq) = mq_runtime mq"
  "mq_runtime (apply_response rid extra mq) = mq_runtime mq"
  by (simp_all add: mqtt_publish_def publish_status_def apply_response_def)

lemma topic_frame [simp]:
  "topic (mqtt_publish suffix payload retain mq) = topic mq"
  "topic (publish_status mq) = topic mq"
  "topic (mq\<lparr>mq_runtime := rt\<rparr>) = topic mq"
  "topic (mq\<lparr>mq_waiting := x\<rparr>) = topic mq"
  by (rule topic_cong; simp add: mqtt_publish_def publish_status_def)+

lemma handle_stage_runtime:
  "mq_runtime (handle_stage_request env payload mq) = fold runtime_perform (stage_op env payload) (mq_runtime mq)"
  by (auto simp: handle_stage_request_def stage_op_def Let_def split_beta split: sum.split pyval.split)

lemma handle_apply_runtime:
  "mq_runtime (handle_apply_request env payload mq) = fold runtime_perform (apply_op env payload) (mq_runtime mq)"
  by (auto simp: handle_apply_request_def apply_op_def Let_def split: sum.split pyval.split)

text \<open>A request that is handled: a live message on one of the two topics whose payload is an object.\<close>

definition is_request :: "mqtt_env \<Rightarrow> mqtt_message \<Rightarrow> mqtt_adapter \<Rightarrow> bool" where
  "is_request env message mq \<longleftrightarrow>
     \<not> mm_retain message \<and> mm_topic message \<in> {topic mq ''config/stage/request'', topic mq ''config/apply/request''} \<and>
     (\<exists>payload. me_loads env (mm_payload message) = Some (PDict payload))"

text \<open>The answers published so far.\<close>

definition answers :: "mqtt_adapter \<Rightarrow> nat" where
  "answers mq = size (filter (\<lambda>p. mp_topic p \<in> {topic mq ''config/stage/response'', topic mq ''config/apply/response''})
     (mq_published mq))"

text \<open>
  The runs of a connection. \<open>ops\<close> are the Runtime's operations in their order, \<open>n\<close> the requests handled. Between
  two steps of the adapter the Runtime does what it does for others.
\<close>

inductive mqtt_run :: "mqtt_adapter \<Rightarrow> runtime_op list \<Rightarrow> nat \<Rightarrow> mqtt_adapter \<Rightarrow> bool"
  for mq0 :: mqtt_adapter where
  run_start: "mqtt_run mq0 [] 0 mq0"
| run_message: "mqtt_run mq0 ops n mq \<Longrightarrow> mq_waiting mq = None \<Longrightarrow> serve_message env message mq = Some mq' \<Longrightarrow>
    mqtt_run mq0 (ops @ message_ops env message mq) (if is_request env message mq then Suc n else n) mq'"
| run_done: "mqtt_run mq0 ops n mq \<Longrightarrow> mqtt_run mq0 ops n (apply_request_done record mq)"
| run_status: "mqtt_run mq0 ops n mq \<Longrightarrow> mqtt_run mq0 ops n (publish_status mq)"
| run_runtime: "mqtt_run mq0 ops n mq \<Longrightarrow>
    mqtt_run mq0 (ops @ [p]) n (mq\<lparr>mq_runtime := runtime_perform p (mq_runtime mq)\<rparr>)"

definition waiting_count :: "mqtt_adapter \<Rightarrow> nat" where
  "waiting_count mq = (case mq_waiting mq of None \<Rightarrow> 0 | Some _ \<Rightarrow> 1)"

text \<open>Only the info and the status are retained.\<close>

definition retained_ok :: "mqtt_adapter \<Rightarrow> bool" where
  "retained_ok mq \<longleftrightarrow> (\<forall>p \<in> set (mq_published mq). mp_retain p \<longrightarrow>
     mp_topic p \<in> {topic mq ''info'', topic mq ''config/status''})"

lemma topic_eq: "topic mq a = topic mq b \<longleftrightarrow> a = b"
  by (simp add: topic_def)

lemma answers_frame [simp]:
  "answers (mqtt_publish ''config/stage/response'' v r mq) = Suc (answers mq)"
  "answers (mqtt_publish ''config/apply/response'' v r mq) = Suc (answers mq)"
  "answers (publish_status mq) = answers mq"
  "answers (mq\<lparr>mq_runtime := rt\<rparr>) = answers mq"
  "answers (mq\<lparr>mq_waiting := x\<rparr>) = answers mq"
  "answers (apply_response rid extra mq) = Suc (answers mq)"
  by (simp_all add: answers_def apply_response_def publish_status_def mqtt_publish_def topic_def)

lemma retained_frame:
  "retained_ok (mqtt_publish suffix v False mq) = retained_ok mq"
  "retained_ok (publish_status mq) = retained_ok mq"
  "retained_ok (mq\<lparr>mq_runtime := rt\<rparr>) = retained_ok mq"
  "retained_ok (mq\<lparr>mq_waiting := x\<rparr>) = retained_ok mq"
  "retained_ok (apply_response rid extra mq) = retained_ok mq"
  by (auto simp: retained_ok_def apply_response_def publish_status_def mqtt_publish_def topic_def)

lemma waiting_frame [simp]:
  "mq_waiting (mqtt_publish suffix v r mq) = mq_waiting mq"
  "mq_waiting (publish_status mq) = mq_waiting mq"
  "mq_waiting (apply_response rid extra mq) = mq_waiting mq"
  by (simp_all add: apply_response_def publish_status_def mqtt_publish_def)

lemma stage_answered:
  "answers (handle_stage_request env payload mq) = Suc (answers mq) \<and>
   mq_waiting (handle_stage_request env payload mq) = mq_waiting mq \<and>
   retained_ok (handle_stage_request env payload mq) = retained_ok mq"
  by (simp add: handle_stage_request_def Let_def split_beta retained_frame split: sum.split pyval.split)

lemma apply_answered:
  "mq_waiting mq = None \<Longrightarrow>
   answers (handle_apply_request env payload mq) + waiting_count (handle_apply_request env payload mq) = Suc (answers mq) \<and>
   retained_ok (handle_apply_request env payload mq) = retained_ok mq"
  by (simp add: handle_apply_request_def Let_def retained_frame waiting_count_def split: sum.split pyval.split)

lemma serve_message_ok:
  assumes "serve_message env message mq = Some mq'" and "mq_waiting mq = None"
  shows "mq_runtime mq' = fold runtime_perform (message_ops env message mq) (mq_runtime mq) \<and>
    answers mq' + waiting_count mq' = answers mq + (if is_request env message mq then 1 else 0) \<and>
    retained_ok mq' = retained_ok mq"
proof (cases "is_request env message mq")
  case True
  then obtain payload where payload: "me_loads env (mm_payload message) = Some (PDict payload)"
    and live: "\<not> mm_retain message"
    and t: "mm_topic message = topic mq ''config/stage/request'' \<or> mm_topic message = topic mq ''config/apply/request''"
    by (auto simp: is_request_def)
  from t show ?thesis
  proof
    assume "mm_topic message = topic mq ''config/stage/request''"
    with assms payload live True stage_answered [of env payload mq] show ?thesis
      by (auto simp: serve_message_def handle_mqtt_message_def message_ops_def handle_stage_runtime waiting_count_def)
  next
    assume "mm_topic message = topic mq ''config/apply/request''"
    with assms payload live True apply_answered [OF assms(2), of env payload] show ?thesis
      by (auto simp: serve_message_def handle_mqtt_message_def message_ops_def handle_apply_runtime topic_eq)
  qed
next
  case False
  then have "mq' = mq" and "message_ops env message mq = []"
    using assms(1) by (auto simp: serve_message_def handle_mqtt_message_def message_ops_def is_request_def
        split: if_splits option.splits pyval.splits)
  with False assms(2) show ?thesis by (simp add: waiting_count_def)
qed

text \<open>
  MQTT has no way of its own into a Runtime: whatever messages arrive, the Runtime's state is that of its
  ordinary operations, at most one stage or apply request for each live request message and none for a
  retained one; each request is answered exactly once, except the one still waiting for its apply; and
  nothing but the info and the status is ever retained.
\<close>

theorem mqtt_only_makes_requests:
  assumes "mqtt_run mq0 ops n mq" and "mq_waiting mq0 = None" and "retained_ok mq0"
  shows "mq_runtime mq = fold runtime_perform ops (mq_runtime mq0) \<and>
    answers mq + waiting_count mq = answers mq0 + n \<and> retained_ok mq"
  using assms
proof (induction rule: mqtt_run.induct)
  case (run_message ops n mq env message mq')
  with serve_message_ok [OF run_message.hyps(3,2)] show ?case by (auto simp: waiting_count_def)
next
  case (run_done ops n mq r)
  then show ?case
    by (auto simp: apply_request_done_def retained_frame waiting_count_def split: option.splits)
qed (auto simp: waiting_count_def retained_frame)

definition demo_mqtt :: mqtt_adapter where
  "demo_mqtt = new_mqtt_adapter ''motor-01'' ''fusion'' (bare_runtime ''motor-01'')"

definition demo_mqtt_env :: mqtt_env where
  "demo_mqtt_env =
     \<lparr>me_loads = (\<lambda>_. Some (PDict [(''kind'', PStr ''show''), (''content'', PDict [])])), me_str = (\<lambda>_. []),
      me_invalid = ''invalid'', me_new_id = ''rev_1'', me_content_hash = ''00'', me_now = 1, me_call = 0\<rparr>"

definition demo_stage_message :: mqtt_message where
  "demo_stage_message =
     \<lparr>mm_topic = ''fusion/motor-01/config/stage/request'', mm_retain = False, mm_payload = []\<rparr>"

theorem mqtt_only_makes_requests_witness:
  "\<exists>mq. serve_message demo_mqtt_env demo_stage_message demo_mqtt = Some mq \<and> answers mq = 1 \<and>
     mq_runtime mq = runtime_perform (Rt_stage ''show'' [] ''rev_1'' ''00'' 1) (bare_runtime ''motor-01'')"
proof -
  let ?mq = "handle_stage_request demo_mqtt_env [(''kind'', PStr ''show''), (''content'', PDict [])] demo_mqtt"
  have served: "serve_message demo_mqtt_env demo_stage_message demo_mqtt = Some ?mq"
    by (simp add: serve_message_def handle_mqtt_message_def demo_stage_message_def demo_mqtt_env_def topic_def
        demo_mqtt_def new_mqtt_adapter_def)
  have ops: "message_ops demo_mqtt_env demo_stage_message demo_mqtt = [Rt_stage ''show'' [] ''rev_1'' ''00'' 1]"
    and req: "is_request demo_mqtt_env demo_stage_message demo_mqtt"
    by (simp_all add: message_ops_def stage_op_def item_def is_request_def demo_stage_message_def demo_mqtt_env_def
        topic_def demo_mqtt_def new_mqtt_adapter_def)
  have idle: "mq_waiting demo_mqtt = None" "retained_ok demo_mqtt" "answers demo_mqtt = 0"
      "mq_runtime demo_mqtt = bare_runtime ''motor-01''"
    by (simp_all add: demo_mqtt_def new_mqtt_adapter_def retained_ok_def answers_def)
  have run: "mqtt_run demo_mqtt [Rt_stage ''show'' [] ''rev_1'' ''00'' 1] 1 ?mq"
    using run_message [OF run_start [of demo_mqtt] idle(1) served] by (simp add: ops req)
  have "waiting_count ?mq = 0"
    using idle(1) stage_answered by (simp add: waiting_count_def)
  with mqtt_only_makes_requests [OF run idle(1,2)] served idle show ?thesis
    by (intro exI [of _ ?mq]) simp
qed

end
