(* ===== verification/Mqtt_Connection.thy ===== *)
theory Mqtt_Connection
  imports Mqtt_Management
begin

text \<open>
  The tasks of the MQTT adapter (\<open>start\<close>, \<open>stop\<close>, \<open>_run_forever\<close>, \<open>_connect_and_serve\<close> and \<open>_status_loop\<close> of
  \<open>transport/mqtt_adapter.py\<close>). Every \<open>start\<close> makes a task, whatever is running; the handle keeps the last one, and
  \<open>stop\<close> cancels that one, wherever it is: at a publication, in its sleep, or in the middle of an apply. A handler
  changes the Runtime and leaves what it has to publish in the task's outbox, from which the publications go
  out one by one; each of them may raise. What cancellation makes of the broker's client is the library's: leaving
  its context is assumed to raise nothing else.
\<close>

section \<open>State\<close>

datatype mqtt_phase = Mv_connecting | Mv_greeting | Mv_serving | Mv_retrying | Mv_over

text \<open>
  \<open>Mv_greeting\<close>: connected, with info and status still to be published. \<open>tk_connection\<close> counts the connection attempts
  that have ended, \<open>tk_waiting\<close> is the request whose apply the task awaits (its id and the call), and \<open>tk_status\<close>
  tells that the status task of the connection is alive.
\<close>

record mqtt_task =
  tk_phase :: mqtt_phase
  tk_delay :: rat
  tk_connection :: nat
  tk_status :: bool
  tk_waiting :: "(pyval \<times> nat) option"
  tk_outbox :: "mqtt_publication list"
  tk_cancelled :: bool

text \<open>
  The tasks in the order of their creation, the handle \<open>_task\<close>, and the tasks that calls of \<open>stop\<close> await. Of the
  adapter, runtime, publications and subscriptions are used here.
\<close>

record mqtt_service =
  mv_adapter :: mqtt_adapter
  mv_tasks :: "mqtt_task list"
  mv_task :: "nat option"
  mv_stopping :: "nat list"

definition new_mqtt_service :: "mqtt_adapter \<Rightarrow> mqtt_service" where
  "new_mqtt_service mq = \<lparr>mv_adapter = mq, mv_tasks = [], mv_task = None, mv_stopping = []\<rparr>"

definition new_mqtt_task :: "mqtt_adapter \<Rightarrow> mqtt_task" where
  "new_mqtt_task mq =
     \<lparr>tk_phase = Mv_connecting, tk_delay = mq_reconnect_initial_delay_s mq, tk_connection = 0, tk_status = False,
      tk_waiting = None, tk_outbox = [], tk_cancelled = False\<rparr>"

definition with_task :: "nat \<Rightarrow> (mqtt_task \<Rightarrow> mqtt_task) \<Rightarrow> mqtt_service \<Rightarrow> mqtt_service" where
  "with_task i f sv = sv\<lparr>mv_tasks := (mv_tasks sv)[i := f (mv_tasks sv ! i)]\<rparr>"

text \<open>A task goes on from where it waits unless it is cancelled.\<close>

definition task_runs :: "nat \<Rightarrow> mqtt_phase \<Rightarrow> mqtt_service \<Rightarrow> bool" where
  "task_runs i phase sv \<longleftrightarrow>
     i < length (mv_tasks sv) \<and> tk_phase (mv_tasks sv ! i) = phase \<and> \<not> tk_cancelled (mv_tasks sv ! i)"

text \<open>It is at its message loop.\<close>

definition at_messages :: "nat \<Rightarrow> mqtt_service \<Rightarrow> bool" where
  "at_messages i sv \<longleftrightarrow>
     task_runs i Mv_serving sv \<and> tk_waiting (mv_tasks sv ! i) = None \<and> tk_outbox (mv_tasks sv ! i) = []"

section \<open>Starting and stopping\<close>

definition mqtt_start :: "mqtt_service \<Rightarrow> mqtt_service" where
  "mqtt_start sv =
     sv\<lparr>mv_tasks := mv_tasks sv @ [new_mqtt_task (mv_adapter sv)], mv_task := Some (length (mv_tasks sv))\<rparr>"

text \<open>\<open>stop\<close> up to its wait.\<close>

definition mqtt_stop :: "mqtt_service \<Rightarrow> mqtt_service" where
  "mqtt_stop sv =
     (case mv_task sv of
        None \<Rightarrow> sv
      | Some i \<Rightarrow> with_task i (\<lambda>t. t\<lparr>tk_cancelled := True\<rparr>) (sv\<lparr>mv_stopping := mv_stopping sv @ [i]\<rparr>))"

text \<open>The end of \<open>stop\<close>, once the task it awaits is over; what the handle holds by then is forgotten.\<close>

definition mqtt_stopped :: "nat \<Rightarrow> mqtt_service \<Rightarrow> mqtt_service" where
  "mqtt_stopped i sv =
     (if i \<in> set (mv_stopping sv) \<and> i < length (mv_tasks sv) \<and> tk_phase (mv_tasks sv ! i) = Mv_over
      then sv\<lparr>mv_stopping := remove1 i (mv_stopping sv), mv_task := None\<rparr> else sv)"

definition end_connection :: "mqtt_phase \<Rightarrow> mqtt_task \<Rightarrow> mqtt_task" where
  "end_connection phase t =
     t\<lparr>tk_phase := phase, tk_connection := Suc (tk_connection t), tk_status := False, tk_waiting := None, tk_outbox := []\<rparr>"

text \<open>The cancellation of an apply: while it waits for the lock, or in its guard.\<close>

definition cancel_ops :: "time \<Rightarrow> mqtt_task \<Rightarrow> device_runtime \<Rightarrow> runtime_op list" where
  "cancel_ops now t rt =
     (case tk_waiting t of
        None \<Rightarrow> []
      | Some (_, a) \<Rightarrow>
          (case cfg_calls (rt_config rt) a of
             Some (Waiting _ _) \<Rightarrow> [Rt_apply_cancel a]
           | Some (Guarding _ _) \<Rightarrow> [Rt_apply_resume (Some Guard_cancelled) a now]
           | None \<Rightarrow> []))"

definition runtime_steps :: "runtime_op list \<Rightarrow> mqtt_service \<Rightarrow> mqtt_service" where
  "runtime_steps ps sv =
     sv\<lparr>mv_adapter := (mv_adapter sv)\<lparr>mq_runtime := fold runtime_perform ps (mq_runtime (mv_adapter sv))\<rparr>\<rparr>"

text \<open>\<open>CancelledError\<close> reaches a cancelled task where it is, and leaves \<open>_run_forever\<close>.\<close>

definition is_cancelled :: "nat \<Rightarrow> mqtt_service \<Rightarrow> bool" where
  "is_cancelled i sv \<longleftrightarrow>
     i < length (mv_tasks sv) \<and> tk_cancelled (mv_tasks sv ! i) \<and> tk_phase (mv_tasks sv ! i) \<noteq> Mv_over"

definition mqtt_cancelled :: "time \<Rightarrow> nat \<Rightarrow> mqtt_service \<Rightarrow> mqtt_service" where
  "mqtt_cancelled now i sv =
     (if is_cancelled i sv
      then with_task i (end_connection Mv_over)
        (runtime_steps (cancel_ops now (mv_tasks sv ! i) (mq_runtime (mv_adapter sv))) sv)
      else sv)"

section \<open>Connecting and serving\<close>

text \<open>An exception leaves \<open>_connect_and_serve\<close>: the status task is cancelled and the sleep begins.\<close>

definition connection_lost :: "nat \<Rightarrow> mqtt_service \<Rightarrow> mqtt_service" where
  "connection_lost i sv = with_task i (end_connection Mv_retrying) sv"

text \<open>The sleep is over.\<close>

definition mqtt_retry :: "nat \<Rightarrow> mqtt_service \<Rightarrow> mqtt_service" where
  "mqtt_retry i sv =
     (if task_runs i Mv_retrying sv
      then with_task i (\<lambda>t. t\<lparr>tk_phase := Mv_connecting,
             tk_delay := next_delay (mq_reconnect_max_delay_s (mv_adapter sv)) (tk_delay t)\<rparr>) sv
      else sv)"

text \<open>
  A handler runs on the adapter as its task sees it, with nothing published yet; what it has published is then what
  the task has to publish.
\<close>

definition seen_by :: "mqtt_task \<Rightarrow> mqtt_adapter \<Rightarrow> mqtt_adapter" where
  "seen_by t mq = mq\<lparr>mq_waiting := tk_waiting t, mq_published := []\<rparr>"

definition handler_ran :: "nat \<Rightarrow> mqtt_adapter \<Rightarrow> mqtt_service \<Rightarrow> mqtt_service" where
  "handler_ran i mq' sv =
     with_task i (\<lambda>t. t\<lparr>tk_waiting := mq_waiting mq', tk_outbox := mq_published mq'\<rparr>)
       (sv\<lparr>mv_adapter := (mv_adapter sv)\<lparr>mq_runtime := mq_runtime mq', mq_subscribed := mq_subscribed mq'\<rparr>\<rparr>)"

text \<open>A connection with its subscriptions succeeds, or raises.\<close>

definition mqtt_connect :: "bool \<Rightarrow> nat \<Rightarrow> mqtt_service \<Rightarrow> mqtt_service" where
  "mqtt_connect ok i sv =
     (if \<not> task_runs i Mv_connecting sv then sv
      else if ok
        then with_task i (\<lambda>t. t\<lparr>tk_phase := Mv_greeting\<rparr>)
          (handler_ran i (mqtt_connected (seen_by (mv_tasks sv ! i) (mv_adapter sv))) sv)
        else connection_lost i sv)"

text \<open>
  The next publication of a task: it is made, a status with the state of that moment, or it raises. After the
  greeting the status task is created.
\<close>

definition as_published :: "mqtt_adapter \<Rightarrow> mqtt_publication \<Rightarrow> mqtt_publication" where
  "as_published mq p =
     (if mp_topic p = topic mq ''config/status'' then p\<lparr>mp_payload := status_payload (mq_runtime mq)\<rparr> else p)"

definition mqtt_publish_next :: "bool \<Rightarrow> nat \<Rightarrow> mqtt_service \<Rightarrow> mqtt_service" where
  "mqtt_publish_next ok i sv =
     (if task_runs i Mv_greeting sv \<or> task_runs i Mv_serving sv
      then case tk_outbox (mv_tasks sv ! i) of
          [] \<Rightarrow> sv
        | p # ps \<Rightarrow>
            if ok
            then with_task i (\<lambda>t. if ps = [] \<and> tk_phase t = Mv_greeting
                   then t\<lparr>tk_outbox := ps, tk_phase := Mv_serving, tk_status := True\<rparr> else t\<lparr>tk_outbox := ps\<rparr>)
              (sv\<lparr>mv_adapter := (mv_adapter sv)\<lparr>mq_published := mq_published (mv_adapter sv) @ [as_published (mv_adapter sv) p]\<rparr>\<rparr>)
            else connection_lost i sv
      else sv)"

definition mqtt_message_in :: "mqtt_env \<Rightarrow> mqtt_message \<Rightarrow> nat \<Rightarrow> mqtt_service \<Rightarrow> mqtt_service" where
  "mqtt_message_in env message i sv =
     (if \<not> at_messages i sv then sv
      else case serve_message env message (seen_by (mv_tasks sv ! i) (mv_adapter sv)) of
          None \<Rightarrow> connection_lost i sv
        | Some mq \<Rightarrow> handler_ran i mq sv)"

text \<open>The message loop itself raises; it is not reached while a handler runs.\<close>

definition mqtt_drop :: "nat \<Rightarrow> mqtt_service \<Rightarrow> mqtt_service" where
  "mqtt_drop i sv = (if at_messages i sv then connection_lost i sv else sv)"

text \<open>
  The apply of a task is the task's own code: it takes the lock or comes back from its guard, and goes on to the
  response when it returns a record.
\<close>

definition apply_turn :: "apply_record option \<times> device_runtime \<Rightarrow> nat \<Rightarrow> mqtt_service \<Rightarrow> mqtt_service" where
  "apply_turn turn i sv =
     (let (ro, rt) = turn; mq = (seen_by (mv_tasks sv ! i) (mv_adapter sv))\<lparr>mq_runtime := rt\<rparr>
      in handler_ran i (case ro of None \<Rightarrow> mq | Some r \<Rightarrow> apply_request_done r mq) sv)"

definition apply_of :: "nat \<Rightarrow> mqtt_service \<Rightarrow> nat option" where
  "apply_of i sv =
     (if task_runs i Mv_serving sv then map_option snd (tk_waiting (mv_tasks sv ! i)) else None)"

definition mqtt_apply_enter :: "time \<Rightarrow> nat \<Rightarrow> mqtt_service \<Rightarrow> mqtt_service" where
  "mqtt_apply_enter now i sv =
     (case apply_of i sv of
        None \<Rightarrow> sv
      | Some a \<Rightarrow> apply_turn (apply_config_enter a now (mq_runtime (mv_adapter sv))) i sv)"

definition mqtt_apply_resume :: "guard_result option \<Rightarrow> time \<Rightarrow> nat \<Rightarrow> mqtt_service \<Rightarrow> mqtt_service" where
  "mqtt_apply_resume g now i sv =
     (case apply_of i sv of
        None \<Rightarrow> sv
      | Some a \<Rightarrow> apply_turn (apply_config_resume g a now (mq_runtime (mv_adapter sv))) i sv)"

text \<open>A status task wakes up; an exception ends the task, and nobody awaits it.\<close>

definition status_due :: "bool \<Rightarrow> nat \<Rightarrow> mqtt_service \<Rightarrow> mqtt_service" where
  "status_due ok i sv =
     (if i < length (mv_tasks sv) \<and> tk_status (mv_tasks sv ! i)
      then if ok then sv\<lparr>mv_adapter := publish_status (mv_adapter sv)\<rparr>
        else with_task i (\<lambda>t. t\<lparr>tk_status := False\<rparr>) sv
      else sv)"

section \<open>Runs\<close>

text \<open>A request that a task has taken up on one of its connections.\<close>

record mqtt_request =
  mr_task :: nat
  mr_connection :: nat
  mr_apply :: bool
  mr_id :: pyval

definition taken_up :: "mqtt_env \<Rightarrow> mqtt_message \<Rightarrow> nat \<Rightarrow> mqtt_service \<Rightarrow> mqtt_request list" where
  "taken_up env message i sv =
     (case me_loads env (mm_payload message) of
        Some (PDict payload) \<Rightarrow>
          if is_request env message (mv_adapter sv)
          then [\<lparr>mr_task = i, mr_connection = tk_connection (mv_tasks sv ! i),
                 mr_apply = (mm_topic message = topic (mv_adapter sv) ''config/apply/request''),
                 mr_id = get_or_none payload ''request_id''\<rparr>]
          else []
      | _ \<Rightarrow> [])"

text \<open>
  \<open>ops\<close> are the Runtime's operations in their order and \<open>reqs\<close> the requests taken up. In between the Runtime does what
  it does for others. A new call of apply has a number that no pending call has, and only cancellation cancels a guard.
\<close>

inductive service_run :: "mqtt_service \<Rightarrow> runtime_op list \<Rightarrow> mqtt_request list \<Rightarrow> mqtt_service \<Rightarrow> bool" for sv0 where
  service_new: "service_run sv0 [] [] sv0"
| service_start: "service_run sv0 ops reqs sv \<Longrightarrow> service_run sv0 ops reqs (mqtt_start sv)"
| service_stop: "service_run sv0 ops reqs sv \<Longrightarrow> service_run sv0 ops reqs (mqtt_stop sv)"
| service_stopped: "service_run sv0 ops reqs sv \<Longrightarrow> service_run sv0 ops reqs (mqtt_stopped i sv)"
| service_cancelled: "service_run sv0 ops reqs sv \<Longrightarrow> is_cancelled i sv \<Longrightarrow>
    service_run sv0 (ops @ cancel_ops now (mv_tasks sv ! i) (mq_runtime (mv_adapter sv))) reqs (mqtt_cancelled now i sv)"
| service_connect: "service_run sv0 ops reqs sv \<Longrightarrow> service_run sv0 ops reqs (mqtt_connect ok i sv)"
| service_retry: "service_run sv0 ops reqs sv \<Longrightarrow> service_run sv0 ops reqs (mqtt_retry i sv)"
| service_drop: "service_run sv0 ops reqs sv \<Longrightarrow> service_run sv0 ops reqs (mqtt_drop i sv)"
| service_publish: "service_run sv0 ops reqs sv \<Longrightarrow> service_run sv0 ops reqs (mqtt_publish_next ok i sv)"
| service_status: "service_run sv0 ops reqs sv \<Longrightarrow> service_run sv0 ops reqs (status_due ok i sv)"
| service_message: "service_run sv0 ops reqs sv \<Longrightarrow> at_messages i sv \<Longrightarrow>
    cfg_calls (rt_config (mq_runtime (mv_adapter sv))) (me_call env) = None \<Longrightarrow>
    service_run sv0 (ops @ message_ops env message (mv_adapter sv)) (reqs @ taken_up env message i sv)
      (mqtt_message_in env message i sv)"
| service_enter: "service_run sv0 ops reqs sv \<Longrightarrow> apply_of i sv = Some a \<Longrightarrow>
    service_run sv0 (ops @ [Rt_apply_enter a now]) reqs (mqtt_apply_enter now i sv)"
| service_resume: "service_run sv0 ops reqs sv \<Longrightarrow> apply_of i sv = Some a \<Longrightarrow> g \<noteq> Some Guard_cancelled \<Longrightarrow>
    service_run sv0 (ops @ [Rt_apply_resume g a now]) reqs (mqtt_apply_resume g now i sv)"
| service_runtime: "service_run sv0 ops reqs sv \<Longrightarrow> service_run sv0 (ops @ [p]) reqs (runtime_steps [p] sv)"

section \<open>Requests and their answers\<close>

text \<open>With the topics of an adapter given as a function of their suffix.\<close>

definition is_answer :: "(string \<Rightarrow> string) \<Rightarrow> mqtt_publication \<Rightarrow> bool" where
  "is_answer tp p \<longleftrightarrow> mp_topic p \<in> {tp ''config/stage/response'', tp ''config/apply/response''}"

text \<open>The answer to a request: on the response topic of its kind, not retained, with its \<open>request_id\<close>.\<close>

definition answers_request :: "(string \<Rightarrow> string) \<Rightarrow> mqtt_request \<Rightarrow> mqtt_publication \<Rightarrow> bool" where
  "answers_request tp r p \<longleftrightarrow>
     mp_topic p = tp (if mr_apply r then ''config/apply/response'' else ''config/stage/response'') \<and> \<not> mp_retain p \<and>
     (\<exists>rest. mp_payload p = PDict ((''request_id'', mr_id r) # rest))"

text \<open>A task that is about to answer a request: it waits for its apply, or has its answer to publish.\<close>

definition responding :: "(string \<Rightarrow> string) \<Rightarrow> mqtt_task \<Rightarrow> mqtt_request \<Rightarrow> bool" where
  "responding tp t r \<longleftrightarrow>
     tk_phase t = Mv_serving \<and>
     (case tk_waiting t of
        Some (rid, a) \<Rightarrow> mr_apply r \<and> rid = mr_id r \<and> tk_outbox t = []
      | None \<Rightarrow> \<exists>p. filter (is_answer tp) (tk_outbox t) = [p] \<and> answers_request tp r p)"

definition in_progress :: "(string \<Rightarrow> string) \<Rightarrow> mqtt_service \<Rightarrow> mqtt_request \<Rightarrow> bool" where
  "in_progress tp sv r \<longleftrightarrow>
     mr_task r < length (mv_tasks sv) \<and> mr_connection r = tk_connection (mv_tasks sv ! mr_task r) \<and>
     responding tp (mv_tasks sv ! mr_task r) r"

definition connection_over :: "mqtt_service \<Rightarrow> mqtt_request \<Rightarrow> bool" where
  "connection_over sv r \<longleftrightarrow>
     mr_task r < length (mv_tasks sv) \<and> mr_connection r < tk_connection (mv_tasks sv ! mr_task r)"

definition unanswered :: "mqtt_request list \<Rightarrow> nat list \<Rightarrow> nat \<Rightarrow> bool" where
  "unanswered reqs order k \<longleftrightarrow> k < length reqs \<and> k \<notin> set order"

definition same_connection :: "mqtt_request \<Rightarrow> mqtt_request \<Rightarrow> bool" where
  "same_connection r r' \<longleftrightarrow> mr_task r = mr_task r' \<and> mr_connection r = mr_connection r'"

text \<open>
  The books: \<open>order\<close> are the requests in the order of their answers. Of a task, at most one request of its present
  connection is unanswered, the one it is about to answer (\<open>c\<close>).
\<close>

definition retained_topics :: "(string \<Rightarrow> string) \<Rightarrow> mqtt_publication list \<Rightarrow> bool" where
  "retained_topics tp ps \<longleftrightarrow> (\<forall>p \<in> set ps. mp_retain p \<longrightarrow> mp_topic p \<in> {tp ''info'', tp ''config/status''})"

definition current_request ::
    "(string \<Rightarrow> string) \<Rightarrow> mqtt_request list \<Rightarrow> nat list \<Rightarrow> nat \<Rightarrow> mqtt_task \<Rightarrow> nat option \<Rightarrow> bool" where
  "current_request tp reqs order i t c \<longleftrightarrow>
     (case c of
        None \<Rightarrow> tk_waiting t = None \<and> filter (is_answer tp) (tk_outbox t) = []
      | Some k \<Rightarrow> unanswered reqs order k \<and> mr_task (reqs ! k) = i \<and> mr_connection (reqs ! k) = tk_connection t \<and>
          responding tp t (reqs ! k)) \<and>
     (\<forall>k. unanswered reqs order k \<and> mr_task (reqs ! k) = i \<and> tk_connection t \<le> mr_connection (reqs ! k) \<longrightarrow> c = Some k) \<and>
     retained_topics tp (tk_outbox t)"

definition answered_in :: "(string \<Rightarrow> string) \<Rightarrow> mqtt_request list \<Rightarrow> nat list \<Rightarrow> mqtt_publication list \<Rightarrow> bool" where
  "answered_in tp reqs order ps \<longleftrightarrow>
     distinct order \<and> set order \<subseteq> {..<length reqs} \<and>
     list_all2 (answers_request tp) (map ((!) reqs) order) (filter (is_answer tp) ps)"

definition one_per_connection :: "mqtt_request list \<Rightarrow> nat list \<Rightarrow> bool" where
  "one_per_connection reqs order \<longleftrightarrow>
     (\<forall>k k'. unanswered reqs order k \<and> unanswered reqs order k' \<and> same_connection (reqs ! k) (reqs ! k') \<longrightarrow> k = k')"

definition books :: "(string \<Rightarrow> string) \<Rightarrow> mqtt_request list \<Rightarrow> nat list \<Rightarrow> mqtt_service \<Rightarrow> bool" where
  "books tp reqs order sv \<longleftrightarrow>
     topic (mv_adapter sv) = tp \<and> answered_in tp reqs order (mq_published (mv_adapter sv)) \<and>
     one_per_connection reqs order \<and> retained_topics tp (mq_published (mv_adapter sv)) \<and>
     (\<forall>r \<in> set reqs. mr_task r < length (mv_tasks sv)) \<and>
     (\<forall>i < length (mv_tasks sv). \<exists>c. current_request tp reqs order i (mv_tasks sv ! i) c)"

section \<open>Steps that keep the books\<close>

text \<open>A step of one task that publishes no answer and takes up no request.\<close>

lemma books_task:
  assumes "books tp reqs order sv" and "i < length (mv_tasks sv)"
    and "mv_tasks sv' = (mv_tasks sv)[i := t']"
    and "topic (mv_adapter sv') = topic (mv_adapter sv)"
    and "filter (is_answer tp) (mq_published (mv_adapter sv')) = filter (is_answer tp) (mq_published (mv_adapter sv))"
    and "retained_topics tp (mq_published (mv_adapter sv'))"
    and "\<And>c. current_request tp reqs order i (mv_tasks sv ! i) c \<Longrightarrow> \<exists>c. current_request tp reqs order i t' c"
  shows "books tp reqs order sv'"
proof -
  have "\<exists>c. current_request tp reqs order j (mv_tasks sv' ! j) c" if "j < length (mv_tasks sv')" for j
    using that assms(1,2,3,7) by (cases "j = i") (auto simp: books_def)
  with assms(1-6) show ?thesis by (auto simp: books_def answered_in_def)
qed

text \<open>The end of a connection leaves no current request.\<close>

lemma current_ended:
  assumes cur: "current_request tp reqs order i t c"
  shows "current_request tp reqs order i (end_connection phase t) None"
proof -
  have "\<not> (unanswered reqs order k \<and> mr_task (reqs ! k) = i \<and> Suc (tk_connection t) \<le> mr_connection (reqs ! k))" for k
  proof
    assume u: "unanswered reqs order k \<and> mr_task (reqs ! k) = i \<and> Suc (tk_connection t) \<le> mr_connection (reqs ! k)"
    then have "c = Some k" using cur unfolding current_request_def by (blast dest: Suc_leD)
    with cur have "mr_connection (reqs ! k) = tk_connection t" by (simp add: current_request_def)
    with u show False by simp
  qed
  then show ?thesis by (simp add: current_request_def end_connection_def retained_topics_def)
qed

lemma current_idle:
  assumes "current_request tp reqs order i t c" and "tk_waiting t = None" and "filter (is_answer tp) (tk_outbox t) = []"
  shows "c = None"
  using assms by (cases c) (auto simp: current_request_def responding_def)

lemma current_other_phase: "current_request tp reqs order i t c \<Longrightarrow> tk_phase t \<noteq> Mv_serving \<Longrightarrow> c = None"
  by (cases c) (auto simp: current_request_def responding_def)

lemma current_same:
  assumes "current_request tp reqs order i t c"
    and "tk_waiting t' = tk_waiting t" and "tk_outbox t' = tk_outbox t" and "tk_connection t' = tk_connection t"
    and "tk_phase t' = tk_phase t \<or> tk_phase t \<noteq> Mv_serving"
  shows "current_request tp reqs order i t' c"
  using assms(1) current_other_phase [OF assms(1)] assms(2-5)
  by (auto simp: current_request_def responding_def split: option.split)

lemma books_lost: "books tp reqs order sv \<Longrightarrow> i < length (mv_tasks sv) \<Longrightarrow> books tp reqs order (connection_lost i sv)"
  by (rule books_task [where i = i and t' = "end_connection Mv_retrying (mv_tasks sv ! i)"])
    (auto simp: connection_lost_def with_task_def books_def intro: current_ended)

lemma books_start:
  assumes "books tp reqs order sv"
  shows "books tp reqs order (mqtt_start sv)"
proof -
  have "mr_task (reqs ! k) < length (mv_tasks sv)" if "unanswered reqs order k" for k
    using assms that by (simp add: books_def unanswered_def)
  then have "\<not> (unanswered reqs order k \<and> mr_task (reqs ! k) = length (mv_tasks sv))" for k
    by (metis less_irrefl)
  then have "current_request tp reqs order (length (mv_tasks sv)) (new_mqtt_task mq) None" for mq
    by (simp add: current_request_def new_mqtt_task_def retained_topics_def)
  then show ?thesis using assms by (auto simp: books_def mqtt_start_def nth_append less_Suc_eq)
qed

lemma books_frame:
  "books tp reqs order sv \<Longrightarrow> mv_tasks sv' = mv_tasks sv \<Longrightarrow> topic (mv_adapter sv') = topic (mv_adapter sv) \<Longrightarrow>
   mq_published (mv_adapter sv') = mq_published (mv_adapter sv) \<Longrightarrow> books tp reqs order sv'"
  by (simp add: books_def)

lemma with_task_out: "\<not> i < length (mv_tasks sv) \<Longrightarrow> with_task i f sv = sv"
  by (cases sv) (simp add: with_task_def list_update_beyond)

lemma books_same:
  assumes "books tp reqs order sv"
    and "\<And>t. tk_waiting (f t) = tk_waiting t \<and> tk_outbox (f t) = tk_outbox t \<and> tk_connection (f t) = tk_connection t"
    and "\<And>t. tk_phase (f t) = tk_phase t \<or> i < length (mv_tasks sv) \<and> tk_phase (mv_tasks sv ! i) \<noteq> Mv_serving"
  shows "books tp reqs order (with_task i f sv)"
proof (cases "i < length (mv_tasks sv)")
  case True
  show ?thesis
    by (rule books_task [OF assms(1) True, where t' = "f (mv_tasks sv ! i)"])
      (use assms in \<open>auto simp: with_task_def books_def intro: current_same\<close>)
qed (use assms(1) in \<open>simp add: with_task_out\<close>)

lemma books_stop: "books tp reqs order sv \<Longrightarrow> books tp reqs order (mqtt_stop sv)"
  by (auto simp: mqtt_stop_def split: option.split intro!: books_same intro: books_frame)

lemma books_stopped: "books tp reqs order sv \<Longrightarrow> books tp reqs order (mqtt_stopped i sv)"
  by (auto simp: mqtt_stopped_def intro: books_frame)

lemma books_runtime: "books tp reqs order sv \<Longrightarrow> books tp reqs order (runtime_steps ps sv)"
  by (rule books_frame) (auto simp: runtime_steps_def topic_def fun_eq_iff)

lemma books_cancelled:
  assumes "books tp reqs order sv"
  shows "books tp reqs order (mqtt_cancelled now i sv)"
proof (cases "is_cancelled i sv")
  case True
  let ?sv = "runtime_steps (cancel_ops now (mv_tasks sv ! i) (mq_runtime (mv_adapter sv))) sv"
  have "books tp reqs order (with_task i (end_connection Mv_over) ?sv)"
    by (rule books_task [OF books_runtime [OF assms], where i = i and t' = "end_connection Mv_over (mv_tasks ?sv ! i)"])
      (use True books_runtime [OF assms] in \<open>auto simp: is_cancelled_def runtime_steps_def with_task_def books_def intro: current_ended\<close>)
  with True show ?thesis by (simp add: mqtt_cancelled_def)
qed (use assms in \<open>simp add: mqtt_cancelled_def\<close>)

lemma books_retry: "books tp reqs order sv \<Longrightarrow> books tp reqs order (mqtt_retry i sv)"
  by (auto simp: mqtt_retry_def task_runs_def intro!: books_same)

lemma books_drop: "books tp reqs order sv \<Longrightarrow> books tp reqs order (mqtt_drop i sv)"
  by (simp add: mqtt_drop_def at_messages_def task_runs_def books_lost)

lemma topics_differ:
  "topic mq ''config/status'' \<noteq> topic mq ''config/stage/response''" "topic mq ''config/status'' \<noteq> topic mq ''config/apply/response''"
  "topic mq ''info'' \<noteq> topic mq ''config/stage/response''" "topic mq ''info'' \<noteq> topic mq ''config/apply/response''"
  by (simp_all add: topic_def)

lemma books_status:
  assumes "books tp reqs order sv"
  shows "books tp reqs order (status_due ok i sv)"
proof -
  have "books tp reqs order (sv\<lparr>mv_adapter := publish_status (mv_adapter sv)\<rparr>)"
    using assms topics_differ [of "mv_adapter sv"]
    by (auto simp: books_def publish_status_def mqtt_publish_def answered_in_def is_answer_def retained_topics_def topic_def
        fun_eq_iff)
  then show ?thesis using assms by (auto simp: status_due_def intro!: books_same)
qed

text \<open>A handler's step on a task: what it leaves to wait for and to publish is as it was, or the task had no request.\<close>

lemma topic_seen [simp]: "topic (seen_by t mq) = topic mq" "topic (mq\<lparr>mq_runtime := rt, mq_subscribed := subs\<rparr>) = topic mq"
  by (simp_all add: seen_by_def topic_def fun_eq_iff)

lemma handler_ran_tasks:
  "mv_tasks (handler_ran i mq' sv) =
     (mv_tasks sv)[i := (mv_tasks sv ! i)\<lparr>tk_waiting := mq_waiting mq', tk_outbox := mq_published mq'\<rparr>]"
  "topic (mv_adapter (handler_ran i mq' sv)) = topic (mv_adapter sv)"
  "mq_published (mv_adapter (handler_ran i mq' sv)) = mq_published (mv_adapter sv)"
  "mq_runtime (mv_adapter (handler_ran i mq' sv)) = mq_runtime mq'"
  by (simp_all add: handler_ran_def with_task_def)

lemma books_connect:
  assumes "books tp reqs order sv"
  shows "books tp reqs order (mqtt_connect ok i sv)"
proof (cases "task_runs i Mv_connecting sv \<and> ok")
  case True
  let ?t = "mv_tasks sv ! i" and ?mq = "mqtt_connected (seen_by (mv_tasks sv ! i) (mv_adapter sv))"
  let ?t' = "?t\<lparr>tk_waiting := mq_waiting ?mq, tk_outbox := mq_published ?mq, tk_phase := Mv_greeting\<rparr>"
  have i: "i < length (mv_tasks sv)" "tk_phase ?t = Mv_connecting" using True by (simp_all add: task_runs_def)
  have "current_request tp reqs order i ?t' None" if "current_request tp reqs order i ?t c" for c
  proof -
    have "c = None" using current_other_phase [OF that] i(2) by simp
    with that assms topics_differ [of "mv_adapter sv"] show ?thesis
      by (auto simp: current_request_def mqtt_connected_def publish_info_def publish_status_def mqtt_publish_def seen_by_def
          books_def is_answer_def retained_topics_def topic_def)
  qed
  then have "books tp reqs order (with_task i (\<lambda>t. t\<lparr>tk_phase := Mv_greeting\<rparr>) (handler_ran i ?mq sv))"
    using assms i
    by (intro books_task [OF assms i(1), where t' = ?t']) (auto simp: with_task_def handler_ran_tasks books_def)
  with True show ?thesis by (simp add: mqtt_connect_def)
qed (use assms in \<open>auto simp: mqtt_connect_def task_runs_def books_lost\<close>)

text \<open>A handler that answers, or begins an apply, is about to answer; what it publishes is as it should be.\<close>

definition handled :: "(string \<Rightarrow> string) \<Rightarrow> mqtt_adapter \<Rightarrow> bool \<Rightarrow> pyval \<Rightarrow> bool" where
  "handled tp mq apply_it rid \<longleftrightarrow>
     retained_topics tp (mq_published mq) \<and>
     (case mq_waiting mq of
        Some (rid', a) \<Rightarrow> apply_it \<and> rid' = rid \<and> mq_published mq = []
      | None \<Rightarrow> \<exists>p. filter (is_answer tp) (mq_published mq) = [p] \<and>
          (\<forall>r. mr_apply r = apply_it \<and> mr_id r = rid \<longrightarrow> answers_request tp r p))"

lemma handled_response:
  assumes "topic mq = tp" and "mq_published mq = []" and "mq_waiting mq = None"
  shows "handled tp (apply_response rid extra mq) True rid"
    and "handled tp (mqtt_publish ''config/stage/response'' (PDict ((''request_id'', rid) # extra)) False mq) False rid"
  using assms topics_differ [of mq]
  by (auto simp: handled_def apply_response_def publish_status_def mqtt_publish_def retained_topics_def is_answer_def
      answers_request_def topic_def)

lemma handled_stage:
  assumes "topic mq = tp" and "mq_published mq = []" and "mq_waiting mq = None"
  shows "handled tp (handle_stage_request env payload mq) False (get_or_none payload ''request_id'')"
  using assms by (auto simp: handle_stage_request_def Let_def split_beta intro!: handled_response(2) split: sum.split pyval.split)

lemma handled_apply:
  assumes "topic mq = tp" and "mq_published mq = []" and "mq_waiting mq = None"
  shows "handled tp (handle_apply_request env payload mq) True (get_or_none payload ''request_id'')"
proof -
  have "handled tp (mq\<lparr>mq_runtime := rt, mq_waiting := Some (rid, a)\<rparr>) True rid" for rt rid a
    using assms by (simp add: handled_def retained_topics_def)
  then show ?thesis
    using assms by (auto simp: handle_apply_request_def Let_def intro!: handled_response(1) split: sum.split pyval.split)
qed

lemma responding_handled:
  assumes "handled tp mq (mr_apply r) (mr_id r)" and "tk_phase t = Mv_serving"
  shows "responding tp (t\<lparr>tk_waiting := mq_waiting mq, tk_outbox := mq_published mq\<rparr>) r"
  using assms by (auto simp: handled_def responding_def split: option.splits)

section \<open>An answer is published\<close>

lemma current_other_answer:
  assumes "current_request tp reqs order j t c" and "mr_task (reqs ! k) \<noteq> j"
  shows "current_request tp reqs (order @ [k]) j t c"
  using assms by (auto simp: current_request_def unanswered_def split: option.splits)

lemma current_answered:
  assumes cur: "current_request tp reqs order i t (Some k)"
    and "tk_waiting t' = None" and "filter (is_answer tp) (tk_outbox t') = []" and "tk_connection t' = tk_connection t"
    and "retained_topics tp (tk_outbox t')"
  shows "current_request tp reqs (order @ [k]) i t' None"
  using assms by (auto simp: current_request_def unanswered_def)

lemma books_answered:
  assumes books: "books tp reqs order sv" and i: "i < length (mv_tasks sv)"
    and cur: "current_request tp reqs order i (mv_tasks sv ! i) (Some k)" and p: "is_answer tp p" "answers_request tp (reqs ! k) p"
    and t': "tk_waiting t' = None" "filter (is_answer tp) (tk_outbox t') = []" "tk_connection t' = tk_connection (mv_tasks sv ! i)"
      "retained_topics tp (tk_outbox t')"
    and sv': "mv_tasks sv' = (mv_tasks sv)[i := t']" "topic (mv_adapter sv') = topic (mv_adapter sv)"
      "mq_published (mv_adapter sv') = mq_published (mv_adapter sv) @ [p]"
  shows "books tp reqs (order @ [k]) sv'"
proof -
  have k: "k < length reqs" "k \<notin> set order" "mr_task (reqs ! k) = i" using cur by (simp_all add: current_request_def unanswered_def)
  have "\<exists>c. current_request tp reqs (order @ [k]) j (mv_tasks sv' ! j) c" if j: "j < length (mv_tasks sv')" for j
  proof (cases "j = i")
    case True
    with current_answered [OF cur t'] i sv'(1) show ?thesis by auto
  next
    case False
    with books j sv'(1) obtain c where "current_request tp reqs order j (mv_tasks sv' ! j) c" by (auto simp: books_def)
    moreover have "mr_task (reqs ! k) \<noteq> j" using k(3) False by simp
    ultimately show ?thesis using current_other_answer by blast
  qed
  moreover have "answered_in tp reqs (order @ [k]) (mq_published (mv_adapter sv'))"
    using books p k sv'(3) by (auto simp: books_def answered_in_def intro: list_all2_appendI)
  moreover have "one_per_connection reqs (order @ [k])"
    using books by (auto simp: books_def one_per_connection_def unanswered_def)
  moreover have "\<not> mp_retain p" using p(2) by (simp add: answers_request_def)
  ultimately show ?thesis using books sv' by (auto simp: books_def retained_topics_def)
qed

lemma as_published_answer: "tp = topic mq \<Longrightarrow> is_answer tp (as_published mq p) = is_answer tp p"
  "tp = topic mq \<Longrightarrow> is_answer tp p \<Longrightarrow> as_published mq p = p" "mp_retain (as_published mq p) = mp_retain p"
  "mp_topic (as_published mq p) = mp_topic p"
  using topics_differ [of mq] by (auto simp: as_published_def is_answer_def)

lemma books_publish:
  assumes books: "books tp reqs order sv"
  shows "\<exists>order. books tp reqs order (mqtt_publish_next ok i sv)"
proof (cases "(task_runs i Mv_greeting sv \<or> task_runs i Mv_serving sv) \<and> tk_outbox (mv_tasks sv ! i) \<noteq> []")
  case True
  let ?t = "mv_tasks sv ! i" and ?mq = "mv_adapter sv"
  obtain p ps where out: "tk_outbox ?t = p # ps" using True by (auto simp: neq_Nil_conv)
  have i: "i < length (mv_tasks sv)" and tp: "topic ?mq = tp" using True books by (auto simp: task_runs_def books_def)
  then obtain c where c: "current_request tp reqs order i ?t c" using books by (auto simp: books_def)
  define t' where "t' = (if ps = [] \<and> tk_phase ?t = Mv_greeting
    then ?t\<lparr>tk_outbox := ps, tk_phase := Mv_serving, tk_status := True\<rparr> else ?t\<lparr>tk_outbox := ps\<rparr>)"
  define sv' where "sv' = sv\<lparr>mv_adapter := ?mq\<lparr>mq_published := mq_published ?mq @ [as_published ?mq p]\<rparr>,
    mv_tasks := (mv_tasks sv)[i := t']\<rparr>"
  have sv': "mv_tasks sv' = (mv_tasks sv)[i := t']" "topic (mv_adapter sv') = topic ?mq"
    "mq_published (mv_adapter sv') = mq_published ?mq @ [as_published ?mq p]"
    by (simp_all add: sv'_def topic_def fun_eq_iff)
  have went: "mqtt_publish_next ok i sv = (if ok then sv' else connection_lost i sv)"
    using True out by (simp add: mqtt_publish_next_def sv'_def t'_def with_task_def)
  have outbox: "tk_outbox t' = ps" "tk_connection t' = tk_connection ?t" "tk_waiting t' = tk_waiting ?t" by (simp_all add: t'_def)
  have kept: "retained_topics tp (p # ps)" using c out by (simp add: current_request_def)
  have "\<exists>order. books tp reqs order sv'"
  proof (cases "is_answer tp p")
    case answer: True
    then have "filter (is_answer tp) (tk_outbox ?t) \<noteq> []" by (simp add: out)
    with c obtain k where k: "c = Some k" by (cases c) (auto simp: current_request_def)
    with c answer out have "tk_waiting ?t = None" "answers_request tp (reqs ! k) p" "filter (is_answer tp) ps = []"
      by (auto simp: current_request_def responding_def split: option.splits)
    with books_answered [OF books i c [unfolded k], of p t' sv'] answer sv' kept outbox as_published_answer(2) [of tp ?mq p] tp
    show ?thesis by (auto simp: retained_topics_def)
  next
    case False
    have "\<exists>c'. current_request tp reqs order i t' c'" if c': "current_request tp reqs order i ?t c'" for c'
    proof -
      have "tk_phase t' = tk_phase ?t \<or> c' = None" using current_other_phase [OF c'] by (auto simp: t'_def)
      then have "current_request tp reqs order i t' c'"
        using c' outbox False out kept
        by (auto simp: current_request_def responding_def retained_topics_def split: option.splits)
      then show ?thesis by blast
    qed
    then have "books tp reqs order sv'"
      using books kept False as_published_answer(1) [of tp ?mq p] as_published_answer(3,4) [of ?mq p] tp sv'
      by (intro books_task [OF books i sv'(1)]) (auto simp: books_def retained_topics_def)
    then show ?thesis by blast
  qed
  with books_lost [OF books i] went show ?thesis by auto
next
  case False
  then have "mqtt_publish_next ok i sv = sv" by (auto simp: mqtt_publish_next_def)
  with books show ?thesis by auto
qed

section \<open>A request is taken up\<close>

lemma current_new_request:
  assumes "current_request tp reqs order j t c" and "mr_task r \<noteq> j"
  shows "current_request tp (reqs @ [r]) order j t c"
  using assms by (auto simp: current_request_def unanswered_def nth_append less_Suc_eq split: option.splits)

lemma books_taken:
  assumes books: "books tp reqs order sv" and i: "i < length (mv_tasks sv)" and r: "mr_task r = i" "mr_connection r = tk_connection (mv_tasks sv ! i)"
    and idle: "tk_waiting (mv_tasks sv ! i) = None" "tk_outbox (mv_tasks sv ! i) = []"
    and t': "responding tp t' r" "tk_connection t' = tk_connection (mv_tasks sv ! i)" "retained_topics tp (tk_outbox t')"
    and sv': "mv_tasks sv' = (mv_tasks sv)[i := t']" "topic (mv_adapter sv') = topic (mv_adapter sv)"
      "mq_published (mv_adapter sv') = mq_published (mv_adapter sv)"
  shows "books tp (reqs @ [r]) order sv'"
proof -
  let ?n = "length reqs"
  obtain c where c: "current_request tp reqs order i (mv_tasks sv ! i) c" using books i by (auto simp: books_def)
  with current_idle [OF c idle(1)] idle(2) have "c = None" by simp
  with c have none: "\<not> (unanswered reqs order k \<and> mr_task (reqs ! k) = i \<and> tk_connection (mv_tasks sv ! i) \<le> mr_connection (reqs ! k))" for k
    unfolding current_request_def by blast
  have old: "k < ?n" if "k \<in> set order" for k using books that by (auto simp: books_def answered_in_def)
  have un: "unanswered (reqs @ [r]) order k \<longleftrightarrow> unanswered reqs order k \<or> k = ?n" for k
    using old by (auto simp: unanswered_def less_Suc_eq)
  have at: "(reqs @ [r]) ! k = reqs ! k" if "unanswered reqs order k" for k
    using that by (simp add: unanswered_def nth_append)
  have "current_request tp (reqs @ [r]) order i t' (Some ?n)"
    using none t' r un at by (auto simp: current_request_def)
  then have now: "\<exists>c. current_request tp (reqs @ [r]) order j (mv_tasks sv' ! j) c" if "j < length (mv_tasks sv')" for j
  proof (cases "j = i")
    case False
    with that books sv'(1) obtain c where "current_request tp reqs order j (mv_tasks sv' ! j) c" by (auto simp: books_def)
    moreover have "mr_task r \<noteq> j" using r(1) False by simp
    ultimately show ?thesis using current_new_request by blast
  qed (use i sv'(1) in auto)
  moreover have at_all: "map ((!) (reqs @ [r])) order = map ((!) reqs) order" using old by (auto simp: nth_append)
  have "answered_in tp (reqs @ [r]) order (mq_published (mv_adapter sv'))"
    using books sv'(3) unfolding answered_in_def at_all by (auto simp: books_def answered_in_def)
  moreover have "one_per_connection (reqs @ [r]) order"
    unfolding one_per_connection_def
  proof (intro allI impI)
    fix k k' assume kk: "unanswered (reqs @ [r]) order k \<and> unanswered (reqs @ [r]) order k' \<and> same_connection ((reqs @ [r]) ! k) ((reqs @ [r]) ! k')"
    have "\<not> same_connection (reqs ! k) r \<and> \<not> same_connection r (reqs ! k)" if "unanswered reqs order k" for k
      using none [of k] that r by (auto simp: same_connection_def)
    with kk un at books show "k = k'" by (auto simp: books_def one_per_connection_def)
  qed
  ultimately show ?thesis using books sv' r(1) i by (auto simp: books_def)
qed

lemma serve_handled:
  assumes "serve_message env message mq = Some mq'" and "topic mq = tp" and "mq_published mq = []" and "mq_waiting mq = None"
  shows "if is_request env message mq
     then \<exists>payload. me_loads env (mm_payload message) = Some (PDict payload) \<and>
       handled tp mq' (mm_topic message = tp ''config/apply/request'') (get_or_none payload ''request_id'')
     else mq' = mq"
proof -
  have "topic mq ''config/stage/request'' \<noteq> topic mq ''config/apply/request''" by (simp add: topic_def)
  then show ?thesis
    using assms handled_stage [OF assms(2-4), of env] handled_apply [OF assms(2-4), of env]
    by (auto simp: serve_message_def handle_mqtt_message_def is_request_def split: if_splits option.splits pyval.splits)
qed

lemma is_request_cong: "topic mq = topic mq' \<Longrightarrow> is_request env message mq = is_request env message mq'"
  by (simp add: is_request_def)

lemma message_ops_cong: "topic mq = topic mq' \<Longrightarrow> message_ops env message mq = message_ops env message mq'"
  by (simp add: message_ops_def split: option.split pyval.split)

lemma books_message:
  assumes books: "books tp reqs order sv" and at: "at_messages i sv"
  shows "books tp (reqs @ taken_up env message i sv) order (mqtt_message_in env message i sv) \<and>
    mq_runtime (mv_adapter (mqtt_message_in env message i sv)) =
      fold runtime_perform (message_ops env message (mv_adapter sv)) (mq_runtime (mv_adapter sv))"
proof -
  let ?t = "mv_tasks sv ! i" and ?mq = "mv_adapter sv"
  let ?seen = "seen_by ?t ?mq"
  have i: "i < length (mv_tasks sv)" "tk_phase ?t = Mv_serving" and idle: "tk_waiting ?t = None" "tk_outbox ?t = []"
    using at by (simp_all add: at_messages_def task_runs_def)
  have seen: "topic ?seen = tp" "mq_published ?seen = []" "mq_waiting ?seen = None" "mq_runtime ?seen = mq_runtime ?mq"
    using books idle by (simp_all add: books_def) (simp_all add: seen_by_def)
  have ops: "message_ops env message ?seen = message_ops env message ?mq" by (rule message_ops_cong) simp
  have req: "is_request env message ?seen = is_request env message ?mq" by (rule is_request_cong) simp
  show ?thesis
  proof (cases "serve_message env message ?seen")
    case None
    then have "message_ops env message ?seen = []" and "\<not> is_request env message ?seen"
      by (auto simp: serve_message_def handle_mqtt_message_def message_ops_def is_request_def
          split: if_splits option.splits pyval.splits)
    with None at books_lost [OF books i(1)] ops req show ?thesis
      by (auto simp: mqtt_message_in_def taken_up_def connection_lost_def with_task_def split: option.split pyval.split)
  next
    case (Some mq')
    have rt: "mq_runtime mq' = fold runtime_perform (message_ops env message ?mq) (mq_runtime ?mq)"
      using serve_message_ok [OF Some seen(3)] ops seen(4) by simp
    let ?t' = "?t\<lparr>tk_waiting := mq_waiting mq', tk_outbox := mq_published mq'\<rparr>"
    have went: "mqtt_message_in env message i sv = handler_ran i mq' sv" using Some at by (simp add: mqtt_message_in_def)
    note served = serve_handled [OF Some seen(1-3)]
    have "books tp (reqs @ taken_up env message i sv) order (handler_ran i mq' sv)"
    proof (cases "is_request env message ?mq")
      case True
      with served req obtain payload where payload: "me_loads env (mm_payload message) = Some (PDict payload)"
        and handled: "handled tp mq' (mm_topic message = tp ''config/apply/request'') (get_or_none payload ''request_id'')" by auto
      let ?r = "\<lparr>mr_task = i, mr_connection = tk_connection ?t, mr_apply = (mm_topic message = topic ?mq ''config/apply/request''),
        mr_id = get_or_none payload ''request_id''\<rparr>"
      have taken: "taken_up env message i sv = [?r]" using True payload by (simp add: taken_up_def)
      have "responding tp ?t' ?r"
        using handled books i(2) by (intro responding_handled) (simp_all add: books_def)
      moreover have "retained_topics tp (tk_outbox ?t')" using handled by (simp add: handled_def)
      ultimately show ?thesis
        unfolding taken
        by (intro books_taken [OF books i(1) _ _ idle, where t' = ?t']) (simp_all add: handler_ran_tasks)
    next
      case False
      with served req have "mq' = ?seen" by simp
      then have "mq_waiting mq' = tk_waiting ?t" "mq_published mq' = tk_outbox ?t" using idle by (simp_all add: seen_by_def)
      then have "\<exists>c. current_request tp reqs order i ?t' c" if "current_request tp reqs order i ?t c" for c
        using current_same [OF that, of ?t'] by auto
      then have "books tp reqs order (handler_ran i mq' sv)"
        using books by (intro books_task [OF books i(1), where t' = ?t']) (auto simp: handler_ran_tasks books_def)
      moreover have "taken_up env message i sv = []" using False by (simp add: taken_up_def split: option.split pyval.split)
      ultimately show ?thesis by simp
    qed
    with went rt show ?thesis by (simp add: handler_ran_tasks)
  qed
qed

text \<open>The apply of a task returns, and its response is to be published; until then the task waits.\<close>

lemma books_apply:
  assumes books: "books tp reqs order sv" and a: "apply_of i sv = Some a"
  shows "books tp reqs order (apply_turn turn i sv) \<and> mq_runtime (mv_adapter (apply_turn turn i sv)) = snd turn"
proof -
  let ?t = "mv_tasks sv ! i" and ?mq = "mv_adapter sv"
  obtain ro rt where turn: "turn = (ro, rt)" by (cases turn)
  obtain rid where i: "i < length (mv_tasks sv)" "tk_phase ?t = Mv_serving" and w: "tk_waiting ?t = Some (rid, a)"
    using a by (auto simp: apply_of_def task_runs_def split: if_splits)
  let ?seen = "(seen_by ?t ?mq)\<lparr>mq_runtime := rt\<rparr>"
  let ?mq' = "case ro of None \<Rightarrow> ?seen | Some r \<Rightarrow> apply_request_done r ?seen"
  let ?t' = "?t\<lparr>tk_waiting := mq_waiting ?mq', tk_outbox := mq_published ?mq'\<rparr>"
  have tp: "topic ?mq = tp" using books by (simp add: books_def)
  have "\<exists>c. current_request tp reqs order i ?t' c" if cur: "current_request tp reqs order i ?t c" for c
  proof -
    obtain k where k: "c = Some k" using cur w by (cases c) (auto simp: current_request_def)
    with cur w i have r: "mr_apply (reqs ! k)" "mr_id (reqs ! k) = rid" "tk_outbox ?t = []"
      by (auto simp: current_request_def responding_def)
    have "handled tp ?mq' True rid"
    proof (cases ro)
      case None
      then show ?thesis using w by (simp add: handled_def seen_by_def retained_topics_def)
    next
      case (Some rec)
      have "handled tp (apply_response rid (apply_record_dump rec) (?seen\<lparr>mq_waiting := None\<rparr>)) True rid"
        using tp by (intro handled_response(1)) (simp_all, simp add: seen_by_def)
      with Some w show ?thesis by (simp add: apply_request_done_def seen_by_def)
    qed
    then have "responding tp ?t' (reqs ! k)" "retained_topics tp (tk_outbox ?t')"
      using r i(2) responding_handled [of tp ?mq' "reqs ! k" ?t] by (simp_all add: handled_def)
    with cur k have "current_request tp reqs order i ?t' (Some k)" by (simp add: current_request_def)
    then show ?thesis by blast
  qed
  then have "books tp reqs order (handler_ran i ?mq' sv)"
    using books by (intro books_task [OF books i(1), where t' = ?t']) (auto simp: handler_ran_tasks books_def)
  moreover have "mq_runtime ?mq' = rt" by (simp add: apply_request_done_def seen_by_def split: option.split)
  ultimately show ?thesis by (simp add: apply_turn_def turn handler_ran_tasks Let_def)
qed

lemma books_run:
  assumes "service_run (new_mqtt_service mq0) ops reqs sv" and "mq_published mq0 = []"
  shows "(\<exists>order. books (topic mq0) reqs order sv) \<and> mq_runtime (mv_adapter sv) = fold runtime_perform ops (mq_runtime mq0)"
  using assms(1)
proof (induction rule: service_run.induct)
  case service_new
  have "books (topic mq0) [] [] (new_mqtt_service mq0)"
    using assms(2) by (simp add: books_def new_mqtt_service_def answered_in_def one_per_connection_def unanswered_def retained_topics_def)
  then show ?case by (auto simp: new_mqtt_service_def)
next
  case (service_start ops reqs sv)
  then obtain order where "books (topic mq0) reqs order sv" by blast
  from books_start [OF this] service_start.IH show ?case by (auto simp: mqtt_start_def)
next
  case (service_stop ops reqs sv)
  have "mq_runtime (mv_adapter (mqtt_stop sv)) = mq_runtime (mv_adapter sv)"
    by (simp add: mqtt_stop_def with_task_def split: option.split)
  then show ?case using service_stop.IH by (auto intro: books_stop)
next
  case (service_stopped ops reqs sv i)
  have "mq_runtime (mv_adapter (mqtt_stopped i sv)) = mq_runtime (mv_adapter sv)"
    by (simp add: mqtt_stopped_def)
  then show ?case using service_stopped.IH by (auto intro: books_stopped)
next
  case (service_cancelled ops reqs sv i now)
  have "mq_runtime (mv_adapter (mqtt_cancelled now i sv)) = fold runtime_perform (cancel_ops now (mv_tasks sv ! i) (mq_runtime (mv_adapter sv))) (mq_runtime (mv_adapter sv))"
    using service_cancelled.hyps(2)
    by (simp add: mqtt_cancelled_def with_task_def runtime_steps_def)
  then show ?case using service_cancelled.IH by (auto intro: books_cancelled)
next
  case (service_connect ops reqs sv ok i)
  have "mq_runtime (mv_adapter (mqtt_connect ok i sv)) = mq_runtime (mv_adapter sv)"
    by (simp add: mqtt_connect_def connection_lost_def with_task_def handler_ran_def mqtt_connected_def publish_info_def seen_by_def)
  then show ?case using service_connect.IH by (auto intro: books_connect)
next
  case (service_retry ops reqs sv i)
  have "mq_runtime (mv_adapter (mqtt_retry i sv)) = mq_runtime (mv_adapter sv)"
    by (simp add: mqtt_retry_def with_task_def)
  then show ?case using service_retry.IH by (auto intro: books_retry)
next
  case (service_drop ops reqs sv i)
  have "mq_runtime (mv_adapter (mqtt_drop i sv)) = mq_runtime (mv_adapter sv)"
    by (simp add: mqtt_drop_def connection_lost_def with_task_def)
  then show ?case using service_drop.IH by (auto intro: books_drop)
next
  case (service_publish ops reqs sv ok i)
  have "mq_runtime (mv_adapter (mqtt_publish_next ok i sv)) = mq_runtime (mv_adapter sv)"
    by (simp add: mqtt_publish_next_def connection_lost_def with_task_def split: list.split)
  then show ?case using service_publish.IH books_publish by metis
next
  case (service_status ops reqs sv ok i)
  have "mq_runtime (mv_adapter (status_due ok i sv)) = mq_runtime (mv_adapter sv)"
    by (simp add: status_due_def with_task_def)
  then show ?case using service_status.IH by (auto intro: books_status)
next
  case (service_message ops reqs sv i env message)
  then obtain order where "books (topic mq0) reqs order sv" by blast
  from books_message [OF this service_message.hyps(2), of env message] service_message.IH show ?case by auto
next
  case (service_enter ops reqs sv i a now)
  then obtain order where "books (topic mq0) reqs order sv" by blast
  from books_apply [OF this service_enter.hyps(2), of "apply_config_enter a now (mq_runtime (mv_adapter sv))"] service_enter.IH service_enter.hyps(2) show ?case
    by (auto simp: mqtt_apply_enter_def)
next
  case (service_resume ops reqs sv i a g now)
  then obtain order where "books (topic mq0) reqs order sv" by blast
  from books_apply [OF this service_resume.hyps(2), of "apply_config_resume g a now (mq_runtime (mv_adapter sv))"] service_resume.IH service_resume.hyps(2) show ?case
    by (auto simp: mqtt_apply_resume_def)
next
  case (service_runtime ops reqs sv p)
  have "mq_runtime (mv_adapter (runtime_steps [p] sv)) = runtime_perform p (mq_runtime (mv_adapter sv))"
    by (simp add: runtime_steps_def)
  then show ?case using service_runtime.IH by (auto intro: books_runtime)
qed

section \<open>Properties\<close>

text \<open>
  \<^bold>\<open>C31\<close> However often the adapter is started and stopped, also in the middle of an apply, and whichever connection or
  publication fails: the Runtime is in the state of its ordinary operations, those of each live request being made
  once; the answers published are answers to different requests that were taken up, each with the \<open>request_id\<close> of its
  request, on the response topic of its kind and not retained; a request without an answer is the one its task is just
  about to answer, or the connection it came by has ended; a connection has at most one such request; and only info
  and status are retained.
\<close>

theorem mqtt_survives_failures:
  assumes "service_run (new_mqtt_service mq0) ops reqs sv" and "mq_published mq0 = []"
  shows "mq_runtime (mv_adapter sv) = fold runtime_perform ops (mq_runtime mq0) \<and> retained_ok (mv_adapter sv) \<and>
    (\<exists>order. distinct order \<and> set order \<subseteq> {..<length reqs} \<and>
       list_all2 (answers_request (topic mq0)) (map ((!) reqs) order)
         (filter (is_answer (topic mq0)) (mq_published (mv_adapter sv))) \<and>
       (\<forall>k. unanswered reqs order k \<longrightarrow> in_progress (topic mq0) sv (reqs ! k) \<or> connection_over sv (reqs ! k)) \<and>
       (\<forall>k k'. unanswered reqs order k \<and> unanswered reqs order k' \<and> same_connection (reqs ! k) (reqs ! k') \<longrightarrow> k = k'))"
proof -
  obtain order where books: "books (topic mq0) reqs order sv" and rt: "mq_runtime (mv_adapter sv) = fold runtime_perform ops (mq_runtime mq0)"
    using books_run [OF assms] by blast
  have "in_progress (topic mq0) sv (reqs ! k) \<or> connection_over sv (reqs ! k)" if un: "unanswered reqs order k" for k
  proof -
    let ?i = "mr_task (reqs ! k)"
    have i: "?i < length (mv_tasks sv)" using books un by (simp add: books_def unanswered_def)
    then obtain c where c: "current_request (topic mq0) reqs order ?i (mv_tasks sv ! ?i) c" using books by (auto simp: books_def)
    show ?thesis
    proof (cases "mr_connection (reqs ! k) < tk_connection (mv_tasks sv ! ?i)")
      case False
      with c un have "c = Some k" by (auto simp: current_request_def not_less)
      with c i show ?thesis by (simp add: current_request_def in_progress_def)
    qed (use i in \<open>simp add: connection_over_def\<close>)
  qed
  with books rt show ?thesis
    by (intro conjI exI [of _ order])
      (auto simp: books_def answered_in_def one_per_connection_def retained_topics_def retained_ok_def)
qed

text \<open>
  A status publication that fails ends the status task, and nothing notices: the task goes on serving requests on
  the same connection, and from then on the status is never refreshed on its own.
\<close>

theorem status_stops_silently:
  assumes "task_runs i Mv_serving sv"
  shows "task_runs i Mv_serving (status_due False i sv) \<and>
    tk_connection (mv_tasks (status_due False i sv) ! i) = tk_connection (mv_tasks sv ! i) \<and>
    fold (\<lambda>ok. status_due ok i) oks (status_due False i sv) = status_due False i sv \<and>
    (at_messages i sv \<and> serve_message env message (seen_by (mv_tasks sv ! i) (mv_adapter sv)) = Some mq \<longrightarrow>
       mqtt_message_in env message i (status_due False i sv) = handler_ran i mq (status_due False i sv))"
proof -
  let ?sv = "status_due False i sv"
  have i: "i < length (mv_tasks sv)" using assms by (simp add: task_runs_def)
  then have dead: "\<not> tk_status (mv_tasks ?sv ! i)" and same: "mv_adapter ?sv = mv_adapter sv"
    "tk_waiting (mv_tasks ?sv ! i) = tk_waiting (mv_tasks sv ! i)" "tk_outbox (mv_tasks ?sv ! i) = tk_outbox (mv_tasks sv ! i)"
    and runs: "task_runs i Mv_serving ?sv" "tk_connection (mv_tasks ?sv ! i) = tk_connection (mv_tasks sv ! i)"
    using assms by (auto simp: status_due_def with_task_def task_runs_def)
  have "fold (\<lambda>ok. status_due ok i) oks sv' = sv'" if "\<not> tk_status (mv_tasks sv' ! i)" for sv'
    using that by (induction oks) (simp_all add: status_due_def)
  moreover have "seen_by (mv_tasks ?sv ! i) (mv_adapter ?sv) = seen_by (mv_tasks sv ! i) (mv_adapter sv)"
    using same by (simp add: seen_by_def)
  moreover have "at_messages i ?sv \<longleftrightarrow> at_messages i sv" using same runs assms by (simp add: at_messages_def)
  ultimately show ?thesis using dead runs by (simp add: mqtt_message_in_def)
qed

text \<open>
  A task started while \<open>stop\<close> waits for the former one is forgotten by it: it goes on, and no later \<open>stop\<close> reaches it.
\<close>

lemma start_during_stop_is_lost:
  assumes "mv_task sv = Some i" and "i < length (mv_tasks sv)" and "tk_phase (mv_tasks sv ! i) \<noteq> Mv_over"
  shows "let sv' = mqtt_stopped i (mqtt_cancelled now i (mqtt_start (mqtt_stop sv)))
    in task_runs (length (mv_tasks sv)) Mv_connecting sv' \<and> mv_task sv' = None \<and> mqtt_stop sv' = sv'"
  using assms
  by (simp add: mqtt_stop_def mqtt_start_def mqtt_stopped_def mqtt_cancelled_def is_cancelled_def with_task_def task_runs_def
      runtime_steps_def end_connection_def new_mqtt_task_def nth_append Let_def)

definition demo_service :: mqtt_service where
  "demo_service = mqtt_publish_next True 0 (mqtt_publish_next True 0 (mqtt_connect True 0 (mqtt_start (new_mqtt_service demo_mqtt))))"

lemmas demo_steps = mqtt_publish_next_def mqtt_connect_def mqtt_start_def new_mqtt_service_def task_runs_def with_task_def
  handler_ran_def mqtt_connected_def publish_info_def publish_status_def mqtt_publish_def seen_by_def new_mqtt_task_def
  demo_mqtt_def new_mqtt_adapter_def as_published_def topic_def

lemma demo_service_serving:
  "at_messages 0 demo_service" "tk_status (mv_tasks demo_service ! 0)" "tk_connection (mv_tasks demo_service ! 0) = 0"
  "mq_runtime (mv_adapter demo_service) = bare_runtime ''motor-01''" "topic (mv_adapter demo_service) = topic demo_mqtt"
  by (simp_all add: demo_service_def demo_steps at_messages_def fun_eq_iff)

text \<open>A stage request is taken up, and its answer published.\<close>

definition demo_request :: mqtt_request where
  "demo_request = \<lparr>mr_task = 0, mr_connection = 0, mr_apply = False, mr_id = PNone\<rparr>"

lemma demo_service_run: "service_run (new_mqtt_service demo_mqtt) [] [] demo_service"
  unfolding demo_service_def by (intro service_run.intros)

lemma demo_message_run:
  "service_run (new_mqtt_service demo_mqtt) [Rt_stage ''show'' [] ''rev_1'' ''00'' 1] [demo_request]
     (mqtt_message_in demo_mqtt_env demo_stage_message 0 demo_service)"
proof -
  have "message_ops demo_mqtt_env demo_stage_message (mv_adapter demo_service) = [Rt_stage ''show'' [] ''rev_1'' ''00'' 1]"
    "taken_up demo_mqtt_env demo_stage_message 0 demo_service = [demo_request]"
    by (simp_all add: message_ops_def stage_op_def item_def taken_up_def demo_service_serving demo_request_def is_request_def
        demo_stage_message_def demo_mqtt_env_def get_or_none_def topic_def demo_mqtt_def new_mqtt_adapter_def)
  moreover have "cfg_calls (rt_config (mq_runtime (mv_adapter demo_service))) (me_call demo_mqtt_env) = None"
    by (simp add: demo_service_serving bare_runtime_def new_config_service_def)
  ultimately show ?thesis
    using service_message [OF demo_service_run demo_service_serving(1), of demo_mqtt_env demo_stage_message] by simp
qed

theorem mqtt_survives_failures_witness:
  "let sv = mqtt_publish_next True 0 (mqtt_message_in demo_mqtt_env demo_stage_message 0 demo_service)
   in mq_runtime (mv_adapter sv) = runtime_perform (Rt_stage ''show'' [] ''rev_1'' ''00'' 1) (bare_runtime ''motor-01'') \<and>
      (\<exists>order. distinct order \<and> set order \<subseteq> {..<1} \<and>
         list_all2 (answers_request (topic demo_mqtt)) (map ((!) [demo_request]) order)
           (filter (is_answer (topic demo_mqtt)) (mq_published (mv_adapter sv))))"
proof -
  have "mq_published demo_mqtt = []" "mq_runtime demo_mqtt = bare_runtime ''motor-01''"
    by (simp_all add: demo_mqtt_def new_mqtt_adapter_def)
  with mqtt_survives_failures [OF service_publish [OF demo_message_run], of True 0] show ?thesis
    unfolding Let_def by auto
qed

theorem status_stops_silently_witness:
  "task_runs 0 Mv_serving (status_due False 0 demo_service) \<and>
   fold (\<lambda>ok. status_due ok 0) [True, True] (status_due False 0 demo_service) = status_due False 0 demo_service"
  using status_stops_silently [of 0 demo_service "[True, True]"] demo_service_serving(1) by (simp add: at_messages_def)

end
