(* ===== verification/Binary32.thy ===== *)
theory Binary32
  imports Prelude "HOL-Library.Word"
begin

text \<open>
  Python floats and the four bytes of \<open>struct.pack(">f", ...)\<close>, as \<open>io/osc_framing.py\<close> uses them. A float is its sign and
  its magnitude, an exact rational, or an infinity or NaN; the conversions are those of IEEE 754, to nearest
  with ties to even. Which NaN is written is not modelled: it is the usual quiet one.
\<close>

section \<open>Conversions\<close>

datatype pyfloat = Finite bool rat | Infinite bool | NaN

text \<open>
  \<open>struct.pack(">f", x)\<close>: \<open>None\<close> is its \<open>OverflowError\<close>. The magnitude is taken in units of the least subnormal,
  \<open>2 ^ -149\<close>; \<open>exponent_below n y\<close> is the largest exponent field up to \<open>n\<close> whose numbers are not above \<open>y\<close>, or 0.
  Exponent fields 0 and 1 have the same spacing. A significand that is rounded up to \<open>2 ^ 24\<close> carries into the field.
\<close>

fun exponent_below :: "nat \<Rightarrow> rat \<Rightarrow> nat" where
  "exponent_below 0 y = 0"
| "exponent_below (Suc e) y = (if 2 ^ (Suc e + 22) \<le> y then Suc e else exponent_below e y)"

definition magnitude_bits :: "rat \<Rightarrow> nat" where
  "magnitude_bits x =
     (let y = x * 2 ^ 149; e = max 1 (exponent_below 254 y)
      in (e - 1) * 2 ^ 23 + nat (py_round (y / 2 ^ (e - 1))))"

definition sign_bit :: "bool \<Rightarrow> nat" where "sign_bit neg = (if neg then 2 ^ 31 else 0)"

fun pack_float :: "pyfloat \<Rightarrow> 32 word option" where
  "pack_float (Finite neg x) =
     (if magnitude_bits x < 255 * 2 ^ 23 then Some (word_of_nat (sign_bit neg + magnitude_bits x)) else None)"
| "pack_float (Infinite neg) = Some (word_of_nat (sign_bit neg + 255 * 2 ^ 23))"
| "pack_float NaN = Some 0x7FC00000"

text \<open>\<open>struct.unpack(">f", ...)\<close>\<close>

definition magnitude_of :: "nat \<Rightarrow> rat" where
  "magnitude_of bits =
     (let e = bits div 2 ^ 23; m = bits mod 2 ^ 23
      in (if e = 0 then of_nat m else of_nat (2 ^ 23 + m) * 2 ^ (e - 1)) / 2 ^ 149)"

definition unpack_float :: "32 word \<Rightarrow> pyfloat" where
  "unpack_float w =
     (let bits = unat w mod 2 ^ 31; neg = unat w \<ge> 2 ^ 31
      in if bits < 255 * 2 ^ 23 then Finite neg (magnitude_of bits)
         else if bits = 255 * 2 ^ 23 then Infinite neg
         else NaN)"

section \<open>How a float is rounded\<close>

lemma exponent_below_bounds:
  "exponent_below n y \<le> n"
  "0 < exponent_below n y \<Longrightarrow> 2 ^ (exponent_below n y + 22) \<le> y"
  "exponent_below n y < n \<Longrightarrow> y < 2 ^ (exponent_below n y + 23)"
proof -
  show "exponent_below n y \<le> n"
    by (induction n y rule: exponent_below.induct) auto
  show "0 < exponent_below n y \<Longrightarrow> 2 ^ (exponent_below n y + 22) \<le> y"
    by (induction n y rule: exponent_below.induct) (auto split: if_splits)
  show "exponent_below n y < n \<Longrightarrow> y < 2 ^ (exponent_below n y + 23)"
  proof (induction n y rule: exponent_below.induct)
    case (2 e y)
    show ?case
    proof (cases "2 ^ (Suc e + 22) \<le> y")
      case False
      then show ?thesis using 2 by (cases "exponent_below e y = e") (auto simp: not_le add.commute)
    qed (use 2 in simp)
  qed simp
qed

lemma py_round_nat:
  assumes "0 \<le> x"
  shows "of_nat (nat (py_round x)) = (of_int (py_round x) :: rat)"
  using py_round_bounds(1) [OF _ le_of_int_ceiling, of 0 x] assms by simp

text \<open>The parts of a magnitude: the exponent field of its spacing and the rounded significand.\<close>

lemma magnitude_parts:
  assumes "0 \<le> x" and "magnitude_bits x < 255 * 2 ^ 23"
  obtains e r where "magnitude_bits x = e * 2 ^ 23 + r" "e < 254" "r \<le> 2 ^ 24" "e = 0 \<or> 2 ^ 23 \<le> r"
    "\<bar>of_nat r * 2 ^ e - x * 2 ^ 149\<bar> \<le> 2 ^ e / 2" "e = 0 \<or> 2 ^ e * 2 ^ 23 \<le> x * 2 ^ 149"
proof -
  define y where "y = x * 2 ^ 149"
  define b where "b = exponent_below 254 y"
  define e where "e = max 1 b - 1"
  define r where "r = nat (py_round (y / 2 ^ e))"
  have y: "0 \<le> y / 2 ^ e" using assms(1) by (simp add: y_def)
  have bits: "magnitude_bits x = e * 2 ^ 23 + r"
    by (simp add: magnitude_bits_def Let_def y_def b_def e_def r_def)
  have e: "e < 254" using exponent_below_bounds(1) [of 254 y] by (auto simp: e_def b_def)
  have r: "of_nat r = (of_int (py_round (y / 2 ^ e)) :: rat)"
    using py_round_nat [OF y] by (simp add: r_def)
  have low: "2 ^ e * 2 ^ 23 \<le> y" if "e \<noteq> 0"
  proof -
    have "b = Suc e" using that by (auto simp: e_def max_def split: if_splits)
    then show ?thesis using exponent_below_bounds(2) [of 254 y] by (simp add: b_def power_add)
  qed
  have "2 ^ 23 \<le> r" if "e \<noteq> 0"
  proof -
    have "of_int (2 ^ 23) \<le> y / 2 ^ e" using low [OF that] by (simp add: field_simps)
    from py_round_bounds(1) [OF this le_of_int_ceiling] show ?thesis by (simp add: r_def)
  qed
  moreover have "r \<le> 2 ^ 24"
  proof (cases "b < 254")
    case True
    then have "y < 2 ^ (b + 23)" using exponent_below_bounds(3) [of 254 y] by (simp add: b_def)
    also have "\<dots> \<le> 2 ^ (Suc e + 23)" by (rule power_increasing) (auto simp: e_def)
    finally have "y / 2 ^ e \<le> of_int (2 ^ 24)" by (simp add: field_simps power_add)
    from py_round_bounds(2) [OF of_int_floor_le this] show ?thesis by (simp add: r_def)
  next
    case False
    then have "e = 253" using exponent_below_bounds(1) [of 254 y] by (auto simp: e_def b_def)
    with assms(2) bits show ?thesis by simp
  qed
  moreover have "\<bar>of_nat r * 2 ^ e - y\<bar> \<le> 2 ^ e / 2"
  proof -
    have "\<bar>of_nat r - y / 2 ^ e\<bar> * 2 ^ e \<le> 1 / 2 * 2 ^ e"
      unfolding r by (rule mult_right_mono [OF py_round_near]) simp
    moreover have "\<bar>of_nat r - y / 2 ^ e\<bar> * 2 ^ e = \<bar>(of_nat r - y / 2 ^ e) * 2 ^ e\<bar>"
      by (simp add: abs_mult)
    ultimately show ?thesis by (simp add: left_diff_distrib)
  qed
  ultimately show thesis
    using low unfolding y_def by (intro that [OF bits e]) blast+
qed

lemma magnitude_of_parts:
  assumes "r \<le> 2 ^ 24" and "e = 0 \<or> 2 ^ 23 \<le> r"
  shows "magnitude_of (e * 2 ^ 23 + r) = of_nat r * 2 ^ e / 2 ^ 149"
proof -
  consider "r < 2 ^ 23" "e = 0" | "2 ^ 23 \<le> r" "r < 2 ^ 24" | "r = 2 ^ 24"
    using assms by fastforce
  then show ?thesis
  proof cases
    case 2
    define m where "m = r - 2 ^ 23"
    with 2 have m: "r = 2 ^ 23 + m" "m < 2 ^ 23" by simp_all
    have "e * 2 ^ 23 + r = m + Suc e * 2 ^ 23" by (simp add: m(1))
    then have "(e * 2 ^ 23 + r) div 2 ^ 23 = Suc e" "(e * 2 ^ 23 + r) mod 2 ^ 23 = m"
      using m(2) by (simp_all only: div_mult_self1 mod_mult_self1) simp_all
    then show ?thesis by (simp add: magnitude_of_def Let_def m(1))
  next
    case 3
    then have "e * 2 ^ 23 + r = (e + 2) * 2 ^ 23" by simp
    then have "(e * 2 ^ 23 + r) div 2 ^ 23 = e + 2" "(e * 2 ^ 23 + r) mod 2 ^ 23 = 0" by simp_all
    then show ?thesis by (simp add: magnitude_of_def Let_def 3)
  qed (simp add: magnitude_of_def Let_def)
qed

lemma rounded_magnitude:
  assumes "0 \<le> x" and "magnitude_bits x < 255 * 2 ^ 23"
  shows "\<bar>magnitude_of (magnitude_bits x) - x\<bar> \<le> max (x / 2 ^ 24) (1 / 2 ^ 150)"
proof -
  obtain e r where p: "magnitude_bits x = e * 2 ^ 23 + r" "r \<le> 2 ^ 24" "e = 0 \<or> 2 ^ 23 \<le> r"
    "\<bar>of_nat r * 2 ^ e - x * 2 ^ 149\<bar> \<le> 2 ^ e / 2" "e = 0 \<or> 2 ^ e * 2 ^ 23 \<le> x * 2 ^ 149"
    using magnitude_parts [OF assms] by metis
  have "\<bar>of_nat r * 2 ^ e / 2 ^ 149 - x\<bar> = \<bar>of_nat r * 2 ^ e - x * 2 ^ 149\<bar> / 2 ^ 149"
    by (simp add: abs_if field_simps)
  also have "\<dots> \<le> 2 ^ e / 2 / 2 ^ 149"
    by (rule divide_right_mono [OF p(4)]) simp
  also have "\<dots> \<le> max (x / 2 ^ 24) (1 / 2 ^ 150)"
    using p(5) by (auto simp: field_simps le_max_iff_disj)
  finally show ?thesis using magnitude_of_parts [OF p(2,3)] by (simp add: p(1))
qed

text \<open>A magnitude that a binary32 has is not changed.\<close>

lemma exponent_below_unique:
  assumes "b \<le> n" and "0 < b \<Longrightarrow> 2 ^ (b + 22) \<le> y" and "y < 2 ^ (b + 23)"
  shows "exponent_below n y = b"
  using assms(1)
proof (induction n)
  case (Suc e)
  show ?case
  proof (cases "b = Suc e")
    case True
    with assms(2) show ?thesis by simp
  next
    case False
    with Suc.prems have "b \<le> e" by simp
    have "y < 2 ^ (b + 23)" by (rule assms(3))
    also have "\<dots> \<le> 2 ^ (Suc e + 22)" using \<open>b \<le> e\<close> by (intro power_increasing) simp_all
    finally have "\<not> 2 ^ (Suc e + 22) \<le> y" by simp
    with Suc.IH [OF \<open>b \<le> e\<close>] show ?thesis by simp
  qed
qed simp

lemma magnitude_bits_of:
  assumes "n < 255 * 2 ^ 23"
  shows "magnitude_bits (magnitude_of n) = n"
proof -
  define e m where "e = n div 2 ^ 23" and "m = n mod 2 ^ 23"
  have n: "n = e * 2 ^ 23 + m" "m < 2 ^ 23" "e \<le> 254"
    using assms by (simp_all add: e_def m_def)
  have mag: "magnitude_of n = (if e = 0 then of_nat m else of_nat (2 ^ 23 + m) * 2 ^ (e - 1)) / 2 ^ 149"
    unfolding magnitude_of_def Let_def e_def m_def by (rule refl)
  show ?thesis
  proof (cases "e = 0")
    case True
    have "exponent_below 254 (of_nat m) = 0"
    proof (rule exponent_below_unique)
      have "(of_nat m :: rat) < of_nat (2 ^ 23)" using n(2) by (simp only: of_nat_less_iff)
      then show "(of_nat m :: rat) < 2 ^ (0 + 23)" by simp
    qed simp_all
    moreover have "magnitude_of n * 2 ^ 149 = of_nat m"
      using True by (simp add: mag)
    moreover have "py_round (of_nat m) = int m" using py_round_of_int [of "int m"] by simp
    ultimately show ?thesis using True n(1) by (simp add: magnitude_bits_def Let_def)
  next
    case False
    let ?y = "of_nat (2 ^ 23 + m) * 2 ^ (e - 1) :: rat"
    have s: "(2 :: rat) ^ 23 \<le> of_nat (2 ^ 23 + m)" "of_nat (2 ^ 23 + m) < (2 :: rat) ^ 24"
    proof -
      show "(2 :: rat) ^ 23 \<le> of_nat (2 ^ 23 + m)" by simp
      have "(of_nat (2 ^ 23 + m) :: rat) < of_nat (2 ^ 24)" by (subst of_nat_less_iff) (use n(2) in simp)
      then show "of_nat (2 ^ 23 + m) < (2 :: rat) ^ 24" by simp
    qed
    have "exponent_below 254 ?y = e"
    proof (rule exponent_below_unique)
      have "(2 :: rat) ^ (e + 22) = 2 ^ 23 * 2 ^ (e - 1)" using False by (cases e) (simp_all add: power_add)
      also have "\<dots> \<le> ?y" by (rule mult_right_mono [OF s(1)]) simp
      finally show "2 ^ (e + 22) \<le> ?y" .
      have "?y < 2 ^ 24 * 2 ^ (e - 1)" by (rule mult_strict_right_mono [OF s(2)]) simp
      also have "\<dots> = 2 ^ (e + 23)" using False by (cases e) (simp_all add: power_add)
      finally show "?y < 2 ^ (e + 23)" .
    qed (rule n(3))
    moreover have "magnitude_of n * 2 ^ 149 = ?y"
      using False by (simp add: mag)
    moreover have "py_round (of_nat (2 ^ 23 + m)) = int (2 ^ 23 + m)"
      using py_round_of_int [of "int (2 ^ 23 + m)"] by simp
    moreover have "?y / 2 ^ (e - 1) = of_nat (2 ^ 23 + m)" by simp
    ultimately have "magnitude_bits (magnitude_of n) = (e - 1) * 2 ^ 23 + (2 ^ 23 + m)"
      using False by (simp add: magnitude_bits_def Let_def max_def)
    then show ?thesis using False n(1) by (cases e) simp_all
  qed
qed

lemma magnitude_of_nonneg: "0 \<le> magnitude_of n"
  by (simp add: magnitude_of_def Let_def)

lemma unpack_signed:
  assumes "b < 2 ^ 31"
  shows "unpack_float (word_of_nat (sign_bit neg + b)) =
    (if b < 255 * 2 ^ 23 then Finite neg (magnitude_of b) else if b = 255 * 2 ^ 23 then Infinite neg else NaN)"
proof -
  have "sign_bit neg + b < 2 ^ 32" using assms by (simp add: sign_bit_def)
  then have u: "unat (word_of_nat (sign_bit neg + b) :: 32 word) = sign_bit neg + b"
    by (simp add: unsigned_of_nat take_bit_nat_eq_self del: of_nat_add)
  have "(sign_bit neg + b) mod 2 ^ 31 = b" "(2 ^ 31 \<le> sign_bit neg + b) = neg"
    using assms by (simp_all add: sign_bit_def)
  then show ?thesis by (simp only: unpack_float_def u Let_def)
qed

text \<open>What \<open>struct\<close> gives back for a float that was written: the float rounded to a binary32.\<close>

definition single_of :: "pyfloat \<Rightarrow> pyfloat" where
  "single_of x = (case x of Finite neg m \<Rightarrow> Finite neg (magnitude_of (magnitude_bits m)) | _ \<Rightarrow> x)"

lemma unpack_pack: "pack_float x = Some w \<Longrightarrow> unpack_float w = single_of x"
proof (cases x)
  case (Finite neg m)
  assume "pack_float x = Some w"
  with Finite show ?thesis
    using unpack_signed [of "magnitude_bits m" neg] by (auto simp: single_of_def split: if_splits)
next
  case (Infinite neg)
  assume "pack_float x = Some w"
  with Infinite show ?thesis
    using unpack_signed [of "255 * 2 ^ 23" neg] by (auto simp: single_of_def)
next
  case NaN
  assume "pack_float x = Some w"
  with NaN have "w = 0x7FC00000" by simp
  then show ?thesis by (simp add: NaN single_of_def unpack_float_def Let_def)
qed

lemma single_of_near:
  assumes "0 \<le> m" and "pack_float (Finite neg m) = Some w"
  shows "\<exists>m'. single_of (Finite neg m) = Finite neg m' \<and> \<bar>m' - m\<bar> \<le> max (m / 2 ^ 24) (1 / 2 ^ 150)"
  using rounded_magnitude [OF assms(1)] assms(2) by (auto simp: single_of_def split: if_splits)

lemma single_of_single: "single_of (unpack_float w) = unpack_float w"
  by (simp add: unpack_float_def single_of_def Let_def magnitude_bits_of)

text \<open>The float that is closest to a tenth among those with 24 bits; 0.1 itself is not one of them.\<close>

lemma single_of_example: "single_of (Finite neg (1 / 10)) = Finite neg (13421773 / 134217728)"
proof -
  have "exponent_below 254 (1 / 10 * 2 ^ 149) = 123"
    by (rule exponent_below_unique) simp_all
  moreover have "(1 / 10 * 2 ^ 149 / 2 ^ 122 :: rat) = 67108864 / 5" by simp
  moreover have "\<lfloor>67108864 / 5 :: rat\<rfloor> = 13421772" by (rule floor_unique) simp_all
  then have "py_round (67108864 / 5) = 13421773"
    by (simp add: py_round_def Let_def)
  ultimately have "magnitude_bits (1 / 10) = 122 * 2 ^ 23 + 13421773"
    by (simp add: magnitude_bits_def)
  then show ?thesis
    using magnitude_of_parts [of 13421773 122] by (simp add: single_of_def)
qed

end
