(* ===== verification/Osc_Framing.thy ===== *)
theory Osc_Framing
  imports Octets Binary32
begin

text \<open>
  OSC messages (\<open>io/osc_framing.py\<close>). Floats are those of \<open>Binary32\<close>. A string is a list of characters; \<open>encode("ascii")\<close> raises on one
  from 128 on, and \<open>decode("ascii", errors="replace")\<close> yields only ASCII and the replacement character,
  which is written \<open>REPLACEMENT\<close> here. The parser walks the packet by an offset, as the code does.
\<close>

section \<open>Data\<close>

datatype osc_value =
    OBool bool
  | OInt int
  | OFloat pyfloat
  | OStr string
  | OBlob bytes
  | ONone

datatype osc_fault =
    Unterminated_string
  | Bundle_unsupported
  | Empty_packet
  | Bad_address string
  | Missing_type_tags
  | Truncated_int
  | Truncated_float
  | Truncated_blob_size
  | Truncated_blob
  | Unsupported_tag char

datatype build_fault = Encode_error | Overflow_error | Type_error

definition BUNDLE_MARKER :: bytes where
  "BUNDLE_MARKER = [0x23, 0x62, 0x75, 0x6E, 0x64, 0x6C, 0x65, 0]"

definition REPLACEMENT :: char where "REPLACEMENT = CHR 0xFF"

definition ascii :: "char \<Rightarrow> bool" where "ascii c \<longleftrightarrow> of_char c < (128 :: nat)"

definition encode_ascii :: "string \<Rightarrow> build_fault + bytes" where
  "encode_ascii s = (if list_all ascii s then Inr (map (\<lambda>c. word_of_nat (of_char c)) s) else Inl Encode_error)"

definition decode_ascii :: "bytes \<Rightarrow> string" where
  "decode_ascii data = map (\<lambda>b. if b < 128 then char_of (unat b) else REPLACEMENT) data"

text \<open>\<open>(4 - (n % 4)) % 4\<close>\<close>

definition padding :: "nat \<Rightarrow> nat" where
  "padding n = (4 - n mod 4) mod 4"

definition osc_string_bytes :: "string \<Rightarrow> build_fault + bytes" where
  "osc_string_bytes val =
     (case encode_ascii val of
        Inl e \<Rightarrow> Inl e
      | Inr encoded \<Rightarrow> let data = encoded @ [0] in Inr (data @ replicate (padding (length data)) 0))"

text \<open>\<open>n.to_bytes(4, "big", ...)\<close> and \<open>int.from_bytes(data, "big", ...)\<close>\<close>

definition to_bytes4 :: "int \<Rightarrow> bytes" where
  "to_bytes4 n = [octet 3 n, octet 2 n, octet 1 n, octet 0 n]"

definition from_bytes :: "bytes \<Rightarrow> int" where
  "from_bytes data = fold (\<lambda>b n. n * 256 + uint b) data 0"

definition from_bytes_signed4 :: "bytes \<Rightarrow> int" where
  "from_bytes_signed4 data = (let n = from_bytes data in if n < 2 ^ 31 then n else n - 2 ^ 32)"

section \<open>Building\<close>

text \<open>The type tag and the bytes of one argument.\<close>

fun osc_argument :: "osc_value \<Rightarrow> build_fault + char \<times> bytes" where
  "osc_argument (OBool b) = Inr (if b then CHR ''T'' else CHR ''F'', [])"
| "osc_argument (OInt n) =
     (if - (2 ^ 31) \<le> n \<and> n < 2 ^ 31 then Inr (CHR ''i'', to_bytes4 n) else Inl Overflow_error)"
| "osc_argument (OFloat x) =
     (case pack_float x of None \<Rightarrow> Inl Overflow_error | Some w \<Rightarrow> Inr (CHR ''f'', to_bytes4 (uint w)))"
| "osc_argument (OStr s) =
     (case osc_string_bytes s of Inl e \<Rightarrow> Inl e | Inr data \<Rightarrow> Inr (CHR ''s'', data))"
| "osc_argument (OBlob data) =
     (if length data < 2 ^ 32
      then Inr (CHR ''b'', to_bytes4 (int (length data)) @ data @ replicate (padding (length data)) 0)
      else Inl Overflow_error)"
| "osc_argument ONone = Inl Type_error"

fun osc_arguments :: "osc_value list \<Rightarrow> build_fault + string \<times> bytes" where
  "osc_arguments [] = Inr ([], [])"
| "osc_arguments (arg # args) =
     (case osc_argument arg of
        Inl e \<Rightarrow> Inl e
      | Inr (tag, data) \<Rightarrow>
          (case osc_arguments args of
             Inl e \<Rightarrow> Inl e
           | Inr (tags, rest) \<Rightarrow> Inr (tag # tags, data @ rest)))"

definition build_osc_message :: "string \<Rightarrow> osc_value list \<Rightarrow> build_fault + bytes" where
  "build_osc_message address args =
     (case osc_arguments args of
        Inl e \<Rightarrow> Inl e
      | Inr (type_tags, arg_bytes) \<Rightarrow>
          (case osc_string_bytes address of
             Inl e \<Rightarrow> Inl e
           | Inr a \<Rightarrow>
              (case osc_string_bytes (CHR '','' # type_tags) of
                 Inl e \<Rightarrow> Inl e
               | Inr t \<Rightarrow> Inr (a @ t @ arg_bytes))))"

section \<open>Parsing\<close>

definition read_osc_string :: "bytes \<Rightarrow> nat \<Rightarrow> osc_fault + string \<times> nat" where
  "read_osc_string data offset =
     (let rest = drop offset data
      in if 0 \<notin> set rest then Inl Unterminated_string
         else let val = takeWhile (\<lambda>b. b \<noteq> 0) rest; next_offset = offset + length val + 1
              in Inr (decode_ascii val, next_offset + padding next_offset))"

text \<open>\<open>data[offset : offset + n]\<close>\<close>

definition slice :: "bytes \<Rightarrow> nat \<Rightarrow> nat \<Rightarrow> bytes" where
  "slice data offset n = take n (drop offset data)"

text \<open>The argument of one tag and the offset after it.\<close>

definition parse_osc_argument :: "bytes \<Rightarrow> char \<Rightarrow> nat \<Rightarrow> osc_fault + osc_value \<times> nat" where
  "parse_osc_argument data tag offset =
     (if tag = CHR ''i'' then
        (if offset + 4 > length data then Inl Truncated_int
         else Inr (OInt (from_bytes_signed4 (slice data offset 4)), offset + 4))
      else if tag = CHR ''f'' then
        (if offset + 4 > length data then Inl Truncated_float
         else Inr (OFloat (unpack_float (word_of_int (from_bytes (slice data offset 4)))), offset + 4))
      else if tag = CHR ''s'' then
        (case read_osc_string data offset of Inl e \<Rightarrow> Inl e | Inr (s, offset') \<Rightarrow> Inr (OStr s, offset'))
      else if tag = CHR ''b'' then
        (if offset + 4 > length data then Inl Truncated_blob_size
         else let sz = nat (from_bytes (slice data offset 4)); start = offset + 4
              in if start + sz > length data then Inl Truncated_blob
                 else Inr (OBlob (slice data start sz), start + sz + padding (start + sz)))
      else if tag = CHR ''T'' \<or> tag = CHR ''I'' then Inr (OBool True, offset)
      else if tag = CHR ''F'' then Inr (OBool False, offset)
      else if tag = CHR ''N'' then Inr (ONone, offset)
      else Inl (Unsupported_tag tag))"

fun parse_osc_arguments :: "bytes \<Rightarrow> string \<Rightarrow> nat \<Rightarrow> osc_fault + osc_value list" where
  "parse_osc_arguments data [] offset = Inr []"
| "parse_osc_arguments data (tag # tags) offset =
     (case parse_osc_argument data tag offset of
        Inl e \<Rightarrow> Inl e
      | Inr (arg, offset') \<Rightarrow>
          (case parse_osc_arguments data tags offset' of Inl e \<Rightarrow> Inl e | Inr args \<Rightarrow> Inr (arg # args)))"

definition starts_with :: "'a \<Rightarrow> 'a list \<Rightarrow> bool" where
  "starts_with x xs \<longleftrightarrow> (case xs of [] \<Rightarrow> False | y # ys \<Rightarrow> y = x)"

definition parse_osc_message :: "bytes \<Rightarrow> osc_fault + string \<times> osc_value list" where
  "parse_osc_message data =
     (if take (length BUNDLE_MARKER) data = BUNDLE_MARKER then Inl Bundle_unsupported
      else if data = [] then Inl Empty_packet
      else case read_osc_string data 0 of
        Inl e \<Rightarrow> Inl e
      | Inr (address, offset) \<Rightarrow>
          if \<not> starts_with (CHR ''/'') address then Inl (Bad_address address)
          else if length data \<le> offset then Inr (address, [])
          else (case read_osc_string data offset of
                  Inl e \<Rightarrow> Inl e
                | Inr (type_tags, offset') \<Rightarrow>
                    if \<not> starts_with (CHR '','') type_tags then Inl Missing_type_tags
                    else (case parse_osc_arguments data (tl type_tags) offset' of
                            Inl e \<Rightarrow> Inl e
                          | Inr args \<Rightarrow> Inr (address, args))))"

section \<open>Round trips\<close>

lemma padding_aligned: "4 dvd n + padding n"
proof -
  have "n mod 4 \<in> {0, 1, 2, 3}" by auto
  then have "(n mod 4 + padding n) mod 4 = 0" by (auto simp: padding_def)
  then show ?thesis by (simp add: dvd_eq_mod_eq_0 mod_add_left_eq)
qed

lemma padding_shift: "4 dvd m \<Longrightarrow> padding (m + n) = padding n"
  by (auto simp: padding_def elim!: dvdE)

text \<open>A string that reads back: ASCII, without a NUL.\<close>

definition plain :: "string \<Rightarrow> bool" where
  "plain s \<longleftrightarrow> list_all ascii s \<and> CHR 0x00 \<notin> set s"

lemma ascii_byte:
  assumes "ascii c"
  shows "unat (word_of_nat (of_char c) :: 8 word) = of_char c" and "(word_of_nat (of_char c) :: 8 word) < 128"
proof -
  show u: "unat (word_of_nat (of_char c) :: 8 word) = of_char c"
    using assms by (simp add: ascii_def unsigned_of_nat take_bit_nat_eq_self)
  then show "(word_of_nat (of_char c) :: 8 word) < 128"
    using assms by (simp add: word_less_nat_alt ascii_def)
qed

lemma decode_encode: "encode_ascii s = Inr data \<Longrightarrow> decode_ascii data = s"
  by (auto simp: encode_ascii_def decode_ascii_def list_all_iff comp_def ascii_byte intro!: map_idI split: if_splits)

lemma plain_no_zero:
  assumes "plain s" and "encode_ascii s = Inr data"
  shows "0 \<notin> set data"
proof
  assume "0 \<in> set data"
  then obtain c where c: "c \<in> set s" "(word_of_nat (of_char c) :: 8 word) = 0"
    using assms(2) by (auto simp: encode_ascii_def split: if_splits)
  then have "ascii c" using assms(1) by (simp add: plain_def list_all_iff)
  from ascii_byte(1) [OF this] c(2) have "of_char c = (0 :: nat)" by simp
  then have "c = char_of (0 :: nat)" by (metis char_of_char)
  moreover have "char_of (0 :: nat) = CHR 0x00" by (simp add: char_of_def)
  ultimately have "c = CHR 0x00" by simp
  with c(1) assms(1) show False by (simp add: plain_def)
qed

lemma read_written_string:
  assumes "plain s" and "osc_string_bytes s = Inr w" and "4 dvd length pre"
  shows "read_osc_string (pre @ w @ post) (length pre) = Inr (s, length pre + length w)" and "4 dvd length w"
proof -
  from assms(2) obtain data where e: "encode_ascii s = Inr data"
    and w: "w = data @ 0 # replicate (padding (Suc (length data))) 0"
    by (auto simp: osc_string_bytes_def split: sum.splits)
  note z = plain_no_zero [OF assms(1) e]
  have "takeWhile (\<lambda>b. b \<noteq> 0) (w @ post) = data"
    using z unfolding w by (auto simp: takeWhile_append2 intro!: takeWhile_append2 [THEN trans])
  then show "read_osc_string (pre @ w @ post) (length pre) = Inr (s, length pre + length w)"
    using padding_shift [OF assms(3), of "Suc (length data)"]
    by (simp add: read_osc_string_def w decode_encode [OF e])
  show "4 dvd length w"
    using padding_aligned [of "Suc (length data)"] by (simp add: w)
qed

lemma mod_octets: "0 \<le> m \<Longrightarrow> n mod (256 * m) = n div 256 mod m * 256 + n mod 256" for m n :: int
  by (subst zmod_zmult2_eq) (simp_all add: mult.commute)

lemma from_bytes4: "from_bytes (to_bytes4 n) = n mod 2 ^ 32"
proof -
  have d: "n div 256 div 256 = n div 65536" "n div 65536 div 256 = n div 16777216"
    by (simp_all flip: zdiv_zmult2_eq)
  have "n mod 4294967296 = n div 256 mod 16777216 * 256 + n mod 256"
    using mod_octets [of 16777216 n] by simp
  also have "n div 256 mod 16777216 = n div 65536 mod 65536 * 256 + n div 256 mod 256"
    using mod_octets [of 65536 "n div 256"] by (simp add: d)
  also have "n div 65536 mod 65536 = n div 16777216 mod 256 * 256 + n div 65536 mod 256"
    using mod_octets [of 256 "n div 65536"] by (simp add: d)
  finally have m: "n mod 4294967296 =
      ((n div 16777216 mod 256 * 256 + n div 65536 mod 256) * 256 + n div 256 mod 256) * 256 + n mod 256" .
  have o: "uint (octet 3 n) = n div 16777216 mod 256" "uint (octet 2 n) = n div 65536 mod 256"
    "uint (octet 1 n) = n div 256 mod 256" "uint (octet 0 n) = n mod 256"
    by (simp_all add: uint_octet)
  have p: "(2 :: int) ^ 32 = 4294967296" by simp
  have "from_bytes (to_bytes4 n) =
      ((uint (octet 3 n) * 256 + uint (octet 2 n)) * 256 + uint (octet 1 n)) * 256 + uint (octet 0 n)"
    by (simp add: from_bytes_def to_bytes4_def)
  then show ?thesis by (simp only: o p m)
qed

lemma from_bytes_signed4_written:
  assumes "- (2 ^ 31) \<le> n" and "n < 2 ^ 31"
  shows "from_bytes_signed4 (to_bytes4 n) = n"
proof (cases "0 \<le> n")
  case True
  with assms show ?thesis by (simp add: from_bytes_signed4_def from_bytes4)
next
  case False
  with assms(1) have "n mod 2 ^ 32 = n + 2 ^ 32"
    using mod_pos_pos_trivial [of "n + 2 ^ 32" "2 ^ 32"] by simp
  with False assms show ?thesis by (simp add: from_bytes_signed4_def from_bytes4)
qed

lemma slice_written: "slice (pre @ w @ post) (length pre) (length w) = w"
  by (simp add: slice_def)

text \<open>What one argument needs in order to read back.\<close>

fun plain_arg :: "osc_value \<Rightarrow> bool" where
  "plain_arg (OStr s) \<longleftrightarrow> plain s"
| "plain_arg (OFloat (Finite neg m)) \<longleftrightarrow> 0 \<le> m"
| "plain_arg _ \<longleftrightarrow> True"

text \<open>What an argument reads back as: a float comes back rounded.\<close>

fun returned :: "osc_value \<Rightarrow> osc_value" where
  "returned (OFloat x) = OFloat (single_of x)"
| "returned arg = arg"

lemma length_to_bytes4 [simp]: "length (to_bytes4 n) = 4"
  by (simp add: to_bytes4_def)

lemma parse_written_argument:
  assumes "osc_argument arg = Inr (tag, w)" and "plain_arg arg" and "4 dvd length pre"
  shows "parse_osc_argument (pre @ w @ post) tag (length pre) = Inr (returned arg, length pre + length w)"
    and "4 dvd length w" and "ascii tag" and "tag \<noteq> CHR 0x00"
proof -
  have sl: "slice (pre @ to_bytes4 n @ r) (length pre) 4 = to_bytes4 n" for n r
    using slice_written [of pre "to_bytes4 n" r] by simp
  have "parse_osc_argument (pre @ w @ post) tag (length pre) = Inr (returned arg, length pre + length w) \<and>
      4 dvd length w \<and> ascii tag \<and> tag \<noteq> CHR 0x00"
  proof (cases arg)
    case (OBool b)
    with assms(1) have "w = []" "tag = (if b then CHR ''T'' else CHR ''F'')" by simp_all
    with OBool show ?thesis by (cases b) (simp_all add: parse_osc_argument_def ascii_def)
  next
    case (OInt n)
    with assms(1) have "- (2 ^ 31) \<le> n" "n < 2 ^ 31" "tag = CHR ''i''" "w = to_bytes4 n"
      by (auto split: if_splits)
    with OInt show ?thesis
      by (simp add: parse_osc_argument_def sl from_bytes_signed4_written ascii_def)
  next
    case (OFloat x)
    with assms(1) obtain bits where bits: "pack_float x = Some bits" "tag = CHR ''f''" "w = to_bytes4 (uint bits)"
      by (auto split: option.splits)
    have "uint bits mod 4294967296 = uint bits" using uint_lt2p [of bits] by simp
    with OFloat bits unpack_pack [OF bits(1)] show ?thesis
      by (simp add: parse_osc_argument_def sl from_bytes4 ascii_def)
  next
    case (OStr s)
    with assms(1) have w: "osc_string_bytes s = Inr w" "tag = CHR ''s''" by (auto split: sum.splits)
    with assms(2,3) OStr read_written_string(1) [of s w pre post] read_written_string(2) [of s w pre] show ?thesis
      by (simp add: parse_osc_argument_def ascii_def)
  next
    case (OBlob data)
    let ?n = "int (length data)"
    from OBlob assms(1) have len: "?n < 2 ^ 32" and tag: "tag = CHR ''b''"
      and w: "w = to_bytes4 ?n @ data @ replicate (padding (length data)) 0"
      by (auto split: if_splits)
    have n: "nat (from_bytes (to_bytes4 ?n)) = length data"
      using len by (simp add: from_bytes4)
    have "slice (pre @ w @ post) (length pre + 4) (length data) = data"
      using slice_written [of "pre @ to_bytes4 ?n" data "replicate (padding (length data)) 0 @ post"]
      by (simp add: w)
    moreover have "padding (length pre + 4 + length data) = padding (length data)"
      using assms(3) by (intro padding_shift) simp
    moreover have "4 dvd length w"
      using padding_aligned [of "length data"] by (simp add: w)
    ultimately show ?thesis
      using OBlob tag by (simp add: parse_osc_argument_def w sl n ascii_def Let_def)
  next
    case ONone
    with assms(1) show ?thesis by simp
  qed
  then show "parse_osc_argument (pre @ w @ post) tag (length pre) = Inr (returned arg, length pre + length w)"
    and "4 dvd length w" and "ascii tag" and "tag \<noteq> CHR 0x00" by simp_all
qed

lemma parse_written_arguments:
  assumes "osc_arguments args = Inr (tags, w)" and "list_all plain_arg args" and "4 dvd length pre"
  shows "parse_osc_arguments (pre @ w) tags (length pre) = Inr (map returned args)" and "plain tags"
proof -
  have "parse_osc_arguments (pre @ w) tags (length pre) = Inr (map returned args) \<and> plain tags"
    using assms
  proof (induction args arbitrary: tags w pre)
    case (Cons arg args)
    from Cons.prems(1) obtain tag w1 tags1 w2 where a: "osc_argument arg = Inr (tag, w1)"
      and as: "osc_arguments args = Inr (tags1, w2)" and "tags = tag # tags1" "w = w1 @ w2"
      by (auto split: sum.splits)
    moreover note p = parse_written_argument(1) [OF a, of pre w2] parse_written_argument(2-4) [OF a, of pre]
    have "parse_osc_arguments ((pre @ w1) @ w2) tags1 (length (pre @ w1)) = Inr (map returned args) \<and> plain tags1"
      using Cons.prems p(2) by (intro Cons.IH [OF as]) simp_all
    ultimately show ?case
      using Cons.prems p by (simp add: plain_def)
  qed (simp add: plain_def)
  then show "parse_osc_arguments (pre @ w) tags (length pre) = Inr (map returned args)" and "plain tags" by simp_all
qed

lemma floats_packed: "osc_arguments args = Inr res \<Longrightarrow> OFloat x \<in> set args \<Longrightarrow> \<exists>bits. pack_float x = Some bits"
  by (induction args arbitrary: res) (auto split: sum.splits option.splits)

text \<open>
  \<^bold>\<open>C38\<close> Parsing inverts building: a message that \<open>build_osc_message\<close> builds, for an address that starts
  with a slash, with the address and the string arguments ASCII without a NUL, is parsed back to the same
  address and the same arguments, whatever their number, types and lengths; but a float comes back rounded to
  a binary32. That is the float itself if it is one of these, and else within half a unit in the last place
  of 24 bits, or within \<open>2 ^ -150\<close> near zero. (No message is built of a float that is too large, or of an integer
  out of the range of 32 bits.)
\<close>

theorem osc_round_trip:
  assumes "build_osc_message address args = Inr data" and "starts_with (CHR ''/'') address"
    and "plain address" and "list_all plain_arg args"
  shows "parse_osc_message data = Inr (address, map returned args) \<and>
    (\<forall>neg m. OFloat (Finite neg m) \<in> set args \<longrightarrow>
       (\<exists>m'. returned (OFloat (Finite neg m)) = OFloat (Finite neg m') \<and> \<bar>m' - m\<bar> \<le> max (m / 2 ^ 24) (1 / 2 ^ 150))) \<and>
    (\<forall>bits. returned (OFloat (unpack_float bits)) = OFloat (unpack_float bits))"
proof -
  from assms(1) obtain tags w a t where as: "osc_arguments args = Inr (tags, w)"
    and a: "osc_string_bytes address = Inr a" and t: "osc_string_bytes (CHR '','' # tags) = Inr t"
    and data: "data = a @ t @ w"
    by (auto simp: build_osc_message_def split: sum.splits)
  note ra = read_written_string(1) [OF assms(3) a, of "[]" "t @ w"] read_written_string(2) [OF assms(3) a, of "[]"]
  have "plain (CHR '','' # tags)"
    using parse_written_arguments(2) [OF as assms(4), of "[]"] by (simp add: plain_def ascii_def)
  note rt = read_written_string(1) [OF this t, of a w] read_written_string(2) [OF this t, of a]
  have args: "parse_osc_arguments data tags (length (a @ t)) = Inr (map returned args)"
    using parse_written_arguments(1) [OF as assms(4), of "a @ t"] ra(2) rt(2) by (simp add: data)
  obtain cs where s: "address = CHR ''/'' # cs"
    using assms(2) by (cases address) (auto simp: starts_with_def)
  then obtain a' where "a = 0x2F # a'"
    using a by (auto simp: osc_string_bytes_def encode_ascii_def Let_def split: if_splits)
  moreover have "t \<noteq> []"
    using t by (auto simp: osc_string_bytes_def encode_ascii_def Let_def split: if_splits)
  ultimately have "parse_osc_message data = Inr (address, map returned args)"
    using ra rt args assms(2)
    by (simp add: parse_osc_message_def data BUNDLE_MARKER_def starts_with_def)
  moreover have "\<exists>m'. single_of (Finite neg m) = Finite neg m' \<and> \<bar>m' - m\<bar> \<le> max (m / 2 ^ 24) (1 / 2 ^ 150)"
    if float: "OFloat (Finite neg m) \<in> set args" for neg m
  proof -
    have "0 \<le> m" using assms(4) float by (auto simp: list_all_iff)
    moreover obtain bits where "pack_float (Finite neg m) = Some bits"
      using floats_packed [OF as float] by blast
    ultimately show ?thesis by (rule single_of_near)
  qed
  ultimately show ?thesis by (simp add: single_of_single)
qed

text \<open>A button press \<open>/go T\<close>.\<close>

theorem osc_round_trip_witness:
  "\<exists>data. build_osc_message ''/go'' [OBool True] = Inr data \<and> parse_osc_message data = Inr (''/go'', [OBool True])"
proof -
  have "is_ok (build_osc_message ''/go'' [OBool True])" by code_simp
  then obtain data where d: "build_osc_message ''/go'' [OBool True] = Inr data" by (auto dest: is_okD)
  moreover have "parse_osc_message data = Inr (''/go'', [OBool True])"
    using osc_round_trip [OF d] by (simp add: starts_with_def plain_def ascii_def)
  ultimately show ?thesis by blast
qed

end
