(* ===== verification/Input_Endpoints.thy ===== *)
theory Input_Endpoints
  imports Trigger_Engine Osc_Framing
begin

text \<open>
  How bytes from outside become input events: the text parser shared by the UDP and serial endpoints
  (\<open>io/text_event_parsing.py\<close>), the line buffer of the serial one (\<open>io/serial_endpoint.py\<close>), and the OSC and
  UDP datagrams (\<open>io/osc_endpoint.py\<close>, \<open>io/udp_endpoint.py\<close>). The parameters are \<open>json.loads\<close> (the value, or
  nothing for text that is not JSON), \<open>str\<close> of a JSON value, \<open>str.strip\<close>, and \<open>bytes.decode\<close>.
  Sockets, ports and threads are in \<open>Endpoint_Lifecycle\<close>.
\<close>

section \<open>Text\<close>

record text_env =
  env_json_loads :: "string \<Rightarrow> pyval option"
  env_str :: "pyval \<Rightarrow> string"
  env_strip :: "string \<Rightarrow> string"
  env_decode :: "bytes \<Rightarrow> string"

text \<open>
  The type and value that the payload gives, or nothing when \<open>payload["type"]\<close> or \<open>payload.get\<close> raises
  one of the exceptions that are caught.
\<close>

definition payload_event :: "text_env \<Rightarrow> pyval \<Rightarrow> (string \<times> pyval) option" where
  "payload_event env payload =
     (case payload of
        PDict d \<Rightarrow>
          (case dget d ''type'' of
             None \<Rightarrow> None
           | Some t \<Rightarrow> Some (env_str env t, case dget d ''value'' of None \<Rightarrow> PBool True | Some v \<Rightarrow> v))
      | _ \<Rightarrow> None)"

text \<open>\<open>InputEvent(...)\<close> raises \<open>ValidationError\<close> for a value that is not a number, string or boolean.\<close>

fun event_value_ok :: "pyval \<Rightarrow> bool" where
  "event_value_ok PNone \<longleftrightarrow> False"
| "event_value_ok (PList _) \<longleftrightarrow> False"
| "event_value_ok (PDict _) \<longleftrightarrow> False"
| "event_value_ok _ \<longleftrightarrow> True"

definition input_event_of :: "string \<Rightarrow> string \<Rightarrow> pyval \<Rightarrow> time \<Rightarrow> unit + input_event" where
  "input_event_of src ty v now =
     (if event_value_ok v
      then Inr \<lparr>ie_source = src, ie_type = ty, ie_value = v, ie_occurred_at = now\<rparr> else Inl ())"

definition parse_text_event :: "text_env \<Rightarrow> string \<Rightarrow> time \<Rightarrow> string \<Rightarrow> unit + input_event option" where
  "parse_text_event env src now text =
     (let trimmed = env_strip env text
      in if trimmed = [] then Inr None
         else let (ty, v) =
                (case Option.bind (env_json_loads env trimmed) (payload_event env) of
                   Some tv \<Rightarrow> tv
                 | None \<Rightarrow> (trimmed, PBool True))
              in (case input_event_of src ty v now of Inl _ \<Rightarrow> Inl () | Inr ev \<Rightarrow> Inr (Some ev)))"

section \<open>The serial line buffer\<close>

definition MAX_LINE_BYTES :: nat where "MAX_LINE_BYTES = 4096"

definition NEWLINE :: "8 word" where "NEWLINE = 0x0A"

text \<open>\<open>while b"\n" in buffer\<close>: the complete lines of the buffer and what is left of it.\<close>

function split_lines :: "bytes \<Rightarrow> bytes list \<times> bytes" where
  "split_lines buffer =
     (if NEWLINE \<in> set buffer
      then let line = takeWhile (\<lambda>b. b \<noteq> NEWLINE) buffer; rest = tl (dropWhile (\<lambda>b. b \<noteq> NEWLINE) buffer);
               (lines, left) = split_lines rest
           in (line # lines, left)
      else ([], buffer))"
  by auto
termination
proof (relation "measure length")
  fix buffer :: bytes and x y
  assume "NEWLINE \<in> set buffer" and "y = tl (dropWhile (\<lambda>b. b \<noteq> NEWLINE) buffer)"
  then have "dropWhile (\<lambda>b. b \<noteq> NEWLINE) buffer \<noteq> []"
    by (auto simp: dropWhile_eq_Nil_conv)
  moreover have "length (dropWhile (\<lambda>b. b \<noteq> NEWLINE) buffer) \<le> length buffer"
    by (rule length_dropWhile_le)
  ultimately show "(y, buffer) \<in> measure length"
    using \<open>y = _\<close> by (cases "dropWhile (\<lambda>b. b \<noteq> NEWLINE) buffer") auto
qed simp

declare split_lines.simps [simp del]

text \<open>One chunk that \<open>read(256)\<close> returned: the lines handled and the new buffer.\<close>

definition take_chunk :: "bytes \<Rightarrow> bytes \<Rightarrow> bytes list \<times> bytes" where
  "take_chunk chunk buffer =
     (if chunk = [] then ([], buffer)
      else let joined = buffer @ chunk;
               kept = (if length joined > MAX_LINE_BYTES then last_n MAX_LINE_BYTES joined else joined)
           in split_lines kept)"

text \<open>
  The worker thread: it handles each line; a line whose event cannot be built raises out of the loop,
  and the thread ends (\<open>None\<close>). \<open>_dispatch\<close> gets the events in order.
\<close>

fun handle_lines :: "(bytes \<Rightarrow> unit + input_event option) \<Rightarrow> bytes list \<Rightarrow> input_event list \<times> bool" where
  "handle_lines parse [] = ([], True)"
| "handle_lines parse (line # lines) =
     (case parse line of
        Inl _ \<Rightarrow> ([], False)
      | Inr None \<Rightarrow> handle_lines parse lines
      | Inr (Some ev) \<Rightarrow> (let (evs, alive) = handle_lines parse lines in (ev # evs, alive)))"

definition handle_line :: "text_env \<Rightarrow> string \<Rightarrow> time \<Rightarrow> bytes \<Rightarrow> unit + input_event option" where
  "handle_line env src now line = parse_text_event env src now (env_decode env line)"

fun serial_worker :: "text_env \<Rightarrow> string \<Rightarrow> (time \<times> bytes) list \<Rightarrow> bytes \<Rightarrow> input_event list \<times> bytes option" where
  "serial_worker env src [] buffer = ([], Some buffer)"
| "serial_worker env src ((now, chunk) # chunks) buffer =
     (let (lines, buffer') = take_chunk chunk buffer; (evs, alive) = handle_lines (handle_line env src now) lines
      in if alive then let (evs', left) = serial_worker env src chunks buffer' in (evs @ evs', left)
         else (evs, None))"

section \<open>Datagrams\<close>

text \<open>
  \<open>datagram_received\<close> of the UDP endpoint: the event handed to \<open>on_event\<close>, if any. An exception goes to
  the event loop, which drops the datagram.
\<close>

definition udp_datagram :: "text_env \<Rightarrow> string \<Rightarrow> time \<Rightarrow> bytes \<Rightarrow> input_event option" where
  "udp_datagram env src now data =
     (case parse_text_event env src now (env_decode env data) of Inl _ \<Rightarrow> None | Inr ev \<Rightarrow> ev)"

text \<open>
  The value of an OSC argument; \<open>float_value\<close> is how a float is kept in an event, where infinities and NaN
  have no rational of their own. A blob or nil gives no event.
\<close>

fun osc_event_value :: "(pyfloat \<Rightarrow> rat) \<Rightarrow> osc_value \<Rightarrow> pyval option" where
  "osc_event_value float_value (OBool b) = Some (PBool b)"
| "osc_event_value float_value (OInt n) = Some (PInt n)"
| "osc_event_value float_value (OFloat x) = Some (PFloat (float_value x))"
| "osc_event_value float_value (OStr s) = Some (PStr s)"
| "osc_event_value float_value (OBlob _) = None"
| "osc_event_value float_value ONone = None"

definition osc_datagram :: "(pyfloat \<Rightarrow> rat) \<Rightarrow> string \<Rightarrow> time \<Rightarrow> bytes \<Rightarrow> input_event option" where
  "osc_datagram float_value src now data =
     (case parse_osc_message data of
        Inl _ \<Rightarrow> None
      | Inr (address, args) \<Rightarrow>
          map_option (\<lambda>v. \<lparr>ie_source = src, ie_type = dropWhile (\<lambda>c. c = CHR ''/'') address,
              ie_value = v, ie_occurred_at = now\<rparr>)
            (case args of [] \<Rightarrow> Some (PBool True) | arg # _ \<Rightarrow> osc_event_value float_value arg))"

section \<open>What the line buffer does\<close>

lemma split_lines_none: "NEWLINE \<notin> set buffer \<Longrightarrow> split_lines buffer = ([], buffer)"
  by (subst split_lines.simps) simp

lemma split_lines_line:
  "NEWLINE \<notin> set line \<Longrightarrow>
   split_lines (line @ NEWLINE # rest) = (let (lines, left) = split_lines rest in (line # lines, left))"
proof -
  assume "NEWLINE \<notin> set line"
  then have "\<And>b. b \<in> set line \<Longrightarrow> b \<noteq> NEWLINE" by blast
  then have "takeWhile (\<lambda>b. b \<noteq> NEWLINE) (line @ NEWLINE # rest) = line"
    "dropWhile (\<lambda>b. b \<noteq> NEWLINE) (line @ NEWLINE # rest) = NEWLINE # rest"
    by (simp_all add: takeWhile_append2 dropWhile_append2)
  then show ?thesis by (subst split_lines.simps) simp
qed

lemma split_lines_cases:
  obtains (none) "NEWLINE \<notin> set buffer"
    | (line) line rest where "buffer = line @ NEWLINE # rest" "NEWLINE \<notin> set line" "length rest < length buffer"
  using split_list_first [of NEWLINE buffer] by fastforce

text \<open>Splitting what is left together with what comes next is splitting the whole.\<close>

lemma split_lines_append:
  "split_lines (b @ c) =
     (fst (split_lines b) @ fst (split_lines (snd (split_lines b) @ c)), snd (split_lines (snd (split_lines b) @ c)))"
proof (induction b rule: length_induct)
  case (1 b)
  show ?case
  proof (cases b rule: split_lines_cases)
    case none
    then show ?thesis by (simp add: split_lines_none)
  next
    case (line l r)
    with 1 have "split_lines (r @ c) =
        (fst (split_lines r) @ fst (split_lines (snd (split_lines r) @ c)), snd (split_lines (snd (split_lines r) @ c)))"
      by blast
    with line show ?thesis by (simp add: split_lines_line split_beta Let_def)
  qed
qed

lemma split_lines_parts:
  "concat (map (\<lambda>l. l @ [NEWLINE]) (fst (split_lines b))) @ snd (split_lines b) = b \<and>
   NEWLINE \<notin> set (snd (split_lines b)) \<and> (\<forall>l \<in> set (fst (split_lines b)). NEWLINE \<notin> set l)"
proof (induction b rule: length_induct)
  case (1 b)
  show ?case
  proof (cases b rule: split_lines_cases)
    case none
    then show ?thesis by (simp add: split_lines_none)
  next
    case (line l r)
    with 1 have "concat (map (\<lambda>l. l @ [NEWLINE]) (fst (split_lines r))) @ snd (split_lines r) = r \<and>
        NEWLINE \<notin> set (snd (split_lines r)) \<and> (\<forall>l \<in> set (fst (split_lines r)). NEWLINE \<notin> set l)"
      by blast
    with line show ?thesis by (simp add: split_lines_line split_beta Let_def)
  qed
qed

lemma split_lines_left_length: "length (snd (split_lines b)) \<le> length b"
  using split_lines_parts [of b] by (metis length_append le_add2)

lemma take_chunk_bounded: "length (snd (take_chunk chunk buffer)) \<le> max MAX_LINE_BYTES (length buffer)"
proof -
  let ?kept = "if length (buffer @ chunk) > MAX_LINE_BYTES then last_n MAX_LINE_BYTES (buffer @ chunk) else buffer @ chunk"
  have "length ?kept \<le> MAX_LINE_BYTES" by simp
  with split_lines_left_length [of ?kept] have "length (snd (split_lines ?kept)) \<le> MAX_LINE_BYTES"
    by linarith
  moreover have "take_chunk chunk buffer = (if chunk = [] then ([], buffer) else split_lines ?kept)"
    by (simp add: take_chunk_def Let_def)
  ultimately show ?thesis by (cases "chunk = []") (simp_all only: if_True if_False snd_conv le_max_iff_disj, simp_all)
qed

text \<open>The pieces between newlines that a stream is made of, the last one included.\<close>

definition pieces :: "bytes \<Rightarrow> bytes list" where
  "pieces b = fst (split_lines b) @ [snd (split_lines b)]"

lemma pieces_append:
  assumes "NEWLINE \<notin> set left"
  shows "\<exists>p ps. pieces (left @ c) = (left @ p) # ps"
proof (cases c rule: split_lines_cases)
  case none
  with assms show ?thesis by (simp add: pieces_def split_lines_none)
next
  case (line l r)
  then have "pieces (left @ c) = (left @ l) # pieces r"
    using split_lines_line [of "left @ l" r] assms by (simp add: pieces_def split_beta Let_def)
  then show ?thesis by blast
qed

lemma take_chunk_short:
  assumes "length buffer + length chunk \<le> MAX_LINE_BYTES" and "NEWLINE \<notin> set buffer"
  shows "take_chunk chunk buffer = split_lines (buffer @ chunk)"
  using assms by (simp add: take_chunk_def Let_def split_lines_none)

lemma split_lines_count: "length (fst (split_lines b)) = count_list b NEWLINE"
proof (induction b rule: length_induct)
  case (1 b)
  show ?case
  proof (cases b rule: split_lines_cases)
    case none
    then show ?thesis by (simp add: split_lines_none)
  next
    case (line l r)
    with 1 show ?thesis by (simp add: split_lines_line split_beta Let_def)
  qed
qed

text \<open>
  What becomes of lines that are handled at given times: the events in order, up to the first line whose event cannot
  be built; and whether there was none.
\<close>

fun timed_events :: "text_env \<Rightarrow> string \<Rightarrow> (time \<times> bytes) list \<Rightarrow> input_event list \<times> bool" where
  "timed_events env src [] = ([], True)"
| "timed_events env src ((now, line) # rest) =
     (case parse_text_event env src now (env_decode env line) of
        Inl _ \<Rightarrow> ([], False)
      | Inr ev \<Rightarrow> apfst ((@) (case ev of None \<Rightarrow> [] | Some e \<Rightarrow> [e])) (timed_events env src rest))"

text \<open>The time at which each line of a stream is complete: that of the chunk with its newline.\<close>

definition line_times :: "(time \<times> bytes) list \<Rightarrow> time list" where
  "line_times chunks = concat (map (\<lambda>(now, chunk). replicate (count_list chunk NEWLINE) now) chunks)"

lemma timed_events_append:
  "timed_events env src (xs @ ys) =
     (if snd (timed_events env src xs) then apfst ((@) (fst (timed_events env src xs))) (timed_events env src ys)
      else timed_events env src xs)"
  by (induction env src xs rule: timed_events.induct) (auto simp: prod_eq_iff split: sum.split)

lemma handle_lines_timed:
  "handle_lines (handle_line env src now) lines = timed_events env src (zip (replicate (length lines) now) lines)"
  by (induction lines) (auto simp: handle_line_def split_beta Let_def prod_eq_iff split: sum.split option.split)

lemma serial_worker_stream:
  assumes "\<forall>(now, chunk) \<in> set chunks. length chunk \<le> 256"
    and "\<forall>piece \<in> set (pieces (buffer @ concat (map snd chunks))). length piece \<le> MAX_LINE_BYTES - 256"
    and "NEWLINE \<notin> set buffer"
  shows "serial_worker env src chunks buffer =
    (let (lines, left) = split_lines (buffer @ concat (map snd chunks));
         (evs, alive) = timed_events env src (zip (line_times chunks) lines)
     in (evs, if alive then Some left else None))"
  using assms
proof (induction chunks arbitrary: buffer)
  case Nil
  then show ?case by (simp add: split_lines_none line_times_def)
next
  case (Cons c chunks)
  obtain now chunk where c: "c = (now, chunk)" by (cases c)
  let ?lines = "fst (split_lines (buffer @ chunk))" and ?left = "snd (split_lines (buffer @ chunk))"
  let ?rest = "concat (map snd chunks)"
  obtain p ps where "pieces (buffer @ concat (map snd (c # chunks))) = (buffer @ p) # ps"
    using pieces_append [OF Cons.prems(3)] by blast
  with Cons.prems(2) have "length buffer \<le> MAX_LINE_BYTES - 256"
    by (metis length_append add_leD1 list.set_intros(1))
  moreover have "length chunk \<le> 256" using Cons.prems(1) c by simp
  moreover have "256 \<le> MAX_LINE_BYTES" by (simp add: MAX_LINE_BYTES_def)
  ultimately have take: "take_chunk chunk buffer = (?lines, ?left)"
    using Cons.prems(3) by (simp add: take_chunk_short)
  have app: "split_lines (buffer @ concat (map snd (c # chunks))) =
      (?lines @ fst (split_lines (?left @ ?rest)), snd (split_lines (?left @ ?rest)))"
    using split_lines_append [of "buffer @ chunk" ?rest] by (simp add: c)
  have ih: "serial_worker env src chunks ?left =
    (let (lines, left) = split_lines (?left @ ?rest); (evs, alive) = timed_events env src (zip (line_times chunks) lines)
     in (evs, if alive then Some left else None))"
  proof (rule Cons.IH)
    show "\<forall>piece \<in> set (pieces (?left @ ?rest)). length piece \<le> MAX_LINE_BYTES - 256"
      using Cons.prems(2) unfolding pieces_def app by auto
  qed (use Cons.prems(1) split_lines_parts [of "buffer @ chunk"] in auto)
  have "length ?lines = count_list chunk NEWLINE"
    using Cons.prems(3) by (simp add: split_lines_count)
  then have "zip (line_times (c # chunks)) (?lines @ fst (split_lines (?left @ ?rest))) =
      zip (replicate (length ?lines) now) ?lines @ zip (line_times chunks) (fst (split_lines (?left @ ?rest)))"
    by (simp add: line_times_def c)
  then show ?case
    unfolding app by (simp add: c take ih handle_lines_timed timed_events_append split_beta Let_def apfst_def map_prod_def)
qed

lemma serial_worker_bounded:
  assumes "length buffer \<le> MAX_LINE_BYTES" and "snd (serial_worker env src chunks buffer) = Some left"
  shows "length left \<le> MAX_LINE_BYTES"
  using assms
proof (induction chunks arbitrary: buffer)
  case (Cons c chunks)
  obtain now chunk where c: "c = (now, chunk)" by (cases c)
  have "length (snd (take_chunk chunk buffer)) \<le> MAX_LINE_BYTES"
    using take_chunk_bounded [of chunk buffer] Cons.prems(1) by simp
  moreover have "snd (serial_worker env src chunks (snd (take_chunk chunk buffer))) = Some left"
    using Cons.prems(2) by (auto simp: c split_beta Let_def split: if_splits)
  ultimately show ?case by (rule Cons.IH)
qed simp

text \<open>
  \<^bold>\<open>C39\<close> The serial input does not depend on how the bytes arrive: as long as no piece of text between
  newlines is longer than 3840 bytes, the worker handles exactly the newline-terminated lines of the stream, in
  order, however it is cut into chunks of at most 256 bytes. Each line becomes its event, stamped with the time
  of the chunk that has its newline, or none if it is blank; what is left in the buffer is the unfinished line. A
  line whose event cannot be built ends the worker: the lines before it became events, none after it does. And
  whatever arrives, the buffer stays within 4096 bytes.
\<close>

theorem serial_lines_exact:
  assumes "\<forall>(now, chunk) \<in> set chunks. length chunk \<le> 256"
    and "\<forall>piece \<in> set (pieces (concat (map snd chunks))). length piece \<le> MAX_LINE_BYTES - 256"
  shows "(\<exists>lines left.
      concat (map snd chunks) = concat (map (\<lambda>l. l @ [NEWLINE]) lines) @ left \<and>
      NEWLINE \<notin> set left \<and> (\<forall>l \<in> set lines. NEWLINE \<notin> set l) \<and> length (line_times chunks) = length lines \<and>
      serial_worker env src chunks [] =
        (let (evs, alive) = timed_events env src (zip (line_times chunks) lines) in (evs, if alive then Some left else None))) \<and>
    (snd (serial_worker env src chunks' []) = Some left' \<longrightarrow> length left' \<le> MAX_LINE_BYTES)"
proof -
  let ?stream = "concat (map snd chunks)"
  let ?lines = "fst (split_lines ?stream)" and ?left = "snd (split_lines ?stream)"
  have "length (line_times chunks) = count_list ?stream NEWLINE"
    by (induction chunks) (auto simp: line_times_def)
  then have "length (line_times chunks) = length ?lines"
    by (simp add: split_lines_count)
  moreover have "serial_worker env src chunks [] =
      (let (evs, alive) = timed_events env src (zip (line_times chunks) ?lines) in (evs, if alive then Some ?left else None))"
    using serial_worker_stream [of chunks "[]"] assms by (simp add: split_beta Let_def)
  ultimately show ?thesis
    using split_lines_parts [of ?stream] serial_worker_bounded [of "[]" env src chunks']
    by (intro conjI exI [of _ ?lines] exI [of _ ?left]) simp_all
qed

definition plain_text_env :: text_env where
  "plain_text_env = \<lparr>env_json_loads = (\<lambda>_. None), env_str = (\<lambda>_. []), env_strip = (\<lambda>t. t),
     env_decode = map (\<lambda>b. char_of (unat b))\<rparr>"

text \<open>The line \<open>go\<close> in two chunks, and the beginning of another.\<close>

theorem serial_lines_exact_witness:
  "map ie_occurred_at (fst (serial_worker plain_text_env ''serial'' [(0, [0x67]), (1, [0x6F, NEWLINE, 0x68])] [])) = [1] \<and>
   length (the (snd (serial_worker plain_text_env ''serial'' [(0, [0x67]), (1, [0x6F, NEWLINE, 0x68])] []))) \<le> MAX_LINE_BYTES"
proof -
  let ?chunks = "[(0, [0x67]), (1, [0x6F, NEWLINE, 0x68])] :: (time \<times> bytes) list"
  have "split_lines [0x67, 0x6F, NEWLINE, 0x68] = ([[0x67, 0x6F]], [0x68])"
    using split_lines_line [of "[0x67, 0x6F]" "[0x68]"] by (simp add: split_lines_none NEWLINE_def)
  then have "pieces (concat (map snd ?chunks)) = [[0x67, 0x6F], [0x68]]"
    by (simp add: pieces_def)
  then have small: "\<forall>piece \<in> set (pieces (concat (map snd ?chunks))). length piece \<le> MAX_LINE_BYTES - 256"
    by (simp add: MAX_LINE_BYTES_def)
  have times: "line_times ?chunks = [1]" by (simp add: line_times_def NEWLINE_def)
  have chunks: "\<forall>(now, chunk) \<in> set ?chunks. length chunk \<le> 256" by simp
  from conjunct1 [OF serial_lines_exact [OF chunks small, where env = plain_text_env and src = "''serial''"]] obtain lines left where
    cut: "concat (map snd ?chunks) = concat (map (\<lambda>l. l @ [NEWLINE]) lines) @ left" "length (line_times ?chunks) = length lines"
    and run: "serial_worker plain_text_env ''serial'' ?chunks [] =
      (let (evs, alive) = timed_events plain_text_env ''serial'' (zip (line_times ?chunks) lines)
       in (evs, if alive then Some left else None))"
    by (elim exE conjE)
  from cut(2) times obtain l where l: "lines = [l]" by (cases lines) auto
  have "length left \<le> 4" using arg_cong [OF cut(1), of length] by (simp add: l)
  moreover have "l \<noteq> []" using cut(1) by (auto simp: l NEWLINE_def)
  ultimately show ?thesis
    unfolding run times by (simp add: l plain_text_env_def parse_text_event_def input_event_of_def MAX_LINE_BYTES_def)
qed

text \<open>
  A JSON line whose value is null, a list or an object ends the serial input for good: the event
  cannot be built, the exception is raised outside the \<open>try\<close>, the worker thread dies, and no later
  line, however well formed, becomes an event.
\<close>

theorem bad_value_ends_serial_input:
  assumes "env_json_loads env (env_strip env (env_decode env line)) = Some (PDict d)"
    and "env_strip env (env_decode env line) \<noteq> []"
    and "dget d ''type'' = Some t" and "dget d ''value'' = Some v" and "\<not> event_value_ok v"
    and "take_chunk chunk buffer = (line # lines, left)"
  shows "serial_worker env src ((now, chunk) # chunks) buffer = ([], None)"
  using assms
  by (simp add: handle_line_def parse_text_event_def payload_event_def input_event_of_def Let_def)

definition demo_text_env :: text_env where
  "demo_text_env = \<lparr>env_json_loads = (\<lambda>_. Some (PDict [(''type'', PStr ''go''), (''value'', PNone)])),
     env_str = (\<lambda>_. ''go''), env_strip = (\<lambda>t. t), env_decode = map (\<lambda>b. char_of (unat b))\<rparr>"

theorem bad_value_ends_serial_input_witness:
  "serial_worker demo_text_env ''serial'' [(0, [0x7B, 0x7D, NEWLINE]), (1, [0x67, 0x6F, NEWLINE])] [] = ([], None)"
proof -
  have "take_chunk [0x7B, 0x7D, NEWLINE] [] = ([[0x7B, 0x7D]], [])"
    using split_lines_line [of "[0x7B, 0x7D]" "[]"]
    by (simp add: take_chunk_def split_lines_none NEWLINE_def MAX_LINE_BYTES_def Let_def)
  then show ?thesis
    using bad_value_ends_serial_input [of demo_text_env "[0x7B, 0x7D]"
        "[(''type'', PStr ''go''), (''value'', PNone)]" "PStr ''go''" PNone "[0x7B, 0x7D, NEWLINE]" "[]" "[]" "[]"]
    by (simp add: demo_text_env_def)
qed

end
