(* ===== verification/Asyncio_Bridge.thy ===== *)
theory Asyncio_Bridge
  imports Contracts "HOL-Library.Multiset"
begin

text \<open>
  The bridge between the Qt thread and the event loop (\<open>ui/asyncio_bridge.py\<close>). Two threads share the state:
  the loop's thread runs iterations, each over the callbacks that were ready when it began, and the Qt
  thread starts coroutines and delivers signals. \<open>run_coroutine_threadsafe\<close> makes the loop create the task
  in one callback and take its first step in another; when the task has ended, its future and with it the
  signal come in a third. What a step of a coroutine does is an input.
\<close>

section \<open>State\<close>

datatype coro_end = Coro_returned pyval | Coro_raised string

datatype loop_item =
    Start_task nat
  | Step_task nat
  | Notify nat coro_end
  | Stop_loop

record bridge =
  ab_next :: nat
  ab_relays :: "nat list"
  ab_ready :: "loop_item list"
  ab_suspended :: "nat list"
  ab_signals :: "(nat \<times> coro_end) list"
  ab_stopping :: bool
  ab_alive :: bool
  ab_steps :: "nat list"
  ab_delivered :: "(nat \<times> coro_end) list"

definition new_bridge :: bridge where
  "new_bridge = \<lparr>ab_next = 0, ab_relays = [], ab_ready = [], ab_suspended = [], ab_signals = [],
     ab_stopping = False, ab_alive = True, ab_steps = [], ab_delivered = []\<rparr>"

text \<open>The arguments of \<open>on_done\<close>: \<open>PNone\<close> is Python's \<open>None\<close>.\<close>

fun on_done_args :: "coro_end \<Rightarrow> pyval \<times> pyval" where
  "on_done_args (Coro_returned v) = (v, PNone)"
| "on_done_args (Coro_raised m) = (PNone, PStr m)"

section \<open>The Qt thread\<close>

text \<open>\<open>run\<close>, whose \<open>make_coro\<close> returns a coroutine or raises (then \<open>run\<close> raises, and the relay stays).\<close>

definition bridge_run :: "bool \<Rightarrow> bridge \<Rightarrow> bridge" where
  "bridge_run made b =
     (let b1 = b\<lparr>ab_next := Suc (ab_next b), ab_relays := ab_relays b @ [ab_next b]\<rparr>
      in if made then b1\<lparr>ab_ready := ab_ready b1 @ [Start_task (ab_next b)]\<rparr> else b1)"

definition bridge_stop :: "bridge \<Rightarrow> bridge" where
  "bridge_stop b = b\<lparr>ab_ready := ab_ready b @ [Stop_loop]\<rparr>"

text \<open>\<open>_deliver\<close>, called for the next queued signal.\<close>

definition deliver :: "bridge \<Rightarrow> bridge" where
  "deliver b =
     (case ab_signals b of
        [] \<Rightarrow> b
      | (i, out) # rest \<Rightarrow>
          b\<lparr>ab_signals := rest, ab_relays := remove1 i (ab_relays b), ab_delivered := ab_delivered b @ [(i, out)]\<rparr>)"

section \<open>The loop\<close>

text \<open>A step of a coroutine ends it (\<open>Some\<close>) or suspends it (\<open>None\<close>).\<close>

fun run_item :: "(nat \<Rightarrow> coro_end option) \<Rightarrow> loop_item \<Rightarrow> bridge \<Rightarrow> bridge" where
  "run_item step (Start_task i) b = b\<lparr>ab_ready := ab_ready b @ [Step_task i]\<rparr>"
| "run_item step (Step_task i) b =
     (let b1 = b\<lparr>ab_steps := ab_steps b @ [i]\<rparr>
      in case step i of
           None \<Rightarrow> b1\<lparr>ab_suspended := ab_suspended b1 @ [i]\<rparr>
         | Some out \<Rightarrow> b1\<lparr>ab_ready := ab_ready b1 @ [Notify i out]\<rparr>)"
| "run_item step (Notify i out) b = b\<lparr>ab_signals := ab_signals b @ [(i, out)]\<rparr>"
| "run_item step Stop_loop b = b\<lparr>ab_stopping := True\<rparr>"

definition iterate :: "(nat \<Rightarrow> coro_end option) \<Rightarrow> bridge \<Rightarrow> bridge" where
  "iterate step b =
     (if \<not> ab_alive b then b
      else let b1 = fold (run_item step) (ab_ready b) (b\<lparr>ab_ready := []\<rparr>)
           in if ab_stopping b1 then b1\<lparr>ab_alive := False\<rparr> else b1)"

text \<open>What a suspended coroutine waits for has come.\<close>

definition resume_task :: "nat \<Rightarrow> bridge \<Rightarrow> bridge" where
  "resume_task i b =
     (if ab_alive b \<and> i \<in> set (ab_suspended b)
      then b\<lparr>ab_suspended := remove1 i (ab_suspended b), ab_ready := ab_ready b @ [Step_task i]\<rparr> else b)"

datatype bridge_op =
    Br_run bool
  | Br_stop
  | Br_deliver
  | Br_iterate "nat \<Rightarrow> coro_end option"
  | Br_resume nat

fun bridge_perform :: "bridge_op \<Rightarrow> bridge \<Rightarrow> bridge" where
  "bridge_perform (Br_run made) b = bridge_run made b"
| "bridge_perform Br_stop b = bridge_stop b"
| "bridge_perform Br_deliver b = deliver b"
| "bridge_perform (Br_iterate step) b = iterate step b"
| "bridge_perform (Br_resume i) b = resume_task i b"

section \<open>Every coroutine is in one place\<close>

fun item_ids :: "loop_item \<Rightarrow> nat list" where
  "item_ids (Start_task i) = [i]"
| "item_ids (Step_task i) = [i]"
| "item_ids (Notify i _) = [i]"
| "item_ids Stop_loop = []"

definition places :: "bridge \<Rightarrow> nat list" where
  "places b = concat (map item_ids (ab_ready b)) @ ab_suspended b @ map fst (ab_signals b) @ map fst (ab_delivered b)"

lemmas bridge_defs = bridge_run_def bridge_stop_def deliver_def resume_task_def Let_def

definition bridge_inv :: "bridge \<Rightarrow> bool" where
  "bridge_inv b \<longleftrightarrow>
     distinct (places b) \<and> set (places b) \<subseteq> {..<ab_next b} \<and> set (ab_steps b) \<subseteq> {..<ab_next b} \<and>
     ab_relays b = filter (\<lambda>i. i \<notin> fst ` set (ab_delivered b)) [0..<ab_next b]"

lemma run_item_places:
  "mset (places (run_item step it b)) = mset (item_ids it) + mset (places b)"
  "ab_relays (run_item step it b) = ab_relays b" "ab_next (run_item step it b) = ab_next b"
  "ab_delivered (run_item step it b) = ab_delivered b"
  by (cases it; simp add: places_def Let_def split: option.split)+

lemma run_items_places:
  "mset (places (fold (run_item step) its b)) = mset (concat (map item_ids its)) + mset (places b)"
  "ab_relays (fold (run_item step) its b) = ab_relays b" "ab_next (fold (run_item step) its b) = ab_next b"
  "ab_delivered (fold (run_item step) its b) = ab_delivered b"
  by (induction its arbitrary: b) (simp_all add: run_item_places)

lemma run_items_steps:
  "set (ab_steps (fold (run_item step) its b)) \<subseteq> set (ab_steps b) \<union> set (concat (map item_ids its))"
proof (induction its arbitrary: b)
  case (Cons it its)
  have "set (ab_steps (run_item step it b)) \<subseteq> set (ab_steps b) \<union> set (item_ids it)"
    by (cases it) (auto simp: Let_def split: option.split)
  with Cons [of "run_item step it b"] show ?case by auto
qed simp

lemma iterate_places:
  "mset (places (iterate step b)) = mset (places b)"
  "ab_relays (iterate step b) = ab_relays b" "ab_next (iterate step b) = ab_next b"
  "ab_delivered (iterate step b) = ab_delivered b"
proof -
  have alive: "places (b\<lparr>ab_alive := x\<rparr>) = places b" for x b by (simp add: places_def)
  have "mset (concat (map item_ids (ab_ready b))) + mset (places (b\<lparr>ab_ready := []\<rparr>)) = mset (places b)"
    by (simp add: places_def)
  then show "mset (places (iterate step b)) = mset (places b)"
    by (simp add: iterate_def Let_def alive run_items_places)
qed (simp_all add: iterate_def Let_def run_items_places)

lemma remove1_filter_upt:
  assumes "i \<notin> D"
  shows "remove1 i (filter (\<lambda>j. j \<notin> D) [0..<n]) = filter (\<lambda>j. j \<notin> insert i D) [0..<n]"
  using assms by (simp add: distinct_remove1_removeAll removeAll_filter_not_eq) (rule filter_cong, auto)

text \<open>A step that moves coroutines between places keeps the invariant.\<close>

lemma bridge_inv_moved:
  assumes inv: "bridge_inv b" and moved: "mset (places b') = mset (places b)" and "ab_next b' = ab_next b"
    and steps: "set (ab_steps b') \<subseteq> set (ab_steps b) \<union> set (places b)"
    and "ab_relays b' = filter (\<lambda>i. i \<notin> fst ` set (ab_delivered b')) [0..<ab_next b']"
  shows "bridge_inv b'"
proof -
  have "distinct (places b') = distinct (places b)" using moved by (rule mset_eq_imp_distinct_iff)
  moreover have "set (places b') = set (places b)" using moved by (metis set_mset_mset)
  moreover have "set (ab_steps b') \<subseteq> {..<ab_next b}"
    using steps inv unfolding bridge_inv_def by blast
  ultimately show ?thesis using assms(3,5) inv by (simp add: bridge_inv_def)
qed

lemma bridge_inv_called: "bridge_inv b \<Longrightarrow> bridge_inv (bridge_run made b)"
proof -
  assume inv: "bridge_inv b"
  then have new: "ab_next b \<notin> set (places b)" by (auto simp: bridge_inv_def)
  have "\<exists>k. mset (places (bridge_run made b)) = mset (replicate k (ab_next b)) + mset (places b) \<and> k \<le> 1"
    by (cases made) (auto simp: bridge_run_def places_def Let_def intro: exI [of _ 0] exI [of _ 1])
  then obtain k where k: "mset (places (bridge_run made b)) = mset (replicate k (ab_next b) @ places b)" "k \<le> 1" by auto
  have "distinct (places (bridge_run made b)) = distinct (replicate k (ab_next b) @ places b)"
    using k(1) by (rule mset_eq_imp_distinct_iff)
  moreover have "set (places (bridge_run made b)) = set (replicate k (ab_next b) @ places b)"
    using k(1) by (metis set_mset_mset)
  moreover have "distinct (replicate k (ab_next b) @ places b)"
    using inv new k(2) by (cases k) (auto simp: bridge_inv_def)
  moreover have "set (replicate k (ab_next b) @ places b) \<subseteq> {..<Suc (ab_next b)}"
    using inv by (auto simp: bridge_inv_def less_Suc_eq)
  moreover have "ab_next b \<notin> fst ` set (ab_delivered b)" using new by (auto simp: places_def)
  moreover have "ab_next (bridge_run made b) = Suc (ab_next b)" "ab_steps (bridge_run made b) = ab_steps b"
    "ab_delivered (bridge_run made b) = ab_delivered b" "ab_relays (bridge_run made b) = ab_relays b @ [ab_next b]"
    by (simp_all add: bridge_run_def Let_def)
  ultimately show "bridge_inv (bridge_run made b)"
    using inv unfolding bridge_inv_def by (simp add: less_Suc_eq subset_iff)
qed

lemma bridge_inv_step:
  assumes inv: "bridge_inv b"
  shows "bridge_inv (bridge_perform p b)"
proof (cases p)
  case (Br_run made)
  with bridge_inv_called [OF inv] show ?thesis by simp
next
  case Br_stop
  with inv show ?thesis by (simp add: bridge_defs bridge_inv_def places_def)
next
  case Br_deliver
  show ?thesis
  proof (cases "ab_signals b")
    case (Cons s rest)
    obtain i out where s: "s = (i, out)" by (cases s)
    have "i \<notin> fst ` set (ab_delivered b)" using inv Cons s by (auto simp: bridge_inv_def places_def)
    moreover have "ab_relays b = filter (\<lambda>i. i \<notin> fst ` set (ab_delivered b)) [0..<ab_next b]"
      using inv by (simp add: bridge_inv_def)
    ultimately have "ab_relays (deliver b) = filter (\<lambda>i. i \<notin> fst ` set (ab_delivered (deliver b))) [0..<ab_next (deliver b)]"
      by (simp add: deliver_def Cons s remove1_filter_upt insert_commute)
    moreover have "mset (places (deliver b)) = mset (places b)" "ab_next (deliver b) = ab_next b"
      "set (ab_steps (deliver b)) \<subseteq> set (ab_steps b) \<union> set (places b)"
      by (auto simp: deliver_def Cons s places_def)
    ultimately show ?thesis
      unfolding Br_deliver bridge_perform.simps by (intro bridge_inv_moved [OF inv])
  qed (use inv in \<open>simp add: Br_deliver deliver_def\<close>)
next
  case (Br_iterate step)
  have "set (ab_steps (iterate step b)) \<subseteq> set (ab_steps b) \<union> set (places b)"
    using run_items_steps [of step "ab_ready b" "b\<lparr>ab_ready := []\<rparr>"] by (auto simp: iterate_def places_def Let_def)
  with inv show ?thesis
    by (intro bridge_inv_moved [OF inv]) (simp_all add: Br_iterate iterate_places bridge_inv_def)
next
  case (Br_resume i)
  have "i \<in> set (ab_suspended b) \<Longrightarrow> mset (ab_suspended b) = add_mset i (mset (remove1 i (ab_suspended b)))"
    by simp
  then have "mset (places (resume_task i b)) = mset (places b)" "set (ab_steps (resume_task i b)) \<subseteq> set (ab_steps b) \<union> set (places b)"
    by (simp_all add: resume_task_def places_def)
  moreover have "ab_next (resume_task i b) = ab_next b" "ab_relays (resume_task i b) = ab_relays b"
    "ab_delivered (resume_task i b) = ab_delivered b" by (simp_all add: resume_task_def)
  ultimately show ?thesis
    using inv unfolding Br_resume bridge_perform.simps by (intro bridge_inv_moved [OF inv]) (simp_all add: bridge_inv_def)
qed

lemma bridge_inv_run: "bridge_inv (fold bridge_perform ops new_bridge)"
proof -
  have "bridge_inv b \<Longrightarrow> bridge_inv (fold bridge_perform ops b)" for b
    by (induction ops arbitrary: b) (simp_all add: bridge_inv_step)
  moreover have "bridge_inv new_bridge" by (simp add: bridge_inv_def places_def new_bridge_def)
  ultimately show ?thesis by blast
qed

section \<open>What is delivered is what the coroutine did\<close>

fun item_end :: "loop_item \<Rightarrow> (nat \<times> coro_end) list" where
  "item_end (Notify i out) = [(i, out)]"
| "item_end _ = []"

definition ends :: "bridge \<Rightarrow> (nat \<times> coro_end) set" where
  "ends b = set (concat (map item_end (ab_ready b))) \<union> set (ab_signals b) \<union> set (ab_delivered b)"

lemma run_items_ends:
  "ends (fold (run_item step) its b) \<subseteq> set (concat (map item_end its)) \<union> ends b \<union> {(i, out). step i = Some out}"
proof (induction its arbitrary: b)
  case (Cons it its)
  have "ends (run_item step it b) \<subseteq> set (item_end it) \<union> ends b \<union> {(i, out). step i = Some out}"
    by (cases it) (auto simp: ends_def Let_def split: option.splits)
  with Cons [of "run_item step it b"] show ?case by auto
qed simp

lemma ends_step:
  "ends (bridge_perform p b) \<subseteq> ends b \<union> (case p of Br_iterate step \<Rightarrow> {(i, out). step i = Some out} | _ \<Rightarrow> {})"
proof (cases p)
  case (Br_iterate step)
  have "ends (iterate step b) \<subseteq> ends b \<union> ends (fold (run_item step) (ab_ready b) (b\<lparr>ab_ready := []\<rparr>))"
    by (auto simp: iterate_def ends_def Let_def)
  moreover have "set (concat (map item_end (ab_ready b))) \<union> ends (b\<lparr>ab_ready := []\<rparr>) \<subseteq> ends b"
    by (auto simp: ends_def)
  ultimately show ?thesis
    using run_items_ends [of step "ab_ready b" "b\<lparr>ab_ready := []\<rparr>"]
    by (simp only: Br_iterate bridge_perform.simps bridge_op.case) blast
qed (auto simp: bridge_defs ends_def split: list.splits)

lemma ends_run:
  "(i, out) \<in> ends (fold bridge_perform ops b) \<Longrightarrow> (i, out) \<in> ends b \<or> (\<exists>step. Br_iterate step \<in> set ops \<and> step i = Some out)"
proof (induction ops arbitrary: b)
  case (Cons p ops)
  from Cons.IH [of "bridge_perform p b"] Cons.prems ends_step [of p b] show ?case
    by (auto split: bridge_op.splits)
qed simp

text \<open>
  \<^bold>\<open>C33\<close> Results come back exactly once: however the two threads interleave, \<open>on_done\<close> has been called at most once
  for each \<open>run\<close>, only for a coroutine that ended, and with what it returned or raised; the relays kept
  alive are exactly those of the runs whose result has not been delivered, in their order.
\<close>

theorem results_delivered_once:
  "distinct (map fst (ab_delivered (fold bridge_perform ops new_bridge))) \<and>
   (\<forall>(i, out) \<in> set (ab_delivered (fold bridge_perform ops new_bridge)).
      \<exists>step. Br_iterate step \<in> set ops \<and> step i = Some out) \<and>
   ab_relays (fold bridge_perform ops new_bridge) =
     filter (\<lambda>i. i \<notin> fst ` set (ab_delivered (fold bridge_perform ops new_bridge)))
       [0..<ab_next (fold bridge_perform ops new_bridge)]"
proof (intro conjI)
  let ?b = "fold bridge_perform ops new_bridge"
  show "distinct (map fst (ab_delivered ?b))"
    using bridge_inv_run [of ops] by (simp add: bridge_inv_def places_def)
  show "ab_relays ?b = filter (\<lambda>i. i \<notin> fst ` set (ab_delivered ?b)) [0..<ab_next ?b]"
    using bridge_inv_run [of ops] by (simp add: bridge_inv_def)
  have "ends new_bridge = {}" by (simp add: ends_def new_bridge_def)
  then show "\<forall>(i, out) \<in> set (ab_delivered ?b). \<exists>step. Br_iterate step \<in> set ops \<and> step i = Some out"
    using ends_run [of _ _ ops new_bridge] by (fastforce simp: ends_def)
qed

text \<open>
  The docstring of \<open>run\<close> promises that exactly one of the two arguments is \<open>None\<close>; for a coroutine that
  returns \<open>None\<close> (\<open>arm\<close>, \<open>abort\<close>, \<open>press\<close>, \<open>aclose\<close>) both are.
\<close>

lemma both_arguments_none: "on_done_args (Coro_returned PNone) = (PNone, PNone)"
  by simp

section \<open>Closing\<close>

definition never_starts :: "nat \<Rightarrow> bridge \<Rightarrow> bool" where
  "never_starts i b \<longleftrightarrow>
     i \<notin> set (ab_steps b) \<and> i \<notin> set (ab_suspended b) \<and> i \<notin> fst ` set (ab_signals b) \<and> i \<in> set (ab_relays b) \<and>
     (\<forall>out. Notify i out \<notin> set (ab_ready b)) \<and>
     (ab_alive b \<longrightarrow> Stop_loop \<in> set (ab_ready b) \<and> Step_task i \<notin> set (ab_ready b))"

lemma run_items_never:
  assumes "Step_task i \<notin> set its" and "\<forall>out. Notify i out \<notin> set its"
    and "i \<notin> set (ab_steps b)" and "i \<notin> set (ab_suspended b)" and "i \<notin> fst ` set (ab_signals b)"
    and "\<forall>out. Notify i out \<notin> set (ab_ready b)"
  shows "i \<notin> set (ab_steps (fold (run_item step) its b)) \<and> i \<notin> set (ab_suspended (fold (run_item step) its b)) \<and>
    i \<notin> fst ` set (ab_signals (fold (run_item step) its b)) \<and>
    (\<forall>out. Notify i out \<notin> set (ab_ready (fold (run_item step) its b))) \<and>
    (Stop_loop \<in> set its \<or> ab_stopping b \<longrightarrow> ab_stopping (fold (run_item step) its b))"
  using assms
proof (induction its arbitrary: b)
  case (Cons it its)
  have "i \<notin> set (ab_steps (run_item step it b))" "i \<notin> set (ab_suspended (run_item step it b))"
    "i \<notin> fst ` set (ab_signals (run_item step it b))" "\<forall>out. Notify i out \<notin> set (ab_ready (run_item step it b))"
    "it = Stop_loop \<or> ab_stopping b \<longrightarrow> ab_stopping (run_item step it b)"
    using Cons.prems by (cases it; auto simp: Let_def split: option.split)+
  with Cons.IH [of "run_item step it b"] Cons.prems(1,2) show ?case by auto
qed simp

lemma never_starts_step:
  assumes "never_starts i b"
  shows "never_starts i (bridge_perform p b)"
proof (cases p)
  case (Br_iterate step)
  show ?thesis
  proof (cases "ab_alive b")
    case True
    with assms run_items_never [of i "ab_ready b" "b\<lparr>ab_ready := []\<rparr>" step] show ?thesis
      by (auto simp: Br_iterate iterate_def never_starts_def Let_def run_items_places)
  qed (use assms in \<open>simp add: Br_iterate iterate_def\<close>)
qed (use assms in \<open>auto simp: bridge_defs never_starts_def split: list.split dest: notin_set_remove1\<close>)

lemma never_starts_run: "never_starts i b \<Longrightarrow> never_starts i (fold bridge_perform ops b)"
  by (induction ops arbitrary: b) (simp_all add: never_starts_step)

text \<open>
  Closing a window: a coroutine scheduled just before \<open>stop\<close>, with no iteration of the loop between them, as
  \<open>closeEvent\<close> does with the client's \<open>aclose\<close>, never takes a step and its callback is never called, whatever
  happens afterwards: the loop ends in the iteration that creates its task.
\<close>

theorem closing_skips_last_coroutine:
  assumes "b = fold bridge_perform ops new_bridge"
  shows "let b1 = fold bridge_perform later (bridge_perform Br_stop (bridge_perform (Br_run True) b))
    in ab_next b \<notin> set (ab_steps b1) \<and> ab_next b \<notin> fst ` set (ab_delivered b1) \<and> ab_next b \<in> set (ab_relays b1)"
proof -
  let ?b = "bridge_perform Br_stop (bridge_perform (Br_run True) b)"
  have inv: "bridge_inv b" by (simp add: assms bridge_inv_run)
  have new: "ab_next b \<notin> set (places b)" "ab_next b \<notin> set (ab_steps b)"
    using inv by (auto simp: bridge_inv_def)
  have "item \<in> set (ab_ready b) \<Longrightarrow> ab_next b \<notin> set (item_ids item)" for item
    using new(1) by (auto simp: places_def)
  from this [of "Notify (ab_next b) _"] this [of "Step_task (ab_next b)"] new
  have "never_starts (ab_next b) ?b"
    by (auto simp: never_starts_def bridge_run_def bridge_stop_def places_def Let_def)
  from never_starts_run [OF this, of later] have never: "never_starts (ab_next b) (fold bridge_perform later ?b)" .
  have "fold bridge_perform later ?b = fold bridge_perform (ops @ [Br_run True, Br_stop] @ later) new_bridge"
    by (simp add: assms)
  then have "bridge_inv (fold bridge_perform later ?b)" by (simp only: bridge_inv_run)
  with never show ?thesis by (auto simp: never_starts_def bridge_inv_def Let_def)
qed

theorem closing_skips_last_coroutine_witness:
  "let b1 = fold bridge_perform [Br_iterate (\<lambda>i. Some (Coro_returned PNone)), Br_deliver]
     (bridge_perform Br_stop (bridge_perform (Br_run True) new_bridge))
   in ab_relays b1 = [0] \<and> ab_steps b1 = []"
proof -
  have "new_bridge = fold bridge_perform [] new_bridge" by simp
  from closing_skips_last_coroutine [OF this, of "[Br_iterate (\<lambda>i. Some (Coro_returned PNone)), Br_deliver]"]
  show ?thesis by code_simp
qed

definition demo_bridge_ops :: "bridge_op list" where
  "demo_bridge_ops = [Br_run True, Br_iterate (\<lambda>_. None), Br_iterate (\<lambda>_. Some (Coro_raised ''x'')),
     Br_iterate (\<lambda>_. None), Br_deliver]"

theorem results_delivered_once_witness:
  "ab_delivered (fold bridge_perform demo_bridge_ops new_bridge) = [(0, Coro_raised ''x'')] \<and>
   (\<exists>step. Br_iterate step \<in> set demo_bridge_ops \<and> step 0 = Some (Coro_raised ''x''))"
proof -
  have "ab_delivered (fold bridge_perform demo_bridge_ops new_bridge) = [(0, Coro_raised ''x'')]" by code_simp
  with results_delivered_once [of demo_bridge_ops] show ?thesis by simp
qed

end
