(* ===== verification/Virtual_Clock.thy ===== *)
theory Virtual_Clock
  imports Contracts
begin

text \<open>
  The clock of the simulation: \<open>simulation/fake_clock.py\<close>. A waiter is its deadline. What the tasks do in the
  turns that \<open>advance\<close> gives to the event loop is an input: for each turn the sleeps they ask for. The
  record keeps the deadlines of the waiters woken, in the order of waking, as \<open>vc_woken\<close>.
\<close>

record fake_clock =
  vc_now :: rat
  vc_waiters :: "rat list"
  vc_woken :: "rat list"

definition new_fake_clock :: "rat \<Rightarrow> fake_clock" where
  "new_fake_clock start = \<lparr>vc_now = start, vc_waiters = [], vc_woken = []\<rparr>"

definition clock_sleep :: "rat \<Rightarrow> fake_clock \<Rightarrow> fake_clock" where
  "clock_sleep seconds vc =
     (if seconds \<le> 0 then vc else vc\<lparr>vc_waiters := vc_waiters vc @ [vc_now vc + seconds]\<rparr>)"

text \<open>\<open>min\<close> over the waiters: the first of the smallest, which is the value to remove.\<close>

fun earliest :: "rat list \<Rightarrow> rat" where
  "earliest [] = 0"
| "earliest [w] = w"
| "earliest (w # v # ws) = min w (earliest (v # ws))"

text \<open>A turn of the event loop, and the loop of \<open>advance\<close>; when no turn is left the tasks ask for nothing.\<close>

definition loop_sleeps :: "rat list list \<Rightarrow> fake_clock \<Rightarrow> fake_clock" where
  "loop_sleeps turns vc = (case turns of [] \<Rightarrow> vc | sleeps # _ \<Rightarrow> fold clock_sleep sleeps vc)"

definition wake_earliest :: "fake_clock \<Rightarrow> fake_clock" where
  "wake_earliest vc =
     (let w = earliest (vc_waiters vc)
      in vc\<lparr>vc_waiters := remove1 w (vc_waiters vc), vc_now := w, vc_woken := vc_woken vc @ [w]\<rparr>)"

lemma earliest_in: "ws \<noteq> [] \<Longrightarrow> earliest ws \<in> set ws"
  by (induction ws rule: earliest.induct) (auto simp: min_def)

lemma earliest_le: "w \<in> set ws \<Longrightarrow> earliest ws \<le> w"
  by (induction ws rule: earliest.induct) (auto simp: min_le_iff_disj)

lemma waiters_sleeps: "size (vc_waiters (fold clock_sleep sleeps vc)) \<le> size (vc_waiters vc) + size sleeps"
proof (induction sleeps arbitrary: vc)
  case (Cons seconds sleeps)
  have "size (vc_waiters (clock_sleep seconds vc)) \<le> Suc (size (vc_waiters vc))"
    by (simp add: clock_sleep_def)
  with Cons.IH [of "clock_sleep seconds vc"] show ?case by simp
qed simp

function advance_loop :: "rat \<Rightarrow> rat list list \<Rightarrow> fake_clock \<Rightarrow> fake_clock" where
  "advance_loop target turns vc =
     (if vc_waiters vc = [] then vc
      else if earliest (vc_waiters vc) > target then vc
      else advance_loop target (tl turns) (loop_sleeps turns (wake_earliest vc)))"
  by pat_completeness auto

termination
proof (relation "measure (\<lambda>(target, turns, vc). size (vc_waiters vc) + sum_list (map size turns))")
  fix target turns and vc :: fake_clock
  assume ws: "vc_waiters vc \<noteq> []"
  let ?vc = "wake_earliest vc"
  have "size (vc_waiters ?vc) = size (vc_waiters vc) - 1"
    using ws by (simp add: wake_earliest_def Let_def length_remove1 earliest_in)
  moreover have "size (vc_waiters (loop_sleeps turns ?vc)) + sum_list (map size (tl turns)) \<le>
      size (vc_waiters ?vc) + sum_list (map size turns)"
  proof (cases turns)
    case (Cons sleeps rest)
    with waiters_sleeps [of sleeps ?vc] show ?thesis by (simp add: loop_sleeps_def)
  qed (simp add: loop_sleeps_def)
  ultimately show "((target, tl turns, loop_sleeps turns ?vc), target, turns, vc)
      \<in> measure (\<lambda>(target, turns, vc). size (vc_waiters vc) + sum_list (map size turns))"
    using ws by (cases "vc_waiters vc") auto
qed simp

declare advance_loop.simps [simp del]

lemma advance_loop_stop:
  "vc_waiters vc = [] \<or> earliest (vc_waiters vc) > target \<Longrightarrow> advance_loop target turns vc = vc"
  by (subst advance_loop.simps) auto

lemma advance_loop_wake:
  "vc_waiters vc \<noteq> [] \<Longrightarrow> earliest (vc_waiters vc) \<le> target \<Longrightarrow>
   advance_loop target turns vc = advance_loop target (tl turns) (loop_sleeps turns (wake_earliest vc))"
  by (subst advance_loop.simps) auto

definition advance :: "rat \<Rightarrow> rat list list \<Rightarrow> fake_clock \<Rightarrow> fake_clock" where
  "advance seconds turns vc =
     (let target = vc_now vc + seconds
      in (advance_loop target (tl turns) (loop_sleeps turns vc))\<lparr>vc_now := target\<rparr>)"

section \<open>What \<open>advance\<close> does\<close>

definition clock_ok :: "fake_clock \<Rightarrow> bool" where
  "clock_ok vc \<longleftrightarrow> (\<forall>w \<in> set (vc_waiters vc). vc_now vc \<le> w)"

lemma fold_sleep_frame [simp]:
  "vc_now (fold clock_sleep sleeps vc) = vc_now vc"
  "vc_woken (fold clock_sleep sleeps vc) = vc_woken vc"
  by (induction sleeps arbitrary: vc) (simp_all add: clock_sleep_def)

lemma loop_sleeps_frame [simp]:
  "vc_now (loop_sleeps turns vc) = vc_now vc"
  "vc_woken (loop_sleeps turns vc) = vc_woken vc"
  by (simp_all add: loop_sleeps_def split: list.split)

lemma clock_ok_sleeps: "clock_ok vc \<Longrightarrow> clock_ok (loop_sleeps turns vc)"
proof -
  have "clock_ok vc \<Longrightarrow> clock_ok (fold clock_sleep sleeps vc)" for sleeps
    by (induction sleeps arbitrary: vc) (auto simp: clock_ok_def clock_sleep_def)
  then show "clock_ok vc \<Longrightarrow> ?thesis" by (simp add: loop_sleeps_def split: list.split)
qed

lemma clock_ok_wake:
  assumes "vc_waiters vc \<noteq> []"
  shows "clock_ok (wake_earliest vc)"
  using earliest_le by (auto simp: clock_ok_def wake_earliest_def Let_def dest: notin_set_remove1 set_remove1_subset [THEN subsetD])

text \<open>The loop wakes in the order of the deadlines, up to the target, and leaves no waiter behind.\<close>

lemma advance_loop_ok:
  assumes "clock_ok vc" and "vc_now vc \<le> target"
  shows "let vc' = advance_loop target turns vc
    in (\<exists>woken. vc_woken vc' = vc_woken vc @ woken \<and> sorted woken \<and> set woken \<subseteq> {vc_now vc..target}) \<and>
       (\<forall>w \<in> set (vc_waiters vc'). target < w) \<and> vc_now vc' \<le> target"
  using assms
proof (induction target turns vc rule: advance_loop.induct)
  case (1 target turns vc)
  show ?case
  proof (cases "vc_waiters vc = [] \<or> earliest (vc_waiters vc) > target")
    case True
    then have "advance_loop target turns vc = vc" by (rule advance_loop_stop)
    moreover have "\<forall>w \<in> set (vc_waiters vc). target < w"
      using True earliest_le by fastforce
    ultimately show ?thesis using "1.prems" by (simp add: Let_def)
  next
    case False
    let ?w = "earliest (vc_waiters vc)"
    let ?vc = "loop_sleeps turns (wake_earliest vc)"
    have step: "advance_loop target turns vc = advance_loop target (tl turns) ?vc"
      using False by (intro advance_loop_wake) auto
    have w: "vc_now vc \<le> ?w" "?w \<le> target"
      using False "1.prems"(1) earliest_in by (auto simp: clock_ok_def)
    have now: "vc_now ?vc = ?w" "vc_woken ?vc = vc_woken vc @ [?w]"
      by (simp_all add: wake_earliest_def Let_def)
    have "clock_ok ?vc"
      using False by (intro clock_ok_sleeps clock_ok_wake) simp
    from "1.IH" [OF _ _ this] False w(2) now(1) obtain woken where
      "vc_woken (advance_loop target (tl turns) ?vc) = vc_woken ?vc @ woken" "sorted woken" "set woken \<subseteq> {?w..target}"
      and rest: "\<forall>x \<in> set (vc_waiters (advance_loop target (tl turns) ?vc)). target < x"
        "vc_now (advance_loop target (tl turns) ?vc) \<le> target"
      by (auto simp: Let_def)
    moreover from this(1,2,3) w now(2) have
      "vc_woken (advance_loop target (tl turns) ?vc) = vc_woken vc @ ?w # woken" "sorted (?w # woken)"
      "set (?w # woken) \<subseteq> {vc_now vc..target}"
      by auto
    ultimately show ?thesis
      unfolding step Let_def by blast
  qed
qed

text \<open>
  Advancing the simulated clock ends, whatever the tasks ask for in finitely many turns, and wakes the
  waiters in the order of their deadlines, all of them within the time advanced over; afterwards the
  time is the target and every waiter left is due later.
\<close>

theorem advance_wakes_in_order:
  assumes "clock_ok vc" and "0 \<le> seconds"
  shows "let vc' = advance seconds turns vc
    in vc_now vc' = vc_now vc + seconds \<and>
       (\<exists>woken. vc_woken vc' = vc_woken vc @ woken \<and> sorted woken \<and> set woken \<subseteq> {vc_now vc..vc_now vc + seconds}) \<and>
       set (vc_waiters vc') \<subseteq> {vc_now vc + seconds <..}"
proof -
  let ?vc = "loop_sleeps turns vc"
  have "clock_ok ?vc" "vc_now ?vc \<le> vc_now vc + seconds"
    using assms by (simp_all add: clock_ok_sleeps)
  from advance_loop_ok [OF this, of "tl turns"] show ?thesis
    by (auto simp: advance_def Let_def)
qed

theorem advance_wakes_in_order_witness:
  "vc_now (advance 2 [[3, 1], [1 / 2], [0]] (new_fake_clock 10)) = 12 \<and>
   vc_woken (advance 2 [[3, 1], [1 / 2], [0]] (new_fake_clock 10)) = [11, 23 / 2]"
proof -
  have ok: "clock_ok (new_fake_clock 10)" and now: "vc_now (new_fake_clock 10) = 10"
    by (simp_all add: clock_ok_def new_fake_clock_def)
  have "vc_woken (advance 2 [[3, 1], [1 / 2], [0]] (new_fake_clock 10)) = [11, 23 / 2]"
    by (simp add: advance_def new_fake_clock_def loop_sleeps_def clock_sleep_def advance_loop_stop advance_loop_wake wake_earliest_def Let_def)
  with advance_wakes_in_order [OF ok, of 2 "[[3, 1], [1 / 2], [0]]"] show ?thesis
    unfolding Let_def now by linarith
qed

end
