(* ===== verification/Motor_Moves.thy ===== *)
theory Motor_Moves
  imports Fake_Devices
begin

text \<open>
  A target runner and the simulated motor that it drives, in time: \<open>submit\<close> and \<open>_observe\<close> of
  \<open>core/target_runner.py\<close> with \<open>execute\<close>, \<open>_run_move\<close> and \<open>is_action_complete\<close> of \<open>simulation/fake_motor.py\<close>
  in place of an adapter whose answers are inputs. \<open>execute\<close> of the motor never suspends, so \<open>submit\<close> runs
  through in one go. The motor's task and each observing task sleep; a sleep ends when its time has come or
  up to \<open>eps\<close> seconds later, which is how late the event loop may be. \<open>mc_motor_due\<close> and \<open>mc_poll_due\<close> are the
  times at which the sleeps end; a task just created is due at once.
\<close>

section \<open>The cell of a runner and its motor\<close>

record motor_cell =
  mc_world :: runner_world
  mc_motor :: fake_motor
  mc_now :: time
  mc_motor_due :: time
  mc_poll_due :: "string \<Rightarrow> time"

text \<open>\<open>str_of\<close> is \<open>str(exc)\<close>.\<close>

definition execute_result :: "(adapter_error \<Rightarrow> string) \<Rightarrow> adapter_error + unit \<Rightarrow> exec_result" where
  "execute_result str_of res = (case res of Inl e \<Rightarrow> Exec_raised (str_of e) | Inr _ \<Rightarrow> Exec_ok)"

definition submit_motor ::
    "(string \<Rightarrow> rat option) \<Rightarrow> (adapter_error \<Rightarrow> string) \<Rightarrow> string \<Rightarrow> time \<Rightarrow> time \<Rightarrow> motor_cell \<Rightarrow> fusion_error + motor_cell" where
  "submit_motor parse str_of c now wall s =
     (case rw_records (mc_world s) c of
        None \<Rightarrow> Inr s
      | Some r \<Rightarrow>
          (case submit_begin (motor_manifest (mc_motor s)) c wall (mc_world s) of
             Inl e \<Rightarrow> Inl e
           | Inr w \<Rightarrow>
               let (res, fm) = execute_motor parse (cr_action r) (cr_params r) (mc_motor s)
               in Inr (s\<lparr>mc_world := submit_resume (execute_result str_of res) c wall w, mc_motor := fm, mc_now := now,
                    mc_motor_due := (if fm_move_count fm = fm_move_count (mc_motor s) then mc_motor_due s else now),
                    mc_poll_due := (mc_poll_due s)(c := now)\<rparr>)))"

text \<open>The motor's task wakes up, and sleeps again or ends.\<close>

definition motor_wake :: "time \<Rightarrow> motor_cell \<Rightarrow> motor_cell" where
  "motor_wake now s = s\<lparr>mc_motor := motor_turn (mc_motor s), mc_now := now, mc_motor_due := now + STEP_S\<rparr>"

text \<open>What the runner is told when it asks the motor whether the command \<open>c\<close> is complete.\<close>

definition motor_answer :: "(string \<Rightarrow> rat option) \<Rightarrow> (adapter_error \<Rightarrow> string) \<Rightarrow> string \<Rightarrow> motor_cell \<Rightarrow> completion" where
  "motor_answer parse str_of c s =
     (case rw_records (mc_world s) c of
        None \<Rightarrow> Incomplete
      | Some r \<Rightarrow>
          (case motor_complete parse (cr_action r) (cr_params r) (mc_motor s) of
             Inl e \<Rightarrow> Complete_raised (str_of e)
           | Inr b \<Rightarrow> (if b then Complete else Incomplete)))"

text \<open>The observing task of \<open>c\<close> takes a turn. Its first turn reads the clock twice (\<open>t0\<close>, then \<open>now\<close>).\<close>

definition poll_wake ::
    "(string \<Rightarrow> rat option) \<Rightarrow> (adapter_error \<Rightarrow> string) \<Rightarrow> string \<Rightarrow> time \<Rightarrow> time \<Rightarrow> time \<Rightarrow> motor_cell \<Rightarrow> motor_cell" where
  "poll_wake parse str_of c t0 now wall s =
     s\<lparr>mc_world := observe_step c t0 now (motor_answer parse str_of c s) wall (mc_world s), mc_now := now,
       mc_poll_due := (mc_poll_due s)(c := now + POLL_INTERVAL_S)\<rparr>"

section \<open>Punctual runs\<close>

text \<open>At time \<open>t\<close> no task that sleeps is later than \<open>eps\<close>.\<close>

definition punctual :: "rat \<Rightarrow> time \<Rightarrow> motor_cell \<Rightarrow> bool" where
  "punctual eps t s \<longleftrightarrow> mc_now s \<le> t \<and> (fm_move_task (mc_motor s) \<longrightarrow> t \<le> mc_motor_due s + eps) \<and>
     (\<forall>c. tr_frames (rw_runner (mc_world s)) c \<noteq> None \<longrightarrow> t \<le> mc_poll_due s c + eps)"

text \<open>
  What happens after a submit, as long as no other command is submitted and the generation is not bumped:
  tasks wake up, and time passes.
\<close>

inductive cell_run ::
    "rat \<Rightarrow> (string \<Rightarrow> rat option) \<Rightarrow> (adapter_error \<Rightarrow> string) \<Rightarrow> motor_cell \<Rightarrow> motor_cell \<Rightarrow> bool"
  for eps parse str_of s0 where
  cell_start: "cell_run eps parse str_of s0 s0"
| cell_motor: "cell_run eps parse str_of s0 s \<Longrightarrow> punctual eps t s \<Longrightarrow> fm_move_task (mc_motor s) \<Longrightarrow>
    mc_motor_due s \<le> t \<Longrightarrow> cell_run eps parse str_of s0 (motor_wake t s)"
| cell_poll: "cell_run eps parse str_of s0 s \<Longrightarrow> punctual eps t s \<Longrightarrow>
    tr_frames (rw_runner (mc_world s)) c \<noteq> None \<Longrightarrow> mc_poll_due s c \<le> t \<Longrightarrow> mc_now s \<le> t0 \<Longrightarrow> t0 \<le> t \<Longrightarrow>
    cell_run eps parse str_of s0 (poll_wake parse str_of c t0 t wall s)"
| cell_time: "cell_run eps parse str_of s0 s \<Longrightarrow> punctual eps t s \<Longrightarrow> cell_run eps parse str_of s0 (s\<lparr>mc_now := t\<rparr>)"

lemma punctualD:
  assumes "punctual eps t s"
  shows "mc_now s \<le> t" "fm_move_task (mc_motor s) \<Longrightarrow> t \<le> mc_motor_due s + eps"
    "tr_frames (rw_runner (mc_world s)) c \<noteq> None \<Longrightarrow> t \<le> mc_poll_due s c + eps"
  using assms by (auto simp: punctual_def)

section \<open>One command among others\<close>

text \<open>A turn of another command's observation leaves this one alone.\<close>

definition untouched :: "string \<Rightarrow> runner_world \<Rightarrow> runner_world \<Rightarrow> bool" where
  "untouched c w w' \<longleftrightarrow> rw_records w' c = rw_records w c \<and>
     tr_frames (rw_runner w') c = tr_frames (rw_runner w) c \<and>
     tr_execution_generation (rw_runner w') = tr_execution_generation (rw_runner w)"

lemma untouched_refl [simp]: "untouched c w w"
  by (simp add: untouched_def)

lemma observe_other: "d \<noteq> c \<Longrightarrow> untouched c w (observe_step d t0 now answer wall w)"
  by (auto simp: untouched_def observe_step_def observe_turn_def Let_def
      split: option.split frame.split completion.split)

text \<open>
  The state of a command under observation: it sleeps between its polls with a deadline in \<open>lo..hi\<close>, and its
  record is that of the submit; or its first turn is still due.
\<close>

definition observing :: "time \<Rightarrow> time \<Rightarrow> string \<Rightarrow> command_record \<Rightarrow> motor_cell \<Rightarrow> bool" where
  "observing lo hi c r s \<longleftrightarrow>
     (\<exists>gen r' f. gen = tr_execution_generation (rw_runner (mc_world s)) \<and>
        tr_frames (rw_runner (mc_world s)) c = Some f \<and>
        rw_records (mc_world s) c = Some r' \<and> cr_status r' = OBSERVING \<and>
        cr_action r' = cr_action r \<and> cr_params r' = cr_params r \<and>
        ((f = Observe_start gen \<and> mc_poll_due s c = lo) \<or>
         (\<exists>dl. f = In_sleep gen dl \<and> lo + OBSERVE_TIMEOUT_S \<le> dl \<and> dl \<le> hi + OBSERVE_TIMEOUT_S)))"

definition ended_with :: "command_outcome \<Rightarrow> string \<Rightarrow> motor_cell \<Rightarrow> bool" where
  "ended_with out c s \<longleftrightarrow> (\<exists>r. rw_records (mc_world s) c = Some r \<and> cr_status r = TERMINAL \<and> cr_outcome r = Some out)
     \<and> tr_frames (rw_runner (mc_world s)) c = None"


lemma cell_parts [simp]:
  "mc_world (motor_wake t s) = mc_world s" "mc_now (motor_wake t s) = t"
  "mc_poll_due (motor_wake t s) = mc_poll_due s" "mc_motor (motor_wake t s) = motor_turn (mc_motor s)"
  "mc_motor_due (motor_wake t s) = t + STEP_S"
  "mc_motor (poll_wake parse str_of c t0 t wall s) = mc_motor s"
  "mc_motor_due (poll_wake parse str_of c t0 t wall s) = mc_motor_due s"
  "mc_now (poll_wake parse str_of c t0 t wall s) = t"
  "mc_poll_due (poll_wake parse str_of c t0 t wall s) = (mc_poll_due s)(c := t + POLL_INTERVAL_S)"
  by (simp_all add: motor_wake_def poll_wake_def)

lemma poll_other:
  "d \<noteq> c \<Longrightarrow> untouched c (mc_world s) (mc_world (poll_wake parse str_of d t0 t wall s))"
  by (simp add: poll_wake_def observe_other)

lemma ended_untouched:
  "ended_with out c s \<Longrightarrow> untouched c (mc_world s) (mc_world s') \<Longrightarrow> ended_with out c s'"
  by (simp add: ended_with_def untouched_def)

lemma ended_poll: "ended_with out c s \<Longrightarrow> ended_with out c (poll_wake parse str_of d t0 t wall s)"
proof (cases "d = c")
  case True
  then show "ended_with out c s \<Longrightarrow> ?thesis"
    by (simp add: ended_with_def poll_wake_def observe_step_def)
qed (auto intro: ended_untouched poll_other)

lemma observing_untouched:
  "observing lo hi c r s \<Longrightarrow> untouched c (mc_world s) (mc_world s') \<Longrightarrow> mc_poll_due s' c = mc_poll_due s c \<Longrightarrow>
   observing lo hi c r s'"
  by (simp add: observing_def untouched_def)

text \<open>The poll of the command itself: it ends the command or the command sleeps again.\<close>

lemma observing_poll:
  assumes "observing lo (lo + eps) c r s" and "punctual eps t s" and "lo \<le> mc_now s" and "mc_now s \<le> t0" and "t0 \<le> t"
    and s': "s' = poll_wake parse str_of c t0 t wall s"
  shows "\<exists>dl. lo + OBSERVE_TIMEOUT_S \<le> dl \<and> dl \<le> lo + eps + OBSERVE_TIMEOUT_S \<and>
    (if t < dl then
       (case motor_answer parse str_of c s of
          Complete \<Rightarrow> ended_with SUCCEEDED c s'
        | Incomplete \<Rightarrow> observing lo (lo + eps) c r s'
        | Complete_raised _ \<Rightarrow> ended_with FAILED c s')
     else ended_with EXPIRED c s')"
proof -
  from assms(1) obtain r' f where f: "tr_frames (rw_runner (mc_world s)) c = Some f"
    and rec: "rw_records (mc_world s) c = Some r'" "cr_status r' = OBSERVING" "cr_action r' = cr_action r"
      "cr_params r' = cr_params r"
    and cases: "(f = Observe_start (tr_execution_generation (rw_runner (mc_world s))) \<and> mc_poll_due s c = lo) \<or>
      (\<exists>dl. f = In_sleep (tr_execution_generation (rw_runner (mc_world s))) dl \<and> lo + OBSERVE_TIMEOUT_S \<le> dl \<and>
         dl \<le> lo + eps + OBSERVE_TIMEOUT_S)"
    unfolding observing_def by blast
  have late: "t \<le> mc_poll_due s c + eps"
    using punctualD(3) [OF assms(2)] f by simp
  obtain dl where dl: "lo + OBSERVE_TIMEOUT_S \<le> dl" "dl \<le> lo + eps + OBSERVE_TIMEOUT_S"
    and step: "mc_world s' = observe_turn (tr_execution_generation (rw_runner (mc_world s))) dl t
        (motor_answer parse str_of c s) c wall (mc_world s)"
    using cases
  proof
    assume "f = Observe_start (tr_execution_generation (rw_runner (mc_world s))) \<and> mc_poll_due s c = lo"
    with f late assms(3-5) show thesis
      by (intro that [of "t0 + OBSERVE_TIMEOUT_S"]) (simp_all add: s' poll_wake_def observe_step_def)
  next
    assume "\<exists>dl. f = In_sleep (tr_execution_generation (rw_runner (mc_world s))) dl \<and> lo + OBSERVE_TIMEOUT_S \<le> dl \<and>
         dl \<le> lo + eps + OBSERVE_TIMEOUT_S"
    with f show thesis
      by (auto intro: that simp add: s' poll_wake_def observe_step_def)
  qed
  show ?thesis
    using dl rec
    by (intro exI [of _ dl])
      (cases "motor_answer parse str_of c s";
       auto simp: step observe_turn_def ended_with_def observing_def Let_def)
qed

section \<open>A move that arrives\<close>

text \<open>A distance from which full steps never come to rest exactly a millionth away from the target.\<close>

definition lands :: "rat \<Rightarrow> bool" where
  "lands d \<longleftrightarrow> (\<forall>k :: nat. d \<noteq> 10 * of_nat k + TOLERANCE)"

lemma lands_shorter: "lands d \<Longrightarrow> lands (max 0 (d - 10))"
proof (cases "d \<le> 10")
  case False
  assume d: "lands d"
  have "d - 10 \<noteq> 10 * of_nat k + TOLERANCE" for k :: nat
    using d [unfolded lands_def, rule_format, of "Suc k"] by (simp add: algebra_simps)
  with False show ?thesis by (simp add: lands_def)
next
  case True
  have "0 \<noteq> 10 * of_nat k + TOLERANCE" for k :: nat
  proof -
    have "0 < TOLERANCE" by (simp add: TOLERANCE_def)
    then show ?thesis by (simp add: add_nonneg_eq_0_iff)
  qed
  with True show ?thesis by (simp add: lands_def)
qed

text \<open>The motor is under way to \<open>p\<close> and there by \<open>tm\<close>; or it stands there.\<close>

definition arriving :: "rat \<Rightarrow> rat \<Rightarrow> time \<Rightarrow> motor_cell \<Rightarrow> bool" where
  "arriving eps p tm s \<longleftrightarrow>
     (\<exists>k. distance (mc_motor s) \<le> 10 * of_nat k \<and> mc_motor_due s + of_nat k * (STEP_S + eps) + eps \<le> tm) \<and>
     fm_move_task (mc_motor s) \<and> \<not> fm_never_complete (mc_motor s) \<and> fm_moving (mc_motor s) \<and>
     fm_target_position (mc_motor s) = p \<and> lands (distance (mc_motor s))"

definition arrived :: "rat \<Rightarrow> fake_motor \<Rightarrow> bool" where
  "arrived p fm \<longleftrightarrow> \<not> fm_moving fm \<and> \<not> fm_move_task fm \<and> \<bar>fm_position fm - p\<bar> < TOLERANCE"

lemma motor_turn_moving: "distance fm > TOLERANCE \<Longrightarrow> \<not> fm_never_complete fm \<Longrightarrow> fm_moving (motor_turn fm) = fm_moving fm"
  by (simp add: motor_turn_def distance_def Let_def)

lemma motor_turn_near:
  "fm_move_task fm \<Longrightarrow> \<not> fm_never_complete fm \<Longrightarrow> distance fm \<le> TOLERANCE \<Longrightarrow>
   motor_turn fm = fm\<lparr>fm_moving := False, fm_move_task := False\<rparr>"
  by (simp add: motor_turn_def distance_def)

lemma arriving_wake:
  assumes "arriving eps p tm s" and "punctual eps t s" and "0 \<le> eps"
  shows "t \<le> tm \<and> (arriving eps p tm (motor_wake t s) \<or> arrived p (motor_turn (mc_motor s)))"
proof -
  let ?fm = "mc_motor s"
  from assms(1) obtain k where k: "distance ?fm \<le> 10 * of_nat k" "mc_motor_due s + of_nat k * (STEP_S + eps) + eps \<le> tm"
    and st: "fm_move_task ?fm" "\<not> fm_never_complete ?fm" "fm_moving ?fm" "fm_target_position ?fm = p" "lands (distance ?fm)"
    unfolding arriving_def by blast
  have due: "t \<le> mc_motor_due s + eps" using punctualD(2) [OF assms(2)] st(1) by simp
  have "0 \<le> of_nat k * (STEP_S + eps)" using assms(3) by (simp add: STEP_S_def)
  with due k(2) have "t \<le> tm" by linarith
  moreover have "arriving eps p tm (motor_wake t s) \<or> arrived p (motor_turn ?fm)"
  proof (cases "distance ?fm > TOLERANCE")
    case True
    then obtain j where j: "k = Suc j" using k(1) by (cases k) (auto simp: TOLERANCE_def)
    note far = motor_turn_far [OF st(1,2) True]
    have "distance (motor_turn ?fm) \<le> 10 * of_nat j" using far k(1) by (auto simp: j)
    moreover have "(t + STEP_S) + of_nat j * (STEP_S + eps) + eps \<le> tm"
      using due k(2) by (simp add: j algebra_simps)
    ultimately show ?thesis
      using far st lands_shorter [OF st(5)] motor_turn_moving [OF True st(2)]
      unfolding arriving_def cell_parts by (intro disjI1 conjI exI [of _ j]) simp_all
  next
    case False
    moreover have "distance ?fm \<noteq> TOLERANCE" using st(5) [unfolded lands_def, rule_format, of 0] by simp
    ultimately show ?thesis
      using st motor_turn_near [OF st(1,2)] by (simp add: arrived_def distance_def abs_minus_commute)
  qed
  ultimately show ?thesis by blast
qed

lemma motor_answer_move:
  assumes "observing lo hi c r s" and "cr_action r = ''move''" and "float_param parse (cr_params r) ''position'' = Inr p"
  shows "motor_answer parse str_of c s =
    (if \<not> fm_moving (mc_motor s) \<and> \<bar>fm_position (mc_motor s) - p\<bar> < TOLERANCE then Complete else Incomplete)"
  using assms by (auto simp: observing_def motor_answer_def motor_complete_def)

definition on_course :: "rat \<Rightarrow> time \<Rightarrow> time \<Rightarrow> rat \<Rightarrow> string \<Rightarrow> command_record \<Rightarrow> motor_cell \<Rightarrow> bool" where
  "on_course eps lo tm p c r s \<longleftrightarrow>
     (observing lo (lo + eps) c r s \<and> lo \<le> mc_now s \<and> mc_poll_due s c \<le> mc_now s + POLL_INTERVAL_S \<and>
       (arriving eps p tm s \<or> arrived p (mc_motor s) \<and> mc_poll_due s c \<le> tm + POLL_INTERVAL_S)) \<or>
     (ended_with SUCCEEDED c s \<and> arrived p (mc_motor s))"

lemma arriving_late: "arriving eps p tm s \<Longrightarrow> punctual eps t s \<Longrightarrow> 0 \<le> eps \<Longrightarrow> t \<le> tm"
  using arriving_wake by blast

lemma on_course_run:
  assumes "cell_run eps parse str_of s0 s" and "on_course eps lo tm p c r s0" and "0 \<le> eps"
    and "tm + POLL_INTERVAL_S + eps < lo + OBSERVE_TIMEOUT_S"
    and "cr_action r = ''move''" and "float_param parse (cr_params r) ''position'' = Inr p"
  shows "on_course eps lo tm p c r s"
  using assms(1)
proof (induction rule: cell_run.induct)
  case cell_start
  show ?case by (rule assms(2))
next
  case (cell_motor s t)
  note now = punctualD(1) [OF cell_motor(2)]
  have u: "untouched c (mc_world s) (mc_world (motor_wake t s))" by simp
  have "\<not> arrived p (mc_motor s)" using cell_motor(3) by (simp add: arrived_def)
  with cell_motor.IH have o: "observing lo (lo + eps) c r s" and lo: "lo \<le> mc_now s"
    and due: "mc_poll_due s c \<le> mc_now s + POLL_INTERVAL_S" and a: "arriving eps p tm s"
    by (auto simp: on_course_def)
  from arriving_wake [OF a cell_motor(2) assms(3)] observing_untouched [OF o u] lo due now
  show ?case by (auto simp: on_course_def)
next
  case (cell_poll s t d t0 wall)
  note now = punctualD(1) [OF cell_poll(2)]
  let ?s' = "poll_wake parse str_of d t0 t wall s"
  consider (over) "ended_with SUCCEEDED c s" "arrived p (mc_motor s)"
    | (live) "observing lo (lo + eps) c r s" "lo \<le> mc_now s" "mc_poll_due s c \<le> mc_now s + POLL_INTERVAL_S"
        "arriving eps p tm s \<or> arrived p (mc_motor s) \<and> mc_poll_due s c \<le> tm + POLL_INTERVAL_S"
    using cell_poll.IH by (auto simp: on_course_def)
  then show ?case
  proof cases
    case over
    then show ?thesis by (simp add: on_course_def ended_poll)
  next
    case live
    show ?thesis
    proof (cases "d = c")
      case False
      with live(3) now observing_untouched [OF live(1) poll_other [OF False]] live(2,4)
      show ?thesis by (auto simp: on_course_def arriving_def)
    next
      case True
      have "t \<le> mc_poll_due s c + eps"
        using punctualD(3) [OF cell_poll(2)] live(1) by (auto simp: observing_def)
      then have "t < lo + OBSERVE_TIMEOUT_S"
        using live(4) arriving_late [of eps p tm, OF _ cell_poll(2) assms(3)] assms(3,4) by (auto simp: POLL_INTERVAL_S_def)
      moreover have "\<not> arrived p (mc_motor s) \<Longrightarrow> t \<le> tm \<and> fm_moving (mc_motor s)"
        using live(4) arriving_late [of eps p tm, OF _ cell_poll(2) assms(3)] by (auto simp: arriving_def)
      moreover note observing_poll [OF live(1) cell_poll(2) live(2) cell_poll(5,6) refl, of parse str_of wall]
      ultimately show ?thesis
        using live now motor_answer_move [OF live(1) assms(5,6), of str_of]
        by (cases "arrived p (mc_motor s)")
          (auto simp: True on_course_def arrived_def arriving_def split: if_splits)
    qed
  qed
next
  case (cell_time s t)
  have u: "untouched c (mc_world s) (mc_world (s\<lparr>mc_now := t\<rparr>))" by simp
  from cell_time.IH show ?case
    using punctualD(1) [OF cell_time(2)] observing_untouched [OF _ u] ended_untouched [OF _ u]
    by (auto simp: on_course_def arriving_def)
qed

text \<open>In a punctual run neither the motor's task nor the command's is ever overdue.\<close>

definition on_time :: "rat \<Rightarrow> string \<Rightarrow> motor_cell \<Rightarrow> bool" where
  "on_time eps c s \<longleftrightarrow> (fm_move_task (mc_motor s) \<longrightarrow> mc_now s \<le> mc_motor_due s + eps) \<and>
     (tr_frames (rw_runner (mc_world s)) c \<noteq> None \<longrightarrow> mc_now s \<le> mc_poll_due s c + eps)"

lemma on_time_run:
  assumes "cell_run eps parse str_of s0 s" and "on_time eps c s0" and "0 \<le> eps"
  shows "on_time eps c s"
  using assms(1)
proof (induction rule: cell_run.induct)
  case (cell_poll s t d t0 wall)
  show ?case
  proof (cases "d = c")
    case True
    with cell_poll assms(3) punctualD(2) [OF cell_poll(2)] show ?thesis
      by (simp add: on_time_def POLL_INTERVAL_S_def)
  next
    case False
    with poll_other [OF False, of s parse str_of t0 t wall] punctualD(2,3) [OF cell_poll(2)] show ?thesis
      by (auto simp: on_time_def untouched_def)
  qed
next
  case (cell_motor s t)
  with assms(3) punctualD(3) [OF cell_motor(2)] show ?case
    by (auto simp: on_time_def STEP_S_def)
next
  case (cell_time s t)
  with punctualD(2,3) [OF cell_time(2)] show ?case by (auto simp: on_time_def)
qed (rule assms(2))

lemma arriving_by:
  assumes "arriving eps p tm s" and "on_time eps c s" and "0 \<le> eps"
  shows "mc_now s \<le> tm"
proof -
  from assms(1) obtain k :: nat where k: "mc_motor_due s + of_nat k * (STEP_S + eps) + eps \<le> tm" and "fm_move_task (mc_motor s)"
    unfolding arriving_def by blast
  moreover from this(2) have "mc_now s \<le> mc_motor_due s + eps" using assms(2) by (simp add: on_time_def)
  moreover have "0 \<le> of_nat k * (STEP_S + eps)" using assms(3) by (simp add: STEP_S_def)
  ultimately show ?thesis by linarith
qed

section \<open>A move that is too long\<close>






section \<open>The submit\<close>

lemma submit_move:
  assumes "rw_records (mc_world s0) c = Some r" and "cr_action r = ''move''" and "cr_completion_requirement r = Req_OBSERVED"
    and "float_param parse (cr_params r) ''position'' = Inr p" and "\<not> fm_alarm (mc_motor s0)"
    and "submit_motor parse str_of c now wall s0 = Inr s1" and "0 \<le> eps"
  shows "observing now (now + eps) c r s1 \<and> mc_now s1 = now \<and> mc_poll_due s1 c = now \<and> mc_motor_due s1 = now \<and>
    mc_motor s1 = (mc_motor s0)\<lparr>fm_target_position := p, fm_moving := True,
      fm_move_count := fm_move_count (mc_motor s0) + 1, fm_move_task := True\<rparr>"
proof -
  let ?fm = "(mc_motor s0)\<lparr>fm_target_position := p, fm_moving := True,
      fm_move_count := fm_move_count (mc_motor s0) + 1, fm_move_task := True\<rparr>"
  have exec: "execute_motor parse (cr_action r) (cr_params r) (mc_motor s0) = (Inr (), ?fm)"
    using assms(2,4,5) by (simp add: execute_motor_def)
  obtain w where w: "submit_begin (motor_manifest (mc_motor s0)) c wall (mc_world s0) = Inr w"
    using assms(1,6) by (auto simp: submit_motor_def split: sum.splits)
  with assms(1,6) exec have s1: "s1 = s0\<lparr>mc_world := submit_resume Exec_ok c wall w, mc_motor := ?fm, mc_now := now,
      mc_motor_due := now, mc_poll_due := (mc_poll_due s0)(c := now)\<rparr>"
    by (simp add: submit_motor_def execute_result_def Let_def)
  from submit_begin_Some [OF assms(1) w] obtain
    rec: "rw_records w c = Some (r\<lparr>cr_status := DISPATCHING, cr_updated_at := wall,
       cr_execution_generation := tr_execution_generation (rw_runner w)\<rparr>)"
    and fr: "tr_frames (rw_runner w) c = Some (In_execute (tr_execution_generation (rw_runner w)))"
    by (metis fun_upd_same)
  have "observing now (now + eps) c r s1"
    using assms(3) by (auto simp: s1 observing_def submit_resume_def rec fr Let_def)
  then show ?thesis by (simp add: s1)
qed

text \<open>
  \<^bold>\<open>C10\<close> Let the event loop never be later than \<open>eps\<close>, and let a move go over at most \<open>10 n\<close> units. If
  \<open>n\<close> steps and one poll, each late by \<open>eps\<close>, fit into the 10 seconds of the observation, then the move cannot
  end otherwise than SUCCEEDED, it has ended after that time, and when it has, the motor stands within a
  millionth of the position asked for. (A distance of a multiple of 10 and exactly a millionth is left out:
  the motor stops there, and \<open>is_action_complete\<close> wants less.)
\<close>

theorem move_succeeds_in_time:
  assumes "rw_records (mc_world s0) c = Some r" and "cr_action r = ''move''" and "cr_completion_requirement r = Req_OBSERVED"
    and "float_param parse (cr_params r) ''position'' = Inr p"
    and "\<not> fm_alarm (mc_motor s0)" and "\<not> fm_never_complete (mc_motor s0)"
    and "submit_motor parse str_of c now wall s0 = Inr s1"
    and "\<bar>p - fm_position (mc_motor s0)\<bar> \<le> 10 * of_nat n" and "lands \<bar>p - fm_position (mc_motor s0)\<bar>"
    and "0 \<le> eps" and "of_nat n * (STEP_S + eps) + eps + POLL_INTERVAL_S + eps < OBSERVE_TIMEOUT_S"
    and "cell_run eps parse str_of s1 s"
  shows "\<exists>r'. rw_records (mc_world s) c = Some r' \<and>
    (cr_status r' = TERMINAL \<longrightarrow> cr_outcome r' = Some SUCCEEDED \<and> \<not> fm_moving (mc_motor s) \<and>
       \<bar>fm_position (mc_motor s) - p\<bar> < TOLERANCE) \<and>
    (now + of_nat n * (STEP_S + eps) + eps + POLL_INTERVAL_S + eps < mc_now s \<longrightarrow> cr_status r' = TERMINAL)"
proof -
  let ?tm = "now + of_nat n * (STEP_S + eps) + eps"
  note sub = submit_move [OF assms(1-5,7,10)]
  have "arriving eps p ?tm s1"
    using sub assms(6,8,9) by (auto simp: arriving_def distance_def)
  with sub have "on_course eps now ?tm p c r s1"
    by (simp add: on_course_def POLL_INTERVAL_S_def)
  from on_course_run [OF assms(12) this assms(10) _ assms(2,4)] assms(11)
  have "on_course eps now ?tm p c r s" by simp
  moreover have "on_time eps c s"
    by (rule on_time_run [OF assms(12) _ assms(10)]) (use sub assms(10) in \<open>simp add: on_time_def\<close>)
  ultimately show ?thesis
    using arriving_by [of eps p ?tm s c] assms(10)
    by (auto simp: on_course_def ended_with_def arrived_def observing_def on_time_def POLL_INTERVAL_S_def)
qed


text \<open>A move by 5 units, with an event loop that is up to a second late.\<close>

definition demo_cell :: "pyval \<Rightarrow> motor_cell" where
  "demo_cell position =
     \<lparr>mc_world = (initial_world ''motor01'')\<lparr>rw_records := [''cmd-1'' \<mapsto>
        new_command_record (demo_request ''r1'' ''move'' position) ''cmd-1'' ''motor-01'' ''boot'' 1 0]\<rparr>,
      mc_motor = new_fake_motor ''motor01'' False, mc_now = 0, mc_motor_due = 0, mc_poll_due = \<lambda>_. 0\<rparr>"

definition demo_moving :: "pyval \<Rightarrow> motor_cell" where
  "demo_moving position =
     (case submit_motor (\<lambda>_. None) (\<lambda>_. []) ''cmd-1'' 0 0 (demo_cell position) of Inl _ \<Rightarrow> demo_cell position | Inr s \<Rightarrow> s)"

lemmas demo_cell_defs = demo_cell_def initial_world_def new_target_runner_def new_command_record_def demo_request_def
  new_fake_motor_def

lemma demo_submitted_ok: "submit_motor (\<lambda>_. None) (\<lambda>_. []) ''cmd-1'' 0 0 (demo_cell (PInt n)) = Inr (demo_moving (PInt n))"
  by (simp add: demo_moving_def submit_motor_def demo_cell_defs submit_begin_def runner_busy_def motor_manifest_def
      get_action_def action_def execute_motor_def float_param_def param_def Let_def)

lemma demo_moving_parts:
  "tr_frames (rw_runner (mc_world (demo_moving (PInt n)))) = [''cmd-1'' \<mapsto> Observe_start 1]"
  "mc_now (demo_moving (PInt n)) = 0" "mc_motor_due (demo_moving (PInt n)) = 0" "mc_poll_due (demo_moving (PInt n)) = (\<lambda>_. 0)"
  "mc_motor (demo_moving (PInt n)) = \<lparr>fm_target_id = ''motor01'', fm_never_complete = False, fm_position = 0,
     fm_target_position = of_int n, fm_moving = True, fm_homed = True, fm_alarm = False, fm_move_count = 1, fm_move_task = True\<rparr>"
  "map_option cr_params (rw_records (mc_world (demo_moving (PInt n))) ''cmd-1'') = Some [(''position'', PInt n)]"
  by (simp_all add: demo_moving_def submit_motor_def demo_cell_defs submit_begin_def runner_busy_def motor_manifest_def
      get_action_def action_def execute_motor_def float_param_def param_def Let_def execute_result_def submit_resume_def fun_upd_idem)

definition demo_arrived :: motor_cell where
  "demo_arrived = poll_wake (\<lambda>_. None) (\<lambda>_. []) ''cmd-1'' 1 1 1 (motor_wake 1 (motor_wake 0 (demo_moving (PInt 5))))\<lparr>mc_now := 5\<rparr>"

lemma demo_arrived_run: "cell_run 1 (\<lambda>_. None) (\<lambda>_. []) (demo_moving (PInt 5)) demo_arrived"
proof -
  let ?run = "cell_run 1 (\<lambda>_. None) (\<lambda>_. []) (demo_moving (PInt 5))"
  note eval = punctual_def demo_moving_parts motor_turn_def VELOCITY_UNITS_PER_SEC_def STEP_S_def TOLERANCE_def
  have "?run (motor_wake 0 (demo_moving (PInt 5)))"
    by (rule cell_motor [OF cell_start]) (simp_all add: eval)
  then have "?run (motor_wake 1 (motor_wake 0 (demo_moving (PInt 5))))"
    by (rule cell_motor) (simp_all add: eval)
  then have "?run (poll_wake (\<lambda>_. None) (\<lambda>_. []) ''cmd-1'' 1 1 1 (motor_wake 1 (motor_wake 0 (demo_moving (PInt 5)))))"
    by (rule cell_poll) (simp_all add: eval)
  moreover obtain r where "rw_records (mc_world (demo_moving (PInt 5))) ''cmd-1'' = Some r" "cr_params r = [(''position'', PInt 5)]"
    using demo_moving_parts(6) [of 5] by auto
  ultimately show ?thesis
    unfolding demo_arrived_def
    by (elim cell_time)
      (auto simp: eval poll_wake_def motor_wake_def observe_step_def observe_turn_def motor_answer_def
        motor_complete_def OBSERVE_TIMEOUT_S_def Let_def float_param_def param_def split: option.splits sum.splits)
qed

lemma lands_5: "lands 5"
proof -
  have "5 \<noteq> 10 * of_nat k + TOLERANCE" for k :: nat
    by (cases k) (simp_all add: TOLERANCE_def)
  then show ?thesis by (simp add: lands_def)
qed

theorem move_succeeds_in_time_witness:
  "\<exists>r'. rw_records (mc_world demo_arrived) ''cmd-1'' = Some r' \<and>
    cr_status r' = TERMINAL \<and> cr_outcome r' = Some SUCCEEDED"
proof -
  have "rw_records (mc_world (demo_cell (PInt 5))) ''cmd-1'' =
      Some (new_command_record (demo_request ''r1'' ''move'' (PInt 5)) ''cmd-1'' ''motor-01'' ''boot'' 1 0)"
    by (simp add: demo_cell_def)
  from move_succeeds_in_time [OF this _ _ _ _ _ demo_submitted_ok, where p = 5 and n = 1 and eps = 1 and s = demo_arrived]
  show ?thesis
    using demo_arrived_run lands_5
    by (auto simp: demo_cell_defs float_param_def param_def STEP_S_def POLL_INTERVAL_S_def OBSERVE_TIMEOUT_S_def
        demo_arrived_def)
qed




end
