(* ===== verification/Endpoint_Lifecycle.thy ===== *)
theory Endpoint_Lifecycle
  imports Input_Endpoints
begin

text \<open>
  Starting and stopping the input endpoints: the worker thread of \<open>io/serial_endpoint.py\<close> beside the event
  loop, and the sockets of \<open>io/udp_endpoint.py\<close> and \<open>io/osc_endpoint.py\<close>. Bytes become events as in
  \<open>Input_Endpoints\<close>. A thread is cut where it waits: it looks at the stop queue, then sits in \<open>read\<close>. A run is any
  interleaving of the threads with the event loop; \<open>stop\<close> holds the event loop while it waits in \<open>join\<close>.
\<close>

section \<open>The serial endpoint\<close>

datatype input_thread =
    Looking bytes
  | Reading bytes
  | Gone

text \<open>
  \<open>se_serial\<close> is the connection (\<open>None\<close> before it is opened, then whether it is open), \<open>se_stops\<close> the length of
  \<open>_stop_queue\<close>, \<open>se_threads\<close> all threads ever started, \<open>se_posted\<close> the events given to \<open>call_soon_threadsafe\<close>, of
  which the event loop has dispatched the first \<open>se_dispatched\<close>.
\<close>

record serial_endpoint =
  se_serial :: "bool option"
  se_owns_connection :: bool
  se_stops :: nat
  se_thread :: "nat option"
  se_joining :: bool
  se_threads :: "input_thread list"
  se_posted :: "input_event list"
  se_dispatched :: nat

definition new_serial_endpoint :: "bool \<Rightarrow> serial_endpoint" where
  "new_serial_endpoint connection_given =
     \<lparr>se_serial = (if connection_given then Some True else None), se_owns_connection = (\<not> connection_given),
      se_stops = 0, se_thread = None, se_joining = False, se_threads = [], se_posted = [], se_dispatched = 0\<rparr>"

text \<open>\<open>start\<close>; \<open>opens\<close> says whether the port can be opened. Nothing is kept of a start that raises.\<close>

definition start_serial :: "bool \<Rightarrow> serial_endpoint \<Rightarrow> unit + serial_endpoint" where
  "start_serial opens s =
     (if se_serial s = None \<and> \<not> opens then Inl ()
      else Inr (s\<lparr>se_serial := (if se_serial s = None then Some True else se_serial s),
             se_threads := se_threads s @ [Looking []], se_thread := Some (length (se_threads s))\<rparr>))"

text \<open>\<open>stop\<close> up to its \<open>join\<close>, and after it: the thread has ended, or two seconds have passed.\<close>

definition stop_serial_begin :: "serial_endpoint \<Rightarrow> serial_endpoint" where
  "stop_serial_begin s = s\<lparr>se_stops := se_stops s + 1, se_joining := True\<rparr>"

definition stop_serial_end :: "serial_endpoint \<Rightarrow> serial_endpoint" where
  "stop_serial_end s =
     s\<lparr>se_thread := None, se_joining := False,
       se_serial := (if se_owns_connection s \<and> se_serial s \<noteq> None then Some False else se_serial s)\<rparr>"

text \<open>\<open>while self._stop_queue.empty()\<close>\<close>

definition thread_looks :: "nat \<Rightarrow> serial_endpoint \<Rightarrow> serial_endpoint" where
  "thread_looks i s =
     (case se_threads s ! i of
        Looking buffer \<Rightarrow> s\<lparr>se_threads := (se_threads s)[i := (if se_stops s = 0 then Reading buffer else Gone)]\<rparr>
      | _ \<Rightarrow> s)"

text \<open>
  \<open>read(256)\<close> returns a chunk, or raises (\<open>None\<close>), as it does on a closed port. The lines of the chunk are
  handled; a line that cannot become an event ends the thread.
\<close>

definition thread_reads :: "text_env \<Rightarrow> string \<Rightarrow> time \<Rightarrow> nat \<Rightarrow> bytes option \<Rightarrow> serial_endpoint \<Rightarrow> serial_endpoint" where
  "thread_reads env src now i answer s =
     (case se_threads s ! i of
        Reading buffer \<Rightarrow>
          (case answer of
             None \<Rightarrow> s\<lparr>se_threads := (se_threads s)[i := Gone]\<rparr>
           | Some chunk \<Rightarrow>
               let (lines, buffer') = take_chunk chunk buffer; (evs, alive) = handle_lines (handle_line env src now) lines
               in s\<lparr>se_threads := (se_threads s)[i := (if alive then Looking buffer' else Gone)],
                    se_posted := se_posted s @ evs\<rparr>)
      | _ \<Rightarrow> s)"

text \<open>The event loop runs the next \<open>_dispatch\<close>, unless \<open>join\<close> holds it.\<close>

definition loop_dispatch :: "serial_endpoint \<Rightarrow> serial_endpoint" where
  "loop_dispatch s =
     (if \<not> se_joining s \<and> se_dispatched s < length (se_posted s) then s\<lparr>se_dispatched := se_dispatched s + 1\<rparr> else s)"

datatype serial_op =
    Se_start bool
  | Se_stop_begin
  | Se_stop_end
  | Se_look nat
  | Se_read time nat "bytes option"
  | Se_dispatch

definition serial_op_ok :: "serial_op \<Rightarrow> serial_endpoint \<Rightarrow> bool" where
  "serial_op_ok p s \<longleftrightarrow>
     (case p of
        Se_start _ \<Rightarrow> \<not> se_joining s
      | Se_stop_begin \<Rightarrow> \<not> se_joining s
      | Se_stop_end \<Rightarrow> se_joining s
      | Se_look i \<Rightarrow> i < length (se_threads s)
      | Se_read _ i _ \<Rightarrow> i < length (se_threads s)
      | Se_dispatch \<Rightarrow> True)"

fun serial_perform :: "text_env \<Rightarrow> string \<Rightarrow> serial_op \<Rightarrow> serial_endpoint \<Rightarrow> serial_endpoint" where
  "serial_perform env src (Se_start opens) s = (case start_serial opens s of Inl _ \<Rightarrow> s | Inr s' \<Rightarrow> s')"
| "serial_perform env src Se_stop_begin s = stop_serial_begin s"
| "serial_perform env src Se_stop_end s = stop_serial_end s"
| "serial_perform env src (Se_look i) s = thread_looks i s"
| "serial_perform env src (Se_read now i answer) s = thread_reads env src now i answer s"
| "serial_perform env src Se_dispatch s = loop_dispatch s"

inductive serial_run :: "text_env \<Rightarrow> string \<Rightarrow> serial_endpoint \<Rightarrow> serial_endpoint \<Rightarrow> bool" for env src s0 where
  serial_here: "serial_run env src s0 s0"
| serial_more: "serial_run env src s0 s \<Longrightarrow> serial_op_ok p s \<Longrightarrow> serial_run env src s0 (serial_perform env src p s)"

section \<open>What a thread posts\<close>

text \<open>A thread that is left alone reads chunk after chunk; it posts what \<open>serial_worker\<close> makes of them.\<close>

fun thread_runs :: "text_env \<Rightarrow> string \<Rightarrow> nat \<Rightarrow> (time \<times> bytes) list \<Rightarrow> serial_endpoint \<Rightarrow> serial_endpoint" where
  "thread_runs env src i [] s = s"
| "thread_runs env src i ((now, chunk) # chunks) s =
     thread_runs env src i chunks (thread_reads env src now i (Some chunk) (thread_looks i s))"

lemma thread_runs_gone: "i < length (se_threads s) \<Longrightarrow> se_threads s ! i = Gone \<Longrightarrow> thread_runs env src i chunks s = s"
  by (induction chunks) (auto simp: thread_looks_def thread_reads_def)

theorem thread_posts_serial_worker:
  assumes "i < length (se_threads s)" and "se_threads s ! i = Looking buffer" and "se_stops s = 0"
  shows "se_posted (thread_runs env src i chunks s) = se_posted s @ fst (serial_worker env src chunks buffer)"
  using assms
proof (induction chunks arbitrary: s buffer)
  case (Cons c chunks)
  obtain now chunk where c: "c = (now, chunk)" by (cases c)
  obtain lines buffer' where t: "take_chunk chunk buffer = (lines, buffer')" by (cases "take_chunk chunk buffer")
  obtain evs alive where h: "handle_lines (handle_line env src now) lines = (evs, alive)"
    by (cases "handle_lines (handle_line env src now) lines")
  let ?s' = "s\<lparr>se_threads := (se_threads s)[i := (if alive then Looking buffer' else Gone)], se_posted := se_posted s @ evs\<rparr>"
  have s': "thread_reads env src now i (Some chunk) (thread_looks i s) = ?s'"
    using Cons.prems by (simp add: thread_looks_def thread_reads_def t h)
  show ?case
  proof (cases alive)
    case True
    with Cons.IH [of ?s' buffer'] Cons.prems show ?thesis
      by (simp add: c s' t h case_prod_beta)
  next
    case False
    with Cons.prems thread_runs_gone [of i ?s'] show ?thesis
      by (simp add: c s' t h)
  qed
qed simp

section \<open>After a stop\<close>

text \<open>A read that was in progress at the stop: the thread, the time at which it returned, and what.\<close>

type_synonym last_read = "nat \<times> time \<times> bytes"

definition last_events :: "text_env \<Rightarrow> string \<Rightarrow> serial_endpoint \<Rightarrow> last_read \<Rightarrow> input_event list" where
  "last_events env src s0 rd =
     (case rd of (i, now, chunk) \<Rightarrow>
        (case se_threads s0 ! i of
           Reading buffer \<Rightarrow> fst (handle_lines (handle_line env src now) (fst (take_chunk chunk buffer)))
         | _ \<Rightarrow> []))"

text \<open>
  Since the stop, the reads \<open>rds\<close> have returned, each of a different thread that was in \<open>read\<close> at the stop, and
  nothing else has been posted; a thread still in \<open>read\<close> is one of the others.
\<close>

definition winding_down :: "text_env \<Rightarrow> string \<Rightarrow> serial_endpoint \<Rightarrow> last_read list \<Rightarrow> serial_endpoint \<Rightarrow> bool" where
  "winding_down env src s0 rds s \<longleftrightarrow>
     0 < se_stops s \<and> length (se_threads s0) \<le> length (se_threads s) \<and>
     distinct (map fst rds) \<and>
     (\<forall>i \<in> set (map fst rds). i < length (se_threads s0) \<and> (\<exists>b. se_threads s0 ! i = Reading b)) \<and>
     (\<forall>i b. i < length (se_threads s) \<longrightarrow> se_threads s ! i = Reading b \<longrightarrow>
        i < length (se_threads s0) \<and> se_threads s0 ! i = Reading b \<and> i \<notin> set (map fst rds)) \<and>
     se_posted s = se_posted s0 @ concat (map (last_events env src s0) rds)"

lemma winding_down_quiet:
  assumes "winding_down env src s0 rds s" and "se_posted s' = se_posted s" and "0 < se_stops s'"
    and "length (se_threads s) \<le> length (se_threads s')"
    and "\<And>i b. i < length (se_threads s') \<Longrightarrow> se_threads s' ! i = Reading b \<Longrightarrow>
      i < length (se_threads s) \<and> se_threads s ! i = Reading b"
  shows "winding_down env src s0 rds s'"
  using assms unfolding winding_down_def by (simp add: order.trans)

lemma winding_down_read:
  assumes "winding_down env src s0 rds s" and "i < length (se_threads s)" and "se_threads s ! i = Reading buffer"
  shows "\<exists>rds'. winding_down env src s0 rds' (thread_reads env src now i (Some chunk) s)"
proof -
  obtain evs alive where h: "handle_lines (handle_line env src now) (fst (take_chunk chunk buffer)) = (evs, alive)"
    by (cases "handle_lines (handle_line env src now) (fst (take_chunk chunk buffer))")
  let ?t = "if alive then Looking (snd (take_chunk chunk buffer)) else Gone"
  have s': "thread_reads env src now i (Some chunk) s = s\<lparr>se_threads := (se_threads s)[i := ?t], se_posted := se_posted s @ evs\<rparr>"
    using assms(3) h by (simp add: thread_reads_def Let_def case_prod_beta)
  have i: "i < length (se_threads s0)" "se_threads s0 ! i = Reading buffer" "i \<notin> set (map fst rds)"
    using assms by (auto simp: winding_down_def)
  have "last_events env src s0 (i, now, chunk) = evs"
    using i(2) h by (simp add: last_events_def)
  then have "winding_down env src s0 (rds @ [(i, now, chunk)]) (thread_reads env src now i (Some chunk) s)"
    using assms(1) i unfolding s' winding_down_def
    by (auto simp: nth_list_update split: if_splits)
  then show ?thesis ..
qed

lemma winding_down_perform:
  assumes "winding_down env src s0 rds s" and "serial_op_ok p s"
  shows "\<exists>rds'. winding_down env src s0 rds' (serial_perform env src p s)"
proof (cases p)
  case (Se_start opens)
  have "winding_down env src s0 rds (serial_perform env src p s)"
    using assms(1) unfolding Se_start
    by (intro winding_down_quiet [OF assms(1)])
      (auto simp: start_serial_def winding_down_def nth_append split: if_splits)
  then show ?thesis ..
next
  case (Se_look i)
  have "winding_down env src s0 rds (serial_perform env src p s)"
    using assms unfolding Se_look
    by (intro winding_down_quiet [OF assms(1)])
      (auto simp: thread_looks_def winding_down_def serial_op_ok_def nth_list_update split: if_splits input_thread.splits)
  then show ?thesis ..
next
  case (Se_read now i answer)
  show ?thesis
  proof (cases "\<exists>buffer chunk. se_threads s ! i = Reading buffer \<and> answer = Some chunk")
    case True
    with assms Se_read winding_down_read [OF assms(1)] show ?thesis by (auto simp: serial_op_ok_def)
  next
    case False
    have "winding_down env src s0 rds (serial_perform env src p s)"
      using assms False unfolding Se_read
      by (intro winding_down_quiet [OF assms(1)])
        (auto simp: thread_reads_def winding_down_def serial_op_ok_def nth_list_update split: if_splits input_thread.splits option.splits)
    then show ?thesis ..
  qed
qed (use assms(1) in \<open>auto simp: stop_serial_begin_def stop_serial_end_def loop_dispatch_def
      intro!: exI [of _ rds] winding_down_quiet [OF assms(1)]\<close>, auto simp: winding_down_def)

text \<open>
  A serial endpoint that was stopped once posts no more than the events of the reads that were in progress,
  one chunk of each such thread; this holds whatever follows, further starts included. So it cannot be
  started again: \<open>_stop_queue\<close> is never emptied, and a new thread ends before its first read.
\<close>

theorem stopped_serial_winds_down:
  assumes "serial_run env src s0 s" and "0 < se_stops s0"
  shows "\<exists>rds. distinct (map fst rds) \<and>
    (\<forall>(i, now, chunk) \<in> set rds. i < length (se_threads s0) \<and> (\<exists>b. se_threads s0 ! i = Reading b)) \<and>
    se_posted s = se_posted s0 @ concat (map (last_events env src s0) rds)"
proof -
  from assms(1) have "\<exists>rds. winding_down env src s0 rds s"
  proof (induction rule: serial_run.induct)
    case serial_here
    show ?case by (rule exI [of _ "[]"]) (use assms(2) in \<open>simp add: winding_down_def\<close>)
  next
    case (serial_more s p)
    then show ?case using winding_down_perform by blast
  qed
  then show ?thesis unfolding winding_down_def by (fastforce simp: image_iff)
qed

theorem restarted_serial_is_deaf:
  assumes "serial_run env src s0 s" and "0 < se_stops s0" and "\<forall>t \<in> set (se_threads s0). \<forall>b. t \<noteq> Reading b"
  shows "se_posted s = se_posted s0"
proof -
  from stopped_serial_winds_down [OF assms(1,2)] obtain rds where rds:
    "\<forall>(i, now, chunk) \<in> set rds. i < length (se_threads s0) \<and> (\<exists>b. se_threads s0 ! i = Reading b)"
    "se_posted s = se_posted s0 @ concat (map (last_events env src s0) rds)" by blast
  have "rds = []" using rds(1) assms(3) nth_mem by (cases rds) fastforce+
  with rds(2) show ?thesis by simp
qed

section \<open>Sockets\<close>

text \<open>
  \<open>start\<close> and \<open>stop\<close> of the UDP endpoint and the OSC endpoint, which are the same. \<open>de_sockets\<close> are the transports ever
  made, with the port each is bound to and whether it is open; a closed one delivers nothing any more.
\<close>

record datagram_endpoint =
  de_transport :: "nat option"
  de_sockets :: "(int \<times> bool) list"

definition new_datagram_endpoint :: datagram_endpoint where
  "new_datagram_endpoint = \<lparr>de_transport = None, de_sockets = []\<rparr>"

definition bound_port :: "datagram_endpoint \<Rightarrow> int option" where
  "bound_port d = map_option (\<lambda>i. fst (de_sockets d ! i)) (de_transport d)"

text \<open>The port that the system bound, or nothing if the address is taken (\<open>OSError\<close>).\<close>

definition start_datagram :: "int option \<Rightarrow> datagram_endpoint \<Rightarrow> unit + datagram_endpoint" where
  "start_datagram bound d =
     (case bound of
        None \<Rightarrow> Inl ()
      | Some port \<Rightarrow> Inr \<lparr>de_transport = Some (length (de_sockets d)), de_sockets = de_sockets d @ [(port, True)]\<rparr>)"

definition stop_datagram :: "datagram_endpoint \<Rightarrow> datagram_endpoint" where
  "stop_datagram d =
     (case de_transport d of
        None \<Rightarrow> d
      | Some i \<Rightarrow> \<lparr>de_transport = None, de_sockets = (de_sockets d)[i := (fst (de_sockets d ! i), False)]\<rparr>)"

definition open_sockets :: "datagram_endpoint \<Rightarrow> nat list" where
  "open_sockets d = filter (\<lambda>i. snd (de_sockets d ! i)) [0..<length (de_sockets d)]"

text \<open>Each use of the endpoint: started if the port is free, then stopped.\<close>

definition datagram_session :: "int option \<Rightarrow> datagram_endpoint \<Rightarrow> datagram_endpoint" where
  "datagram_session bound d = (case start_datagram bound d of Inl _ \<Rightarrow> d | Inr d' \<Rightarrow> stop_datagram d')"

definition all_closed :: "datagram_endpoint \<Rightarrow> bool" where
  "all_closed d \<longleftrightarrow> de_transport d = None \<and> (\<forall>(port, is_open) \<in> set (de_sockets d). \<not> is_open)"

lemma all_closed_session: "all_closed d \<Longrightarrow> all_closed (datagram_session bound d)"
  by (auto simp: all_closed_def datagram_session_def start_datagram_def stop_datagram_def split: option.split)

lemma all_closed_sessions: "all_closed d \<Longrightarrow> all_closed (fold datagram_session bounds d)"
  by (induction bounds arbitrary: d) (simp_all add: all_closed_session)

text \<open>
  A datagram endpoint can be used again and again: it listens on the socket it bound last and on no other,
  and after its stop on none.
\<close>

theorem datagram_endpoint_restarts:
  fixes bounds :: "int option list"
  shows "let d = fold datagram_session bounds new_datagram_endpoint
    in open_sockets d = [] \<and> bound_port d = None \<and>
      (\<forall>port. \<exists>d'. start_datagram (Some port) d = Inr d' \<and> bound_port d' = Some port \<and>
         open_sockets d' = [length (de_sockets d)])"
proof -
  let ?d = "fold datagram_session bounds new_datagram_endpoint"
  have "all_closed ?d"
    by (rule all_closed_sessions) (simp add: all_closed_def new_datagram_endpoint_def)
  then have closed: "de_transport ?d = None" "\<And>i. i < length (de_sockets ?d) \<Longrightarrow> \<not> snd (de_sockets ?d ! i)"
    unfolding all_closed_def by (auto simp: case_prod_beta)
  then have none: "filter (\<lambda>i. snd (de_sockets ?d ! i)) [0..<length (de_sockets ?d)] = []"
    by (auto simp: filter_empty_conv)
  have "filter (\<lambda>i. snd ((de_sockets ?d @ [(port, True)]) ! i)) [0..<length (de_sockets ?d)] = []" for port
    using closed(2) by (auto simp: filter_empty_conv nth_append)
  with closed(1) none show ?thesis
    by (simp add: Let_def open_sockets_def bound_port_def start_datagram_def nth_append)
qed

text \<open>Started twice, it keeps the first socket open, and \<open>stop\<close> closes only the second.\<close>

theorem second_start_leaks:
  assumes "start_datagram (Some p) new_datagram_endpoint = Inr d1" and "start_datagram (Some q) d1 = Inr d2"
  shows "open_sockets (stop_datagram d2) = [0] \<and> bound_port (stop_datagram d2) = None"
  using assms by (auto simp: start_datagram_def new_datagram_endpoint_def stop_datagram_def open_sockets_def bound_port_def)

end
