(* ===== verification/Runtime_Logging.thy ===== *)
theory Runtime_Logging
  imports Octets
begin

text \<open>
  The log of a Runtime process, \<open>telemetry/logging.py\<close>, with what it uses of the library: handlers with filters,
  propagation from the loggers below \<open>fusion\<close>, and \<open>RotatingFileHandler\<close> (Python 3.13). \<open>enc\<close> is the encoding of a
  line as it is written, UTF-8 with the platform's line end; \<open>asctime\<close> is text. A log file is its bytes;
  the backups \<open>x.log.1\<close>, \<open>x.log.2\<close>, ... are a list, the youngest first.
\<close>

section \<open>The rotating file\<close>

definition DEFAULT_MAX_BYTES_log :: nat where "DEFAULT_MAX_BYTES_log = 5 * 1024 * 1024"
definition DEFAULT_BACKUP_COUNT :: nat where "DEFAULT_BACKUP_COUNT = 5"

record log_file =
  lf_current :: bytes
  lf_backups :: "bytes list"

text \<open>\<open>shouldRollover\<close>: the size of the file in bytes and of the line in characters; never of an empty file.\<close>

definition should_rollover :: "nat \<Rightarrow> string \<Rightarrow> log_file \<Rightarrow> bool" where
  "should_rollover max_bytes line f \<longleftrightarrow>
     0 < max_bytes \<and> lf_current f \<noteq> [] \<and> max_bytes \<le> length (lf_current f) + length line"

text \<open>\<open>doRollover\<close>: every backup moves on by one, the oldest is removed.\<close>

definition do_rollover :: "nat \<Rightarrow> log_file \<Rightarrow> log_file" where
  "do_rollover backup_count f = \<lparr>lf_current = [], lf_backups = take backup_count (lf_current f # lf_backups f)\<rparr>"

definition emit_line :: "(string \<Rightarrow> bytes) \<Rightarrow> nat \<Rightarrow> nat \<Rightarrow> string \<Rightarrow> log_file \<Rightarrow> log_file" where
  "emit_line enc max_bytes backup_count line f =
     (let f1 = (if should_rollover max_bytes line f then do_rollover backup_count f else f)
      in f1\<lparr>lf_current := lf_current f1 @ enc line\<rparr>)"

definition emit_lines :: "(string \<Rightarrow> bytes) \<Rightarrow> nat \<Rightarrow> nat \<Rightarrow> string list \<Rightarrow> log_file \<Rightarrow> log_file" where
  "emit_lines enc max_bytes backup_count lines f = fold (emit_line enc max_bytes backup_count) lines f"

text \<open>Everything that is on the disk, oldest first.\<close>

definition log_content :: "log_file \<Rightarrow> bytes" where
  "log_content f = concat (rev (lf_backups f)) @ lf_current f"

definition file_sizes_ok :: "nat \<Rightarrow> nat \<Rightarrow> log_file \<Rightarrow> bool" where
  "file_sizes_ok limit backup_count f \<longleftrightarrow>
     length (lf_backups f) \<le> backup_count \<and> (\<forall>b \<in> set (lf_current f # lf_backups f). length b \<le> limit)"

lemma emit_line_sizes:
  assumes "file_sizes_ok (max_bytes + 3 * longest) n f" and "length line \<le> longest" and "longest \<le> max_bytes"
    and "\<And>l. length (enc l) \<le> 4 * length l" and "0 < max_bytes"
  shows "file_sizes_ok (max_bytes + 3 * longest) n (emit_line enc max_bytes n line f)"
proof (cases "should_rollover max_bytes line f")
  case True
  have "length (enc line) \<le> max_bytes + 3 * longest"
    using assms(2,3) assms(4) [of line] by linarith
  with True assms(1) show ?thesis
    by (auto simp: emit_line_def do_rollover_def file_sizes_ok_def dest!: in_set_takeD)
next
  case False
  then have "lf_current f = [] \<or> length (lf_current f) + length line < max_bytes"
    using assms(5) by (auto simp: should_rollover_def)
  then have "length (lf_current f @ enc line) \<le> max_bytes + 3 * longest"
    using assms(2,3) assms(4) [of line] by auto
  with False assms(1) show ?thesis by (auto simp: emit_line_def file_sizes_ok_def)
qed

text \<open>What a line leaves of the log: all of it and the line, but for the oldest backup of a full log.\<close>

lemma emit_line_content:
  assumes "length (lf_backups f) \<le> n"
  shows "\<exists>gone. log_content f @ enc line = gone @ log_content (emit_line enc max_bytes n line f) \<and>
    (gone \<noteq> [] \<longrightarrow> length (lf_backups (emit_line enc max_bytes n line f)) = n) \<and>
    length (lf_backups f) \<le> length (lf_backups (emit_line enc max_bytes n line f)) \<and>
    length (lf_backups (emit_line enc max_bytes n line f)) \<le> n"
proof (cases "should_rollover max_bytes line f")
  case False
  with assms show ?thesis by (intro exI [of _ "[]"]) (simp add: emit_line_def log_content_def)
next
  case True
  let ?all = "lf_current f # lf_backups f"
  have split: "concat (rev ?all) = concat (rev (drop n ?all)) @ concat (rev (take n ?all))"
    by (simp only: append_take_drop_id flip: concat_append rev_append)
  show ?thesis
    using assms True split
    by (intro exI [of _ "concat (rev (drop n ?all))"])
      (auto simp: emit_line_def do_rollover_def log_content_def min_def)
qed

lemma emit_lines_keeps:
  assumes "length (lf_backups f) \<le> n"
  shows "\<exists>gone. log_content f @ concat (map enc lines) = gone @ log_content (emit_lines enc max_bytes n lines f) \<and>
    (gone \<noteq> [] \<longrightarrow> length (lf_backups (emit_lines enc max_bytes n lines f)) = n) \<and>
    length (lf_backups f) \<le> length (lf_backups (emit_lines enc max_bytes n lines f)) \<and>
    length (lf_backups (emit_lines enc max_bytes n lines f)) \<le> n"
  using assms
proof (induction lines arbitrary: f)
  case Nil
  then show ?case by (simp add: emit_lines_def)
next
  case (Cons line lines)
  let ?f = "emit_line enc max_bytes n line f"
  from emit_line_content [OF Cons.prems, of enc line max_bytes] obtain g where
    g: "log_content f @ enc line = g @ log_content ?f" "g \<noteq> [] \<longrightarrow> length (lf_backups ?f) = n"
      "length (lf_backups f) \<le> length (lf_backups ?f)" "length (lf_backups ?f) \<le> n" by blast
  from Cons.IH [OF g(4)] obtain g' where
    g': "log_content ?f @ concat (map enc lines) = g' @ log_content (emit_lines enc max_bytes n lines ?f)"
      "g' \<noteq> [] \<longrightarrow> length (lf_backups (emit_lines enc max_bytes n lines ?f)) = n"
      "length (lf_backups ?f) \<le> length (lf_backups (emit_lines enc max_bytes n lines ?f))"
      "length (lf_backups (emit_lines enc max_bytes n lines ?f)) \<le> n" by blast
  have more: "emit_lines enc max_bytes n (line # lines) f = emit_lines enc max_bytes n lines ?f"
    by (simp add: emit_lines_def)
  have "log_content f @ concat (map enc (line # lines)) = (g @ g') @ log_content (emit_lines enc max_bytes n lines ?f)"
    using g(1) g'(1) by simp (metis append_assoc)
  with g g' show ?case unfolding more by (intro exI [of _ "g @ g'"]) auto
qed

lemma emit_lines_sizes:
  assumes "file_sizes_ok (max_bytes + 3 * longest) n f" and "\<forall>line \<in> set lines. length line \<le> longest"
    and "longest \<le> max_bytes" and "\<And>l. length (enc l) \<le> 4 * length l" and "0 < max_bytes"
  shows "file_sizes_ok (max_bytes + 3 * longest) n (emit_lines enc max_bytes n lines f)"
  using assms(1,2)
proof (induction lines arbitrary: f)
  case (Cons line lines)
  then show ?case
    using emit_line_sizes [OF Cons.prems(1) _ assms(3-5), of line] by (simp add: emit_lines_def)
qed (simp add: emit_lines_def)

text \<open>
  The log of a process that ran before or runs for long: whatever is written, the files on the disk are an
  unbroken end of all that was ever written; something is gone only when all backups are there; and with
  lines of at most \<open>longest\<close> characters there are at most \<open>n + 1\<close> files of \<open>max_bytes + 3 * longest\<close> bytes. The
  bound is not \<open>max_bytes\<close>: the handler adds a line's characters to the file's bytes, and UTF-8 may need
  four bytes for a character.
\<close>

theorem log_is_bounded_and_recent:
  assumes "file_sizes_ok (max_bytes + 3 * longest) n f" and "\<forall>line \<in> set lines. length line \<le> longest"
    and "longest \<le> max_bytes" and "\<And>l. length (enc l) \<le> 4 * length l" and "0 < max_bytes"
  shows "let f' = emit_lines enc max_bytes n lines f
    in length (log_content f') \<le> (n + 1) * (max_bytes + 3 * longest) \<and>
      (\<exists>gone. log_content f @ concat (map enc lines) = gone @ log_content f' \<and>
         (gone \<noteq> [] \<longrightarrow> length (lf_backups f') = n))"
proof -
  let ?f' = "emit_lines enc max_bytes n lines f" and ?limit = "max_bytes + 3 * longest"
  have sizes: "file_sizes_ok ?limit n ?f'" by (rule emit_lines_sizes [OF assms])
  have sum: "(\<forall>b \<in> set bs. length b \<le> ?limit) \<Longrightarrow> length (concat bs) \<le> length bs * ?limit" for bs :: "bytes list"
    by (induction bs) auto
  have "length (concat (rev (lf_backups ?f'))) \<le> length (lf_backups ?f') * ?limit"
    using sum [of "rev (lf_backups ?f')"] sizes by (simp add: file_sizes_ok_def)
  moreover have "length (lf_backups ?f') * ?limit \<le> n * ?limit"
    using sizes by (intro mult_le_mono1) (simp add: file_sizes_ok_def)
  moreover have "length (lf_current ?f') \<le> ?limit"
    using sizes by (simp add: file_sizes_ok_def)
  ultimately have "length (log_content ?f') \<le> (n + 1) * ?limit"
    unfolding log_content_def length_append add_mult_distrib mult_1 by linarith
  moreover have "length (lf_backups f) \<le> n" using assms(1) by (simp add: file_sizes_ok_def)
  from emit_lines_keeps [OF this, of enc lines max_bytes] obtain gone where
    "log_content f @ concat (map enc lines) = gone @ log_content ?f'" "gone \<noteq> [] \<longrightarrow> length (lf_backups ?f') = n" by blast
  ultimately show ?thesis unfolding Let_def by blast
qed

section \<open>Loggers and handlers\<close>

text \<open>A handler with the filter that \<open>addFilter\<close> gave it: the ids it sets on every record it handles.\<close>

datatype log_sink =
    Rotating_file string
  | Console

record log_handler =
  lh_sink :: log_sink
  lh_runtime_id :: string
  lh_runtime_boot_id :: string

record log_record =
  lr_logger :: string
  lr_level :: int
  lr_level_name :: string
  lr_asctime :: string
  lr_message :: string

definition INFO :: int where "INFO = 20"

text \<open>\<open>lo_level\<close> and \<open>lo_handlers\<close> belong to the logger \<open>fusion\<close>; \<open>lo_files\<close> are the files by path.\<close>

record process_log =
  lo_level :: "int option"
  lo_handlers :: "log_handler list"
  lo_files :: "string \<Rightarrow> log_file"
  lo_console :: "string list"

definition configure_runtime_logging :: "string \<Rightarrow> string \<Rightarrow> string \<Rightarrow> string \<Rightarrow> int \<Rightarrow> process_log \<Rightarrow> process_log" where
  "configure_runtime_logging log_dir app_name runtime_id runtime_boot_id level lo =
     lo\<lparr>lo_level := Some level,
        lo_handlers := lo_handlers lo @
          [\<lparr>lh_sink = Rotating_file (log_dir @ ''/'' @ app_name @ ''.log''), lh_runtime_id = runtime_id,
             lh_runtime_boot_id = runtime_boot_id\<rparr>,
           \<lparr>lh_sink = Console, lh_runtime_id = runtime_id, lh_runtime_boot_id = runtime_boot_id\<rparr>]\<rparr>"

definition format_record :: "log_handler \<Rightarrow> log_record \<Rightarrow> string" where
  "format_record h r =
     lr_asctime r @ '' '' @ lr_level_name r @ '' runtime_id='' @ lh_runtime_id h @
     '' runtime_boot_id='' @ lh_runtime_boot_id h @ '' '' @ lr_logger r @ '': '' @ lr_message r"

definition handle_record :: "(string \<Rightarrow> bytes) \<Rightarrow> log_record \<Rightarrow> log_handler \<Rightarrow> process_log \<Rightarrow> process_log" where
  "handle_record enc r h lo =
     (let line = format_record h r @ [CHR 0x0A]
      in case lh_sink h of
           Rotating_file path \<Rightarrow> lo\<lparr>lo_files := (lo_files lo)
             (path := emit_line enc DEFAULT_MAX_BYTES_log DEFAULT_BACKUP_COUNT line (lo_files lo path))\<rparr>
         | Console \<Rightarrow> lo\<lparr>lo_console := lo_console lo @ [line]\<rparr>)"

text \<open>A logger is \<open>fusion\<close> or below it; these set no level of their own and have no handlers.\<close>

definition below_fusion :: "string \<Rightarrow> bool" where
  "below_fusion name \<longleftrightarrow> name = ''fusion'' \<or> take 7 name = ''fusion.''"

definition log_call :: "(string \<Rightarrow> bytes) \<Rightarrow> log_record \<Rightarrow> process_log \<Rightarrow> process_log" where
  "log_call enc r lo =
     (if below_fusion (lr_logger r) \<and> (\<exists>level. lo_level lo = Some level \<and> level \<le> lr_level r)
      then fold (handle_record enc r) (lo_handlers lo) lo else lo)"

definition fresh_log :: "(string \<Rightarrow> log_file) \<Rightarrow> process_log" where
  "fresh_log files = \<lparr>lo_level = None, lo_handlers = [], lo_files = files, lo_console = []\<rparr>"

definition logged :: "log_record \<Rightarrow> bool" where
  "logged r \<longleftrightarrow> below_fusion (lr_logger r) \<and> INFO \<le> lr_level r"

definition tagged_line :: "string \<Rightarrow> string \<Rightarrow> log_record \<Rightarrow> string" where
  "tagged_line runtime_id boot_id r =
     format_record \<lparr>lh_sink = Console, lh_runtime_id = runtime_id, lh_runtime_boot_id = boot_id\<rparr> r @ [CHR 0x0A]"

text \<open>
  In a process that configured its log once, every record of a logger below \<open>fusion\<close> of level INFO or more is
  written once to the file and once to the console, in order and tagged with the Runtime's ids, whichever
  logger it came from; nothing else is written.
\<close>

theorem every_record_is_tagged:
  fixes files :: "string \<Rightarrow> log_file"
  shows "let lo = configure_runtime_logging dir app rid boot INFO (fresh_log files);
      lo' = fold (log_call enc) rs lo; lines = map (tagged_line rid boot) (filter logged rs);
      path = dir @ ''/'' @ app @ ''.log''
    in lo_console lo' = lines \<and>
      lo_files lo' = files(path := emit_lines enc DEFAULT_MAX_BYTES_log DEFAULT_BACKUP_COUNT lines (files path))"
proof -
  let ?lo = "configure_runtime_logging dir app rid boot INFO (fresh_log files)"
  let ?path = "dir @ ''/'' @ app @ ''.log''"
  have one: "log_call enc r (?lo\<lparr>lo_console := c, lo_files := fs\<rparr>) =
      (if logged r
       then ?lo\<lparr>lo_console := c @ [tagged_line rid boot r], lo_files := fs
         (?path := emit_line enc DEFAULT_MAX_BYTES_log DEFAULT_BACKUP_COUNT (tagged_line rid boot r) (fs ?path))\<rparr>
       else ?lo\<lparr>lo_console := c, lo_files := fs\<rparr>)" for r c fs
    by (simp add: log_call_def configure_runtime_logging_def fresh_log_def logged_def
        handle_record_def tagged_line_def format_record_def Let_def)
  have all: "fold (log_call enc) rs (?lo\<lparr>lo_console := c, lo_files := fs\<rparr>) =
      (let lines = map (tagged_line rid boot) (filter logged rs)
       in ?lo\<lparr>lo_console := c @ lines, lo_files := fs
         (?path := emit_lines enc DEFAULT_MAX_BYTES_log DEFAULT_BACKUP_COUNT lines (fs ?path))\<rparr>)" for c fs
    by (induction rs arbitrary: c fs) (simp_all add: one emit_lines_def Let_def)
  have same: "?lo\<lparr>lo_console := [], lo_files := files\<rparr> = ?lo"
    by (simp add: configure_runtime_logging_def fresh_log_def)
  show ?thesis
    using all [where c = "[]" and fs = files, unfolded same] by (simp add: Let_def)
qed

text \<open>Configured twice, as by two Runtimes in one process, every record is written twice, with either's ids.\<close>

theorem configured_twice_writes_twice:
  "below_fusion (lr_logger r) \<and> INFO \<le> lr_level r \<longrightarrow>
   lo_console (log_call enc r (configure_runtime_logging dir2 app2 rid2 boot2 INFO
     (configure_runtime_logging dir app rid boot INFO (fresh_log files)))) =
   [tagged_line rid boot r, tagged_line rid2 boot2 r]"
  by (simp add: log_call_def configure_runtime_logging_def fresh_log_def handle_record_def tagged_line_def
      format_record_def Let_def)

end
