(* ===== verification/Video_Process.thy ===== *)
theory Video_Process
  imports Mpv_Player Entry_Points
begin

text \<open>
  The two threads of \<open>apps/video/main_mpv.py\<close>: Qt on the main thread, from the window to \<open>sys.exit\<close> (\<open>run\<close>), and
  asyncio on the other (\<open>_run_server_thread\<close>), with the task that watches for the stop. What uvicorn does is an
  input: it serves, fails, or ends some time after \<open>should_exit\<close> was set. Times are those of one clock. A
  sleep of the event loop ends up to \<open>eps\<close> late; uvicorn takes at most \<open>closing\<close> to end.
\<close>

section \<open>The state\<close>

text \<open>The server thread: connecting the adapter, serving until it is told to exit, and over.\<close>

datatype server_phase =
    Not_started
  | Connecting time
  | Serving
  | Closing time
  | Server_over "string option"

text \<open>The main thread: building, in Qt's loop, in \<open>join\<close> until a time, and out with an exit code.\<close>

datatype main_phase =
    Building
  | In_qt
  | Joining time int
  | Exited int

record video_process =
  vp_main :: main_phase
  vp_server :: server_phase
  vp_watch :: "time option"
  vp_stop_event :: bool
  vp_now :: time
  vp_player :: "mpv_adapter"
  vp_revealed :: bool
  vp_terminated :: bool
  vp_calls_late :: nat

definition WATCH_INTERVAL_S :: rat where "WATCH_INTERVAL_S = 1 / 10"
definition JOIN_TIMEOUT_S :: rat where "JOIN_TIMEOUT_S = 5"

definition new_video_process :: "mpv_adapter \<Rightarrow> video_process" where
  "new_video_process mp =
     \<lparr>vp_main = Building, vp_server = Not_started, vp_watch = None, vp_stop_event = False, vp_now = 0,
      vp_player = mp, vp_revealed = False, vp_terminated = False, vp_calls_late = 0\<rparr>"

section \<open>What happens\<close>

text \<open>\<open>window.reveal\<close>, the start of the thread (by \<open>eps\<close> it has connected the adapter), and Qt's loop\<close>

definition start_process :: "rat \<Rightarrow> time \<Rightarrow> video_process \<Rightarrow> video_process" where
  "start_process eps t vp = vp\<lparr>vp_main := In_qt, vp_revealed := True, vp_server := Connecting (t + eps), vp_now := t\<rparr>"

text \<open>\<open>await adapter.connect()\<close>; its exception ends the thread. Then the server and the watching task run.\<close>

definition server_connects :: "player_answer \<Rightarrow> time \<Rightarrow> video_process \<Rightarrow> video_process" where
  "server_connects answer t vp =
     (let (res, mp) = connect_mpv answer (vp_player vp)
      in (case res of
            Inl _ \<Rightarrow> vp\<lparr>vp_player := mp, vp_server := Server_over (Some ''connect''), vp_now := t\<rparr>
          | Inr _ \<Rightarrow> vp\<lparr>vp_player := mp, vp_server := Serving, vp_watch := Some t, vp_now := t\<rparr>))"

text \<open>
  \<open>server.serve()\<close> fails, at the start when the port is taken or later: \<open>gather\<close> passes the exception on, the end of
  the event loop cancels the watching task, and the thread is over.
\<close>

definition server_fails :: "string \<Rightarrow> time \<Rightarrow> video_process \<Rightarrow> video_process" where
  "server_fails why t vp = vp\<lparr>vp_server := Server_over (Some why), vp_watch := None, vp_now := t\<rparr>"

text \<open>A turn of \<open>_watch_stop\<close>, which tells the server to exit once the stop event is set.\<close>

definition watch_wakes :: "rat \<Rightarrow> time \<Rightarrow> video_process \<Rightarrow> video_process" where
  "watch_wakes closing t vp =
     (if vp_stop_event vp then vp\<lparr>vp_watch := None, vp_server := Closing (t + closing), vp_now := t\<rparr>
      else vp\<lparr>vp_watch := Some (t + WATCH_INTERVAL_S), vp_now := t\<rparr>)"

definition server_ends :: "time \<Rightarrow> video_process \<Rightarrow> video_process" where
  "server_ends t vp = vp\<lparr>vp_server := Server_over None, vp_now := t\<rparr>"

text \<open>The server handles a request that calls the player, as the preview does.\<close>

definition server_request :: "player_answer \<Rightarrow> player_call \<Rightarrow> time \<Rightarrow> video_process \<Rightarrow> video_process" where
  "server_request answer call t vp =
     vp\<lparr>vp_player := snd (player_call answer call (vp_player vp)), vp_now := t,
       vp_calls_late := vp_calls_late vp + (if vp_terminated vp then 1 else 0)\<rparr>"

text \<open>\<open>exec\<close> returns and the stop event is set; \<open>join\<close> returns and the player is terminated.\<close>

definition qt_returns :: "int \<Rightarrow> time \<Rightarrow> video_process \<Rightarrow> video_process" where
  "qt_returns code t vp = vp\<lparr>vp_stop_event := True, vp_main := Joining (t + JOIN_TIMEOUT_S) code, vp_now := t\<rparr>"

definition server_thread_over :: "video_process \<Rightarrow> bool" where
  "server_thread_over vp \<longleftrightarrow> (\<exists>why. vp_server vp = Server_over why)"

definition join_returns :: "time \<Rightarrow> video_process \<Rightarrow> video_process" where
  "join_returns t vp =
     (case vp_main vp of
        Joining _ code \<Rightarrow> vp\<lparr>vp_terminated := True, vp_main := Exited code, vp_now := t\<rparr>
      | _ \<Rightarrow> vp)"

text \<open>Nothing is overdue at time \<open>t\<close>.\<close>

definition vp_punctual :: "rat \<Rightarrow> time \<Rightarrow> video_process \<Rightarrow> bool" where
  "vp_punctual eps t vp \<longleftrightarrow> vp_now vp \<le> t \<and>
     (case vp_watch vp of None \<Rightarrow> True | Some due \<Rightarrow> t \<le> due + eps) \<and>
     (case vp_server vp of Connecting due \<Rightarrow> t \<le> due | Closing due \<Rightarrow> t \<le> due | _ \<Rightarrow> True)"

inductive process_run :: "rat \<Rightarrow> rat \<Rightarrow> mpv_adapter \<Rightarrow> video_process \<Rightarrow> bool" for eps closing mp where
  process_new: "process_run eps closing mp (new_video_process mp)"
| process_start: "process_run eps closing mp vp \<Longrightarrow> vp_main vp = Building \<Longrightarrow> vp_punctual eps t vp \<Longrightarrow>
    process_run eps closing mp (start_process eps t vp)"
| process_connect: "process_run eps closing mp vp \<Longrightarrow> vp_server vp = Connecting by_time \<Longrightarrow> vp_punctual eps t vp \<Longrightarrow>
    process_run eps closing mp (server_connects answer t vp)"
| process_fail: "process_run eps closing mp vp \<Longrightarrow> vp_server vp = Serving \<Longrightarrow> vp_punctual eps t vp \<Longrightarrow>
    process_run eps closing mp (server_fails why t vp)"
| process_watch: "process_run eps closing mp vp \<Longrightarrow> vp_watch vp = Some due \<Longrightarrow> due \<le> t \<Longrightarrow> vp_punctual eps t vp \<Longrightarrow>
    process_run eps closing mp (watch_wakes closing t vp)"
| process_end: "process_run eps closing mp vp \<Longrightarrow> vp_server vp = Closing by_time \<Longrightarrow> vp_punctual eps t vp \<Longrightarrow>
    process_run eps closing mp (server_ends t vp)"
| process_request: "process_run eps closing mp vp \<Longrightarrow> vp_server vp = Serving \<or> vp_server vp = Closing by_time \<Longrightarrow>
    vp_punctual eps t vp \<Longrightarrow> process_run eps closing mp (server_request answer call t vp)"
| process_quit: "process_run eps closing mp vp \<Longrightarrow> vp_main vp = In_qt \<Longrightarrow> vp_punctual eps t vp \<Longrightarrow>
    process_run eps closing mp (qt_returns code t vp)"
| process_join: "process_run eps closing mp vp \<Longrightarrow> vp_main vp = Joining deadline code \<Longrightarrow> vp_punctual eps t vp \<Longrightarrow>
    server_thread_over vp \<or> deadline \<le> t \<Longrightarrow> process_run eps closing mp (join_returns t vp)"

section \<open>Leaving\<close>

text \<open>The server's state in each phase of the main thread; after Qt's loop it is over in good time.\<close>

definition leaves_in_time :: "rat \<Rightarrow> rat \<Rightarrow> time \<Rightarrow> video_process \<Rightarrow> bool" where
  "leaves_in_time eps closing quit_at vp \<longleftrightarrow>
     (case vp_server vp of
        Not_started \<Rightarrow> False
      | Connecting due \<Rightarrow> due \<le> quit_at + eps
      | Serving \<Rightarrow> (\<exists>due. vp_watch vp = Some due \<and> due \<le> quit_at + WATCH_INTERVAL_S + eps)
      | Closing due \<Rightarrow> due \<le> quit_at + WATCH_INTERVAL_S + eps + eps + closing
      | Server_over _ \<Rightarrow> True)"

definition process_inv :: "rat \<Rightarrow> rat \<Rightarrow> video_process \<Rightarrow> bool" where
  "process_inv eps closing vp \<longleftrightarrow>
     vp_calls_late vp = 0 \<and> (vp_watch vp \<noteq> None \<longrightarrow> vp_server vp = Serving) \<and>
     (case vp_main vp of
        Building \<Rightarrow> vp_server vp = Not_started \<and> \<not> vp_stop_event vp \<and> \<not> vp_terminated vp
      | In_qt \<Rightarrow> \<not> vp_stop_event vp \<and> \<not> vp_terminated vp \<and> leaves_in_time eps closing (vp_now vp) vp \<and>
          (\<forall>due. vp_server vp \<noteq> Closing due)
      | Joining deadline _ \<Rightarrow> vp_stop_event vp \<and> \<not> vp_terminated vp \<and>
          leaves_in_time eps closing (deadline - JOIN_TIMEOUT_S) vp
      | Exited _ \<Rightarrow> vp_terminated vp \<and> server_thread_over vp)"

lemma leaves_later:
  "leaves_in_time eps closing q vp \<Longrightarrow> q \<le> q' \<Longrightarrow> vp_server vp' = vp_server vp \<Longrightarrow> vp_watch vp' = vp_watch vp \<Longrightarrow>
   leaves_in_time eps closing q' vp'"
  by (fastforce simp: leaves_in_time_def split: server_phase.splits)

lemma process_inv_run:
  assumes "process_run eps closing mp vp" and "0 \<le> eps"
    and "WATCH_INTERVAL_S + eps + eps + closing < JOIN_TIMEOUT_S" and "0 \<le> closing"
  shows "process_inv eps closing vp"
  using assms(1)
proof (induction rule: process_run.induct)
  case process_new
  show ?case by (simp add: process_inv_def new_video_process_def)
next
  case (process_start vp t)
  then show ?case by (auto simp: process_inv_def start_process_def leaves_in_time_def)
next
  case (process_connect vp by_time t answer)
  then have "t \<le> by_time" by (simp add: vp_punctual_def)
  with process_connect assms(2) show ?case
    by (auto simp: process_inv_def server_connects_def leaves_in_time_def vp_punctual_def WATCH_INTERVAL_S_def
        server_thread_over_def split: main_phase.splits sum.split prod.split)
next
  case (process_fail vp t why)
  then show ?case
    by (auto simp: process_inv_def server_fails_def leaves_in_time_def server_thread_over_def split: main_phase.splits)
next
  case (process_watch vp due t)
  then have "t \<le> due + eps" and "vp_server vp = Serving" by (auto simp: vp_punctual_def process_inv_def)
  with process_watch assms(2,4) show ?case
    by (auto simp: process_inv_def watch_wakes_def leaves_in_time_def vp_punctual_def server_thread_over_def
        split: main_phase.splits)
next
  case (process_end vp by_time t)
  then show ?case
    by (auto simp: process_inv_def server_ends_def leaves_in_time_def server_thread_over_def split: main_phase.splits)
next
  case (process_request vp by_time t answer call)
  then show ?case
    using leaves_later [of eps closing _ vp _ "server_request answer call t vp"]
    by (auto simp: process_inv_def server_request_def vp_punctual_def server_thread_over_def split: main_phase.splits)
next
  case (process_quit vp t code)
  then show ?case
    using leaves_later [of eps closing "vp_now vp" vp t "qt_returns code t vp"]
    by (auto simp: process_inv_def qt_returns_def vp_punctual_def)
next
  case (process_join vp deadline code t)
  have "server_thread_over vp"
  proof (rule ccontr)
    assume no: "\<not> server_thread_over vp"
    with process_join have "deadline \<le> t" and l: "leaves_in_time eps closing (deadline - JOIN_TIMEOUT_S) vp"
      by (auto simp: process_inv_def)
    with no process_join(3) assms(2-4) show False
      by (auto simp: leaves_in_time_def vp_punctual_def server_thread_over_def WATCH_INTERVAL_S_def JOIN_TIMEOUT_S_def
          split: server_phase.splits)
  qed
  with process_join show ?case
    by (auto simp: process_inv_def join_returns_def server_thread_over_def)
qed

text \<open>
  If the event loop is at most \<open>eps\<close> late and the server ends within \<open>closing\<close> of being told, and a watch
  interval with both fits into the 5 seconds of \<open>join\<close>, then the server never calls the player after
  \<open>player.terminate()\<close>, and when the process leaves, its server thread is over.
\<close>

theorem video_process_leaves_cleanly:
  assumes "process_run eps closing mp vp" and "0 \<le> eps" and "0 \<le> closing"
    and "WATCH_INTERVAL_S + eps + eps + closing < JOIN_TIMEOUT_S"
  shows "vp_calls_late vp = 0 \<and> (vp_terminated vp \<longleftrightarrow> (\<exists>code. vp_main vp = Exited code)) \<and>
    (vp_terminated vp \<longrightarrow> server_thread_over vp)"
  using process_inv_run [OF assms(1,2,4,3)] by (auto simp: process_inv_def split: main_phase.splits)

text \<open>
  When the server fails, at its start because the port is taken or later, nobody learns of it: the window
  stays up without a server until the operator closes it, and the process leaves with Qt's exit code.
\<close>

definition quiet_player :: player_answer where
  "quiet_player = \<lparr>pl_parse = \<lambda>_. None, pl_str = \<lambda>_. [], pl_duration = None, pl_raises = \<lambda>_. None\<rparr>"

theorem server_failure_unnoticed:
  assumes "0 \<le> eps"
  shows "\<exists>vp. process_run eps closing mp vp \<and> vp_server vp = Server_over (Some why) \<and> vp_main vp = Exited 0"
proof -
  let ?run = "process_run eps closing mp"
  let ?vp1 = "start_process eps 0 (new_video_process mp)"
  let ?vp2 = "server_connects quiet_player 0 ?vp1"
  let ?vp3 = "server_fails why 0 ?vp2"
  note defs = new_video_process_def start_process_def server_connects_def connect_mpv_def player_call_def quiet_player_def
    server_fails_def qt_returns_def join_returns_def vp_punctual_def server_thread_over_def
  have "?run ?vp1"
    by (rule process_start [OF process_new]) (simp_all add: defs)
  then have "?run ?vp2"
    by (rule process_connect [where by_time = eps]) (use assms in \<open>simp_all add: defs\<close>)
  then have "?run ?vp3"
    by (rule process_fail) (use assms in \<open>simp_all add: defs\<close>)
  then have "?run (qt_returns 0 0 ?vp3)"
    by (rule process_quit) (simp_all add: defs)
  then have "?run (join_returns 0 (qt_returns 0 0 ?vp3))"
    by (rule process_join [where deadline = JOIN_TIMEOUT_S and code = 0]) (simp_all add: defs)
  then show ?thesis
    by (intro exI [of _ "join_returns 0 (qt_returns 0 0 ?vp3)"] conjI) (simp_all add: defs)
qed

end
