(* ===== verification/Modbus_Bus.thy ===== *)
theory Modbus_Bus
  imports Mightyzap
begin

text \<open>
  Several MightyZap adapters on one serial session: the coroutines of \<open>plugins/mightyzap_modbus/adapter.py\<close> cut at
  their \<open>await\<close> of the session, with the queue, the worker and the futures of \<open>io/serial_session.py\<close> in between. A
  poll, an \<open>execute\<close> or a \<open>connect\<close> puts its frame into the queue and waits for its future; other adapters, the
  worker and the event loop go on in any order, and the line may answer anything.
\<close>

section \<open>The register that an action writes\<close>

definition register_write :: "(string \<Rightarrow> rat option) \<Rightarrow> string \<Rightarrow> params \<Rightarrow> mightyzap \<Rightarrow> adapter_error + int \<times> int" where
  "register_write parse act params mz =
     (if act = ''move'' then
        (case move_counts parse params mz of Inl e \<Rightarrow> Inl e | Inr counts \<Rightarrow> Inr (GOAL_POSITION, counts))
      else if act = ''stop'' then Inr (ACTUATOR_STOP, 1)
      else if act = ''restart'' then Inr (RESTART, 1)
      else Inl (Unknown_action act))"

text \<open>With nobody else on the bus \<open>execute\<close> is this write.\<close>

lemma execute_mightyzap_writes:
  "execute_mightyzap (parse, line) act params mp =
     (case register_write parse act params (fst mp) of
        Inl e \<Rightarrow> (Inl e, mp)
      | Inr (address, val) \<Rightarrow> write_register line address val mp)"
  by (simp add: execute_mightyzap_def register_write_def split: sum.split)

section \<open>The bus\<close>

text \<open>
  \<open>mb_polls\<close> and \<open>mb_writes\<close> are the futures awaited: by the poll loop of an adapter, and by a write of an
  adapter (address and value). \<open>mb_results\<close> are the writes that have returned or raised.
\<close>

record modbus_bus =
  mb_session :: serial_session
  mb_adapters :: "string \<rightharpoonup> mightyzap"
  mb_polls :: "string \<rightharpoonup> nat"
  mb_writes :: "nat \<rightharpoonup> string \<times> int \<times> int"
  mb_next :: nat
  mb_results :: "((string \<times> int \<times> int) \<times> (adapter_error + unit)) list"

definition new_modbus_bus :: "(string \<rightharpoonup> mightyzap) \<Rightarrow> serial_port \<Rightarrow> modbus_bus" where
  "new_modbus_bus adapters p =
     \<lparr>mb_session = new_serial_session p, mb_adapters = adapters, mb_polls = Map.empty, mb_writes = Map.empty,
      mb_next = 0, mb_results = []\<rparr>"

text \<open>What the caller makes of its future's result.\<close>

definition future_answer :: "(bytes \<Rightarrow> modbus_error + 'a) \<Rightarrow> string + bytes \<Rightarrow> session_error + 'a" where
  "future_answer parse r =
     (case r of
        Inl e \<Rightarrow> Inl (Serial_failed e)
      | Inr response \<Rightarrow> (case parse response of Inl e \<Rightarrow> Inl (Modbus e) | Inr x \<Rightarrow> Inr x))"

definition bus_submit :: "bytes \<Rightarrow> bool \<Rightarrow> modbus_bus \<Rightarrow> modbus_bus" where
  "bus_submit frame is_read b =
     b\<lparr>mb_session := submit_transaction \<lparr>tx_frame = frame, tx_is_read = is_read, tx_future = mb_next b\<rparr> (mb_session b),
       mb_next := Suc (mb_next b)\<rparr>"

text \<open>The poll loop's next \<open>_poll_once\<close> up to its \<open>await\<close>, and from there.\<close>

definition poll_begin :: "time \<Rightarrow> string \<Rightarrow> modbus_bus \<Rightarrow> modbus_bus" where
  "poll_begin now t b =
     (case (mb_adapters b t, mb_polls b t) of
        (Some mz, None) \<Rightarrow>
          (case build_read_holding_registers (mz_slave_id mz) POLL_BLOCK_START POLL_BLOCK_COUNT of
             Inl e \<Rightarrow> b\<lparr>mb_adapters := (mb_adapters b)(t \<mapsto> poll_update now (Inl (Modbus e)) mz)\<rparr>
           | Inr frame \<Rightarrow> (bus_submit frame True b)\<lparr>mb_polls := (mb_polls b)(t \<mapsto> mb_next b)\<rparr>)
      | _ \<Rightarrow> b)"

definition poll_resume :: "time \<Rightarrow> string \<Rightarrow> modbus_bus \<Rightarrow> modbus_bus" where
  "poll_resume now t b =
     (case (mb_adapters b t, mb_polls b t) of
        (Some mz, Some f) \<Rightarrow>
          (case ses_futures (mb_session b) f of
             Some (Done r) \<Rightarrow>
               b\<lparr>mb_adapters := (mb_adapters b)(t \<mapsto> poll_update now
                   (future_answer (parse_read_holding_registers_response (mz_slave_id mz)) r) mz),
                 mb_polls := (mb_polls b)(t := None)\<rparr>
           | _ \<Rightarrow> b)
      | _ \<Rightarrow> b)"

text \<open>A write of the adapter \<open>t\<close> up to its \<open>await\<close>, and from there.\<close>

definition bus_write :: "string \<Rightarrow> int \<Rightarrow> int \<Rightarrow> modbus_bus \<Rightarrow> modbus_bus" where
  "bus_write t address val b =
     (case mb_adapters b t of
        None \<Rightarrow> b
      | Some mz \<Rightarrow>
          (case build_write_single_register (mz_slave_id mz) address val of
             Inl e \<Rightarrow> b\<lparr>mb_results := mb_results b @ [((t, address, val), Inl (Session_raised (Modbus e)))]\<rparr>
           | Inr frame \<Rightarrow> (bus_submit frame False b)\<lparr>mb_writes := (mb_writes b)(mb_next b \<mapsto> (t, address, val))\<rparr>))"

definition write_resume :: "nat \<Rightarrow> modbus_bus \<Rightarrow> modbus_bus" where
  "write_resume f b =
     (case (mb_writes b f, ses_futures (mb_session b) f) of
        (Some (t, address, val), Some (Done r)) \<Rightarrow>
          (case mb_adapters b t of
             None \<Rightarrow> b
           | Some mz \<Rightarrow>
               b\<lparr>mb_writes := (mb_writes b)(f := None),
                 mb_results := mb_results b @ [((t, address, val),
                   map_sum Session_raised id
                     (future_answer (parse_write_single_register_response (mz_slave_id mz) address val) r))]\<rparr>)
      | _ \<Rightarrow> b)"

definition execute_begin :: "(string \<Rightarrow> rat option) \<Rightarrow> string \<Rightarrow> string \<Rightarrow> params \<Rightarrow> modbus_bus \<Rightarrow> (adapter_error + unit) \<times> modbus_bus" where
  "execute_begin parse t act params b =
     (case mb_adapters b t of
        None \<Rightarrow> (Inr (), b)
      | Some mz \<Rightarrow>
          (case register_write parse act params mz of
             Inl e \<Rightarrow> (Inl e, b)
           | Inr (address, val) \<Rightarrow> (Inr (), bus_write t address val b)))"

text \<open>\<open>disconnect\<close> cancels the poll loop; a caller may be cancelled while it waits for its write.\<close>

definition disconnect_begin :: "string \<Rightarrow> modbus_bus \<Rightarrow> modbus_bus" where
  "disconnect_begin t b =
     (case mb_polls b t of
        None \<Rightarrow> b
      | Some f \<Rightarrow> b\<lparr>mb_session := cancel_future f (mb_session b), mb_polls := (mb_polls b)(t := None)\<rparr>)"

definition write_cancelled :: "nat \<Rightarrow> modbus_bus \<Rightarrow> modbus_bus" where
  "write_cancelled f b = b\<lparr>mb_session := cancel_future f (mb_session b), mb_writes := (mb_writes b)(f := None)\<rparr>"

definition on_session :: "(serial_session \<Rightarrow> serial_session) \<Rightarrow> modbus_bus \<Rightarrow> modbus_bus" where
  "on_session f b = b\<lparr>mb_session := f (mb_session b)\<rparr>"

datatype bus_op =
    Mb_poll time string
  | Mb_poll_done time string
  | Mb_execute "string \<Rightarrow> rat option" string string params
  | Mb_connect string
  | Mb_write_done nat
  | Mb_disconnect string
  | Mb_cancel nat
  | Mb_work line
  | Mb_loop
  | Mb_close

fun bus_perform :: "bus_op \<Rightarrow> modbus_bus \<Rightarrow> modbus_bus" where
  "bus_perform (Mb_poll now t) b = poll_begin now t b"
| "bus_perform (Mb_poll_done now t) b = poll_resume now t b"
| "bus_perform (Mb_execute parse t act params) b = snd (execute_begin parse t act params b)"
| "bus_perform (Mb_connect t) b = bus_write t FORCE_ON_OFF 1 b"
| "bus_perform (Mb_write_done f) b = write_resume f b"
| "bus_perform (Mb_disconnect t) b = disconnect_begin t b"
| "bus_perform (Mb_cancel f) b = write_cancelled f b"
| "bus_perform (Mb_work line) b = on_session (worker_turn line) b"
| "bus_perform Mb_loop b = on_session loop_turn b"
| "bus_perform Mb_close b = on_session close_session b"

definition bus_after :: "bus_op list \<Rightarrow> (string \<rightharpoonup> mightyzap) \<Rightarrow> serial_port \<Rightarrow> modbus_bus" where
  "bus_after ops adapters p = fold bus_perform ops (new_modbus_bus adapters p)"

text \<open>What the line did in the transactions of a run.\<close>

fun bus_lines :: "bus_op list \<Rightarrow> line list" where
  "bus_lines [] = []"
| "bus_lines (Mb_work line # ops) = line # bus_lines ops"
| "bus_lines (_ # ops) = bus_lines ops"

lemma bus_lines_append [simp]: "bus_lines (ops @ ops') = bus_lines ops @ bus_lines ops'"
  by (induction ops rule: bus_lines.induct) simp_all

section \<open>What a future's result comes from\<close>

definition line_answer :: "bool \<Rightarrow> line \<Rightarrow> string + bytes" where
  "line_answer is_read line =
     (case line of Inl (_, e) \<Rightarrow> Inl e | Inr arriving \<Rightarrow> Inr (take (response_length is_read arriving) arriving))"

lemma transact_answer: "fst (transact line frame is_read p) = line_answer is_read line"
  by (cases line) (auto simp: transact_arriving transact_broken line_answer_def)

lemma transact_sent:
  "fst (transact line frame is_read p) = Inr response \<Longrightarrow>
   sp_written (snd (transact line frame is_read p)) = sp_written p @ [frame]"
  by (cases line) (auto simp: transact_arriving transact_broken)

definition sent_and_answered :: "line list \<Rightarrow> transaction list \<Rightarrow> bytes list \<Rightarrow> nat \<Rightarrow> string + bytes \<Rightarrow> bool" where
  "sent_and_answered lines txs written f r \<longleftrightarrow>
     (\<exists>tx \<in> set txs. tx_future tx = f \<and> (\<exists>line \<in> set lines. r = line_answer (tx_is_read tx) line) \<and>
        (\<forall>response. r = Inr response \<longrightarrow> tx_frame tx \<in> set written))"

lemma sent_and_answered_mono:
  "sent_and_answered lines txs written f r \<Longrightarrow> set lines \<subseteq> set lines' \<Longrightarrow> set txs \<subseteq> set txs' \<Longrightarrow>
   set written \<subseteq> set written' \<Longrightarrow> sent_and_answered lines' txs' written' f r"
  unfolding sent_and_answered_def by (meson subsetD)

definition session_ok :: "line list \<Rightarrow> transaction list \<Rightarrow> serial_session \<Rightarrow> bool" where
  "session_ok lines txs s \<longleftrightarrow>
     (\<forall>tx. Some tx \<in> set (ses_queue s) \<longrightarrow> tx \<in> set txs) \<and>
     (\<forall>f r. (f, r) \<in> set (ses_callbacks s) \<or> ses_futures s f = Some (Done r) \<longrightarrow>
        sent_and_answered lines txs (sp_written (ses_port s)) f r)"

lemma session_okD:
  assumes "session_ok lines txs s"
  shows "Some tx \<in> set (ses_queue s) \<Longrightarrow> tx \<in> set txs"
    and "(f, r) \<in> set (ses_callbacks s) \<or> ses_futures s f = Some (Done r) \<Longrightarrow>
      sent_and_answered lines txs (sp_written (ses_port s)) f r"
  using assms unfolding session_ok_def by blast+

lemma written_grows: "set (sp_written (ses_port s)) \<subseteq> set (sp_written (ses_port (worker_turn line s)))"
proof (cases "\<exists>tx q. ses_running s \<and> ses_queue s = Some tx # q")
  case True
  then obtain tx q where "ses_running s" "ses_queue s = Some tx # q" by blast
  then show ?thesis
    using transact_written [of line "tx_frame tx" "tx_is_read tx" "ses_port s"]
    by (auto simp: worker_turn_def split: prod.split)
next
  case False
  then have "ses_port (worker_turn line s) = ses_port s"
    by (auto simp: worker_turn_def split: list.splits option.splits)
  then show ?thesis by simp
qed

lemma session_ok_work:
  assumes ok: "session_ok lines txs s"
  shows "session_ok (lines @ [line]) txs (worker_turn line s)"
proof -
  let ?s' = "worker_turn line s"
  have old: "sent_and_answered (lines @ [line]) txs (sp_written (ses_port ?s')) f r"
    if "(f, r) \<in> set (ses_callbacks s) \<or> ses_futures s f = Some (Done r)" for f r
  proof -
    have "sent_and_answered lines txs (sp_written (ses_port s)) f r" using session_okD(2) [OF ok that] .
    then show ?thesis by (rule sent_and_answered_mono) (auto simp: written_grows [THEN subsetD])
  qed
  show ?thesis
  proof (cases "\<exists>tx q. ses_running s \<and> ses_queue s = Some tx # q")
    case True
    then obtain tx q where q: "ses_running s" "ses_queue s = Some tx # q" by blast
    obtain r p where t: "transact line (tx_frame tx) (tx_is_read tx) (ses_port s) = (r, p)" by fastforce
    have s': "?s' = s\<lparr>ses_queue := q, ses_port := p, ses_callbacks := ses_callbacks s @ [(tx_future tx, r)]\<rparr>"
      using q t by (simp add: worker_turn_def)
    have "tx \<in> set txs" using ok q(2) by (simp add: session_ok_def)
    moreover have "r = line_answer (tx_is_read tx) line" using transact_answer [of line] t by (metis fst_conv)
    moreover have "r = Inr response \<Longrightarrow> tx_frame tx \<in> set (sp_written p)" for response
      using transact_sent [of line "tx_frame tx" "tx_is_read tx" "ses_port s" response] t by simp
    ultimately have "sent_and_answered (lines @ [line]) txs (sp_written p) (tx_future tx) r"
      unfolding sent_and_answered_def by force
    with ok old q(2) show ?thesis unfolding session_ok_def s' by auto
  next
    case False
    then have "ses_callbacks ?s' = ses_callbacks s" "ses_futures ?s' = ses_futures s"
      "set (ses_queue ?s') \<subseteq> set (ses_queue s)"
      by (auto simp: worker_turn_def split: list.splits option.splits)
    with ok old show ?thesis unfolding session_ok_def by auto
  qed
qed

lemma session_ok_loop: "session_ok lines txs s \<Longrightarrow> session_ok lines txs (loop_turn s)"
  by (cases "ses_callbacks s") (auto simp: session_ok_def loop_turn_def resolve_future_def split: if_splits)

lemma session_ok_cancel: "session_ok lines txs s \<Longrightarrow> session_ok lines txs (cancel_future f s)"
  by (auto simp: session_ok_def cancel_future_def split: if_splits)

lemma session_ok_close: "session_ok lines txs s \<Longrightarrow> session_ok lines txs (close_session s)"
  by (auto simp: session_ok_def close_session_def)

lemma session_ok_submit:
  assumes ok: "session_ok lines txs s"
  shows "session_ok lines (txs @ [tx]) (submit_transaction tx s)"
proof -
  have "sent_and_answered lines (txs @ [tx]) (sp_written (ses_port s)) f r"
    if "(f, r) \<in> set (ses_callbacks s) \<or> ses_futures s f = Some (Done r)" for f r
    by (rule sent_and_answered_mono [OF session_okD(2) [OF ok that]]) auto
  with ok show ?thesis by (auto simp: session_ok_def submit_transaction_def)
qed

section \<open>The invariant of the bus\<close>

text \<open>
  The adapter shows the registers of a valid frame of its own slave, which the line gave in the answer to a
  read request of this slave.
\<close>

definition reported :: "line list \<Rightarrow> bytes list \<Rightarrow> mightyzap \<Rightarrow> bool" where
  "reported lines written mz \<longleftrightarrow>
     (\<exists>request frame junk registers.
        build_read_holding_registers (mz_slave_id mz) POLL_BLOCK_START POLL_BLOCK_COUNT = Inr request \<and>
        request \<in> set written \<and> Inr (frame @ junk) \<in> set lines \<and>
        parse_read_holding_registers_response (mz_slave_id mz) frame = Inr registers \<and>
        OFFSET_MOVING < length registers \<and>
        mz_position_mm mz = of_int (registers ! OFFSET_PRESENT_POSITION) / FULL_STROKE_COUNTS * mz_stroke_mm mz \<and>
        (mz_moving mz \<longleftrightarrow> registers ! OFFSET_MOVING \<noteq> 0) \<and> (mz_alarm mz \<longleftrightarrow> registers ! OFFSET_HW_ERROR \<noteq> 0))"

text \<open>A write that returned was sent, and the line gave back exactly its frame.\<close>

definition confirmed ::
    "line list \<Rightarrow> bytes list \<Rightarrow> (string \<rightharpoonup> mightyzap) \<Rightarrow> (string \<times> int \<times> int) \<times> (adapter_error + unit) \<Rightarrow> bool" where
  "confirmed lines written adapters wr \<longleftrightarrow>
     (case wr of ((t, address, val), res) \<Rightarrow> res = Inr () \<longrightarrow>
        (\<exists>mz frame junk. adapters t = Some mz \<and> build_write_single_register (mz_slave_id mz) address val = Inr frame \<and>
           frame \<in> set written \<and> Inr (frame @ junk) \<in> set lines))"

definition poll_waits :: "transaction list \<Rightarrow> mightyzap \<Rightarrow> nat \<Rightarrow> bool" where
  "poll_waits txs mz f \<longleftrightarrow>
     (\<exists>tx \<in> set txs. tx_future tx = f \<and> tx_is_read tx \<and>
        build_read_holding_registers (mz_slave_id mz) POLL_BLOCK_START POLL_BLOCK_COUNT = Inr (tx_frame tx))"

definition write_waits :: "transaction list \<Rightarrow> mightyzap \<Rightarrow> int \<Rightarrow> int \<Rightarrow> nat \<Rightarrow> bool" where
  "write_waits txs mz address val f \<longleftrightarrow>
     (\<exists>tx \<in> set txs. tx_future tx = f \<and> \<not> tx_is_read tx \<and>
        build_write_single_register (mz_slave_id mz) address val = Inr (tx_frame tx))"

definition bus_inv :: "line list \<Rightarrow> transaction list \<Rightarrow> modbus_bus \<Rightarrow> bool" where
  "bus_inv lines txs b \<longleftrightarrow>
     session_ok lines txs (mb_session b) \<and> distinct (map tx_future txs) \<and> (\<forall>tx \<in> set txs. tx_future tx < mb_next b) \<and>
     (\<forall>t f. mb_polls b t = Some f \<longrightarrow> (\<exists>mz. mb_adapters b t = Some mz \<and> poll_waits txs mz f)) \<and>
     (\<forall>f t address val. mb_writes b f = Some (t, address, val) \<longrightarrow>
        (\<exists>mz. mb_adapters b t = Some mz \<and> write_waits txs mz address val f)) \<and>
     (\<forall>t mz. mb_adapters b t = Some mz \<longrightarrow> mz_connected mz \<longrightarrow> reported lines (sp_written (ses_port (mb_session b))) mz) \<and>
     (\<forall>wr \<in> set (mb_results b). confirmed lines (sp_written (ses_port (mb_session b))) (mb_adapters b) wr)"

lemma bus_invD:
  assumes "bus_inv lines txs b"
  shows "session_ok lines txs (mb_session b)" and "distinct (map tx_future txs)"
    and "tx \<in> set txs \<Longrightarrow> tx_future tx < mb_next b"
    and "mb_polls b t = Some f \<Longrightarrow> \<exists>mz. mb_adapters b t = Some mz \<and> poll_waits txs mz f"
    and "mb_writes b f = Some (t, address, val) \<Longrightarrow> \<exists>mz. mb_adapters b t = Some mz \<and> write_waits txs mz address val f"
    and "mb_adapters b t = Some mz \<Longrightarrow> mz_connected mz \<Longrightarrow> reported lines (sp_written (ses_port (mb_session b))) mz"
    and "wr \<in> set (mb_results b) \<Longrightarrow> confirmed lines (sp_written (ses_port (mb_session b))) (mb_adapters b) wr"
  using assms unfolding bus_inv_def by blast+

lemma reported_mono:
  "reported lines written mz \<Longrightarrow> set lines \<subseteq> set lines' \<Longrightarrow> set written \<subseteq> set written' \<Longrightarrow> reported lines' written' mz"
  unfolding reported_def by (meson subsetD)

lemma confirmed_mono:
  "confirmed lines written adapters wr \<Longrightarrow> set lines \<subseteq> set lines' \<Longrightarrow> set written \<subseteq> set written' \<Longrightarrow>
   confirmed lines' written' adapters wr"
  unfolding confirmed_def by (auto split: prod.splits)

text \<open>A step of the session alone.\<close>

lemma bus_inv_session:
  assumes inv: "bus_inv lines txs b" and "session_ok lines' txs s'" and sub: "set lines \<subseteq> set lines'"
    and grows: "set (sp_written (ses_port (mb_session b))) \<subseteq> set (sp_written (ses_port s'))"
  shows "bus_inv lines' txs (b\<lparr>mb_session := s'\<rparr>)"
proof -
  have "reported lines' (sp_written (ses_port s')) mz" if "mb_adapters b t = Some mz" "mz_connected mz" for t mz
    by (rule reported_mono [OF bus_invD(6) [OF inv that] sub grows])
  moreover have "confirmed lines' (sp_written (ses_port s')) (mb_adapters b) wr" if "wr \<in> set (mb_results b)" for wr
    by (rule confirmed_mono [OF bus_invD(7) [OF inv that] sub grows])
  ultimately show ?thesis
    using assms(2) bus_invD(2-5) [OF inv] unfolding bus_inv_def by simp
qed

text \<open>A new transaction; nobody waits for its future yet.\<close>

lemma bus_submit_parts [simp]:
  "mb_adapters (bus_submit frame is_read b) = mb_adapters b" "mb_polls (bus_submit frame is_read b) = mb_polls b"
  "mb_writes (bus_submit frame is_read b) = mb_writes b" "mb_results (bus_submit frame is_read b) = mb_results b"
  "mb_next (bus_submit frame is_read b) = Suc (mb_next b)"
  "ses_port (mb_session (bus_submit frame is_read b)) = ses_port (mb_session b)"
  by (simp_all add: bus_submit_def submit_transaction_def)

lemma bus_inv_submit:
  assumes inv: "bus_inv lines txs b"
  shows "bus_inv lines (txs @ [\<lparr>tx_frame = frame, tx_is_read = is_read, tx_future = mb_next b\<rparr>]) (bus_submit frame is_read b)"
    (is "bus_inv lines (txs @ [?tx]) ?b'")
proof -
  have "session_ok lines (txs @ [?tx]) (mb_session ?b')"
    using session_ok_submit [OF bus_invD(1) [OF inv], of ?tx] by (simp add: bus_submit_def)
  moreover have fresh: "\<forall>tx \<in> set txs. tx_future tx < mb_next b"
    using bus_invD(3) [OF inv] by blast
  then have "distinct (map tx_future (txs @ [?tx]))"
    using bus_invD(2) [OF inv] by auto
  moreover have "\<forall>tx \<in> set (txs @ [?tx]). tx_future tx < Suc (mb_next b)"
    using fresh by auto
  moreover have "\<exists>mz. mb_adapters b t = Some mz \<and> poll_waits (txs @ [?tx]) mz f" if "mb_polls b t = Some f" for t f
    using bus_invD(4) [OF inv that] by (auto simp: poll_waits_def)
  moreover have "\<exists>mz. mb_adapters b t = Some mz \<and> write_waits (txs @ [?tx]) mz address val f"
    if "mb_writes b f = Some (t, address, val)" for t f address val
    using bus_invD(5) [OF inv that] by (auto simp: write_waits_def)
  ultimately show ?thesis
    using bus_invD(6,7) [OF inv] unfolding bus_inv_def bus_submit_parts by blast
qed

text \<open>An adapter takes the answer to its poll: no field but the polled ones changes.\<close>

lemma poll_update_slave [simp]:
  "mz_slave_id (poll_update now answer mz) = mz_slave_id mz" "mz_stroke_mm (poll_update now answer mz) = mz_stroke_mm mz"
  by (simp_all add: poll_update_def Let_def split: sum.split)

lemma poll_update_connected:
  assumes "mz_connected (poll_update now answer mz)"
  shows "\<exists>registers. answer = Inr registers \<and> OFFSET_MOVING < length registers \<and>
    mz_position_mm (poll_update now answer mz) = of_int (registers ! OFFSET_PRESENT_POSITION) / FULL_STROKE_COUNTS * mz_stroke_mm mz \<and>
    (mz_moving (poll_update now answer mz) \<longleftrightarrow> registers ! OFFSET_MOVING \<noteq> 0) \<and>
    (mz_alarm (poll_update now answer mz) \<longleftrightarrow> registers ! OFFSET_HW_ERROR \<noteq> 0)"
  using assms by (auto simp: poll_update_def Let_def not_le split: sum.splits if_splits)

lemma future_tx:
  assumes "bus_inv lines txs b" and "tx \<in> set txs" and "ses_futures (mb_session b) (tx_future tx) = Some (Done r)"
  shows "(\<exists>line \<in> set lines. r = line_answer (tx_is_read tx) line) \<and>
    (\<forall>response. r = Inr response \<longrightarrow> tx_frame tx \<in> set (sp_written (ses_port (mb_session b))))"
proof -
  have "sent_and_answered lines txs (sp_written (ses_port (mb_session b))) (tx_future tx) r"
    using session_okD(2) [OF bus_invD(1) [OF assms(1)], of "tx_future tx" r] assms(3) by simp
  then obtain tx' where tx': "tx' \<in> set txs" "tx_future tx' = tx_future tx"
    "\<exists>line \<in> set lines. r = line_answer (tx_is_read tx') line"
    "\<forall>response. r = Inr response \<longrightarrow> tx_frame tx' \<in> set (sp_written (ses_port (mb_session b)))"
    unfolding sent_and_answered_def by blast
  have "inj_on tx_future (set txs)" using bus_invD(2) [OF assms(1)] by (simp add: distinct_map)
  then have "tx' = tx" using tx'(1,2) assms(2) by (simp add: inj_on_eq_iff)
  with tx' show ?thesis by simp
qed

lemma line_answer_prefix: "line_answer is_read line = Inr response \<Longrightarrow> \<exists>junk. line = Inr (response @ junk)"
  by (auto simp: line_answer_def split: sum.splits intro: append_take_drop_id [symmetric])

lemma poll_reports:
  assumes inv: "bus_inv lines txs b" and wait: "poll_waits txs mz f"
    and fut: "ses_futures (mb_session b) f = Some (Done r)"
    and con: "mz_connected (poll_update now (future_answer (parse_read_holding_registers_response (mz_slave_id mz)) r) mz)"
  shows "reported lines (sp_written (ses_port (mb_session b)))
    (poll_update now (future_answer (parse_read_holding_registers_response (mz_slave_id mz)) r) mz)"
proof -
  from wait obtain tx where tx: "tx \<in> set txs" "tx_future tx = f"
    "build_read_holding_registers (mz_slave_id mz) POLL_BLOCK_START POLL_BLOCK_COUNT = Inr (tx_frame tx)"
    unfolding poll_waits_def by blast
  from poll_update_connected [OF con] obtain registers where regs:
    "future_answer (parse_read_holding_registers_response (mz_slave_id mz)) r = Inr registers"
    "OFFSET_MOVING < length registers" by blast
  then obtain response where r: "r = Inr response" "parse_read_holding_registers_response (mz_slave_id mz) response = Inr registers"
    by (auto simp: future_answer_def split: sum.splits)
  from future_tx [OF inv tx(1)] fut tx(2) r(1) obtain line where
    line: "line \<in> set lines" "line_answer (tx_is_read tx) line = Inr response"
    and sent: "tx_frame tx \<in> set (sp_written (ses_port (mb_session b)))" by fastforce
  from line_answer_prefix [OF line(2)] line(1) obtain junk where "Inr (response @ junk) \<in> set lines" by blast
  with poll_update_connected [OF con] regs(1) r(2) tx(3) sent show ?thesis
    unfolding reported_def poll_update_slave by (metis sum.inject(2))
qed

lemma write_confirms:
  assumes inv: "bus_inv lines txs b" and mz: "mb_adapters b t = Some mz" and wait: "write_waits txs mz address val f"
    and fut: "ses_futures (mb_session b) f = Some (Done r)"
  shows "confirmed lines (sp_written (ses_port (mb_session b))) (mb_adapters b) ((t, address, val),
    map_sum Session_raised id (future_answer (parse_write_single_register_response (mz_slave_id mz) address val) r))"
proof -
  from wait obtain tx where tx: "tx \<in> set txs" "tx_future tx = f"
    "build_write_single_register (mz_slave_id mz) address val = Inr (tx_frame tx)"
    unfolding write_waits_def by blast
  show ?thesis
  proof (cases "\<exists>response. r = Inr response \<and> parse_write_single_register_response (mz_slave_id mz) address val response = Inr ()")
    case False
    then show ?thesis by (auto simp: confirmed_def future_answer_def split: sum.splits)
  next
    case True
    then obtain response where r: "r = Inr response"
      "parse_write_single_register_response (mz_slave_id mz) address val response = Inr ()" by blast
    from r(2) tx(3) have "response = tx_frame tx" using parse_write_iff [of "mz_slave_id mz" address val response] by simp
    moreover from future_tx [OF inv tx(1)] fut tx(2) r(1) obtain line where
      "line \<in> set lines" "line_answer (tx_is_read tx) line = Inr response"
      "tx_frame tx \<in> set (sp_written (ses_port (mb_session b)))" by fastforce
    ultimately show ?thesis
      using line_answer_prefix [of "tx_is_read tx" line response] mz tx(3) by (auto simp: confirmed_def)
  qed
qed

text \<open>Each part of the state may change alone.\<close>

lemma bus_inv_adapter:
  assumes inv: "bus_inv lines txs b" and mz: "mb_adapters b t = Some mz" and slave: "mz_slave_id mz' = mz_slave_id mz"
    and rep: "mz_connected mz' \<Longrightarrow> reported lines (sp_written (ses_port (mb_session b))) mz'"
  shows "bus_inv lines txs (b\<lparr>mb_adapters := (mb_adapters b)(t \<mapsto> mz')\<rparr>)"
proof -
  have "poll_waits txs mz' f = poll_waits txs mz f" "write_waits txs mz' address val f = write_waits txs mz address val f"
    for f address val by (simp_all add: poll_waits_def write_waits_def slave)
  moreover have "confirmed lines w ((mb_adapters b)(t \<mapsto> mz')) wr" if "confirmed lines w (mb_adapters b) wr" for w wr
    using that mz slave by (auto simp: confirmed_def split: prod.splits)
  moreover have "\<exists>m. ((mb_adapters b)(t \<mapsto> mz')) u = Some m \<and> P m" if "\<exists>m. mb_adapters b u = Some m \<and> P m" "P mz \<Longrightarrow> P mz'"
    for u and P :: "mightyzap \<Rightarrow> bool"
    using that mz by auto
  ultimately show ?thesis
    using inv rep unfolding bus_inv_def by simp
qed

lemma bus_inv_polls:
  assumes "bus_inv lines txs b" and "\<And>f. fo = Some f \<Longrightarrow> \<exists>mz. mb_adapters b t = Some mz \<and> poll_waits txs mz f"
  shows "bus_inv lines txs (b\<lparr>mb_polls := (mb_polls b)(t := fo)\<rparr>)"
  using assms by (auto simp: bus_inv_def)

lemma bus_inv_writes:
  assumes "bus_inv lines txs b"
    and "\<And>t address val. wo = Some (t, address, val) \<Longrightarrow> \<exists>mz. mb_adapters b t = Some mz \<and> write_waits txs mz address val f"
  shows "bus_inv lines txs (b\<lparr>mb_writes := (mb_writes b)(f := wo)\<rparr>)"
  using assms by (auto simp: bus_inv_def)

lemma bus_inv_result:
  assumes "bus_inv lines txs b" and "confirmed lines (sp_written (ses_port (mb_session b))) (mb_adapters b) wr"
  shows "bus_inv lines txs (b\<lparr>mb_results := mb_results b @ [wr]\<rparr>)"
  using assms by (auto simp: bus_inv_def)

lemma bus_inv_write:
  assumes inv: "bus_inv lines txs b"
  shows "\<exists>txs'. bus_inv lines txs' (bus_write t address val b)"
proof (cases "mb_adapters b t")
  case (Some mz)
  show ?thesis
  proof (cases "build_write_single_register (mz_slave_id mz) address val")
    case (Inl e)
    then show ?thesis
      using bus_inv_result [OF inv, of "((t, address, val), Inl (Session_raised (Modbus e)))"] Some
      by (auto simp: bus_write_def confirmed_def)
  next
    case (Inr frame)
    let ?txs = "txs @ [\<lparr>tx_frame = frame, tx_is_read = False, tx_future = mb_next b\<rparr>]"
    have "write_waits ?txs mz address val (mb_next b)"
      using Inr by (auto simp: write_waits_def)
    with bus_inv_writes [OF bus_inv_submit [OF inv], where f = "mb_next b" and wo = "Some (t, address, val)"] Some Inr
    show ?thesis by (auto simp: bus_write_def)
  qed
qed (use inv in \<open>auto simp: bus_write_def\<close>)

lemma bus_inv_poll_begin:
  assumes inv: "bus_inv lines txs b"
  shows "\<exists>txs'. bus_inv lines txs' (poll_begin now t b)"
proof (cases "\<exists>mz. mb_adapters b t = Some mz \<and> mb_polls b t = None")
  case True
  then obtain mz where mz: "mb_adapters b t = Some mz" "mb_polls b t = None" by blast
  show ?thesis
  proof (cases "build_read_holding_registers (mz_slave_id mz) POLL_BLOCK_START POLL_BLOCK_COUNT")
    case (Inl e)
    have "\<not> mz_connected (poll_update now (Inl (Modbus e)) mz)" by (simp add: poll_update_def)
    with bus_inv_adapter [OF inv mz(1), of "poll_update now (Inl (Modbus e)) mz"] mz Inl
    show ?thesis by (auto simp: poll_begin_def)
  next
    case (Inr frame)
    let ?txs = "txs @ [\<lparr>tx_frame = frame, tx_is_read = True, tx_future = mb_next b\<rparr>]"
    have "poll_waits ?txs mz (mb_next b)"
      using Inr by (auto simp: poll_waits_def)
    with bus_inv_polls [OF bus_inv_submit [OF inv], where t = t and fo = "Some (mb_next b)"] mz Inr
    show ?thesis by (auto simp: poll_begin_def)
  qed
next
  case False
  then have "poll_begin now t b = b" by (auto simp: poll_begin_def split: option.split)
  with inv show ?thesis by auto
qed

lemma bus_inv_poll_resume:
  assumes inv: "bus_inv lines txs b"
  shows "bus_inv lines txs (poll_resume now t b)"
proof (cases "\<exists>mz f r. mb_adapters b t = Some mz \<and> mb_polls b t = Some f \<and> ses_futures (mb_session b) f = Some (Done r)")
  case True
  then obtain mz f r where a: "mb_adapters b t = Some mz" "mb_polls b t = Some f"
    "ses_futures (mb_session b) f = Some (Done r)" by blast
  let ?mz = "poll_update now (future_answer (parse_read_holding_registers_response (mz_slave_id mz)) r) mz"
  have "poll_waits txs mz f" using bus_invD(4) [OF inv a(2)] a(1) by auto
  then have "mz_connected ?mz \<Longrightarrow> reported lines (sp_written (ses_port (mb_session b))) ?mz"
    using poll_reports [OF inv _ a(3)] by blast
  with bus_inv_adapter [OF inv a(1), of ?mz]
  have "bus_inv lines txs (b\<lparr>mb_adapters := (mb_adapters b)(t \<mapsto> ?mz)\<rparr>)" by simp
  from bus_inv_polls [OF this, where t = t and fo = None] a show ?thesis by (simp add: poll_resume_def)
next
  case False
  then have "poll_resume now t b = b"
    by (auto simp: poll_resume_def split: option.split future.split)
  with inv show ?thesis by simp
qed

lemma bus_inv_write_resume:
  assumes inv: "bus_inv lines txs b"
  shows "bus_inv lines txs (write_resume f b)"
proof (cases "\<exists>t address val r mz. mb_writes b f = Some (t, address, val) \<and> ses_futures (mb_session b) f = Some (Done r) \<and>
    mb_adapters b t = Some mz")
  case True
  then obtain t address val r mz where a: "mb_writes b f = Some (t, address, val)"
    "ses_futures (mb_session b) f = Some (Done r)" "mb_adapters b t = Some mz" by blast
  have "write_waits txs mz address val f" using bus_invD(5) [OF inv a(1)] a(3) by auto
  from write_confirms [OF inv a(3) this a(2)] bus_inv_writes [OF inv, where f = f and wo = None]
  have "bus_inv lines txs (b\<lparr>mb_writes := (mb_writes b)(f := None), mb_results := mb_results b @ [((t, address, val),
      map_sum Session_raised id (future_answer (parse_write_single_register_response (mz_slave_id mz) address val) r))]\<rparr>)"
    using bus_inv_result [of lines txs "b\<lparr>mb_writes := (mb_writes b)(f := None)\<rparr>"] by simp
  with a show ?thesis by (simp add: write_resume_def)
next
  case False
  then have "write_resume f b = b"
    by (auto simp: write_resume_def split: option.split future.split)
  with inv show ?thesis by simp
qed

lemma cancel_future_port [simp]: "ses_port (cancel_future f s) = ses_port s"
  by (simp add: cancel_future_def)

lemma bus_inv_cancel: "bus_inv lines txs b \<Longrightarrow> bus_inv lines txs (b\<lparr>mb_session := cancel_future f (mb_session b)\<rparr>)"
  by (rule bus_inv_session [where lines = lines]) (simp_all add: session_ok_cancel bus_invD(1))

lemma bus_inv_perform:
  assumes inv: "bus_inv lines txs b"
  shows "\<exists>txs'. bus_inv (lines @ bus_lines [op]) txs' (bus_perform op b)"
proof (cases op)
  case (Mb_work line)
  have "bus_inv (lines @ [line]) txs (on_session (worker_turn line) b)"
    unfolding on_session_def
    by (rule bus_inv_session [OF inv session_ok_work [OF bus_invD(1) [OF inv]]]) (auto simp: written_grows [THEN subsetD])
  with Mb_work show ?thesis by auto
next
  case Mb_loop
  have "ses_port (loop_turn s) = ses_port s" for s
    by (simp add: loop_turn_def resolve_future_def split: list.split)
  then have "bus_inv lines txs (on_session loop_turn b)"
    unfolding on_session_def by (intro bus_inv_session [OF inv session_ok_loop [OF bus_invD(1) [OF inv]]]) simp_all
  with Mb_loop show ?thesis by auto
next
  case Mb_close
  have "bus_inv lines txs (on_session close_session b)"
    unfolding on_session_def
    by (intro bus_inv_session [OF inv session_ok_close [OF bus_invD(1) [OF inv]]]) (simp_all add: close_session_def)
  with Mb_close show ?thesis by auto
next
  case (Mb_execute parse t act params)
  with bus_inv_write [OF inv] inv show ?thesis
    by (auto simp: execute_begin_def split: option.split sum.split)
next
  case (Mb_disconnect t)
  have "bus_inv lines txs (disconnect_begin t b)"
    using inv bus_inv_polls [OF bus_inv_cancel [OF inv], where t = t and fo = None]
    by (auto simp: disconnect_begin_def split: option.split)
  with Mb_disconnect show ?thesis by auto
next
  case (Mb_cancel f)
  have "bus_inv lines txs (write_cancelled f b)"
    using bus_inv_writes [OF bus_inv_cancel [OF inv], where f = f and wo = None]
    by (simp add: write_cancelled_def)
  with Mb_cancel show ?thesis by auto
next
  case (Mb_poll_done now t)
  with bus_inv_poll_resume [OF inv, of now t] show ?thesis by auto
next
  case (Mb_write_done f)
  with bus_inv_write_resume [OF inv, of f] show ?thesis by auto
qed (use bus_inv_poll_begin [OF inv] bus_inv_write [OF inv] in simp_all)

lemma bus_inv_after:
  assumes "\<forall>t mz. adapters t = Some mz \<longrightarrow> \<not> mz_connected mz"
  shows "\<exists>txs. bus_inv (bus_lines ops) txs (bus_after ops adapters p)"
proof (induction ops rule: rev_induct)
  case Nil
  have "bus_inv [] [] (new_modbus_bus adapters p)"
    using assms by (auto simp: bus_inv_def new_modbus_bus_def session_ok_def new_serial_session_def)
  then show ?case by (auto simp: bus_after_def)
next
  case (snoc x ops)
  then obtain txs where "bus_inv (bus_lines ops) txs (bus_after ops adapters p)" by blast
  from bus_inv_perform [OF this, of x] show ?case by (simp add: bus_after_def)
qed

lemma parse_read_checks:
  assumes "parse_read_holding_registers_response slave_id frame = Inr registers"
  shows "5 \<le> length frame \<and> uint (frame ! 0) = slave_id \<and> crc16 frame = 0"
proof -
  from assms have "check_frame slave_id frame = Inr ()"
    by (auto simp: parse_read_holding_registers_response_def split: sum.splits)
  then show ?thesis by (simp add: check_frame_crc)
qed

text \<open>
  \<^bold>\<open>C36\<close> On a shared bus, however the polls, writes, cancellations, the worker and the event loop interleave, and
  whatever the line gives back: an adapter that says it is connected shows position, movement and alarm as
  they stand in a frame that came over the line in a transaction, with a correct CRC and the adapter's own
  slave id, after a read request of this slave was sent; and a write (of \<open>execute\<close> or \<open>connect\<close>) returns only when its
  frame was sent and came back byte for byte. No adapter shows what another slave said.
\<close>

theorem bus_reports_are_the_slaves_own:
  assumes "\<forall>t mz. adapters t = Some mz \<longrightarrow> \<not> mz_connected mz"
  shows "let b = bus_after ops adapters p; sent = set (sp_written (ses_port (mb_session b))); lines = set (bus_lines ops)
    in (\<forall>t mz. mb_adapters b t = Some mz \<and> mz_connected mz \<longrightarrow>
          (\<exists>request frame junk registers.
             build_read_holding_registers (mz_slave_id mz) POLL_BLOCK_START POLL_BLOCK_COUNT = Inr request \<and>
             request \<in> sent \<and> Inr (frame @ junk) \<in> lines \<and> crc16 frame = 0 \<and> uint (frame ! 0) = mz_slave_id mz \<and>
             parse_read_holding_registers_response (mz_slave_id mz) frame = Inr registers \<and>
             mz_position_mm mz = of_int (registers ! OFFSET_PRESENT_POSITION) / FULL_STROKE_COUNTS * mz_stroke_mm mz \<and>
             (mz_moving mz \<longleftrightarrow> registers ! OFFSET_MOVING \<noteq> 0) \<and> (mz_alarm mz \<longleftrightarrow> registers ! OFFSET_HW_ERROR \<noteq> 0))) \<and>
       (\<forall>t address val. ((t, address, val), Inr ()) \<in> set (mb_results b) \<longrightarrow>
          (\<exists>mz frame junk. mb_adapters b t = Some mz \<and>
             build_write_single_register (mz_slave_id mz) address val = Inr frame \<and>
             frame \<in> sent \<and> Inr (frame @ junk) \<in> lines))"
proof -
  from bus_inv_after [OF assms] obtain txs where inv: "bus_inv (bus_lines ops) txs (bus_after ops adapters p)" by blast
  show ?thesis
    unfolding Let_def
  proof (intro conjI allI impI)
    fix t mz assume "mb_adapters (bus_after ops adapters p) t = Some mz \<and> mz_connected mz"
    with bus_invD(6) [OF inv] show "\<exists>request frame junk registers.
      build_read_holding_registers (mz_slave_id mz) POLL_BLOCK_START POLL_BLOCK_COUNT = Inr request \<and>
      request \<in> set (sp_written (ses_port (mb_session (bus_after ops adapters p)))) \<and>
      Inr (frame @ junk) \<in> set (bus_lines ops) \<and> crc16 frame = 0 \<and> uint (frame ! 0) = mz_slave_id mz \<and>
      parse_read_holding_registers_response (mz_slave_id mz) frame = Inr registers \<and>
      mz_position_mm mz = of_int (registers ! OFFSET_PRESENT_POSITION) / FULL_STROKE_COUNTS * mz_stroke_mm mz \<and>
      (mz_moving mz \<longleftrightarrow> registers ! OFFSET_MOVING \<noteq> 0) \<and> (mz_alarm mz \<longleftrightarrow> registers ! OFFSET_HW_ERROR \<noteq> 0)"
      unfolding reported_def using parse_read_checks by blast
  next
    fix t address val assume "((t, address, val), Inr ()) \<in> set (mb_results (bus_after ops adapters p))"
    from bus_invD(7) [OF inv this] show "\<exists>mz frame junk. mb_adapters (bus_after ops adapters p) t = Some mz \<and>
      build_write_single_register (mz_slave_id mz) address val = Inr frame \<and>
      frame \<in> set (sp_written (ses_port (mb_session (bus_after ops adapters p)))) \<and> Inr (frame @ junk) \<in> set (bus_lines ops)"
      by (simp add: confirmed_def)
  qed
qed

text \<open>One adapter, polled once; the slave answers with twelve zeros.\<close>

definition demo_reply :: bytes where
  "demo_reply = read_reply 1 (replicate 12 0)"

definition demo_bus_ops :: "bus_op list" where
  "demo_bus_ops = [Mb_poll 0 ''axis'', Mb_work (Inr demo_reply), Mb_loop, Mb_poll_done 1 ''axis'']"

theorem bus_reports_are_the_slaves_own_witness:
  "\<exists>frame junk. Inr (frame @ junk) \<in> set (bus_lines demo_bus_ops) \<and> crc16 frame = 0 \<and> uint (frame ! 0) = 1"
proof -
  let ?adapters = "[''axis'' \<mapsto> demo_mightyzap]"
  let ?b = "bus_after demo_bus_ops ?adapters demo_port"
  have start: "\<forall>t mz. ?adapters t = Some mz \<longrightarrow> \<not> mz_connected mz"
    by (simp add: demo_mightyzap_def new_mightyzap_def)
  have parse: "parse_read_holding_registers_response 1 demo_reply = Inr (replicate 12 0)"
    unfolding demo_reply_def by (rule parse_read_reply) simp_all
  have len: "response_length True demo_reply = length demo_reply"
    using read_reply_bytes [of 1 "replicate 12 0" "[]"] by (simp add: demo_reply_def)
  have slave: "mz_slave_id demo_mightyzap = 1" by (simp add: demo_mightyzap_def new_mightyzap_def)
  obtain request where request: "build_read_holding_registers 1 POLL_BLOCK_START POLL_BLOCK_COUNT = Inr request"
    by (simp add: build_read_holding_registers_def request_frame_def)
  have b: "mb_adapters ?b = [''axis'' \<mapsto> poll_update 1 (Inr (replicate 12 0)) demo_mightyzap]"
    by (simp add: bus_after_def demo_bus_ops_def new_modbus_bus_def new_serial_session_def poll_begin_def slave request
        bus_submit_def submit_transaction_def on_session_def worker_turn_def transact_arriving len loop_turn_def
        resolve_future_def poll_resume_def future_answer_def parse)
  have "mz_connected (poll_update 1 (Inr (replicate 12 0)) demo_mightyzap)"
    by (simp add: poll_update_def mightyzap_consts Let_def)
  with b have "mb_adapters ?b ''axis'' = Some (poll_update 1 (Inr (replicate 12 0)) demo_mightyzap) \<and>
      mz_connected (poll_update 1 (Inr (replicate 12 0)) demo_mightyzap)" by simp
  from bus_reports_are_the_slaves_own [OF start, where ops = demo_bus_ops and p = demo_port, unfolded Let_def,
      THEN conjunct1, rule_format, OF this]
  show ?thesis by (auto simp: slave)
qed

end
