(* ===== verification/Soak_Cycles.thy ===== *)
theory Soak_Cycles
  imports Scheduler
begin

text \<open>
  The soak harness (\<open>scripts/stage8_soak_test.py\<close>), which drives a Scheduler in a loop of Shows: one cycle
  arms, starts, polls the Show until it is over, and aborts a FAULTED one to get back to IDLE. It is the
  Scheduler's only caller. What the Runtimes, the clock and the run of the Show do is an input: per poll
  the clock that was read, and whether the run ended in the sleep that follows. The processes it spawns
  and the printing are left out; of the report the numbers are modelled, not their layout.
\<close>

section \<open>Waiting for a Runtime\<close>

text \<open>
  \<open>wait_until_reachable\<close>, over the clock and the answer of \<open>get_info\<close> (\<open>Some\<close> its exception) at each turn.
  \<open>Inl\<close> is the \<open>TimeoutError\<close>; \<open>None\<close> that the turns given do not reach its end.
\<close>

definition PROBE_INTERVAL_S :: time where "PROBE_INTERVAL_S = 1 / 5"

fun wait_until_reachable :: "time \<Rightarrow> string option \<Rightarrow> (time \<times> string option) list \<Rightarrow> (string option + unit) option" where
  "wait_until_reachable deadline last_exc [] = None"
| "wait_until_reachable deadline last_exc ((now, answer) # turns) =
     (if \<not> now < deadline then Some (Inl last_exc)
      else case answer of
          None \<Rightarrow> Some (Inr ())
        | Some e \<Rightarrow> wait_until_reachable deadline (Some e) turns)"

section \<open>One cycle\<close>

record cycle_result =
  cr_outcome :: string
  cr_latency :: "time option"
  cr_detail :: "string option"

text \<open>How the run of the Show ended: it raised, or returned the outcomes of its cues.\<close>

type_synonym show_end = "string + (string, string) dict"

record cycle_env =
  ce_begun :: time
  ce_prepare :: "string \<Rightarrow> string + string"
  ce_run_id :: string
  ce_task :: nat
  ce_started :: time
  ce_turns :: "(time \<times> show_end option) list"
  ce_over :: time
  ce_targets :: "string \<Rightarrow> target_manifest list option"

definition prepare_answer_of :: "string + string \<Rightarrow> prepare_answer" where
  "prepare_answer_of r = (case r of Inl m \<Rightarrow> Prepare_raised m | Inr sid \<Rightarrow> Prepared sid)"

text \<open>The run ends while the harness sleeps, if it has not ended before.\<close>

definition show_ends :: "show_end option \<Rightarrow> nat \<Rightarrow> scheduler \<Rightarrow> scheduler" where
  "show_ends ev t sch =
     (case ev of
        None \<Rightarrow> sch
      | Some e \<Rightarrow>
          if sc_tasks (sch_controller sch) t = None then sch
          else run_end (case e of Inl m \<Rightarrow> Inl (Call_raised m) | Inr outcomes \<Rightarrow> Inr outcomes) t sch)"

definition CYCLE_TIMEOUT_S :: time where "CYCLE_TIMEOUT_S = 20"
definition CYCLE_POLL_S :: time where "CYCLE_POLL_S = 1 / 50"

text \<open>The polling loop: whether it left by its condition (and not by the deadline), and the Scheduler then.\<close>

definition show_under_way :: "scheduler \<Rightarrow> bool" where
  "show_under_way sch \<longleftrightarrow> sc_state (sch_controller sch) \<in> {RUNNING, HOLDING}"

fun await_show :: "time \<Rightarrow> (time \<times> show_end option) list \<Rightarrow> nat \<Rightarrow> scheduler \<Rightarrow> (bool \<times> scheduler) option" where
  "await_show deadline [] t sch = (if show_under_way sch then None else Some (True, sch))"
| "await_show deadline ((now, ev) # turns) t sch =
     (if \<not> show_under_way sch then Some (True, sch)
      else if now > deadline then Some (False, sch)
      else await_show deadline turns t (show_ends ev t sch))"

definition text_of :: "string option \<Rightarrow> string" where
  "text_of v = (case v of None \<Rightarrow> ''None'' | Some s \<Rightarrow> s)"

text \<open>A Show that is over: the detail of a FAULTED one is taken before the abort that recovers it.\<close>

definition cycle_over :: "cycle_env \<Rightarrow> scheduler \<Rightarrow> cycle_result \<times> scheduler" where
  "cycle_over env sch =
     (let latency = Some (ce_over env - ce_begun env); detail = sc_last_error (sch_controller sch)
      in if sc_state (sch_controller sch) = FAULTED
         then (case abort_scheduler_begin 1 sch of
                 Inl m \<Rightarrow> (\<lparr>cr_outcome = ''FAULTED'', cr_latency = latency,
                    cr_detail = Some (text_of detail @ '' (recovery abort also failed: '' @ m @ '')'')\<rparr>, sch)
               | Inr sch1 \<Rightarrow> (\<lparr>cr_outcome = ''FAULTED'', cr_latency = latency, cr_detail = detail\<rparr>,
                    snd (abort_scheduler_end (ce_targets env) 1 sch1)))
         else (\<lparr>cr_outcome = ''SUCCEEDED'', cr_latency = latency, cr_detail = None\<rparr>, sch))"

definition cycle_failed :: "string \<Rightarrow> cycle_result" where
  "cycle_failed m = \<lparr>cr_outcome = ''ERROR'', cr_latency = None, cr_detail = Some m\<rparr>"

text \<open>
  \<open>run_cycle\<close>. \<open>arm\<close> raises when it is refused and when \<open>_prepare\<close> raised. \<open>None\<close>: it has not returned (or
  \<open>start\<close> raised, which \<open>cycle_starts\<close> excludes).
\<close>

definition run_cycle :: "cycle_env \<Rightarrow> scheduler \<Rightarrow> (cycle_result \<times> scheduler) option" where
  "run_cycle env sch =
     (case scheduler_arm 0 (prepare_answer_of \<circ> ce_prepare env) sch of
        Inl m \<Rightarrow> Some (cycle_failed (''arm failed: '' @ m), sch)
      | Inr sch1 \<Rightarrow>
          if sc_state (sch_controller sch1) \<noteq> ARMED
          then Some (cycle_failed (''arm failed: '' @ text_of (sc_last_error (sch_controller sch1))), sch1)
          else case scheduler_start (ce_run_id env) (ce_task env) sch1 of
              Inl m \<Rightarrow> None
            | Inr sch2 \<Rightarrow>
                (case await_show (ce_started env + CYCLE_TIMEOUT_S) (ce_turns env) (ce_task env) sch2 of
                   None \<Rightarrow> None
                 | Some (False, sch3) \<Rightarrow> Some (cycle_failed ''cycle timed out mid-run'', sch3)
                 | Some (True, sch3) \<Rightarrow> Some (cycle_over env sch3)))"

section \<open>The loop\<close>

record soak_report =
  sr_kill_motor_every :: nat
  sr_cycles :: "cycle_result list"
  sr_motor_restarts :: nat

definition new_soak_report :: "nat \<Rightarrow> soak_report" where
  "new_soak_report n = \<lparr>sr_kill_motor_every = n, sr_cycles = [], sr_motor_restarts = 0\<rparr>"

definition soak_count :: "nat \<Rightarrow> cycle_result \<Rightarrow> soak_report \<Rightarrow> soak_report" where
  "soak_count n r rep =
     (let rep1 = rep\<lparr>sr_cycles := sr_cycles rep @ [r]\<rparr>
      in if sr_kill_motor_every rep \<noteq> 0 \<and> n mod sr_kill_motor_every rep = 0
         then rep1\<lparr>sr_motor_restarts := sr_motor_restarts rep1 + 1\<rparr> else rep1)"

text \<open>
  The loop of \<open>main_async\<close>. Each turn is the clock at its head, the cycle, and what a run left behind does
  until the next turn (the restart of the motor and the pause). \<open>None\<close>: a cycle has not returned.
\<close>

type_synonym soak_turn = "time \<times> cycle_env \<times> nat \<times> show_end option"

fun soak :: "time \<Rightarrow> nat \<Rightarrow> soak_turn list \<Rightarrow> soak_report \<times> scheduler \<Rightarrow> (soak_report \<times> scheduler) option" where
  "soak end_at cycle [] (rep, sch) = Some (rep, sch)"
| "soak end_at cycle ((now, env, t, ev) # turns) (rep, sch) =
     (if \<not> now < end_at then Some (rep, sch)
      else case run_cycle env sch of
          None \<Rightarrow> None
        | Some (r, sch1) \<Rightarrow> soak end_at (cycle + 1) turns (soak_count (cycle + 1) r rep, show_ends ev t sch1))"

section \<open>The numbers of the report\<close>

definition succeeded_cycles :: "soak_report \<Rightarrow> cycle_result list" where
  "succeeded_cycles rep = filter (\<lambda>c. cr_outcome c = ''SUCCEEDED'') (sr_cycles rep)"

definition failed_cycles :: "soak_report \<Rightarrow> cycle_result list" where
  "failed_cycles rep = filter (\<lambda>c. cr_outcome c \<noteq> ''SUCCEEDED'') (sr_cycles rep)"

definition latencies :: "soak_report \<Rightarrow> time list" where
  "latencies rep = List.map_filter cr_latency (succeeded_cycles rep)"

text \<open>\<open>max(0, int(len(latencies_sorted) * 0.95) - 1)\<close>, in exact arithmetic.\<close>

definition p95_index :: "nat \<Rightarrow> nat" where
  "p95_index n = nat (max 0 (\<lfloor>rat_of_nat n * 95 / 100\<rfloor> - 1))"

definition p95 :: "time list \<Rightarrow> time" where
  "p95 ls = sort ls ! p95_index (length ls)"

section \<open>What a cycle leaves behind\<close>

definition show_quiet :: "scheduler \<Rightarrow> bool" where
  "show_quiet sch \<longleftrightarrow> sc_frames (sch_controller sch) = Map.empty \<and> sc_tasks (sch_controller sch) = Map.empty"

definition show_idle :: "scheduler \<Rightarrow> bool" where
  "show_idle sch \<longleftrightarrow> sc_state (sch_controller sch) = IDLE \<and> show_quiet sch"

definition show_live :: "nat \<Rightarrow> scheduler \<Rightarrow> bool" where
  "show_live t sch \<longleftrightarrow> sc_state (sch_controller sch) = RUNNING \<and> sc_frames (sch_controller sch) = Map.empty \<and>
     sc_run_task (sch_controller sch) = Some t \<and> sc_tasks (sch_controller sch) = [t \<mapsto> False]"

text \<open>The Show is over: IDLE after outcomes without a failed cue, else FAULTED.\<close>

definition show_settled :: "scheduler \<Rightarrow> bool" where
  "show_settled sch \<longleftrightarrow> show_quiet sch \<and>
     (sc_state (sch_controller sch) = IDLE \<and> failed_cues (sch_last_outcomes sch) = [] \<or> sc_state (sch_controller sch) = FAULTED)"

lemmas cycle_states = show_idle_def show_live_def show_settled_def show_quiet_def

lemma show_ends_live: "show_live t sch \<Longrightarrow> show_live t (show_ends ev t sch) \<or> show_settled (show_ends ev t sch)"
  by (auto simp: show_ends_def run_end_def drive_end_def set_state_def cycle_states Let_def split: option.split sum.split)

lemma under_way_live: "show_live t sch \<Longrightarrow> show_under_way sch" "show_settled sch \<Longrightarrow> \<not> show_under_way sch"
  by (auto simp: show_under_way_def cycle_states)

lemma await_show_leaves:
  assumes "show_live t sch \<or> show_settled sch" and "await_show deadline turns t sch = Some (over, sch')"
  shows "if over then show_settled sch' else show_live t sch'"
  using assms
proof (induction deadline turns t sch rule: await_show.induct)
  case (1 deadline t sch)
  then show ?case using under_way_live by (auto split: if_splits)
next
  case (2 deadline now ev turns t sch)
  then show ?case
    using under_way_live show_ends_live [of t sch ev] by (auto split: if_splits)
qed

lemma prepare_clients_not_cancelled:
  "(\<And>n r. (n, r) \<in> set answers \<Longrightarrow> r \<noteq> Prepare_cancelled) \<Longrightarrow> fst (prepare_clients answers ids) \<noteq> Call_cancelled"
  by (induction answers ids rule: prepare_clients.induct) auto

lemma prepare_not_cancelled:
  assumes "\<And>n. answer n \<noteq> Prepare_cancelled"
  shows "fst (prepare answer sch) \<noteq> Call_cancelled"
proof -
  have "fst (prepare_clients (map (\<lambda>n. (n, answer n)) (sch_clients sch)) (sch_session_ids sch)) \<noteq> Call_cancelled"
    using assms by (intro prepare_clients_not_cancelled) auto
  then show ?thesis by (auto simp: prepare_def split: prod.split)
qed

lemma armed_live:
  assumes "show_idle sch" and "scheduler_arm a answer sch = Inr sch1"
    and "\<And>n. answer n \<noteq> Prepare_cancelled"
  shows "show_quiet sch1" and "sc_state (sch_controller sch1) \<noteq> ARMED \<Longrightarrow> show_idle sch1"
proof -
  define sc where "sc = (set_state PREPARING (sch_controller sch))\<lparr>sc_frames := [a \<mapsto> In_prepare]\<rparr>"
  obtain res sch0 where p: "prepare answer (sch\<lparr>sch_controller := sc\<rparr>) = (res, sch0)" by fastforce
  have armed: "arm_begin a (sch_controller sch) = Inr sc"
    using assms(1) by (simp add: arm_begin_def sc_def cycle_states set_state_def)
  have "res \<noteq> Call_cancelled"
    using prepare_not_cancelled [of answer "sch\<lparr>sch_controller := sc\<rparr>"] assms(3) p by simp
  moreover have "sch_controller sch0 = sc"
    using p by (auto simp: prepare_def split: if_splits prod.splits)
  moreover have "sch_controller sch1 = arm_resume res a (sch_controller sch0)"
    using assms(2) by (auto simp: scheduler_arm_def armed p)
  moreover have "sc_frames sc = [a \<mapsto> In_prepare]" "sc_tasks sc = Map.empty"
    using assms(1) by (simp_all add: sc_def cycle_states set_state_def)
  ultimately show "show_quiet sch1" "sc_state (sch_controller sch1) \<noteq> ARMED \<Longrightarrow> show_idle sch1"
    by (cases res; simp add: cycle_states arm_resume_def set_state_def)+
qed

lemma idle_arms: "show_idle sch \<Longrightarrow> \<exists>sch1. scheduler_arm a answer sch = Inr sch1"
  by (simp add: scheduler_arm_def arm_begin_def cycle_states split_beta)

lemma cycle_starts:
  assumes "sc_state (sch_controller sch) = ARMED" and "show_quiet sch"
  shows "\<exists>sch'. scheduler_start run_id t sch = Inr sch' \<and> show_live t sch'"
  using assms by (auto simp: scheduler_start_def start_def set_state_def cycle_states)

lemma cycle_over_settled:
  assumes "show_settled sch"
  shows "show_idle (snd (cycle_over env sch)) \<and>
    (if sc_state (sch_controller sch) = FAULTED
     then cr_outcome (fst (cycle_over env sch)) = ''FAULTED'' \<and>
       cr_detail (fst (cycle_over env sch)) = sc_last_error (sch_controller sch) \<and>
       (dict_wf (sch_session_ids sch) \<longrightarrow> sch_session_ids (snd (cycle_over env sch)) = [])
     else cr_outcome (fst (cycle_over env sch)) = ''SUCCEEDED'' \<and> snd (cycle_over env sch) = sch)"
proof (cases "sc_state (sch_controller sch) = FAULTED")
  case True
  let ?sc = "(set_state STOPPING (sch_controller sch))\<lparr>sc_frames := [1 \<mapsto> In_stop_all]\<rparr>"
  let ?sch = "sch\<lparr>sch_controller := ?sc\<rparr>"
  have "abort_scheduler_begin 1 sch = Inr ?sch"
    using True assms
    by (auto simp: abort_scheduler_begin_def abort_begin_def cycle_states set_state_def Let_def split: option.split)
  moreover have "show_idle (snd (abort_scheduler_end get 1 ?sch))"
    "dict_wf (sch_session_ids sch) \<Longrightarrow> sch_session_ids (snd (abort_scheduler_end get 1 ?sch)) = []" for get
    using assms
    by (auto simp: abort_scheduler_end_def abort_joined_def abort_end_def stop_all_def release_all_keys cycle_states set_state_def
        Let_def split: prod.split)
  ultimately show ?thesis
    using True by (simp add: cycle_over_def)
next
  case False
  with assms show ?thesis by (auto simp: cycle_over_def cycle_states)
qed

section \<open>Properties\<close>

text \<open>
  A cycle that returned, from an IDLE Show: SUCCEEDED means that the run returned and no cue failed; after
  SUCCEEDED, FAULTED and a failed arming the Show is IDLE again, so that the next cycle can arm. Only a
  cycle that timed out leaves its Show running.
\<close>

theorem cycle_reports_truly:
  assumes "show_idle sch" and "run_cycle env sch = Some (r, sch')"
  shows "cr_outcome r = ''SUCCEEDED'' \<and> show_idle sch' \<and> failed_cues (sch_last_outcomes sch') = [] \<or>
    cr_outcome r = ''FAULTED'' \<and> show_idle sch' \<or>
    (\<exists>m. r = cycle_failed (''arm failed: '' @ m)) \<and> show_idle sch' \<or>
    r = cycle_failed ''cycle timed out mid-run'' \<and> show_live (ce_task env) sch'"
proof -
  let ?answer = "prepare_answer_of \<circ> ce_prepare env"
  have answers: "?answer n \<noteq> Prepare_cancelled" for n
    by (simp add: prepare_answer_of_def split: sum.split)
  obtain sch1 where arm: "scheduler_arm 0 ?answer sch = Inr sch1"
    using idle_arms [OF assms(1)] by blast
  note armed = armed_live [OF assms(1) arm answers]
  show ?thesis
  proof (cases "sc_state (sch_controller sch1) = ARMED")
    case False
    with assms(2) arm armed show ?thesis by (auto simp: run_cycle_def)
  next
    case True
    then obtain sch2 where starts: "scheduler_start (ce_run_id env) (ce_task env) sch1 = Inr sch2" "show_live (ce_task env) sch2"
      using cycle_starts armed(1) by blast
    then obtain over sch3 where waits: "await_show (ce_started env + CYCLE_TIMEOUT_S) (ce_turns env) (ce_task env) sch2 = Some (over, sch3)"
      and left: "(r, sch') = (if over then cycle_over env sch3 else (cycle_failed ''cycle timed out mid-run'', sch3))"
      using assms(2) arm True by (auto simp: run_cycle_def split: option.splits prod.splits bool.splits)
    note settled = await_show_leaves [OF disjI1 [OF starts(2)] waits]
    show ?thesis
    proof (cases over)
      case False
      with left settled show ?thesis by simp
    next
      case True
      with settled have "show_settled sch3" by simp
      with cycle_over_settled [OF this, of env] True left [symmetric] show ?thesis
        by (auto simp: show_settled_def split: if_splits)
    qed
  qed
qed

text \<open>\<open>run_cycle\<close> returns: when the clock advances by the poll interval in each turn, within 1002 turns.\<close>

lemma await_show_returns: "\<exists>i < length turns. fst (turns ! i) > deadline \<Longrightarrow> await_show deadline turns t sch \<noteq> None"
proof (induction deadline turns t sch rule: await_show.induct)
  case (2 deadline now ev turns t sch)
  then obtain i where "i < Suc (length turns)" "fst (((now, ev) # turns) ! i) > deadline" by auto
  then have "deadline < now \<or> (\<exists>i < length turns. fst (turns ! i) > deadline)"
    by (cases i) auto
  with "2.IH" show ?case by (cases "show_under_way sch"; cases "deadline < now") simp_all
qed simp

theorem cycle_returns:
  assumes "show_idle sch" and "1002 \<le> length (ce_turns env)"
    and "\<forall>i < length (ce_turns env). ce_started env + rat_of_nat i * CYCLE_POLL_S \<le> fst (ce_turns env ! i)"
  shows "run_cycle env sch \<noteq> None"
proof -
  let ?answer = "prepare_answer_of \<circ> ce_prepare env"
  have answers: "?answer n \<noteq> Prepare_cancelled" for n
    by (simp add: prepare_answer_of_def split: sum.split)
  obtain sch1 where arm: "scheduler_arm 0 ?answer sch = Inr sch1"
    using idle_arms [OF assms(1)] by blast
  have "ce_started env + CYCLE_TIMEOUT_S < fst (ce_turns env ! 1001)"
    using assms(3) [rule_format, of 1001] assms(2) by (simp add: CYCLE_POLL_S_def CYCLE_TIMEOUT_S_def)
  then have "\<exists>i < length (ce_turns env). ce_started env + CYCLE_TIMEOUT_S < fst (ce_turns env ! i)"
    using assms(2) by (intro exI [of _ 1001]) simp
  from await_show_returns [OF this]
  have waits: "\<exists>over sch3. await_show (ce_started env + CYCLE_TIMEOUT_S) (ce_turns env) t sch2 = Some (over, sch3)" for t sch2
    by simp
  show ?thesis
  proof (cases "sc_state (sch_controller sch1) = ARMED")
    case True
    then obtain sch2 where starts: "scheduler_start (ce_run_id env) (ce_task env) sch1 = Inr sch2"
      using cycle_starts [OF True armed_live(1) [OF assms(1) arm answers]] by blast
    obtain over sch3 where "await_show (ce_started env + CYCLE_TIMEOUT_S) (ce_turns env) (ce_task env) sch2 = Some (over, sch3)"
      using waits by blast
    with arm starts True show ?thesis by (cases over) (simp_all add: run_cycle_def)
  qed (simp add: run_cycle_def arm)
qed

text \<open>Waiting for a Runtime ends as well: with the 15 s of the harness, within 76 turns.\<close>

lemma wait_returns:
  "\<exists>i < length turns. deadline \<le> fst (turns ! i) \<Longrightarrow> wait_until_reachable deadline last_exc turns \<noteq> None"
proof (induction deadline last_exc turns rule: wait_until_reachable.induct)
  case (2 deadline last_exc now answer turns)
  then obtain i where "i < Suc (length turns)" "deadline \<le> fst (((now, answer) # turns) ! i)" by auto
  then have "deadline \<le> now \<or> (\<exists>i < length turns. deadline \<le> fst (turns ! i))"
    by (cases i) auto
  with "2.IH" show ?case by (cases "now < deadline") (auto split: option.split)
qed simp

theorem probe_ends:
  assumes "76 \<le> length turns" and "\<forall>i < length turns. begun + rat_of_nat i * PROBE_INTERVAL_S \<le> fst (turns ! i)"
  shows "wait_until_reachable (begun + 15) None turns \<noteq> None"
proof -
  have "begun + 15 \<le> fst (turns ! 75)"
    using assms(2) [rule_format, of 75] assms(1) by (simp add: PROBE_INTERVAL_S_def)
  then show ?thesis using assms(1) by (intro wait_returns exI [of _ 75]) simp
qed

text \<open>The motor is restarted once in every \<open>kill_motor_every\<close> cycles, and never if that is 0.\<close>

lemma div_Suc_restart: "Suc n div k = (if k \<noteq> 0 \<and> Suc n mod k = 0 then Suc (n div k) else n div k)"
  by (simp add: div_Suc)

lemma soak_restarts:
  assumes "sr_motor_restarts rep = length (sr_cycles rep) div sr_kill_motor_every rep"
    and "soak end_at (length (sr_cycles rep)) turns (rep, sch) = Some (rep', sch')"
  shows "sr_motor_restarts rep' = length (sr_cycles rep') div sr_kill_motor_every rep' \<and>
    sr_kill_motor_every rep' = sr_kill_motor_every rep"
  using assms
proof (induction turns arbitrary: rep sch)
  case (Cons turn turns)
  obtain now env t ev where turn: "turn = (now, env, t, ev)" by (rule prod_cases4)
  show ?case
  proof (cases "now < end_at")
    case False
    with Cons.prems turn show ?thesis by simp
  next
    case True
    with Cons.prems(2) turn obtain r sch1 where
      rest: "soak end_at (Suc (length (sr_cycles rep))) turns (soak_count (Suc (length (sr_cycles rep))) r rep, show_ends ev t sch1) = Some (rep', sch')"
      by (auto split: option.splits)
    let ?rep = "soak_count (Suc (length (sr_cycles rep))) r rep"
    have same: "length (sr_cycles ?rep) = Suc (length (sr_cycles rep))" "sr_kill_motor_every ?rep = sr_kill_motor_every rep"
      by (simp_all add: soak_count_def Let_def)
    have "sr_motor_restarts ?rep = length (sr_cycles ?rep) div sr_kill_motor_every ?rep"
      using Cons.prems(1) div_Suc_restart [of "length (sr_cycles rep)" "sr_kill_motor_every rep"]
      by (auto simp: soak_count_def Let_def)
    from Cons.IH [OF this] rest same show ?thesis by simp
  qed
qed simp

theorem soak_restarts_counted:
  assumes "soak end_at 0 turns (new_soak_report k, sch) = Some (rep, sch')"
  shows "sr_motor_restarts rep = length (sr_cycles rep) div k"
  using soak_restarts [of "new_soak_report k" end_at turns sch rep sch'] assms by (simp add: new_soak_report_def)

text \<open>
  A cycle that times out is not aborted. If its Show faults after that, the harness cannot go on: every
  later cycle is refused by \<open>arm\<close>, nothing is asked of the Runtimes any more, and \<open>abort\<close>, which would
  recover, is called only for a Show that faulted within its own cycle.
\<close>

lemma cycle_refused:
  assumes "sc_state (sch_controller sch) \<noteq> IDLE"
  shows "run_cycle env sch =
    Some (cycle_failed (''arm failed: cannot arm from state '' @ show_state_value (sc_state (sch_controller sch))), sch)"
  using assms by (simp add: run_cycle_def scheduler_arm_def arm_begin_def)

lemma soak_blocked:
  assumes "sc_state (sch_controller sch) = FAULTED" and "sc_tasks (sch_controller sch) = Map.empty"
  shows "\<exists>k rep'. soak end_at n turns (rep, sch) = Some (rep', sch) \<and>
    sr_cycles rep' = sr_cycles rep @ replicate k (cycle_failed ''arm failed: cannot arm from state FAULTED'')"
proof (induction turns arbitrary: n rep)
  case Nil
  then show ?case by (auto intro: exI [of _ 0])
next
  case (Cons turn turns)
  obtain now env t ev where turn: "turn = (now, env, t, ev)" by (rule prod_cases4)
  let ?r = "cycle_failed ''arm failed: cannot arm from state FAULTED''"
  have run: "run_cycle env sch = Some (?r, sch)" "show_ends ev t sch = sch"
    using assms by (simp_all add: cycle_refused show_ends_def split: option.split)
  have counted: "sr_cycles (soak_count (n + 1) ?r rep) = sr_cycles rep @ [?r]"
    by (simp add: soak_count_def Let_def)
  obtain k rep' where "soak end_at (n + 1) turns (soak_count (n + 1) ?r rep, sch) = Some (rep', sch)"
    "sr_cycles rep' = (sr_cycles rep @ [?r]) @ replicate k ?r"
    using Cons.IH [of "n + 1" "soak_count (n + 1) ?r rep"] unfolding counted by blast
  then show ?case
    by (cases "now < end_at") (auto simp: turn run intro: exI [of _ "Suc k"] exI [of _ 0])
qed

theorem late_fault_blocks_the_soak:
  assumes "show_live t sch"
  shows "\<exists>k rep'. soak end_at n turns (rep, show_ends (Some (Inl m)) t sch) = Some (rep', show_ends (Some (Inl m)) t sch) \<and>
    sr_cycles rep' = sr_cycles rep @ replicate k (cycle_failed ''arm failed: cannot arm from state FAULTED'')"
  using assms
  by (intro soak_blocked)
    (simp_all add: show_ends_def run_end_def drive_end_def set_state_def cycle_states Let_def)

text \<open>For instance: a cycle that times out, its run raises during the pause, and two more cycles.\<close>

definition demo_cycle :: "string \<Rightarrow> nat \<Rightarrow> cycle_env" where
  "demo_cycle run_id t =
     \<lparr>ce_begun = 0, ce_prepare = (\<lambda>_. Inr ''s1''), ce_run_id = run_id, ce_task = t, ce_started = 0,
      ce_turns = [(0, None), (21, None)], ce_over = 21, ce_targets = (\<lambda>_. None)\<rparr>"

lemma soak_blocked_example:
  "\<exists>sch. map_option (\<lambda>(rep, _). map cr_detail (sr_cycles rep))
     (soak 300 0 [(0, demo_cycle ''run-1'' 1, 1, Some (Inl ''lost'')), (30, demo_cycle ''run-2'' 2, 2, None),
        (40, demo_cycle ''run-3'' 3, 3, None)] (new_soak_report 0, sch)) =
     Some [Some ''cycle timed out mid-run'', Some ''arm failed: cannot arm from state FAULTED'',
        Some ''arm failed: cannot arm from state FAULTED'']"
  by (rule exI [of _ "(new_scheduler [])\<lparr>sch_timeline := Some [demo_cue]\<rparr>"])
    (simp add: demo_cycle_def new_soak_report_def soak_count_def run_cycle_def cycle_failed_def show_under_way_def
      scheduler_arm_def scheduler_start_def prepare_def show_defs new_scheduler_def new_show_controller_def
      show_ends_def run_end_def CYCLE_TIMEOUT_S_def)

text \<open>The percentile that is reported is one of the latencies.\<close>

lemma p95_index_bound: "0 < n \<Longrightarrow> p95_index n < n"
proof -
  assume "0 < n"
  have "\<lfloor>rat_of_nat n * 95 / 100\<rfloor> \<le> int n"
    by (simp add: floor_le_iff)
  with \<open>0 < n\<close> show ?thesis by (simp add: p95_index_def)
qed

theorem p95_is_a_latency:
  assumes "ls \<noteq> []"
  shows "p95 ls \<in> set ls"
  using nth_mem [of "p95_index (length ls)" "sort ls"] p95_index_bound [of "length ls"] assms
  by (simp add: p95_def)

end
