(* ===== verification/Spec2Isabelle.thy ===== *)
theory Spec2Isabelle
  imports
    Runtime_Safety
    Show_Runs
    Scheduler_Window
    Wire_Requests
    Mqtt_Connection
    Group_Deployment
    Mightyzap
    Fake_Devices
    Mpv_Player
    Input_Endpoints
    Asyncio_Bridge
    Virtual_Clock
    Motor_Moves
    Endpoint_Lifecycle
    Runtime_Logging
    Video_Process
    Modbus_Bus
    Soak_Cycles
begin

text \<open>
  Verification of the Fusion show-control system (Python, below \<open>src/src/fusion\<close>, with the plugin of
  \<open>src/plugins/mightyzap_modbus\<close>). Paths below are relative to \<open>src/src/fusion\<close>.

  \<^bold>\<open>The program.\<close> A Runtime owns devices (targets). Clients acquire a control session, submit commands
  to a target, and learn their fate from the command's record or from the Runtime's event stream; they
  stage and apply configurations and upload files. The Scheduler is such a client: it arms a Show (a
  session on every Runtime), runs a timeline of cues, each a command to some Runtime, and stops
  everything on an abort; triggers turn external input into its requests. Setting deploys one
  configuration to a group of Runtimes, and an MQTT adapter offers the same stage and apply requests
  over a broker.

  \<^bold>\<open>Theories.\<close> In the order of dependency:

  \<^item> \<open>Prelude\<close>: dictionaries in insertion order, \<open>last_n\<close>, \<open>collect\<close>, the collections \<open>inv_intros\<close> and
    \<open>dict_simps\<close>. \<open>Octets\<close>: bytes as 8-bit words. \<open>Contracts\<close>: the records and enumerations of
    \<open>contracts/\<close>, JSON values, fingerprints, manifests.
  \<^item> The core of a Runtime: \<open>Control_Sessions\<close> (\<open>core/control_session.py\<close>; locale \<open>session_authority\<close>),
    \<open>Event_Bus\<close> (\<open>core/event_bus.py\<close>; locale \<open>event_history\<close>), \<open>Command_Ledger\<close> (\<open>core/ledger.py\<close>),
    \<open>Target_Runner\<close> (\<open>core/target_runner.py\<close>), \<open>Config_Service\<close>, \<open>Blob_Store\<close>, and \<open>Device_Runtime\<close>
    (\<open>core/device_runtime.py\<close>), which composes them; \<open>Runtime_Runs\<close> and \<open>Runtime_Safety\<close> hold the lemmas
    and properties of its runs.
  \<^item> The Show: \<open>Timeline\<close> (\<open>contracts/timeline.py\<close>), \<open>Show_Controller\<close>, \<open>Trigger_Engine\<close>,
    \<open>Timeline_Executor\<close> and \<open>Executor_Runs\<close> (\<open>core/timeline_executor.py\<close>), and \<open>Scheduler\<close>
    (\<open>apps/scheduler/runtime.py\<close>), which composes them. \<open>Show_System\<close>, \<open>Show_Simulation\<close> and \<open>Show_Runs\<close>
    put the executor on real Runtimes; \<open>Scheduler_System\<close> puts the trigger engine on the Scheduler, with
    its \<open>handle\<close> as a coroutine.
  \<^item> Wire formats and input: \<open>Modbus_Framing\<close>, \<open>Osc_Framing\<close> (on \<open>Binary32\<close>, the conversion of floats that
    \<open>struct\<close> makes), \<open>Input_Endpoints\<close> and \<open>Endpoint_Lifecycle\<close>
    (serial, UDP and OSC input: from bytes to events, and their threads and sockets), and
    \<open>Serial_Session\<close> (\<open>io/serial_session.py\<close>).
  \<^item> Devices: \<open>Target_Adapters\<close> (the locale \<open>target_adapter\<close>, the contract of \<open>plugin_sdk/base.py\<close>,
    interpreted for every adapter), \<open>Mightyzap\<close> (the plugin), \<open>Fake_Devices\<close> (\<open>simulation/\<close>),
    \<open>Mpv_Player\<close> (\<open>apps/video/mpv_adapter.py\<close>), and \<open>Virtual_Clock\<close> (\<open>simulation/fake_clock.py\<close>).
    \<open>Motor_Moves\<close> puts the target runner on the simulated motor, in time; \<open>Modbus_Bus\<close> puts several
    MightyZap adapters on one serial session.
  \<^item> The network: \<open>Runtime_Server\<close> (\<open>transport/server.py\<close>), \<open>Runtime_Client\<close> and \<open>Wire_Requests\<close>
    (\<open>transport/client.py\<close>, against the server's routes), \<open>Group_Deployment\<close>
    (\<open>apps/setting/coordinator.py\<close>, \<open>contracts/deployment.py\<close>), \<open>Mqtt_Management\<close> and \<open>Mqtt_Connection\<close>
    (\<open>transport/mqtt_adapter.py\<close>).
  \<^item> The processes: \<open>Asyncio_Bridge\<close> (\<open>ui/asyncio_bridge.py\<close>), \<open>Operator_Windows\<close> (\<open>ui/motor_window.py\<close>,
    \<open>ui/video_window.py\<close>), \<open>Scheduler_Window\<close> (\<open>ui/scheduler_window.py\<close>), \<open>Entry_Points\<close>
    (\<open>apps/*/main*.py\<close> and \<open>apps/*/ui_main.py\<close>), \<open>Video_Process\<close> (the two threads of
    \<open>apps/video/main_mpv.py\<close>) and \<open>Runtime_Logging\<close> (\<open>telemetry/logging.py\<close>). \<open>Soak_Cycles\<close> is the
    harness that drives a Scheduler through Show after Show (\<open>scripts/stage8_soak_test.py\<close>).

  \<^bold>\<open>How the code is modelled.\<close> An object is a record, an operation a function on it. asyncio runs a
  coroutine without interruption up to an \<open>await\<close> that suspends, so a coroutine is cut at these points
  into functions (\<open>submit_begin\<close>, \<open>submit_resume\<close>, \<open>observe_step\<close>; \<open>apply_begin\<close>, \<open>apply_enter\<close>,
  \<open>apply_resume\<close>; \<open>arm_begin\<close>, \<open>arm_resume\<close>; \<open>ws_open\<close>, \<open>ws_turn\<close>; and so on), and the record holds what
  a suspended call remembers. A run is any interleaving of these segments: a fold over a list of
  operations, or an inductive relation where steps have conditions. A raised exception is a value (\<open>Inl\<close>
  or \<open>None\<close>). What the program gets from outside is an input of the function: the clock's readings,
  fresh identifiers, digests, what a device, a broker, the player or the line answers, \<open>json.loads\<close>.
  Integers are \<open>int\<close> or \<open>nat\<close>, bytes 8-bit words, the CRC a 16-bit word; floating point numbers are
  exact rationals, so the rounding of arithmetic is not modelled; the rounding of a float to the 32 bits of
  an OSC argument is.

  \<^bold>\<open>What is shown.\<close> For a Runtime: seen from each target it is a run of that target's runner; commands
  are executed at most once per request and completed by exactly one event; a change of control
  invalidates what is under way; a session that is gone commands nothing; the polling of a command ends.
  The configuration is that of the last successful Apply, the event bus loses nothing silently, a stored
  file has the content its name says. For the Show: \<open>validate_timeline\<close> decides acyclicity; cues are
  submitted in dependency order, in time, once, and their recorded success is real; no run deadlocks and
  no completion is missed while its listener lives; one Show at a time; an abort stops and releases
  everything. For the wire formats: round trips, burst errors, framing independent of chunks, answers
  that are not mixed up. For the devices: a move accepted is a move written and read back, adapters that
  share a bus show only what their own slave said, a simulated move that is not too long succeeds in
  time, a longer one expires, a playback ends once. For the network: an undisturbed event stream is
  exact, a deployment that succeeded is active everywhere, MQTT makes only ordinary requests and
  answers each at most once whatever fails and whenever it is stopped, a client's call reaches its handler with
  its arguments if its identifiers need no quoting, a file comes back as it was sent. For
  the composition: a Show against real Runtimes refines the executor against its environment, so a
  recorded success is a success in the ledger of its Runtime; triggers keep their windows (each its own,
  for all sources together) unless an abort suspends one; from the operator's window a Show starts only by an
  accepted press, once per arm, and the motor window commands exactly what is pressed.
  Some properties state what the code does wrong; they are listed as findings in the manifest.

  \<^bold>\<open>Bounds.\<close> No fuel is used: every loop is structural recursion, a function with a termination proof,
  or a step of a run. The bounds of the code are its own constants: 500 events of replay and 200 of a
  queue, 50 journal records, 4096 bytes of a line, 500 turns of an observation (10 s at 20 ms). Where
  time matters (\<open>Motor_Moves\<close>, \<open>Video_Process\<close>) a parameter \<open>eps\<close> bounds how late the event loop wakes a
  task.

  \<^bold>\<open>Not modelled.\<close> Layout and painting of the windows, \<open>argparse\<close>, the start of uvicorn and of Qt, TLS:
  calls of libraries without state of the program's own. JSON, HTTP, WebSocket, MQTT, serial and player
  libraries are inputs of the model, as far as the code meets them; so is whether a socket or a port can
  be opened. How the text of a URL becomes the path and query that a router sees is a parameter
  (\<open>deliver\<close>), of which only that unreserved paths without dot segments pass unchanged is assumed. The
  rounding of floating point arithmetic is left out.
\<close>

end
